(* ===== verification/Prelude.thy ===== *)
theory Prelude
  imports Main "HOL-Library.Word" "HOL-Library.Signed_Division"
begin

text \<open>
  The base of the library: the names of the machine types that occur in the C++ sources
  (\<open>uint8_t\<close>, \<open>uint32_t\<close>, \<open>uint64_t\<close>), the wrap-around of signed arithmetic, and the generic
  facts on words, bits and lists that the component theories share.  Signed C integers are
  \<^typ>\<open>int\<close>; where the code may overflow, the wrap of the type is written out with
  \<open>wrap_i32\<close> or \<open>wrap_i64\<close>.  A failing \<open>assert\<close> is the value \<^term>\<open>None\<close>.
\<close>

unbundle bit_operations_syntax

type_synonym u8 = "8 word"
type_synonym u16 = "16 word"
type_synonym u32 = "32 word"
type_synonym u64 = "64 word"
type_synonym bytes = "8 word list"

definition wrap_i32 :: "int \<Rightarrow> int" where
  "wrap_i32 x = signed_take_bit 31 x"

definition wrap_i64 :: "int \<Rightarrow> int" where
  "wrap_i64 x = signed_take_bit 63 x"

abbreviation INT_MAX :: int where
  "INT_MAX \<equiv> 2147483647"

lemma wrap_i64_id: "- (2 ^ 63) \<le> x \<Longrightarrow> x < 2 ^ 63 \<Longrightarrow> wrap_i64 x = x"
  by (simp add: wrap_i64_def signed_take_bit_int_eq_self)

lemma wrap_i32_id: "- (2 ^ 31) \<le> x \<Longrightarrow> x < 2 ^ 31 \<Longrightarrow> wrap_i32 x = x"
  by (simp add: wrap_i32_def signed_take_bit_int_eq_self)

lemma wrap_i64_bounds: "- (2 ^ 63) \<le> wrap_i64 x \<and> wrap_i64 x < 2 ^ 63"
  using signed_take_bit_int_greater_eq_minus_exp [of 63 x] signed_take_bit_int_less_exp [of 63 x]
  by (simp add: wrap_i64_def)

subsection \<open>Words as naturals\<close>

lemma unat_lt_exp: "unat (x :: 'a::len word) < 2 ^ LENGTH('a)"
  by (rule unsigned_less)

lemma unat_u32_lt: "unat (x :: u32) < 4294967296"
  using unat_lt_exp [of x] by simp

lemma unat_u8_lt: "unat (x :: u8) < 256"
  using unat_lt_exp [of x] by simp

lemma unat_u64_lt: "unat (x :: u64) < 18446744073709551616"
  using unat_lt_exp [of x] by simp

lemma unat_add_exact:
  "unat x + unat y < 2 ^ LENGTH('a) \<Longrightarrow> unat (x + y :: 'a::len word) = unat x + unat y"
  by (simp add: unat_word_ariths)

lemma unat_mult_exact:
  "unat x * unat y < 2 ^ LENGTH('a) \<Longrightarrow> unat (x * y :: 'a::len word) = unat x * unat y"
  by (simp add: unat_word_ariths)

lemma unat_drop_bit: "unat (drop_bit n (x :: 'a::len word)) = unat x div 2 ^ n"
  unfolding unsigned_drop_bit_eq by (simp add: drop_bit_eq_div take_bit_nat_eq_self)

lemma unat_ucast_trunc:
  "LENGTH('b) \<le> LENGTH('a) \<Longrightarrow> unat (ucast (x :: 'a::len word) :: 'b::len word) = unat x mod 2 ^ LENGTH('b)"
  by (simp add: unsigned_ucast_eq take_bit_eq_mod)

lemma unat_ucast_widen:
  "LENGTH('a) \<le> LENGTH('b) \<Longrightarrow> unat (ucast (x :: 'a::len word) :: 'b::len word) = unat x"
  by (simp add: unsigned_ucast_eq take_bit_nat_eq_self less_le_trans [OF unat_lt_exp] power_increasing)

lemma unat_u64_of_u32 [simp]: "unat (ucast (x :: u32) :: u64) = unat x"
  by (rule unat_ucast_widen) simp

subsection \<open>Lists\<close>

lemma nth_list_update_if: "i < length xs \<Longrightarrow> (xs[i := x]) ! j = (if i = j then x else xs ! j)"
  by simp

lemma fold_invariant_upt:
  assumes "P 0 s" and "\<And>i s. i < n \<Longrightarrow> P i s \<Longrightarrow> P (Suc i) (f i s)"
  shows "P n (fold f [0..<n] s)"
  using assms
proof (induction n)
  case 0
  then show ?case by simp
next
  case (Suc n)
  have "P n (fold f [0..<n] s)"
    by (rule Suc.IH) (use Suc.prems in auto)
  then show ?case
    using Suc.prems(2) by simp
qed

lemma mod_add_inj: "i < n \<Longrightarrow> j < n \<Longrightarrow> (i + c) mod n = (j + c) mod n \<longleftrightarrow> i = (j :: nat)"
proof (induction i j rule: linorder_wlog)
  case (le i j)
  have "(j + c) mod n = (i + c) mod n \<longleftrightarrow> n dvd j - i"
    using le(1) mod_eq_dvd_iff_nat [of "i + c" "j + c" n] by simp
  then show ?case
    using le by (auto dest: dvd_imp_le)
qed auto

lemma slot_other: "u < t \<Longrightarrow> t < u + n \<Longrightarrow> u mod n \<noteq> t mod (n :: nat)"
  using mod_eq_dvd_iff_nat [of u t n] by (auto dest: dvd_imp_le)

end
