(* ===== verification/Arith_Uint256.thy ===== *)
theory Arith_Uint256
  imports Prelude
begin

text \<open>
  The 256-bit unsigned integers of \<open>src/src/arith_uint256.h\<close> and \<open>arith_uint256.cpp\<close>.  The
  array \<open>pn[WIDTH]\<close> of 32-bit limbs, least significant first, is a list of eight words; each
  operator is translated limb by limb, with the 64-bit carries of the code.  The lemmas show
  that every operator computes the corresponding operation of \<^typ>\<open>256 word\<close> (wrap-around
  included); the locale \<open>uint256_arith\<close> is the contract the difficulty code uses.
\<close>

unbundle bit_operations_syntax

subsection \<open>Limbs, constructors and bitwise operators\<close>

definition WIDTH :: nat where
  "WIDTH = 8"

lemma WIDTH_eq [simp]: "WIDTH = 8"
  by (simp add: WIDTH_def)

type_synonym base_uint = "u32 list"

definition uint_wf :: "base_uint \<Rightarrow> bool" where
  "uint_wf a \<longleftrightarrow> length a = WIDTH"

definition uint_zero :: base_uint where
  "uint_zero = replicate WIDTH 0"

definition uint_of_u64 :: "u64 \<Rightarrow> base_uint" where
  "uint_of_u64 b = [ucast b, ucast (drop_bit 32 b)] @ replicate (WIDTH - 2) 0"

definition uint_lognot :: "base_uint \<Rightarrow> bool" where
  "uint_lognot a = list_all (\<lambda>x. x = 0) a"

definition uint_not :: "base_uint \<Rightarrow> base_uint" where
  "uint_not a = map (\<lambda>x. NOT x) a"

definition uint_xor :: "base_uint \<Rightarrow> base_uint \<Rightarrow> base_uint" where
  "uint_xor a b = map2 (\<lambda>x y. x XOR y) a b"

definition uint_and :: "base_uint \<Rightarrow> base_uint \<Rightarrow> base_uint" where
  "uint_and a b = map2 (\<lambda>x y. x AND y) a b"

definition uint_or :: "base_uint \<Rightarrow> base_uint \<Rightarrow> base_uint" where
  "uint_or a b = map2 (\<lambda>x y. x OR y) a b"

definition uint_xor64 :: "base_uint \<Rightarrow> u64 \<Rightarrow> base_uint" where
  "uint_xor64 a b = a[0 := a ! 0 XOR ucast b, 1 := a ! 1 XOR ucast (drop_bit 32 b)]"

definition uint_or64 :: "base_uint \<Rightarrow> u64 \<Rightarrow> base_uint" where
  "uint_or64 a b = a[0 := a ! 0 OR ucast b, 1 := a ! 1 OR ucast (drop_bit 32 b)]"

subsection \<open>Increment, decrement, addition, subtraction\<close>

fun uint_inc :: "base_uint \<Rightarrow> base_uint" where
  "uint_inc [] = []"
| "uint_inc [x] = [x + 1]"
| "uint_inc (x # y # xs) = (if x + 1 = 0 then (x + 1) # uint_inc (y # xs) else (x + 1) # y # xs)"

fun uint_dec :: "base_uint \<Rightarrow> base_uint" where
  "uint_dec [] = []"
| "uint_dec [x] = [x - 1]"
| "uint_dec (x # y # xs) =
     (if x - 1 = 0xffffffff then (x - 1) # uint_dec (y # xs) else (x - 1) # y # xs)"

definition uint_neg :: "base_uint \<Rightarrow> base_uint" where
  "uint_neg a = uint_inc (uint_not a)"

fun add_loop :: "u64 \<Rightarrow> base_uint \<Rightarrow> base_uint \<Rightarrow> base_uint" where
  "add_loop carry (x # xs) (y # ys) =
     (let n = carry + ucast x + ucast y
      in ucast (n AND 0xffffffff) # add_loop (drop_bit 32 n) xs ys)"
| "add_loop carry _ _ = []"

definition uint_add :: "base_uint \<Rightarrow> base_uint \<Rightarrow> base_uint" where
  "uint_add a b = add_loop 0 a b"

definition uint_sub :: "base_uint \<Rightarrow> base_uint \<Rightarrow> base_uint" where
  "uint_sub a b = uint_add a (uint_neg b)"

definition uint_add64 :: "base_uint \<Rightarrow> u64 \<Rightarrow> base_uint" where
  "uint_add64 a b = uint_add a (uint_of_u64 b)"

definition uint_sub64 :: "base_uint \<Rightarrow> u64 \<Rightarrow> base_uint" where
  "uint_sub64 a b = uint_add a (uint_neg (uint_of_u64 b))"

subsection \<open>Multiplication\<close>

fun mul32_loop :: "u64 \<Rightarrow> u32 \<Rightarrow> base_uint \<Rightarrow> base_uint" where
  "mul32_loop carry b [] = []"
| "mul32_loop carry b (x # xs) =
     (let n = carry + ucast b * ucast x
      in ucast (n AND 0xffffffff) # mul32_loop (drop_bit 32 n) b xs)"

definition uint_mul32 :: "base_uint \<Rightarrow> u32 \<Rightarrow> base_uint" where
  "uint_mul32 a b32 = mul32_loop 0 b32 a"

fun mul_row :: "u64 \<Rightarrow> u32 \<Rightarrow> base_uint \<Rightarrow> base_uint \<Rightarrow> base_uint" where
  "mul_row carry aj (p # ps) (y # ys) =
     (let n = carry + ucast p + ucast aj * ucast y
      in ucast (n AND 0xffffffff) # mul_row (drop_bit 32 n) aj ps ys)"
| "mul_row carry aj ps _ = ps"

text \<open>\<open>operator*=\<close> copies \<open>*this\<close> into \<open>a\<close> and clears it, but reads \<open>b\<close> through its reference.  \<open>uint_mul\<close> is the
  operator when \<open>b\<close> is another object than \<open>*this\<close>, which is how \<open>operator*\<close> calls it; \<open>uint_mul_self\<close> is
  \<open>x *= x\<close>, where \<open>b.pn\<close> is the array being written.\<close>

definition uint_mul :: "base_uint \<Rightarrow> base_uint \<Rightarrow> base_uint" where
  "uint_mul a b =
     fold (\<lambda>j pn. take j pn @ mul_row 0 (a ! j) (drop j pn) b) [0..<WIDTH] uint_zero"

definition mul_self_step :: "u32 \<Rightarrow> nat \<Rightarrow> nat \<Rightarrow> u64 \<times> base_uint \<Rightarrow> u64 \<times> base_uint" where
  "mul_self_step aj j i = (\<lambda>(carry, pn).
     let n = carry + ucast (pn ! (i + j)) + ucast aj * ucast (pn ! i)
     in (drop_bit 32 n, pn[i + j := ucast (n AND 0xffffffff)]))"

definition uint_mul_self :: "base_uint \<Rightarrow> base_uint" where
  "uint_mul_self a =
     fold (\<lambda>j pn. snd (fold (mul_self_step (a ! j) j) [0..<WIDTH - j] (0, pn))) [0..<WIDTH] uint_zero"

subsection \<open>Shifts\<close>

definition shl_step :: "base_uint \<Rightarrow> nat \<Rightarrow> nat \<Rightarrow> nat \<Rightarrow> base_uint \<Rightarrow> base_uint" where
  "shl_step a k s i pn =
     (let pn = (if i + k + 1 < WIDTH \<and> s \<noteq> 0
                then pn[i + k + 1 := pn ! (i + k + 1) OR drop_bit (32 - s) (a ! i)] else pn)
      in if i + k < WIDTH then pn[i + k := pn ! (i + k) OR push_bit s (a ! i)] else pn)"

definition uint_shl :: "base_uint \<Rightarrow> nat \<Rightarrow> base_uint" where
  "uint_shl a shift = fold (shl_step a (shift div 32) (shift mod 32)) [0..<WIDTH] uint_zero"

definition shr_step :: "base_uint \<Rightarrow> nat \<Rightarrow> nat \<Rightarrow> nat \<Rightarrow> base_uint \<Rightarrow> base_uint" where
  "shr_step a k s i pn =
     (let pn = (if k + 1 \<le> i \<and> s \<noteq> 0
                then pn[i - k - 1 := pn ! (i - k - 1) OR push_bit (32 - s) (a ! i)] else pn)
      in if k \<le> i then pn[i - k := pn ! (i - k) OR drop_bit s (a ! i)] else pn)"

definition uint_shr :: "base_uint \<Rightarrow> nat \<Rightarrow> base_uint" where
  "uint_shr a shift = fold (shr_step a (shift div 32) (shift mod 32)) [0..<WIDTH] uint_zero"

subsection \<open>Comparison, bit length, division\<close>

fun cmp_loop :: "u32 list \<Rightarrow> u32 list \<Rightarrow> int" where
  "cmp_loop (x # xs) (y # ys) = (if x < y then -1 else if x > y then 1 else cmp_loop xs ys)"
| "cmp_loop _ _ = 0"

definition CompareTo :: "base_uint \<Rightarrow> base_uint \<Rightarrow> int" where
  "CompareTo a b = cmp_loop (rev a) (rev b)"

definition EqualTo :: "base_uint \<Rightarrow> u64 \<Rightarrow> bool" where
  "EqualTo a b \<longleftrightarrow>
     (\<forall>x \<in> set (drop 2 a). x = 0) \<and> a ! 1 = ucast (drop_bit 32 b) \<and> a ! 0 = ucast (b AND 0xffffffff)"

fun limb_bits :: "u32 \<Rightarrow> nat \<Rightarrow> nat" where
  "limb_bits x 0 = 1"
| "limb_bits x (Suc b) = (if x AND push_bit (Suc b) 1 \<noteq> 0 then Suc b + 1 else limb_bits x b)"

fun bits_loop :: "base_uint \<Rightarrow> nat \<Rightarrow> nat" where
  "bits_loop a 0 = 0"
| "bits_loop a (Suc pos) =
     (if a ! pos \<noteq> 0 then 32 * pos + limb_bits (a ! pos) 31 else bits_loop a pos)"

definition uint_bits :: "base_uint \<Rightarrow> nat" where
  "uint_bits a = bits_loop a WIDTH"

definition GetLow64 :: "base_uint \<Rightarrow> u64" where
  "GetLow64 a = ucast (a ! 0) OR push_bit 32 (ucast (a ! 1))"

fun div_loop :: "nat \<Rightarrow> base_uint \<Rightarrow> base_uint \<Rightarrow> base_uint \<Rightarrow> base_uint" where
  "div_loop 0 num d q = q"
| "div_loop (Suc shift) num d q =
     (if CompareTo num d \<ge> 0
      then div_loop shift (uint_sub num d) (uint_shr d 1)
             (q[shift div 32 := q ! (shift div 32) OR push_bit (shift mod 32) 1])
      else div_loop shift num (uint_shr d 1) q)"

definition uint_div :: "base_uint \<Rightarrow> base_uint \<Rightarrow> base_uint option" where
  "uint_div a b =
     (let num_bits = uint_bits a; div_bits = uint_bits b
      in if div_bits = 0 then None
         else if div_bits > num_bits then Some uint_zero
         else let shift = num_bits - div_bits
              in Some (div_loop (shift + 1) a (uint_shl b shift) uint_zero))"

subsection \<open>The value of a limb array\<close>

fun limbs_val :: "u32 list \<Rightarrow> nat" where
  "limbs_val [] = 0"
| "limbs_val (x # xs) = unat x + 2 ^ 32 * limbs_val xs"

definition to256 :: "base_uint \<Rightarrow> 256 word" where
  "to256 a = of_nat (limbs_val a)"

lemma limbs_val_less: "limbs_val a < 2 ^ (32 * length a)"
proof (induction a)
  case Nil
  then show ?case by simp
next
  case (Cons x xs)
  have "unat x + 2 ^ 32 * limbs_val xs < 2 ^ 32 * (limbs_val xs + 1)"
    using unat_u32_lt [of x] by (simp add: algebra_simps)
  also have "\<dots> \<le> 2 ^ 32 * 2 ^ (32 * length xs)"
    using Cons.IH by (intro mult_le_mono2) simp
  finally show ?case by (simp add: power_add)
qed

lemma limbs_val_append: "limbs_val (xs @ ys) = limbs_val xs + 2 ^ (32 * length xs) * limbs_val ys"
  by (induction xs) (simp_all add: power_add algebra_simps)

lemma limbs_val_replicate_0 [simp]: "limbs_val (replicate n 0) = 0"
  by (induction n) simp_all

lemma unat_to256: "uint_wf a \<Longrightarrow> unat (to256 a) = limbs_val a"
  using limbs_val_less [of a]
  by (simp add: to256_def uint_wf_def unat_of_nat)

lemma to256_eqI: "limbs_val a mod 2 ^ 256 = n mod 2 ^ 256 \<Longrightarrow> to256 a = of_nat n"
  by (simp add: to256_def word_of_nat_eq_iff take_bit_eq_mod)

lemma to256_of_val: "limbs_val a = n mod 2 ^ 256 \<Longrightarrow> to256 a = of_nat n"
  by (rule to256_eqI) simp

lemma limb_step:
  assumes "unat l = n mod 2 ^ 32" and "r = (n div 2 ^ 32 + t) mod 2 ^ (32 * k)"
  shows "unat (l :: u32) + 2 ^ 32 * r = (n + 2 ^ 32 * t) mod 2 ^ (32 * Suc k)"
proof -
  have "(n + 2 ^ 32 * t) mod (2 ^ 32 * 2 ^ (32 * k))
      = 2 ^ 32 * ((n + 2 ^ 32 * t) div 2 ^ 32 mod 2 ^ (32 * k)) + (n + 2 ^ 32 * t) mod 2 ^ 32"
    by (rule mod_mult2_eq)
  then show ?thesis
    using assms by (simp add: power_add add.commute)
qed

lemma unat_low_limb: "unat (ucast (n AND 0xffffffff :: u64) :: u32) = unat n mod 2 ^ 32"
proof -
  have "n AND 0xffffffff = take_bit 32 n"
    by (simp add: take_bit_eq_mask mask_eq_exp_minus_1)
  then show ?thesis
    by (simp only: unsigned_ucast_eq unsigned_take_bit_eq) (simp add: take_bit_eq_mod)
qed

lemma unat_high_limb: "unat (drop_bit 32 (n :: u64)) = unat n div 2 ^ 32"
  by (rule unat_drop_bit)

lemma unat_high_limb_less: "unat (drop_bit 32 (n :: u64)) < 2 ^ 32"
  using unat_u64_lt [of n] by (simp add: unat_high_limb div_less_iff_less_mult)

lemma limb_product_le: "unat (x :: u32) * unat (y :: u32) \<le> (2 ^ 32 - 1) * (2 ^ 32 - 1)"
  using unat_u32_lt [of x] unat_u32_lt [of y] by (intro mult_le_mono) simp_all

lemma unat_mac:
  assumes "unat c < 2 ^ 32"
  shows "unat (c + ucast (p :: u32) + ucast (x :: u32) * ucast (y :: u32) :: u64)
    = unat c + unat p + unat x * unat y"
proof -
  have xy: "unat (ucast x * ucast y :: u64) = unat x * unat y"
    using le_less_trans [OF limb_product_le [of x y]] by (subst unat_mult_exact) simp_all
  have cp: "unat (c + ucast p) = unat c + unat p"
    using assms unat_u32_lt [of p] by (subst unat_add_exact) simp_all
  show ?thesis
    using assms unat_u32_lt [of p] limb_product_le [of x y] xy cp
    by (subst unat_add_exact) simp_all
qed

lemma unat_add3:
  assumes "unat c < 2 ^ 32"
  shows "unat (c + ucast (x :: u32) + ucast (y :: u32) :: u64) = unat c + unat x + unat y"
  using unat_mac [OF assms, of x y 1] by simp

subsection \<open>Addition, increment, subtraction\<close>

lemma add_loop_val:
  "length xs = length ys \<Longrightarrow> unat carry < 2 ^ 32 \<Longrightarrow>
   length (add_loop carry xs ys) = length xs \<and>
   limbs_val (add_loop carry xs ys) = (unat carry + limbs_val xs + limbs_val ys) mod 2 ^ (32 * length xs)"
proof (induction xs ys arbitrary: carry rule: list_induct2)
  case Nil
  then show ?case by simp
next
  case (Cons x xs y ys)
  define n where "n = carry + ucast x + ucast y"
  have n: "unat n = unat carry + unat x + unat y"
    using unat_add3 [OF Cons.prems] by (simp add: n_def)
  have IH: "length (add_loop (drop_bit 32 n) xs ys) = length xs"
    "limbs_val (add_loop (drop_bit 32 n) xs ys)
      = (unat n div 2 ^ 32 + limbs_val xs + limbs_val ys) mod 2 ^ (32 * length xs)"
    using Cons.IH [OF unat_high_limb_less] by (simp_all add: unat_high_limb)
  let ?m = "unat n + 2 ^ 32 * (limbs_val xs + limbs_val ys)"
  have "limbs_val (add_loop carry (x # xs) (y # ys)) = ?m mod 2 ^ (32 * Suc (length xs))"
    unfolding add_loop.simps Let_def limbs_val.simps n_def [symmetric]
    by (rule limb_step) (simp_all add: unat_low_limb IH add.assoc)
  moreover have "?m = unat carry + limbs_val (x # xs) + limbs_val (y # ys)"
    by (simp add: n algebra_simps)
  moreover have "length (add_loop carry (x # xs) (y # ys)) = length (x # xs)"
    using IH(1) by (simp add: n_def Let_def)
  ultimately show ?case by (simp only: length_Cons)
qed

lemma length_uint_inc [simp]: "length (uint_inc a) = length a"
  by (induction a rule: uint_inc.induct) simp_all

lemma uint_inc_val: "a \<noteq> [] \<Longrightarrow> limbs_val (uint_inc a) = (limbs_val a + 1) mod 2 ^ (32 * length a)"
proof (induction a rule: uint_inc.induct)
  case (2 x)
  then show ?case by (simp add: unat_word_ariths)
next
  case (3 x y xs)
  have x1: "unat (x + 1) = (unat x + 1) mod 2 ^ 32"
    by (simp add: unat_word_ariths)
  show ?case
  proof (cases "x + 1 = 0")
    case True
    then have x: "unat x + 1 = 2 ^ 32"
      using x1 unat_u32_lt [of x] by (cases "unat x + 1 < 2 ^ 32") simp_all
    have "limbs_val (uint_inc (x # y # xs)) = (unat x + 1 + 2 ^ 32 * limbs_val (y # xs)) mod 2 ^ (32 * Suc (length (y # xs)))"
      unfolding uint_inc.simps if_P [OF True] limbs_val.simps(2) [of "x + 1"]
      by (rule limb_step) (use True x 3 in \<open>simp_all add: x1\<close>)
    then show ?thesis by (simp add: algebra_simps)
  next
    case False
    have lt: "limbs_val ((x + 1) # y # xs) < 2 ^ (32 * length (x # y # xs))"
      using limbs_val_less [of "(x + 1) # y # xs"] by simp
    have "unat x + 1 \<noteq> 2 ^ 32"
      using False x1 by (metis mod_self unat_eq_zero)
    then have "unat (x + 1) = unat x + 1"
      using x1 unat_u32_lt [of x] by simp
    then show ?thesis
      using False lt by simp
  qed
qed simp

lemma uint_wf_add [simp]: "uint_wf a \<Longrightarrow> uint_wf b \<Longrightarrow> uint_wf (uint_add a b)"
  using add_loop_val [of a b 0] by (simp add: uint_wf_def uint_add_def)

lemma uint_add_val:
  "uint_wf a \<Longrightarrow> uint_wf b \<Longrightarrow> limbs_val (uint_add a b) = (limbs_val a + limbs_val b) mod 2 ^ 256"
  using add_loop_val [of a b 0] by (simp add: uint_wf_def uint_add_def)

lemma to256_add: "uint_wf a \<Longrightarrow> uint_wf b \<Longrightarrow> to256 (uint_add a b) = to256 a + to256 b"
  using to256_of_val [OF uint_add_val] by (simp add: to256_def)


lemma bit_concat_nat:
  assumes "(x :: nat) < 2 ^ m"
  shows "bit (x + 2 ^ m * y) n = (if n < m then bit x n else bit y (n - m))"
proof (cases "n < m")
  case True
  then have "2 ^ m = (2 :: nat) ^ n * 2 ^ (m - n)"
    by (simp flip: power_add)
  then have "(x + 2 ^ m * y) div 2 ^ n = x div 2 ^ n + 2 ^ (m - n) * y"
    by (simp add: mult.assoc)
  then show ?thesis
    using True by (simp add: bit_iff_odd)
next
  case False
  then have "2 ^ n = (2 :: nat) ^ m * 2 ^ (n - m)"
    by (simp flip: power_add)
  then have "(x + 2 ^ m * y) div 2 ^ n = (x + 2 ^ m * y) div 2 ^ m div 2 ^ (n - m)"
    by (simp add: div_mult2_eq)
  then have "(x + 2 ^ m * y) div 2 ^ n = y div 2 ^ (n - m)"
    using assms by simp
  then show ?thesis
    using False by (simp add: bit_iff_odd)
qed

lemma bit_limbs_val:
  "bit (limbs_val a) n \<longleftrightarrow> n < 32 * length a \<and> bit (a ! (n div 32)) (n mod 32)"
proof (induction a arbitrary: n)
  case Nil
  then show ?case by simp
next
  case (Cons x xs)
  have x: "unat x < 2 ^ 32"
    using unat_u32_lt [of x] by simp
  show ?case
  proof (cases "n < 32")
    case True
    then show ?thesis
      using bit_concat_nat [OF x, of "limbs_val xs" n] by (simp add: bit_unsigned_iff)
  next
    case False
    then have "n div 32 = Suc ((n - 32) div 32)" "n mod 32 = (n - 32) mod 32"
      by (simp_all add: le_div_geq le_mod_geq)
    then show ?thesis
      using bit_concat_nat [OF x, of "limbs_val xs" n] False Cons.IH [of "n - 32"] by auto
  qed
qed

lemma bit_to256:
  "uint_wf a \<Longrightarrow> bit (to256 a) n \<longleftrightarrow> n < 256 \<and> bit (a ! (n div 32)) (n mod 32)"
  by (auto simp: to256_def bit_of_nat_iff bit_limbs_val uint_wf_def possible_bit_def)

lemma to256_zero [simp]: "to256 uint_zero = 0"
  by (simp add: to256_def uint_zero_def)

lemma uint_wf_simps [simp]:
  "uint_wf uint_zero"
  "uint_wf (uint_of_u64 w)"
  "uint_wf a \<Longrightarrow> uint_wf (uint_not a)"
  "uint_wf a \<Longrightarrow> uint_wf b \<Longrightarrow> uint_wf (uint_xor a b)"
  "uint_wf a \<Longrightarrow> uint_wf b \<Longrightarrow> uint_wf (uint_and a b)"
  "uint_wf a \<Longrightarrow> uint_wf b \<Longrightarrow> uint_wf (uint_or a b)"
  "uint_wf a \<Longrightarrow> uint_wf (uint_inc a)"
  "uint_wf a \<Longrightarrow> uint_wf (uint_neg a)"
  by (simp_all add: uint_wf_def uint_zero_def uint_of_u64_def uint_not_def uint_xor_def
      uint_and_def uint_or_def uint_neg_def)

lemma to256_not: "uint_wf a \<Longrightarrow> to256 (uint_not a) = NOT (to256 a)"
  by (rule bit_word_eqI) (simp add: bit_to256 bit_not_iff uint_not_def uint_wf_def)

lemma to256_xor: "uint_wf a \<Longrightarrow> uint_wf b \<Longrightarrow> to256 (uint_xor a b) = to256 a XOR to256 b"
  by (rule bit_word_eqI)
    (simp add: bit_to256 bit_xor_iff, simp add: uint_xor_def uint_wf_def bit_xor_iff)

lemma to256_and: "uint_wf a \<Longrightarrow> uint_wf b \<Longrightarrow> to256 (uint_and a b) = to256 a AND to256 b"
  by (rule bit_word_eqI)
    (simp add: bit_to256 bit_and_iff, simp add: uint_and_def uint_wf_def bit_and_iff)

lemma to256_or: "uint_wf a \<Longrightarrow> uint_wf b \<Longrightarrow> to256 (uint_or a b) = to256 a OR to256 b"
  by (rule bit_word_eqI)
    (simp add: bit_to256 bit_or_iff, simp add: uint_or_def uint_wf_def bit_or_iff)

lemma to256_inc: "uint_wf a \<Longrightarrow> to256 (uint_inc a) = to256 a + 1"
  using to256_of_val [of "uint_inc a" "limbs_val a + 1"] uint_inc_val [of a]
  by (fastforce simp: uint_wf_def to256_def)

lemma uint_dec_inc: "uint_dec (uint_inc a) = a"
proof (induction a rule: uint_inc.induct)
  case (3 x y xs)
  have "(- 1 :: u32) = 0xffffffff"
    by simp
  then have "x + 1 = 0 \<longleftrightarrow> x = 0xffffffff"
    by (metis add_eq_0_iff2)
  moreover obtain z zs where "uint_inc (y # xs) = z # zs"
    by (cases xs; cases "y + 1 = 0") auto
  ultimately show ?case
    using 3 by auto
qed simp_all

lemma uint_inc_dec: "uint_inc (uint_dec a) = a"
proof (induction a rule: uint_dec.induct)
  case (3 x y xs)
  have "(- 1 :: u32) = 0xffffffff"
    by simp
  then have "x - 1 = 0xffffffff \<longleftrightarrow> x = 0"
    by (metis diff_0 diff_add_cancel)
  moreover obtain z zs where "uint_dec (y # xs) = z # zs"
    by (cases xs; cases "y - 1 = 0xffffffff") auto
  ultimately show ?case
    using 3 by auto
qed simp_all

lemma uint_wf_dec [simp]: "uint_wf a \<Longrightarrow> uint_wf (uint_dec a)"
  by (metis length_uint_inc uint_inc_dec uint_wf_def)

lemma to256_dec: "uint_wf a \<Longrightarrow> to256 (uint_dec a) = to256 a - 1"
  using to256_inc [of "uint_dec a"] by (simp add: uint_inc_dec)

lemma to256_neg: "uint_wf a \<Longrightarrow> to256 (uint_neg a) = - to256 a"
  by (simp add: uint_neg_def to256_inc to256_not minus_eq_not_plus_1)

lemma uint_wf_sub [simp]: "uint_wf a \<Longrightarrow> uint_wf b \<Longrightarrow> uint_wf (uint_sub a b)"
  by (simp add: uint_sub_def)

lemma to256_sub: "uint_wf a \<Longrightarrow> uint_wf b \<Longrightarrow> to256 (uint_sub a b) = to256 a - to256 b"
  by (simp add: uint_sub_def to256_add to256_neg)

lemma to256_inj: "uint_wf a \<Longrightarrow> uint_wf b \<Longrightarrow> to256 a = to256 b \<longleftrightarrow> a = b"
proof
  assume wf: "uint_wf a" "uint_wf b" and eq: "to256 a = to256 b"
  show "a = b"
  proof (rule nth_equalityI)
    show "length a = length b" using wf by (simp add: uint_wf_def)
    fix i assume i: "i < length a"
    show "a ! i = b ! i"
    proof (rule bit_word_eqI)
      fix n assume n: "n < LENGTH(32)"
      have "bit (to256 a) (32 * i + n) = bit (to256 b) (32 * i + n)"
        by (simp add: eq)
      then show "bit (a ! i) n = bit (b ! i) n"
        using wf i n by (simp add: bit_to256 uint_wf_def)
    qed
  qed
qed simp

subsection \<open>Multiplication\<close>

lemma mul_row_val:
  "length ps \<le> length ys \<Longrightarrow> unat carry < 2 ^ 32 \<Longrightarrow>
   length (mul_row carry aj ps ys) = length ps \<and>
   limbs_val (mul_row carry aj ps ys)
     = (unat carry + limbs_val ps + unat aj * limbs_val ys) mod 2 ^ (32 * length ps)"
proof (induction ps arbitrary: ys carry)
  case Nil
  then show ?case by simp
next
  case (Cons p ps)
  then obtain y zs where ys: "ys = y # zs" and len: "length ps \<le> length zs"
    by (cases ys) auto
  define n where "n = carry + ucast p + ucast aj * ucast y"
  have n: "unat n = unat carry + unat p + unat aj * unat y"
    using unat_mac [OF Cons.prems(2)] by (simp add: n_def)
  have IH: "length (mul_row (drop_bit 32 n) aj ps zs) = length ps"
    "limbs_val (mul_row (drop_bit 32 n) aj ps zs)
      = (unat n div 2 ^ 32 + limbs_val ps + unat aj * limbs_val zs) mod 2 ^ (32 * length ps)"
    using Cons.IH [OF len unat_high_limb_less] by (simp_all add: unat_high_limb)
  let ?m = "unat n + 2 ^ 32 * (limbs_val ps + unat aj * limbs_val zs)"
  have "limbs_val (mul_row carry aj (p # ps) ys) = ?m mod 2 ^ (32 * Suc (length ps))"
    unfolding ys mul_row.simps Let_def limbs_val.simps n_def [symmetric]
    by (rule limb_step) (simp_all add: unat_low_limb IH add.assoc)
  moreover have "?m = unat carry + limbs_val (p # ps) + unat aj * limbs_val ys"
    by (simp add: n ys algebra_simps)
  moreover have "length (mul_row carry aj (p # ps) ys) = length (p # ps)"
    using IH(1) by (simp add: n_def ys Let_def)
  ultimately show ?case by (simp only: length_Cons)
qed

lemma mul32_loop_row: "mul32_loop c b xs = mul_row c b (replicate (length xs) 0) xs"
  by (induction xs arbitrary: c) (simp_all add: Let_def)

lemma uint_mul32_val:
  "uint_wf a \<Longrightarrow> uint_wf (uint_mul32 a b) \<and> limbs_val (uint_mul32 a b) = (unat b * limbs_val a) mod 2 ^ 256"
  using mul_row_val [of "replicate (length a) 0" a 0 b]
  by (simp add: uint_mul32_def mul32_loop_row uint_wf_def)

lemma to256_mul32: "uint_wf a \<Longrightarrow> to256 (uint_mul32 a b) = to256 a * ucast b"
  using to256_of_val [of "uint_mul32 a b" "unat b * limbs_val a"] uint_mul32_val [of a b]
  by (simp add: to256_def mult.commute)

lemma limbs_val_take_drop: "limbs_val (take j a) + 2 ^ (32 * min (length a) j) * limbs_val (drop j a) = limbs_val a"
  by (metis append_take_drop_id length_take limbs_val_append)

lemma limbs_val_take_Suc:
  "j < length a \<Longrightarrow> limbs_val (take (Suc j) a) = limbs_val (take j a) + 2 ^ (32 * j) * unat (a ! j)"
  by (simp add: take_Suc_conv_app_nth limbs_val_append)

lemma mul_step:
  assumes "j < 8" and "length pn = 8" and "length b = 8"
  shows "limbs_val (take j pn @ mul_row 0 x (drop j pn) b) mod 2 ^ 256
    = (limbs_val pn + 2 ^ (32 * j) * (unat x * limbs_val b)) mod 2 ^ 256"
proof -
  let ?r = "limbs_val (drop j pn) + unat x * limbs_val b"
  have row: "limbs_val (mul_row 0 x (drop j pn) b) = ?r mod 2 ^ (32 * (8 - j))"
    using mul_row_val [of "drop j pn" b 0 x] assms by simp
  have "256 = 32 * j + 32 * (8 - j)"
    using assms(1) by simp
  then have "(2 :: nat) ^ 256 = 2 ^ (32 * j) * 2 ^ (32 * (8 - j))"
    by (metis power_add)
  then have "2 ^ (32 * j) * (?r mod 2 ^ (32 * (8 - j))) = (2 ^ (32 * j) * ?r) mod 2 ^ 256"
    by (simp add: mult_mod_right)
  then have eq: "limbs_val (take j pn @ mul_row 0 x (drop j pn) b) mod 2 ^ 256
      = (limbs_val (take j pn) + 2 ^ (32 * j) * ?r) mod 2 ^ 256"
    using assms by (simp only: limbs_val_append row length_take) (simp add: mod_add_right_eq)
  have "limbs_val (take j pn) + 2 ^ (32 * j) * ?r
      = limbs_val pn + 2 ^ (32 * j) * (unat x * limbs_val b)"
    using limbs_val_take_drop [of j pn] assms by (simp add: algebra_simps)
  with eq show ?thesis by simp
qed

lemma uint_mul_val:
  assumes "uint_wf a" and "uint_wf b"
  shows "uint_wf (uint_mul a b) \<and> limbs_val (uint_mul a b) mod 2 ^ 256 = (limbs_val a * limbs_val b) mod 2 ^ 256"
proof -
  let ?f = "\<lambda>j pn. take j pn @ mul_row 0 (a ! j) (drop j pn) b"
  let ?P = "\<lambda>j pn. length pn = 8 \<and> limbs_val pn mod 2 ^ 256 = (limbs_val (take j a) * limbs_val b) mod 2 ^ 256"
  have "?P 8 (fold ?f [0..<8] uint_zero)"
  proof (rule fold_invariant_upt [where P = ?P])
    show "?P 0 uint_zero" by (simp add: uint_zero_def)
  next
    fix j pn assume j: "j < 8" and P: "?P j pn"
    have b: "length b = 8" and a: "length a = 8"
      using assms by (simp_all add: uint_wf_def)
    have len: "length (?f j pn) = 8"
      using mul_row_val [of "drop j pn" b 0 "a ! j"] j P b by simp
    have "limbs_val (?f j pn) mod 2 ^ 256
        = (limbs_val (take j a) * limbs_val b + 2 ^ (32 * j) * (unat (a ! j) * limbs_val b)) mod 2 ^ 256"
      using mul_step [OF j, of pn b "a ! j"] P b by (metis mod_add_left_eq)
    also have "limbs_val (take j a) * limbs_val b + 2 ^ (32 * j) * (unat (a ! j) * limbs_val b)
        = limbs_val (take (Suc j) a) * limbs_val b"
      using j a by (simp add: limbs_val_take_Suc algebra_simps)
    finally show "?P (Suc j) (?f j pn)" using len by blast
  qed
  then show ?thesis
    using assms by (simp add: uint_mul_def uint_wf_def)
qed

lemma uint_wf_mul [simp]: "uint_wf a \<Longrightarrow> uint_wf b \<Longrightarrow> uint_wf (uint_mul a b)"
  using uint_mul_val by blast

lemma to256_mul: "uint_wf a \<Longrightarrow> uint_wf b \<Longrightarrow> to256 (uint_mul a b) = to256 a * to256 b"
  using to256_eqI [of "uint_mul a b" "limbs_val a * limbs_val b"] uint_mul_val [of a b]
  by (simp add: to256_def)

lemma mul_self_step_zero: "mul_self_step aj j i (0, uint_zero) = (0, uint_zero)" if "i + j < 8"
proof -
  have z: "k < 8 \<Longrightarrow> uint_zero ! k = 0" for k by (simp add: uint_zero_def)
  have "uint_zero[k := 0] = uint_zero" for k
    using z list_update_id [of uint_zero k] list_update_beyond [of uint_zero k 0] by (cases "k < 8") (simp_all add: uint_zero_def)
  then show ?thesis using z [of i] z [of "i + j"] that by (simp add: mul_self_step_def Let_def)
qed

lemma uint_mul_self_zero: "uint_mul_self a = uint_zero"
proof -
  have inner: "fold (mul_self_step aj j) is (0, uint_zero) = (0, uint_zero)" if "\<forall>i\<in>set is. i + j < 8" for aj j "is"
    using that by (induction "is") (simp_all add: mul_self_step_zero)
  have "fold (\<lambda>j pn. snd (fold (mul_self_step (a ! j) j) [0..<WIDTH - j] (0, pn))) js uint_zero = uint_zero" for js
    by (induction js) (simp_all add: inner less_diff_conv)
  then show ?thesis by (simp only: uint_mul_self_def)
qed

subsection \<open>Shifts\<close>

lemma bit_to256_limb:
  "uint_wf a \<Longrightarrow> t < 32 \<Longrightarrow> bit (to256 a) (32 * j + t) \<longleftrightarrow> j < 8 \<and> bit (a ! j) t"
  by (auto simp: bit_to256)

lemma limb_no_bit: "32 \<le> n \<Longrightarrow> \<not> bit (x :: u32) n"
  by (auto dest: bit_imp_le_length)

definition shl_spec :: "base_uint \<Rightarrow> nat \<Rightarrow> nat \<Rightarrow> nat \<Rightarrow> nat \<Rightarrow> u32" where
  "shl_spec a k s i j =
     (if k \<le> j \<and> j - k < i then push_bit s (a ! (j - k)) else 0) OR
     (if s \<noteq> 0 \<and> k + 1 \<le> j \<and> j - k - 1 < i then drop_bit (32 - s) (a ! (j - k - 1)) else 0)"

lemma shl_step_inv:
  assumes "length pn = 8" and "\<forall>j<8. pn ! j = shl_spec a k s i j" and "i < 8"
  shows "length (shl_step a k s i pn) = 8 \<and> (\<forall>j<8. shl_step a k s i pn ! j = shl_spec a k s (Suc i) j)"
proof (intro conjI allI impI)
  show "length (shl_step a k s i pn) = 8"
    using assms(1) by (simp add: shl_step_def Let_def)
  fix j :: nat assume j: "j < 8"
  consider "j = i + k" | "j = i + k + 1" "s \<noteq> 0" | "j \<noteq> i + k" "j \<noteq> i + k + 1 \<or> s = 0"
    by blast
  then show "shl_step a k s i pn ! j = shl_spec a k s (Suc i) j"
  proof cases
    case 1
    then have "pn ! j = shl_spec a k s i j" using assms(2) j by blast
    then show ?thesis
      using 1 assms(1) j by (auto simp: shl_step_def shl_spec_def Let_def or.commute nth_list_update)
  next
    case 2
    then have "pn ! j = shl_spec a k s i j" using assms(2) j by blast
    then show ?thesis
      using 2 assms(1) j by (auto simp: shl_step_def shl_spec_def Let_def)
  next
    case 3
    then have "pn ! j = shl_spec a k s i j" using assms(2) j by blast
    moreover have "shl_step a k s i pn ! j = pn ! j"
      using 3 assms(1) by (auto simp: shl_step_def Let_def nth_list_update)
    moreover have "shl_spec a k s (Suc i) j = shl_spec a k s i j"
      using 3 by (auto simp: shl_spec_def less_Suc_eq)
    ultimately show ?thesis by simp
  qed
qed

lemma uint_shl_limbs:
  "length (uint_shl a n) = 8 \<and> (\<forall>j<8. uint_shl a n ! j = shl_spec a (n div 32) (n mod 32) 8 j)"
proof -
  let ?P = "\<lambda>i pn. length pn = 8 \<and> (\<forall>j<8. pn ! j = shl_spec a (n div 32) (n mod 32) i j)"
  have "?P 8 (fold (shl_step a (n div 32) (n mod 32)) [0..<8] uint_zero)"
    by (rule fold_invariant_upt [where P = ?P])
      (use shl_step_inv in \<open>auto simp: uint_zero_def shl_spec_def\<close>)
  then show ?thesis by (simp add: uint_shl_def)
qed

lemma uint_wf_shl [simp]: "uint_wf (uint_shl a n)"
  using uint_shl_limbs by (simp add: uint_wf_def)

lemma to256_shl: "uint_wf a \<Longrightarrow> to256 (uint_shl a n) = push_bit n (to256 a)"
proof (rule bit_word_eqI)
  fix m assume wf: "uint_wf a" and m: "m < LENGTH(256)"
  define j t k s where "j = m div 32" and "t = m mod 32" and "k = n div 32" and "s = n mod 32"
  have m_eq: "m = 32 * j + t" and t: "t < 32" and j: "j < 8"
    using m by (simp_all add: j_def t_def)
  have n_eq: "n = 32 * k + s" and s: "s < 32"
    by (simp_all add: k_def s_def)
  have "bit (to256 (uint_shl a n)) m \<longleftrightarrow> bit (shl_spec a k s 8 j) t"
    using uint_shl_limbs [of a n] j m by (simp add: bit_to256 j_def t_def k_def s_def)
  also have "\<dots> \<longleftrightarrow> n \<le> m \<and> bit (to256 a) (m - n)"
  proof (cases "s \<le> t")
    case True
    have "m - n = 32 * (j - k) + (t - s)" if "k \<le> j"
      using that True by (simp add: m_eq n_eq algebra_simps)
    then have "bit (to256 a) (m - n) \<longleftrightarrow> bit (a ! (j - k)) (t - s)" if "k \<le> j"
      using that j t bit_to256_limb [OF wf, of "t - s" "j - k"] by (simp add: less_imp_diff_less)
    moreover have "n \<le> m \<longleftrightarrow> k \<le> j"
      using True s t by (auto simp: m_eq n_eq)
    ultimately show ?thesis
      using True t j s
      by (auto simp: shl_spec_def bit_or_iff bit_push_bit_iff bit_drop_bit_eq limb_no_bit)
  next
    case False
    have "m - n = 32 * (j - k - 1) + (32 + t - s)" if "k + 1 \<le> j"
      using that False s by (simp add: m_eq n_eq algebra_simps)
    then have "bit (to256 a) (m - n) \<longleftrightarrow> bit (a ! (j - k - 1)) (32 + t - s)" if "k + 1 \<le> j"
      using that j t False bit_to256_limb [OF wf, of "32 + t - s" "j - k - 1"] by (simp add: less_imp_diff_less)
    moreover have "n \<le> m \<longleftrightarrow> k + 1 \<le> j"
      using False s t by (auto simp: m_eq n_eq)
    ultimately show ?thesis
      using False t j s
      by (auto simp: shl_spec_def bit_or_iff bit_push_bit_iff bit_drop_bit_eq add.commute)
  qed
  also have "\<dots> \<longleftrightarrow> bit (push_bit n (to256 a)) m"
    using m by (simp add: bit_push_bit_iff)
  finally show "bit (to256 (uint_shl a n)) m \<longleftrightarrow> bit (push_bit n (to256 a)) m" .
qed

definition shr_spec :: "base_uint \<Rightarrow> nat \<Rightarrow> nat \<Rightarrow> nat \<Rightarrow> nat \<Rightarrow> u32" where
  "shr_spec a k s i j =
     (if j + k < i then drop_bit s (a ! (j + k)) else 0) OR
     (if s \<noteq> 0 \<and> j + k + 1 < i then push_bit (32 - s) (a ! (j + k + 1)) else 0)"

lemma shr_step_inv:
  assumes "length pn = 8" and "\<forall>j<8. pn ! j = shr_spec a k s i j" and "i < 8"
  shows "length (shr_step a k s i pn) = 8 \<and> (\<forall>j<8. shr_step a k s i pn ! j = shr_spec a k s (Suc i) j)"
proof (intro conjI allI impI)
  show "length (shr_step a k s i pn) = 8"
    using assms(1) by (simp add: shr_step_def Let_def)
  fix j :: nat assume j: "j < 8"
  consider "i = j + k" | "i = j + k + 1" "s \<noteq> 0" | "i \<noteq> j + k" "i \<noteq> j + k + 1 \<or> s = 0"
    by blast
  then show "shr_step a k s i pn ! j = shr_spec a k s (Suc i) j"
  proof cases
    case 1
    then have "pn ! j = shr_spec a k s i j" using assms(2) j by blast
    then show ?thesis
      using 1 assms(1) j by (auto simp: shr_step_def shr_spec_def Let_def nth_list_update)
  next
    case 2
    then have "pn ! j = shr_spec a k s i j" using assms(2) j by blast
    then show ?thesis
      using 2 assms(1) j by (auto simp: shr_step_def shr_spec_def Let_def)
  next
    case 3
    then have "pn ! j = shr_spec a k s i j" using assms(2) j by blast
    moreover have "shr_step a k s i pn ! j = pn ! j"
      using 3 assms(1) by (auto simp: shr_step_def Let_def nth_list_update)
    moreover have "shr_spec a k s (Suc i) j = shr_spec a k s i j"
      using 3 by (auto simp: shr_spec_def less_Suc_eq)
    ultimately show ?thesis by simp
  qed
qed

lemma uint_shr_limbs:
  "length (uint_shr a n) = 8 \<and> (\<forall>j<8. uint_shr a n ! j = shr_spec a (n div 32) (n mod 32) 8 j)"
proof -
  let ?P = "\<lambda>i pn. length pn = 8 \<and> (\<forall>j<8. pn ! j = shr_spec a (n div 32) (n mod 32) i j)"
  have "?P 8 (fold (shr_step a (n div 32) (n mod 32)) [0..<8] uint_zero)"
    by (rule fold_invariant_upt [where P = ?P])
      (use shr_step_inv in \<open>auto simp: uint_zero_def shr_spec_def\<close>)
  then show ?thesis by (simp add: uint_shr_def)
qed

lemma uint_wf_shr [simp]: "uint_wf (uint_shr a n)"
  using uint_shr_limbs by (simp add: uint_wf_def)

lemma to256_shr: "uint_wf a \<Longrightarrow> to256 (uint_shr a n) = drop_bit n (to256 a)"
proof (rule bit_word_eqI)
  fix m assume wf: "uint_wf a" and m: "m < LENGTH(256)"
  define j t k s where "j = m div 32" and "t = m mod 32" and "k = n div 32" and "s = n mod 32"
  have m_eq: "m = 32 * j + t" and t: "t < 32" and j: "j < 8"
    using m by (simp_all add: j_def t_def)
  have n_eq: "n = 32 * k + s" and s: "s < 32"
    by (simp_all add: k_def s_def)
  have "bit (to256 (uint_shr a n)) m \<longleftrightarrow> bit (shr_spec a k s 8 j) t"
    using uint_shr_limbs [of a n] j m by (simp add: bit_to256 j_def t_def k_def s_def)
  also have "\<dots> \<longleftrightarrow> bit (to256 a) (n + m)"
  proof (cases "s + t < 32")
    case True
    have "n + m = 32 * (j + k) + (s + t)"
      by (simp add: m_eq n_eq)
    then have "bit (to256 a) (n + m) \<longleftrightarrow> j + k < 8 \<and> bit (a ! (j + k)) (s + t)"
      using bit_to256_limb [OF wf True, of "j + k"] by (simp only:)
    then show ?thesis
      using True t j s
      by (auto simp: shr_spec_def bit_or_iff bit_push_bit_iff bit_drop_bit_eq)
  next
    case False
    have "n + m = 32 * (j + k + 1) + (s + t - 32)"
      using False by (simp add: m_eq n_eq)
    then have "bit (to256 a) (n + m) \<longleftrightarrow> j + k + 1 < 8 \<and> bit (a ! (j + k + 1)) (s + t - 32)"
      using bit_to256_limb [OF wf, of "s + t - 32" "j + k + 1"] s t by simp
    then show ?thesis
      using False t j s
      by (auto simp: shr_spec_def bit_or_iff bit_push_bit_iff bit_drop_bit_eq limb_no_bit add.commute)
  qed
  finally show "bit (to256 (uint_shr a n)) m \<longleftrightarrow> bit (drop_bit n (to256 a)) m"
    by (simp add: bit_drop_bit_eq)
qed

subsection \<open>Comparison and bit length\<close>

lemma cmp_loop_val:
  "length xs = length ys \<Longrightarrow>
   cmp_loop xs ys = (if limbs_val (rev xs) < limbs_val (rev ys) then -1
                     else if limbs_val (rev xs) > limbs_val (rev ys) then 1 else 0)"
proof (induction xs ys rule: list_induct2)
  case Nil
  then show ?case by simp
next
  case (Cons x xs y ys)
  let ?B = "(2 :: nat) ^ (32 * length xs)"
  have vx: "limbs_val (rev (x # xs)) = limbs_val (rev xs) + ?B * unat x"
    and vy: "limbs_val (rev (y # ys)) = limbs_val (rev ys) + ?B * unat y"
    using Cons.hyps by (simp_all add: limbs_val_append)
  have bx: "limbs_val (rev xs) < ?B" and by': "limbs_val (rev ys) < ?B"
    using limbs_val_less [of "rev xs"] limbs_val_less [of "rev ys"] Cons.hyps by simp_all
  have less: "limbs_val (rev us) + ?B * unat u < limbs_val (rev vs) + ?B * unat v"
    if "u < v" "limbs_val (rev us) < ?B" for us vs and u v :: u32
  proof -
    have "?B * (unat u + 1) \<le> ?B * unat v"
      using that(1) by (intro mult_le_mono2) (simp add: word_less_nat_alt)
    then show ?thesis using that(2) by simp
  qed
  consider "x < y" | "y < x" | "x = y" by fastforce
  then show ?case
  proof cases
    case 1
    then show ?thesis using less [OF 1 bx, of ys] by (simp only: vx vy cmp_loop.simps if_P)
  next
    case 2
    then show ?thesis using less [OF 2 by', of xs] by (simp only: vx vy cmp_loop.simps) auto
  next
    case 3
    then show ?thesis
      using Cons.IH Cons.hyps by (simp add: limbs_val_append)
  qed
qed

lemma CompareTo_val:
  "uint_wf a \<Longrightarrow> uint_wf b \<Longrightarrow>
   CompareTo a b = (if limbs_val a < limbs_val b then -1 else if limbs_val a > limbs_val b then 1 else 0)"
  using cmp_loop_val [of "rev a" "rev b"] by (simp add: CompareTo_def uint_wf_def)

lemma to256_less_iff: "uint_wf a \<Longrightarrow> uint_wf b \<Longrightarrow> to256 a < to256 b \<longleftrightarrow> limbs_val a < limbs_val b"
  by (simp add: word_less_nat_alt unat_to256)

lemma CompareTo_less: "uint_wf a \<Longrightarrow> uint_wf b \<Longrightarrow> CompareTo a b < 0 \<longleftrightarrow> to256 a < to256 b"
  and CompareTo_ge: "uint_wf a \<Longrightarrow> uint_wf b \<Longrightarrow> CompareTo a b \<ge> 0 \<longleftrightarrow> to256 b \<le> to256 a"
  and CompareTo_greater: "uint_wf a \<Longrightarrow> uint_wf b \<Longrightarrow> CompareTo a b > 0 \<longleftrightarrow> to256 b < to256 a"
  and CompareTo_le: "uint_wf a \<Longrightarrow> uint_wf b \<Longrightarrow> CompareTo a b \<le> 0 \<longleftrightarrow> to256 a \<le> to256 b"
  by (simp_all add: CompareTo_val to256_less_iff not_less [symmetric])

lemma EqualTo_iff: "uint_wf a \<Longrightarrow> EqualTo a b \<longleftrightarrow> a = uint_of_u64 b"
proof -
  assume wf: "uint_wf a"
  have low: "(ucast (b AND 0xffffffff) :: u32) = ucast b"
    using unat_low_limb [of b] by (intro word_unat_eq_iff [THEN iffD2]) (simp add: unat_ucast_trunc)
  obtain x y r where a: "a = x # y # r" and r: "length r = 6"
    using wf by (cases a; cases "tl a") (auto simp: uint_wf_def)
  have "(\<forall>z \<in> set r. z = 0) \<longleftrightarrow> r = replicate 6 0"
    using r by (auto intro: replicate_eqI)
  then show ?thesis
    by (auto simp: EqualTo_def uint_of_u64_def a low)
qed

lemma nat_top_bit: "(v :: nat) < 2 ^ Suc n \<Longrightarrow> bit v n \<longleftrightarrow> 2 ^ n \<le> v"
proof -
  assume v: "v < 2 ^ Suc n"
  have "v div 2 ^ n < 2"
    using v by (simp add: div_less_iff_less_mult)
  moreover have "1 \<le> v div 2 ^ n \<longleftrightarrow> 2 ^ n \<le> v"
    by (simp add: less_eq_div_iff_mult_less_eq)
  ultimately show ?thesis
    by (auto simp: bit_iff_odd less_2_cases_iff elim: oddE)
qed

lemma limb_bits_spec:
  "x \<noteq> 0 \<Longrightarrow> unat x < 2 ^ (b + 1) \<Longrightarrow> b < 32 \<Longrightarrow>
   unat x < 2 ^ limb_bits x b \<and> 2 ^ (limb_bits x b - 1) \<le> unat x \<and> 0 < limb_bits x b \<and> limb_bits x b \<le> b + 1"
proof (induction x b rule: limb_bits.induct)
  case (1 x)
  then show ?case by (simp add: unat_gt_0 Suc_le_eq)
next
  case (2 x b)
  have "bit (unat x) (Suc b) \<longleftrightarrow> 2 ^ Suc b \<le> unat x"
    using 2 by (intro nat_top_bit) simp
  then have top: "x AND push_bit (Suc b) 1 = 0 \<longleftrightarrow> \<not> 2 ^ Suc b \<le> unat x"
    by (simp only: push_bit_of_1 and_exp_eq_0_iff_not_bit bit_unsigned_iff) simp
  show ?case
  proof (cases "2 ^ Suc b \<le> unat x")
    case True
    then show ?thesis using 2 top by simp
  next
    case False
    then have "unat x < 2 ^ limb_bits x b \<and> 2 ^ (limb_bits x b - 1) \<le> unat x \<and> 0 < limb_bits x b \<and> limb_bits x b \<le> b + 1"
      using 2 top by simp
    then show ?thesis using False top by simp
  qed
qed

lemma bits_loop_spec:
  "n \<le> length a \<Longrightarrow>
   limbs_val (take n a) < 2 ^ bits_loop a n \<and> bits_loop a n \<le> 32 * n \<and>
   (limbs_val (take n a) \<noteq> 0 \<longrightarrow> 0 < bits_loop a n \<and> 2 ^ (bits_loop a n - 1) \<le> limbs_val (take n a)) \<and>
   (limbs_val (take n a) = 0 \<longrightarrow> bits_loop a n = 0)"
proof (induction n)
  case 0
  then show ?case by simp
next
  case (Suc n)
  let ?x = "a ! n" and ?B = "(2 :: nat) ^ (32 * n)"
  have v: "limbs_val (take (Suc n) a) = limbs_val (take n a) + ?B * unat ?x"
    using Suc.prems by (simp add: limbs_val_take_Suc)
  show ?case
  proof (cases "?x = 0")
    case True
    then show ?thesis using Suc v by simp
  next
    case False
    let ?l = "limb_bits ?x 31"
    have l: "unat ?x < 2 ^ ?l" "2 ^ (?l - 1) \<le> unat ?x" "0 < ?l" "?l \<le> 32"
      using limb_bits_spec [OF False, of 31] unat_u32_lt [of ?x] by simp_all
    have low: "limbs_val (take n a) < ?B"
      using limbs_val_less [of "take n a"] Suc.prems by simp
    have "limbs_val (take (Suc n) a) < ?B * (unat ?x + 1)"
      using low by (simp add: v)
    also have "\<dots> \<le> ?B * 2 ^ ?l"
      using l(1) by (intro mult_le_mono2) simp
    finally have "limbs_val (take (Suc n) a) < 2 ^ (32 * n + ?l)"
      by (simp add: power_add)
    moreover have "?B * 2 ^ (?l - 1) \<le> limbs_val (take (Suc n) a)"
      unfolding v by (rule trans_le_add2) (rule mult_le_mono2 [OF l(2)])
    then have "2 ^ (32 * n + ?l - 1) \<le> limbs_val (take (Suc n) a)"
      using l(3) by (simp flip: power_add)
    moreover have "0 < limbs_val (take (Suc n) a)"
      using False by (simp add: v unat_gt_0)
    ultimately show ?thesis
      using False l by auto
  qed
qed

lemma uint_bits_spec:
  assumes "uint_wf a"
  shows "limbs_val a < 2 ^ uint_bits a" and "uint_bits a \<le> 256"
    and "limbs_val a \<noteq> 0 \<Longrightarrow> 0 < uint_bits a \<and> 2 ^ (uint_bits a - 1) \<le> limbs_val a"
    and "uint_bits a = 0 \<longleftrightarrow> limbs_val a = 0"
  using bits_loop_spec [of 8 a] assms by (auto simp: uint_wf_def uint_bits_def)


subsection \<open>Division\<close>

lemma uint_sub_val_le:
  "uint_wf a \<Longrightarrow> uint_wf b \<Longrightarrow> limbs_val b \<le> limbs_val a \<Longrightarrow> limbs_val (uint_sub a b) = limbs_val a - limbs_val b"
proof -
  assume wf: "uint_wf a" "uint_wf b" and le: "limbs_val b \<le> limbs_val a"
  have "unat (to256 a - to256 b) = unat (to256 a) - unat (to256 b)"
    using le wf by (intro unat_sub) (simp add: word_le_nat_alt unat_to256)
  then show ?thesis
    using wf by (simp flip: to256_sub add: unat_to256)
qed

lemma uint_shr_val: "uint_wf a \<Longrightarrow> limbs_val (uint_shr a n) = limbs_val a div 2 ^ n"
  using unat_to256 [of "uint_shr a n"] by (simp add: to256_shr unat_drop_bit unat_to256)

lemma uint_shl_val: "uint_wf a \<Longrightarrow> limbs_val (uint_shl a n) = (limbs_val a * 2 ^ n) mod 2 ^ 256"
proof -
  assume wf: "uint_wf a"
  have "unat (push_bit n (to256 a)) = take_bit 256 (push_bit n (unat (to256 a)))"
    by (simp only: unsigned_push_bit_eq) simp
  then show ?thesis
    using wf unat_to256 [of "uint_shl a n"] unat_to256 [OF wf]
    by (simp add: to256_shl push_bit_eq_mult take_bit_nat_def)
qed

lemma bit_limbs_to256: "uint_wf a \<Longrightarrow> bit (limbs_val a) m \<longleftrightarrow> bit (to256 a) m"
  by (auto simp: bit_to256 bit_limbs_val uint_wf_def)

lemma limbs_val_zero [simp]: "limbs_val uint_zero = 0"
  by (simp add: uint_zero_def)

definition or_bit :: "base_uint \<Rightarrow> nat \<Rightarrow> base_uint" where
  "or_bit q n = q[n div 32 := q ! (n div 32) OR push_bit (n mod 32) 1]"

lemma bit_or_bit:
  assumes "uint_wf q" and "n < 256"
  shows "bit (to256 (or_bit q n)) m \<longleftrightarrow> bit (to256 q) m \<or> m = n"
proof (cases "m < 256")
  case True
  have "m = n \<longleftrightarrow> m div 32 = n div 32 \<and> m mod 32 = n mod 32"
    by (metis div_mult_mod_eq)
  then show ?thesis
    using assms True
    by (auto simp: bit_to256 or_bit_def uint_wf_def nth_list_update bit_or_iff push_bit_of_1 bit_exp_iff)
next
  case False
  then show ?thesis
    using assms by (auto dest: bit_imp_le_length)
qed

lemma uint_wf_or_bit [simp]: "uint_wf q \<Longrightarrow> uint_wf (or_bit q n)"
  by (simp add: or_bit_def uint_wf_def)

lemma or_bit_val:
  assumes "uint_wf q" and "n < 256" and "\<not> bit (limbs_val q) n"
  shows "limbs_val (or_bit q n) = limbs_val q + 2 ^ n"
proof -
  have wf: "uint_wf (or_bit q n)"
    using assms(1) by simp
  have "limbs_val (or_bit q n) = limbs_val q OR 2 ^ n"
    by (rule bit_eqI) (auto simp: bit_limbs_to256 wf assms bit_or_bit bit_or_iff bit_exp_iff)
  also have "\<dots> = limbs_val q + 2 ^ n"
    by (rule disjunctive_add_eq_or [symmetric], rule bit_eqI) (use assms(3) in \<open>auto simp: bit_and_iff bit_exp_iff\<close>)
  finally show ?thesis .
qed

lemma div_loop_val:
  assumes "uint_wf num" "uint_wf d" "uint_wf q" "n \<le> 256" "0 < B"
    and "0 < n \<Longrightarrow> limbs_val d = B * 2 ^ (n - 1)"
    and "limbs_val num < B * 2 ^ n"
    and "\<forall>i<n. \<not> bit (limbs_val q) i"
  shows "uint_wf (div_loop n num d q) \<and> limbs_val (div_loop n num d q) = limbs_val q + limbs_val num div B"
  using assms
proof (induction n arbitrary: num d q)
  case 0
  then show ?case by simp
next
  case (Suc n)
  have d: "limbs_val d = B * 2 ^ n"
    using Suc.prems by simp
  have shr: "limbs_val (uint_shr d 1) = B * 2 ^ (n - 1)" if "0 < n"
    using that Suc.prems(2) by (cases n) (simp_all add: uint_shr_val d)
  show ?case
  proof (cases "CompareTo num d \<ge> 0")
    case True
    then have le: "limbs_val d \<le> limbs_val num"
      using Suc.prems(1,2) by (simp add: CompareTo_val split: if_splits)
    let ?num = "uint_sub num d" and ?q = "or_bit q n"
    have num: "limbs_val ?num = limbs_val num - B * 2 ^ n"
      using uint_sub_val_le [OF Suc.prems(1,2) le] d by simp
    have q: "limbs_val ?q = limbs_val q + 2 ^ n"
      using or_bit_val [of q n] Suc.prems(3,4,8) by simp
    have q_bits: "\<forall>i<n. \<not> bit (limbs_val ?q) i"
      using bit_or_bit [of q n] Suc.prems(3,4,8) by (auto simp: bit_limbs_to256)
    have "uint_wf (div_loop n ?num (uint_shr d 1) ?q) \<and>
      limbs_val (div_loop n ?num (uint_shr d 1) ?q) = limbs_val ?q + limbs_val ?num div B"
      by (rule Suc.IH) (use Suc.prems num shr q_bits in auto)
    moreover have "limbs_val num div B = 2 ^ n + limbs_val ?num div B"
      using le Suc.prems(5) by (simp add: num d div_add_self2 le_div_geq  flip: div_mult_self1)
    ultimately show ?thesis
      using True q by (simp add: or_bit_def)
  next
    case False
    then have lt: "limbs_val num < limbs_val d"
      using Suc.prems(1,2) by (simp add: CompareTo_val split: if_splits)
    have "uint_wf (div_loop n num (uint_shr d 1) q) \<and>
      limbs_val (div_loop n num (uint_shr d 1) q) = limbs_val q + limbs_val num div B"
      by (rule Suc.IH) (use Suc.prems lt shr d in auto)
    then show ?thesis using False by simp
  qed
qed

lemma uint_div_None: "uint_wf b \<Longrightarrow> uint_div a b = None \<longleftrightarrow> limbs_val b = 0"
  using uint_bits_spec(4) [of b] by (auto simp: uint_div_def Let_def)

lemma uint_div_val:
  assumes "uint_wf a" and "uint_wf b" and "limbs_val b \<noteq> 0"
  shows "\<exists>q. uint_div a b = Some q \<and> uint_wf q \<and> limbs_val q = limbs_val a div limbs_val b"
proof (cases "uint_bits a < uint_bits b")
  case True
  have "limbs_val a < 2 ^ uint_bits a"
    using uint_bits_spec(1) [OF assms(1)] .
  also have "\<dots> \<le> 2 ^ (uint_bits b - 1)"
    using True by (intro power_increasing) simp_all
  also have "\<dots> \<le> limbs_val b"
    using uint_bits_spec(3) [OF assms(2,3)] by blast
  finally have "limbs_val a div limbs_val b = 0" by simp
  then show ?thesis
    using True by (simp add: uint_div_def Let_def)
next
  case False
  let ?s = "uint_bits a - uint_bits b"
  have b: "0 < uint_bits b" "2 ^ (uint_bits b - 1) \<le> limbs_val b"
    using uint_bits_spec(3) [OF assms(2,3)] by simp_all
  have "limbs_val b * 2 ^ ?s < 2 ^ uint_bits b * 2 ^ ?s"
    using uint_bits_spec(1) [OF assms(2)] by simp
  also have "\<dots> = 2 ^ uint_bits a"
    using False by (simp flip: power_add)
  also have "\<dots> \<le> 2 ^ 256"
    using uint_bits_spec(2) [OF assms(1)] by (intro power_increasing) simp_all
  finally have shl: "limbs_val (uint_shl b ?s) = limbs_val b * 2 ^ ?s"
    using uint_shl_val [OF assms(2), of ?s] by (simp only: mod_less)
  have "limbs_val a < 2 ^ (uint_bits b - 1) * 2 ^ Suc ?s"
    using uint_bits_spec(1) [OF assms(1)] False b(1) by (simp only: power_add [symmetric]) simp
  then have bound: "limbs_val a < limbs_val b * 2 ^ Suc ?s"
    using mult_le_mono1 [OF b(2), of "2 ^ Suc ?s"] by (rule less_le_trans)
  have "uint_wf (div_loop (Suc ?s) a (uint_shl b ?s) uint_zero) \<and>
    limbs_val (div_loop (Suc ?s) a (uint_shl b ?s) uint_zero) = limbs_val uint_zero + limbs_val a div limbs_val b"
    by (rule div_loop_val)
      (use assms shl bound b uint_bits_spec(2) [OF assms(1)] in auto)
  then show ?thesis
    using False b by (simp add: uint_div_def Let_def)
qed

lemma to256_div:
  assumes "uint_wf a" and "uint_wf b" and "to256 b \<noteq> 0"
  shows "\<exists>q. uint_div a b = Some q \<and> uint_wf q \<and> to256 q = to256 a div to256 b"
proof -
  have "limbs_val b \<noteq> 0"
    using assms(3) by (cases "limbs_val b = 0") (simp_all add: to256_def)
  then obtain q where q: "uint_div a b = Some q" "uint_wf q" "limbs_val q = limbs_val a div limbs_val b"
    using uint_div_val [OF assms(1,2)] by blast
  then have "unat (to256 q) = unat (to256 a div to256 b)"
    using assms by (simp add: unat_to256 unat_div)
  then show ?thesis
    using q by (auto intro: word_unat_eq_iff [THEN iffD2])
qed

lemma unat_to256_uint_of_u64: "limbs_val (uint_of_u64 w) = unat w"
proof -
  have "unat (ucast w :: u32) = unat w mod 2 ^ 32"
    by (simp add: unat_ucast_trunc)
  moreover have "unat (ucast (drop_bit 32 w) :: u32) = unat w div 2 ^ 32"
    using unat_high_limb_less [of w] by (simp add: unat_ucast_trunc unat_high_limb)
  ultimately show ?thesis
    by (simp add: uint_of_u64_def)
qed

lemma to256_of_u64: "to256 (uint_of_u64 w) = ucast w"
  by (simp add: to256_def unat_to256_uint_of_u64)

lemma uint_xor64_eq: "uint_wf a \<Longrightarrow> uint_xor64 a b = uint_xor a (uint_of_u64 b)"
  and uint_or64_eq: "uint_wf a \<Longrightarrow> uint_or64 a b = uint_or a (uint_of_u64 b)"
  by (auto simp: uint_wf_def uint_xor64_def uint_or64_def uint_xor_def uint_or_def uint_of_u64_def nth_list_update nth_Cons
      split: nat.split intro!: nth_equalityI)

lemma GetLow64_val: "uint_wf a \<Longrightarrow> unat (GetLow64 a) = limbs_val a mod 2 ^ 64"
proof -
  assume wf: "uint_wf a"
  have "GetLow64 a = ucast (to256 a)"
  proof (rule bit_word_eqI)
    fix n assume "n < LENGTH(64)"
    then show "bit (GetLow64 a) n = bit (ucast (to256 a) :: u64) n"
      using wf bit_to256_limb [OF wf, of "n - 32" 1] bit_to256_limb [OF wf, of n 0]
      by (cases "n < 32")
        (auto simp: GetLow64_def bit_or_iff bit_push_bit_iff bit_ucast_iff limb_no_bit)
  qed
  then show ?thesis
    using wf by (simp add: unat_ucast_trunc unat_to256)
qed

subsection \<open>Rounding facts on words\<close>

lemma div_sub_Suc: "(m :: nat) \<le> n \<Longrightarrow> 0 < m \<Longrightarrow> (n - m) div m + 1 = n div m"
  using le_div_geq [of m n] by simp

lemma unat_not_word: "unat (NOT t) = 2 ^ LENGTH('a) - (unat t + 1)" for t :: "'a :: len word"
proof -
  have "NOT t = - 1 - t"
    by (simp add: not_eq_complement)
  then show ?thesis
    using unat_sub [of t "- 1"] by (simp add: unsigned_minus_1_eq_mask mask_eq_exp_minus_1)
qed

lemma unat_not_div_Suc:
  fixes t :: "'a :: len word"
  assumes "t \<noteq> - 1" and "t \<noteq> 0"
  shows "unat (NOT t div (t + 1) + 1) = 2 ^ LENGTH('a) div (unat t + 1)"
proof -
  have "1 + t \<noteq> 0"
    using assms(1) by (metis add_eq_0_iff)
  then have t1: "unat (t + 1) = unat t + 1"
    using unatSuc [of t] by (simp add: add.commute)
  have "unat (NOT t div (t + 1)) = (2 ^ LENGTH('a) - (unat t + 1)) div (unat t + 1)"
    by (simp only: unat_div unat_not_word t1)
  then have q: "unat (NOT t div (t + 1)) + 1 = 2 ^ LENGTH('a) div (unat t + 1)"
    using div_sub_Suc [of "unat t + 1" "2 ^ LENGTH('a)"] unat_lt_exp [of t] by simp
  have "0 < unat t"
    using assms(2) by (simp add: unat_gt_0)
  then have "2 ^ LENGTH('a) div (unat t + 1) < (2 ^ LENGTH('a) :: nat)"
    by (intro div_less_dividend) simp_all
  then have "unat (NOT t div (t + 1)) + unat (1 :: 'a word) < 2 ^ LENGTH('a)"
    using q by simp
  from unat_add_exact [OF this] show ?thesis
    using q by simp
qed

subsection \<open>The arithmetic as an interface\<close>

text \<open>
  What the difficulty and stake code relies on: a representation with an abstraction to
  256-bit words that the operators respect.
\<close>

locale uint256_arith =
  fixes wf :: "'u \<Rightarrow> bool"
    and abs :: "'u \<Rightarrow> 256 word"
    and of64 :: "u64 \<Rightarrow> 'u"
    and bnot :: "'u \<Rightarrow> 'u"
    and add :: "'u \<Rightarrow> 'u \<Rightarrow> 'u"
    and sub :: "'u \<Rightarrow> 'u \<Rightarrow> 'u"
    and mult :: "'u \<Rightarrow> 'u \<Rightarrow> 'u"
    and quot :: "'u \<Rightarrow> 'u \<Rightarrow> 'u option"
    and cmp :: "'u \<Rightarrow> 'u \<Rightarrow> int"
  assumes wf_of64: "wf (of64 w)" and abs_of64: "abs (of64 w) = ucast w"
    and wf_bnot: "wf a \<Longrightarrow> wf (bnot a)" and abs_bnot: "wf a \<Longrightarrow> abs (bnot a) = NOT (abs a)"
    and wf_add: "wf a \<Longrightarrow> wf b \<Longrightarrow> wf (add a b)"
    and abs_add: "wf a \<Longrightarrow> wf b \<Longrightarrow> abs (add a b) = abs a + abs b"
    and wf_sub: "wf a \<Longrightarrow> wf b \<Longrightarrow> wf (sub a b)"
    and abs_sub: "wf a \<Longrightarrow> wf b \<Longrightarrow> abs (sub a b) = abs a - abs b"
    and wf_mult: "wf a \<Longrightarrow> wf b \<Longrightarrow> wf (mult a b)"
    and abs_mult: "wf a \<Longrightarrow> wf b \<Longrightarrow> abs (mult a b) = abs a * abs b"
    and quot_zero: "wf a \<Longrightarrow> wf b \<Longrightarrow> abs b = 0 \<Longrightarrow> quot a b = None"
    and quot_some: "wf a \<Longrightarrow> wf b \<Longrightarrow> abs b \<noteq> 0 \<Longrightarrow>
      \<exists>q. quot a b = Some q \<and> wf q \<and> abs q = abs a div abs b"
    and cmp_less: "wf a \<Longrightarrow> wf b \<Longrightarrow> cmp a b < 0 \<longleftrightarrow> abs a < abs b"
    and cmp_greater: "wf a \<Longrightarrow> wf b \<Longrightarrow> cmp a b > 0 \<longleftrightarrow> abs b < abs a"
begin

lemma cmp_le: "wf a \<Longrightarrow> wf b \<Longrightarrow> cmp a b \<le> 0 \<longleftrightarrow> abs a \<le> abs b"
  using cmp_greater [of a b] by (simp add: not_less [symmetric])

lemma add_sub_cancel: "wf a \<Longrightarrow> wf b \<Longrightarrow> abs (sub (add a b) b) = abs a"
  by (simp add: abs_sub abs_add wf_add)

text \<open>The work of a block: the rounding identity the comment in \<open>GetBlockProof\<close> states.\<close>

lemma work_quotient:
  assumes "wf t" and "abs t \<noteq> - 1" and "abs t \<noteq> 0"
  shows "\<exists>q. quot (bnot t) (add t (of64 1)) = Some q \<and> wf (add q (of64 1))
    \<and> unat (abs (add q (of64 1))) = 2 ^ 256 div (unat (abs t) + 1)"
proof -
  have "abs t + 1 \<noteq> 0"
    using assms(2) by (metis add.commute add_eq_0_iff)
  then obtain q where q: "quot (bnot t) (add t (of64 1)) = Some q" "wf q" "abs q = NOT (abs t) div (abs t + 1)"
    using quot_some [of "bnot t" "add t (of64 1)"] assms(1)
    by (auto simp: wf_bnot wf_add wf_of64 abs_bnot abs_add abs_of64)
  then have "abs (add q (of64 1)) = NOT (abs t) div (abs t + 1) + 1"
    by (simp add: abs_add wf_of64 abs_of64)
  then show ?thesis
    using q unat_not_div_Suc [OF assms(2, 3)] by (auto simp: wf_add wf_of64)
qed

end

interpretation arith256: uint256_arith uint_wf to256 uint_of_u64 uint_not uint_add uint_sub uint_mul
  uint_div CompareTo
  by unfold_locales
    (simp_all add: to256_of_u64 to256_not to256_add to256_sub to256_mul to256_div CompareTo_less
      CompareTo_greater uint_div_None unat_to256 [symmetric])


subsection \<open>Properties\<close>

text \<open>C36: on eight-limb arrays every arithmetic, bitwise, shift and comparison operator of
  \<open>base_uint<256>\<close> computes the corresponding operation on 256-bit words, wrap-around included, in the forms with a
  \<open>base_uint\<close> operand (another object than \<open>*this\<close> for \<open>operator*=\<close>), with a 32-bit multiplier and with a 64-bit
  operand.  The exception is \<open>x *= x\<close>: the operator clears \<open>*this\<close> before it reads \<open>b\<close>, so it yields zero and not
  the square.\<close>

theorem base_uint_refines_word:
  assumes "uint_wf a" and "uint_wf b"
  shows "to256 (uint_add a b) = to256 a + to256 b \<and> to256 (uint_sub a b) = to256 a - to256 b
    \<and> to256 (uint_mul a b) = to256 a * to256 b \<and> to256 (uint_mul_self a) = 0 \<and> to256 (uint_mul32 a w) = to256 a * ucast w
    \<and> to256 (uint_neg a) = - to256 a \<and> to256 (uint_inc a) = to256 a + 1 \<and> to256 (uint_dec a) = to256 a - 1
    \<and> to256 (uint_not a) = NOT (to256 a) \<and> to256 (uint_and a b) = to256 a AND to256 b
    \<and> to256 (uint_or a b) = to256 a OR to256 b \<and> to256 (uint_xor a b) = to256 a XOR to256 b
    \<and> to256 (uint_add64 a v) = to256 a + ucast v \<and> to256 (uint_sub64 a v) = to256 a - ucast v
    \<and> to256 (uint_or64 a v) = to256 a OR ucast v \<and> to256 (uint_xor64 a v) = to256 a XOR ucast v
    \<and> to256 (uint_shl a n) = push_bit n (to256 a) \<and> to256 (uint_shr a n) = drop_bit n (to256 a)
    \<and> (CompareTo a b < 0 \<longleftrightarrow> to256 a < to256 b) \<and> (CompareTo a b > 0 \<longleftrightarrow> to256 b < to256 a)
    \<and> (EqualTo a v \<longleftrightarrow> to256 a = ucast v)"
  using assms EqualTo_iff [of a v] to256_inj [of a "uint_of_u64 v"]
  by (simp add: to256_add to256_sub to256_mul to256_mul32 to256_neg to256_inc to256_dec to256_not to256_and
      to256_or to256_xor to256_shl to256_shr CompareTo_less CompareTo_greater to256_of_u64 uint_mul_self_zero
      uint_add64_def uint_sub64_def uint_xor64_eq uint_or64_eq)

theorem base_uint_refines_word_witness:
  "let a = replicate 8 0xffffffff; b = 5 # replicate 7 0
   in uint_wf a \<and> uint_wf b \<and> to256 (uint_add a b) = to256 a + to256 b
    \<and> to256 (uint_shl a 77) = push_bit 77 (to256 a) \<and> (CompareTo b a < 0 \<longleftrightarrow> to256 b < to256 a)"
  using base_uint_refines_word [of "replicate 8 0xffffffff" "5 # replicate 7 0"]
    base_uint_refines_word [of "5 # replicate 7 0" "replicate 8 0xffffffff"]
  by (simp only: Let_def) (simp add: uint_wf_def WIDTH_def)

text \<open>C37: the shift-and-subtract division throws exactly for a zero divisor and otherwise returns
  the exact quotient; \<open>bits\<close> is the position of the highest set bit.\<close>

theorem base_uint_division:
  assumes "uint_wf a" and "uint_wf b"
  shows "(uint_div a b = None \<longleftrightarrow> limbs_val b = 0)
    \<and> (\<forall>q. uint_div a b = Some q \<longrightarrow> uint_wf q \<and> limbs_val q = limbs_val a div limbs_val b)
    \<and> limbs_val a < 2 ^ uint_bits a \<and> (limbs_val a \<noteq> 0 \<longrightarrow> 2 ^ (uint_bits a - 1) \<le> limbs_val a)"
  using uint_div_None [OF assms(2), of a] uint_div_val [OF assms] uint_bits_spec [OF assms(1)]
  by auto

theorem base_uint_division_witness:
  "uint_wf (uint_of_u64 1000) \<and> uint_wf (uint_of_u64 7)
    \<and> (\<exists>q. uint_div (uint_of_u64 1000) (uint_of_u64 7) = Some q \<and> limbs_val q = 142)"
  using base_uint_division [of "uint_of_u64 1000" "uint_of_u64 7"]
  by (simp add: unat_to256_uint_of_u64) blast

end
