(* ===== verification/Arith_Compact.thy ===== *)
theory Arith_Compact
  imports Arith_Uint256
begin

text \<open>
  The compact (\<open>nBits\<close>) encoding of 256-bit targets: \<open>arith_uint256::SetCompact\<close> and
  \<open>GetCompact\<close> of \<open>src/src/arith_uint256.cpp\<close>.
\<close>

unbundle bit_operations_syntax

subsection \<open>The compact encoding\<close>

definition SetCompact :: "u32 \<Rightarrow> base_uint \<times> bool \<times> bool" where
  "SetCompact nCompact =
     (let nSize = unat (drop_bit 24 nCompact);
          w = nCompact AND 0x007fffff;
          nWord = (if nSize \<le> 3 then drop_bit (8 * (3 - nSize)) w else w);
          v = (if nSize \<le> 3 then uint_of_u64 (ucast nWord)
               else uint_shl (uint_of_u64 (ucast nWord)) (8 * (nSize - 3)));
          fNegative = (nWord \<noteq> 0 \<and> nCompact AND 0x00800000 \<noteq> 0);
          fOverflow = (nWord \<noteq> 0 \<and> (nSize > 34 \<or> (nWord > 0xff \<and> nSize > 33)
                                         \<or> (nWord > 0xffff \<and> nSize > 32)))
      in (v, fNegative, fOverflow))"

definition GetCompact :: "base_uint \<Rightarrow> bool \<Rightarrow> u32 option" where
  "GetCompact a fNegative =
     (let nSize = (uint_bits a + 7) div 8;
          nCompact = (if nSize \<le> 3 then ucast (push_bit (8 * (3 - nSize)) (GetLow64 a))
                      else ucast (GetLow64 (uint_shr a (8 * (nSize - 3))))) :: u32;
          big = (nCompact AND 0x00800000 \<noteq> 0);
          nCompact = (if big then drop_bit 8 nCompact else nCompact);
          nSize = (if big then nSize + 1 else nSize)
      in if nCompact AND NOT 0x007fffff \<noteq> 0 then None
         else if \<not> nSize < 256 then None
         else let nCompact = nCompact OR push_bit 24 (of_nat nSize)
              in Some (nCompact OR (if fNegative \<and> nCompact AND 0x007fffff \<noteq> 0 then 0x00800000 else 0)))"

subsection \<open>The compact encoding as a floating-point format\<close>

definition compact_value :: "nat \<Rightarrow> nat \<Rightarrow> nat" where
  "compact_value m e = (if e \<le> 3 then m div 256 ^ (3 - e) else m * 256 ^ (e - 3))"

definition compact_mant :: "nat \<Rightarrow> nat \<Rightarrow> nat" where
  "compact_mant n e = (if e \<le> 3 then n * 256 ^ (3 - e) else n div 256 ^ (e - 3))"

abbreviation mantissa_of :: "u32 \<Rightarrow> nat" where
  "mantissa_of c \<equiv> unat c mod 2 ^ 23"

abbreviation exponent_of :: "u32 \<Rightarrow> nat" where
  "exponent_of c \<equiv> unat c div 2 ^ 24"

lemma unat_and_mantissa: "unat (c AND 0x007fffff :: u32) = mantissa_of c"
proof -
  have "c AND 0x007fffff = take_bit 23 c"
    by (simp add: take_bit_eq_mask mask_eq_exp_minus_1)
  then show ?thesis
    by (simp only: unsigned_take_bit_eq) (simp add: take_bit_nat_def)
qed

lemma and_sign_bit: "c AND 0x00800000 = (0 :: u32) \<longleftrightarrow> \<not> bit c 23"
  using and_exp_eq_0_iff_not_bit [of c 23] by simp

lemma pow_256: "(256 :: nat) ^ k = 2 ^ (8 * k)"
  by (simp add: power_mult)

lemma SetCompact_parts:
  assumes "SetCompact c = (v, neg, ovf)"
  defines "m \<equiv> mantissa_of c" and "e \<equiv> exponent_of c"
  defines "w \<equiv> (if e \<le> 3 then m div 256 ^ (3 - e) else m)"
  shows "uint_wf v" and "limbs_val v = compact_value m e mod 2 ^ 256"
    and "neg \<longleftrightarrow> w \<noteq> 0 \<and> bit c 23"
    and "ovf \<longleftrightarrow> w \<noteq> 0 \<and> (e > 34 \<or> (w > 0xff \<and> e > 33) \<or> (w > 0xffff \<and> e > 32))"
proof -
  define nWord where "nWord = (if e \<le> 3 then drop_bit (8 * (3 - e)) (c AND 0x007fffff) else c AND 0x007fffff)"
  have e: "unat (drop_bit 24 c) = e"
    unfolding e_def by (rule unat_drop_bit)
  have w: "unat nWord = w"
    unfolding nWord_def w_def m_def pow_256
    by (simp only: unat_drop_bit unat_and_mantissa if_distrib [of unat])
  have w32: "nWord = 0 \<longleftrightarrow> w = 0" "0xff < nWord \<longleftrightarrow> 0xff < w" "0xffff < nWord \<longleftrightarrow> 0xffff < w"
    using w by (auto simp: unat_eq_0 [symmetric] word_less_nat_alt)
  have sc: "SetCompact c = (if e \<le> 3 then uint_of_u64 (ucast nWord)
      else uint_shl (uint_of_u64 (ucast nWord)) (8 * (e - 3)),
      nWord \<noteq> 0 \<and> bit c 23,
      nWord \<noteq> 0 \<and> (e > 34 \<or> nWord > 0xff \<and> e > 33 \<or> nWord > 0xffff \<and> e > 32))"
    unfolding SetCompact_def Let_def e nWord_def [symmetric] by (simp add: and_sign_bit)
  have v: "v = (if e \<le> 3 then uint_of_u64 (ucast nWord) else uint_shl (uint_of_u64 (ucast nWord)) (8 * (e - 3)))"
    using assms(1) sc by simp
  then show "uint_wf v" by simp
  have "w < 2 ^ 256"
    using unat_lt_exp [of nWord] w by simp
  then show "limbs_val v = compact_value m e mod 2 ^ 256"
    using w by (cases "e \<le> 3") (simp_all add: v compact_value_def unat_to256_uint_of_u64 uint_shl_val w_def power_mult)
  show "neg \<longleftrightarrow> w \<noteq> 0 \<and> bit c 23"
    using assms(1) sc w32 by simp
  show "ovf \<longleftrightarrow> w \<noteq> 0 \<and> (e > 34 \<or> (w > 0xff \<and> e > 33) \<or> (w > 0xffff \<and> e > 32))"
    using assms(1) sc w32 by simp
qed

lemma compact_overflow_iff:
  fixes m e :: nat
  assumes "m < 2 ^ 23"
  shows "2 ^ 256 \<le> compact_value m e \<longleftrightarrow>
    e > 3 \<and> m \<noteq> 0 \<and> (e > 34 \<or> (m > 0xff \<and> e > 33) \<or> (m > 0xffff \<and> e > 32))"
proof (cases "e \<le> 32")
  case True
  have "compact_value m e < 2 ^ 256"
  proof (cases "e \<le> 3")
    case True
    then have "compact_value m e \<le> m" by (simp add: compact_value_def)
    then show ?thesis using assms by simp
  next
    case False
    then have "compact_value m e < 2 ^ 23 * 256 ^ (e - 3)"
      using assms by (simp only: compact_value_def if_False mult_less_cancel2) simp
    also have "\<dots> = 2 ^ (23 + 8 * (e - 3))"
      by (simp only: pow_256 power_add)
    also have "\<dots> \<le> 2 ^ 256"
      using True False by (intro power_increasing) simp_all
    finally show ?thesis .
  qed
  then show ?thesis using True by (simp add: not_le)
next
  case False
  then consider "e = 33" | "e = 34" | "e > 34" by linarith
  then show ?thesis
  proof cases
    case 3
    have "m * 256 ^ (e - 3) \<ge> 2 ^ 256" if "m \<noteq> 0"
    proof -
      have "(2 :: nat) ^ 256 \<le> 2 ^ (8 * (e - 3))"
        using 3 by (intro power_increasing) simp_all
      also have "\<dots> \<le> m * 256 ^ (e - 3)"
        using that unfolding pow_256 by simp
      finally show ?thesis .
    qed
    then show ?thesis using 3 by (cases "m = 0") (auto simp: compact_value_def)
  next
    case 1
    have "2 ^ 256 \<le> compact_value m e \<longleftrightarrow> 2 ^ 16 * 256 ^ 30 \<le> m * 256 ^ 30"
      using 1 by (simp add: compact_value_def)
    then show ?thesis using 1 by (simp only: mult_le_cancel2) auto
  next
    case 2
    have "2 ^ 256 \<le> compact_value m e \<longleftrightarrow> 2 ^ 8 * 256 ^ 31 \<le> m * 256 ^ 31"
      using 2 by (simp add: compact_value_def)
    then show ?thesis using 2 by (simp only: mult_le_cancel2) auto
  qed
qed

lemma SetCompact_correct:
  assumes "SetCompact c = (v, neg, ovf)"
  shows "uint_wf v" and "ovf \<longleftrightarrow> 2 ^ 256 \<le> compact_value (mantissa_of c) (exponent_of c)"
    and "\<not> ovf \<Longrightarrow> limbs_val v = compact_value (mantissa_of c) (exponent_of c)"
    and "neg \<longleftrightarrow> compact_value (mantissa_of c) (exponent_of c) \<noteq> 0 \<and> bit c 23"
proof -
  let ?m = "mantissa_of c" and ?e = "exponent_of c"
  note parts = SetCompact_parts [OF assms]
  show "uint_wf v" by (rule parts(1))
  show ovf: "ovf \<longleftrightarrow> 2 ^ 256 \<le> compact_value ?m ?e"
  proof (cases "?e \<le> 3")
    case True
    then show ?thesis
      unfolding parts(4) by (subst compact_overflow_iff) (simp_all del: power_Suc)
  next
    case False
    then show ?thesis
      unfolding parts(4) by (subst compact_overflow_iff) simp_all
  qed
  show "\<not> ovf \<Longrightarrow> limbs_val v = compact_value ?m ?e"
    unfolding ovf by (subst parts(2)) (simp only: not_le mod_less)
  show "neg \<longleftrightarrow> compact_value ?m ?e \<noteq> 0 \<and> bit c 23"
    unfolding parts(3) by (cases "?e \<le> 3") (simp_all add: compact_value_def)
qed

subsection \<open>Encoding\<close>

definition byte_size :: "base_uint \<Rightarrow> nat" where
  "byte_size a = (uint_bits a + 7) div 8"

lemma byte_size_bounds:
  assumes "uint_wf a"
  shows "limbs_val a < 256 ^ byte_size a" and "byte_size a \<le> 32"
    and "limbs_val a \<noteq> 0 \<Longrightarrow> 0 < byte_size a \<and> 256 ^ (byte_size a - 1) \<le> limbs_val a"
proof -
  let ?b = "uint_bits a" and ?s = "byte_size a"
  note spec = uint_bits_spec [OF assms]
  have "limbs_val a < 2 ^ ?b" by (rule spec(1))
  also have "\<dots> \<le> 2 ^ (8 * ?s)"
    by (intro power_increasing) (simp_all add: byte_size_def)
  finally show "limbs_val a < 256 ^ ?s"
    by (simp only: pow_256)
  show "?s \<le> 32"
    using spec(2) by (simp add: byte_size_def)
  assume "limbs_val a \<noteq> 0"
  then have b: "0 < ?b" "2 ^ (?b - 1) \<le> limbs_val a"
    using spec(3) by simp_all
  have "(2 :: nat) ^ (8 * (?s - 1)) \<le> 2 ^ (?b - 1)"
    using b(1) by (intro power_increasing) (simp_all add: byte_size_def)
  then have "256 ^ (?s - 1) \<le> limbs_val a"
    unfolding pow_256 using b(2) by (rule le_trans)
  moreover have "0 < ?s"
    using b(1) by (simp add: byte_size_def div_greater_zero_iff)
  ultimately show "0 < ?s \<and> 256 ^ (?s - 1) \<le> limbs_val a" by simp
qed

lemma compact_mant_bounds:
  assumes "uint_wf a"
  shows "compact_mant (limbs_val a) (byte_size a) < 2 ^ 24"
    and "limbs_val a \<noteq> 0 \<Longrightarrow> 2 ^ 16 \<le> compact_mant (limbs_val a) (byte_size a)"
proof -
  let ?n = "limbs_val a" and ?s = "byte_size a"
  note b = byte_size_bounds [OF assms]
  have split_le: "256 ^ 3 = 256 ^ ?s * (256 :: nat) ^ (3 - ?s)" if "?s \<le> 3"
    using that by (simp only: power_add [symmetric]) simp
  have split_gt: "256 ^ ?s = (256 :: nat) ^ 3 * 256 ^ (?s - 3)" if "\<not> ?s \<le> 3"
    using that by (simp only: power_add [symmetric]) simp
  have "compact_mant ?n ?s < 256 ^ 3"
  proof (cases "?s \<le> 3")
    case True
    then show ?thesis
      using b(1) unfolding split_le [OF True] by (simp add: compact_mant_def)
  next
    case False
    then show ?thesis
      using b(1) unfolding split_gt [OF False] by (simp add: compact_mant_def div_less_iff_less_mult)
  qed
  then show "compact_mant ?n ?s < 2 ^ 24" by simp
  assume "?n \<noteq> 0"
  then have s: "0 < ?s" "256 ^ (?s - 1) \<le> ?n"
    using b(3) by simp_all
  have "256 ^ 2 \<le> compact_mant ?n ?s"
  proof (cases "?s \<le> 3")
    case True
    have "(256 :: nat) ^ 2 = 256 ^ (?s - 1) * 256 ^ (3 - ?s)"
      using True s(1) by (simp only: power_add [symmetric]) simp
    also have "\<dots> \<le> compact_mant ?n ?s"
      using True s(2) by (simp add: compact_mant_def)
    finally show ?thesis .
  next
    case False
    have "?s - 1 = 2 + (?s - 3)"
      using False by simp
    then have "256 ^ (?s - 1) = (256 :: nat) ^ 2 * 256 ^ (?s - 3)"
      by (metis power_add)
    then show ?thesis
      using False s(2) by (simp add: compact_mant_def less_eq_div_iff_mult_less_eq)
  qed
  then show "2 ^ 16 \<le> compact_mant ?n ?s" by simp
qed

lemma compact_mant_Suc: "compact_mant n s div 256 = compact_mant n (Suc s)"
proof (cases "s < 3")
  case True
  then have "3 - s = Suc (3 - Suc s)"
    by simp
  then have "256 ^ (3 - s) = (256 :: nat) ^ (3 - Suc s) * 256"
    by (metis power_Suc2)
  then show ?thesis
    using True by (simp add: compact_mant_def flip: mult.assoc)
next
  case False
  then have "Suc s - 3 = Suc (s - 3)"
    by simp
  then have "(256 :: nat) ^ (Suc s - 3) = 256 ^ (s - 3) * 256"
    by (metis power_Suc2)
  then show ?thesis
    using False by (simp only: compact_mant_def) (auto simp: div_mult2_eq)
qed

lemma compact_value_mant: "compact_value (compact_mant n s) s = n - n mod 256 ^ (s - 3)"
  by (simp add: compact_value_def compact_mant_def minus_mod_eq_div_mult)

text \<open>The normalised size: one more byte when the top bit of the mantissa is taken.\<close>

definition compact_size :: "base_uint \<Rightarrow> nat" where
  "compact_size a =
     (if 2 ^ 23 \<le> compact_mant (limbs_val a) (byte_size a) then Suc (byte_size a) else byte_size a)"

lemma compact_size_bounds:
  assumes "uint_wf a"
  shows "compact_mant (limbs_val a) (compact_size a) < 2 ^ 23" and "compact_size a \<le> 33"
    and "limbs_val a \<noteq> 0 \<Longrightarrow> 2 ^ 15 \<le> compact_mant (limbs_val a) (compact_size a)"
proof -
  note b = compact_mant_bounds [OF assms] byte_size_bounds(2) [OF assms]
  show "compact_mant (limbs_val a) (compact_size a) < 2 ^ 23"
    using b(1) by (simp add: compact_size_def compact_mant_Suc [symmetric] div_less_iff_less_mult)
  show "compact_size a \<le> 33"
    using b(3) by (simp add: compact_size_def)
  show "2 ^ 15 \<le> compact_mant (limbs_val a) (compact_size a)" if "limbs_val a \<noteq> 0"
    using b(2) [OF that] by (simp add: compact_size_def compact_mant_Suc [symmetric] less_eq_div_iff_mult_less_eq)
qed

lemma GetCompact_word:
  assumes "uint_wf a"
  defines "s \<equiv> byte_size a"
  defines "w \<equiv> (if s \<le> 3 then ucast (push_bit (8 * (3 - s)) (GetLow64 a))
                 else ucast (GetLow64 (uint_shr a (8 * (s - 3))))) :: u32"
  shows "unat w = compact_mant (limbs_val a) s"
proof -
  let ?n = "limbs_val a"
  have lt: "compact_mant ?n s < 2 ^ 24"
    using compact_mant_bounds(1) [OF assms(1)] by (simp add: s_def)
  show ?thesis
  proof (cases "s \<le> 3")
    case True
    have n: "?n * 2 ^ (8 * (3 - s)) < 2 ^ 24"
      using lt True by (simp only: compact_mant_def pow_256 if_True)
    then have "?n < 2 ^ 24"
      by (rule le_less_trans [rotated]) simp
    then have low: "unat (GetLow64 a) = ?n"
      using GetLow64_val [OF assms(1)] by simp
    have "unat (push_bit (8 * (3 - s)) (GetLow64 a)) = take_bit 64 (push_bit (8 * (3 - s)) ?n)"
      by (simp only: unsigned_push_bit_eq low) simp
    also have "\<dots> = ?n * 2 ^ (8 * (3 - s))"
      using n by (simp add: push_bit_eq_mult take_bit_nat_def)
    finally show ?thesis
      using True n by (simp add: w_def unat_ucast_trunc compact_mant_def pow_256)
  next
    case False
    have "?n div 2 ^ (8 * (s - 3)) < 2 ^ 24"
      using lt False by (simp only: compact_mant_def pow_256 if_False)
    then show ?thesis
      using False GetLow64_val [of "uint_shr a (8 * (s - 3))"] assms(1)
      by (simp add: w_def unat_ucast_trunc compact_mant_def pow_256 uint_shr_val)
  qed
qed

lemma bit_word_unat: "bit (w :: 'a::len word) n \<longleftrightarrow> bit (unat w) n"
  by (auto simp: bit_unsigned_iff)

lemma nat_no_bit: "(v :: nat) < 2 ^ k \<Longrightarrow> k \<le> n \<Longrightarrow> \<not> bit v n"
  using power_increasing [of k n 2] by (simp add: bit_iff_odd less_le_trans [of v "2 ^ k" "2 ^ n"])

lemma or_disjoint_add: "(x :: u32) AND y = 0 \<Longrightarrow> x OR y = x + y"
  by (simp add: disjunctive_add_eq_or)

lemma compact_fields:
  fixes m d s :: nat
  assumes "m < 2 ^ 23" and "d = 0 \<or> d = 2 ^ 23"
  shows "(m + 2 ^ 24 * s + d) div 2 ^ 24 = s" and "(m + 2 ^ 24 * s + d) mod 2 ^ 23 = m"
proof -
  have "m + 2 ^ 24 * s + d = (m + d) + 2 ^ 24 * s" and "m + d < 2 ^ 24"
    using assms by auto
  then show "(m + 2 ^ 24 * s + d) div 2 ^ 24 = s"
    by (simp only: div_mult_self2) simp
  have "m + 2 ^ 24 * s + d = m + 2 ^ 23 * (2 * s + d div 2 ^ 23)"
    using assms(2) by auto
  then show "(m + 2 ^ 24 * s + d) mod 2 ^ 23 = m"
    using assms(1) by (simp only: mod_mult_self2 mod_less)
qed

lemma GetCompact_correct:
  assumes "uint_wf a"
  shows "\<exists>c. GetCompact a fNeg = Some c \<and> exponent_of c = compact_size a
    \<and> mantissa_of c = compact_mant (limbs_val a) (compact_size a)
    \<and> (bit c 23 \<longleftrightarrow> fNeg \<and> limbs_val a \<noteq> 0)"
proof -
  let ?s = "byte_size a" and ?n = "limbs_val a"
  let ?M = "compact_mant ?n (compact_size a)"
  define w where "w = (if ?s \<le> 3 then ucast (push_bit (8 * (3 - ?s)) (GetLow64 a))
                 else ucast (GetLow64 (uint_shr a (8 * (?s - 3)))) :: u32)"
  have w: "unat w = compact_mant ?n ?s"
    unfolding w_def by (rule GetCompact_word [OF assms])
  have big: "w AND 0x00800000 \<noteq> 0 \<longleftrightarrow> 2 ^ 23 \<le> compact_mant ?n ?s"
    using nat_top_bit [of "unat w" 23] compact_mant_bounds(1) [OF assms] w
    by (simp add: and_sign_bit bit_word_unat)
  define x where "x = (if w AND 0x00800000 \<noteq> 0 then drop_bit 8 w else w)"
  have x: "unat x = ?M"
    using big by (simp add: x_def compact_size_def unat_drop_bit w compact_mant_Suc)
  have M: "?M < 2 ^ 23" and S: "compact_size a \<le> 33"
    using compact_size_bounds [OF assms] by simp_all
  have size: "(if w AND 0x00800000 \<noteq> 0 then ?s + 1 else ?s) = compact_size a"
    using big by (simp add: compact_size_def)
  have x_bits: "\<not> bit x n" if "23 \<le> n" for n
    using nat_no_bit [OF M that] by (simp add: bit_word_unat x)
  have "x AND NOT (mask 23) = 0"
    by (rule bit_word_eqI) (use x_bits in \<open>auto simp: bit_and_iff bit_not_iff bit_mask_iff not_less\<close>)
  then have assert1: "x AND NOT 0x007fffff = 0"
    by (simp add: mask_eq_exp_minus_1)
  let ?S = "of_nat (compact_size a) :: u32"
  have uS: "unat (push_bit 24 ?S) = compact_size a * 2 ^ 24"
    using S by (simp only: unsigned_push_bit_eq unat_of_nat) (simp add: push_bit_eq_mult take_bit_nat_def)
  define y where "y = x OR push_bit 24 ?S"
  have "x AND push_bit 24 ?S = 0"
    by (rule bit_word_eqI) (use x_bits in \<open>auto simp: bit_and_iff bit_push_bit_iff\<close>)
  then have y: "unat y = ?M + 2 ^ 24 * compact_size a"
    using M S uS x by (simp add: y_def or_disjoint_add unat_word_ariths)
  have y_mant: "y AND 0x007fffff = 0 \<longleftrightarrow> limbs_val a = 0"
  proof -
    have "y AND 0x007fffff = 0 \<longleftrightarrow> ?M = 0"
      using M by (simp only: unat_eq_0 [symmetric] unat_and_mantissa y) (simp add: mod_add_eq [symmetric] mod_mult_left_eq [symmetric])
    then show ?thesis
      using compact_size_bounds(3) [OF assms] by (cases "limbs_val a = 0") (auto simp: compact_mant_def)
  qed
  have y23: "\<not> bit y 23"
    using x_bits [of 23] by (simp add: y_def bit_or_iff bit_push_bit_iff)
  define c where "c = y OR (if fNeg \<and> y AND 0x007fffff \<noteq> 0 then 0x00800000 else 0)"
  have c: "unat c = ?M + 2 ^ 24 * compact_size a + (if fNeg \<and> limbs_val a \<noteq> 0 then 2 ^ 23 else 0)"
    using y y23 M S by (simp add: c_def y_mant or_disjoint_add and_sign_bit unat_word_ariths)
  have "GetCompact a fNeg = Some c"
    using assert1 S unfolding GetCompact_def Let_def byte_size_def [symmetric] w_def [symmetric]
      x_def [symmetric] size y_def [symmetric] c_def [symmetric] by simp
  moreover have "exponent_of c = compact_size a" "mantissa_of c = ?M"
    using compact_fields [OF M, of "if fNeg \<and> limbs_val a \<noteq> 0 then 2 ^ 23 else 0" "compact_size a"] c
    by simp_all
  moreover have "bit c 23 \<longleftrightarrow> fNeg \<and> limbs_val a \<noteq> 0"
    using y23 by (auto simp: c_def y_mant bit_or_iff and_sign_bit)
  ultimately show ?thesis by blast
qed

lemma compact_truncation:
  assumes "uint_wf a"
  defines "v \<equiv> compact_value (compact_mant (limbs_val a) (compact_size a)) (compact_size a)"
  shows "v \<le> limbs_val a" and "2 ^ 15 * (limbs_val a - v) \<le> limbs_val a"
proof -
  let ?n = "limbs_val a" and ?K = "(256 :: nat) ^ (compact_size a - 3)"
  have v: "v = ?n - ?n mod ?K"
    by (simp add: v_def compact_value_mant)
  then show "v \<le> ?n" by simp
  show "2 ^ 15 * (?n - v) \<le> ?n"
  proof (cases "?n = 0 \<or> compact_size a \<le> 3")
    case True
    then show ?thesis by (auto simp: v)
  next
    case False
    then have "2 ^ 15 \<le> ?n div ?K"
      using compact_size_bounds(3) [OF assms(1)] by (simp add: compact_mant_def)
    then have "2 ^ 15 * ?K \<le> ?n"
      by (simp add: less_eq_div_iff_mult_less_eq)
    moreover have "2 ^ 15 * (?n mod ?K) \<le> 2 ^ 15 * ?K"
      by (intro mult_le_mono2) (simp add: less_imp_le)
    moreover have "?n - v = ?n mod ?K"
      by (simp add: v)
    ultimately show ?thesis by (metis le_trans)
  qed
qed

lemma SetCompact_GetCompact:
  assumes "uint_wf a"
  shows "\<exists>c v. GetCompact a False = Some c \<and> SetCompact c = (v, False, False) \<and> uint_wf v
    \<and> limbs_val v \<le> limbs_val a \<and> 2 ^ 15 * (limbs_val a - limbs_val v) \<le> limbs_val a"
proof -
  obtain c where c: "GetCompact a False = Some c" "exponent_of c = compact_size a"
    "mantissa_of c = compact_mant (limbs_val a) (compact_size a)" "\<not> bit c 23"
    using GetCompact_correct [OF assms, of False] by auto
  obtain v neg ovf where sc: "SetCompact c = (v, neg, ovf)"
    by (cases "SetCompact c") auto
  note sc_ok = SetCompact_correct [OF sc, unfolded c(2,3)]
  note tr = compact_truncation [OF assms]
  have "compact_value (compact_mant (limbs_val a) (compact_size a)) (compact_size a) < 2 ^ 256"
    using tr(1) limbs_val_less [of a] assms by (simp add: uint_wf_def)
  then have "\<not> ovf" "\<not> neg"
    using sc_ok(2,4) c(4) by simp_all
  with sc sc_ok c(1) tr show ?thesis by auto
qed

lemma byte_size_unique:
  assumes "uint_wf a" and "256 ^ (s - 1) \<le> limbs_val a" and "limbs_val a < 256 ^ s" and "0 < s"
  shows "byte_size a = s"
proof -
  have n: "limbs_val a \<noteq> 0"
    using assms(2) by (metis less_le_trans less_numeral_extra(3) zero_less_numeral zero_less_power)
  note b = byte_size_bounds [OF assms(1)]
  have "(256 :: nat) ^ (s - 1) < 256 ^ byte_size a"
    using b(1) assms(2) by linarith
  then have "s - 1 < byte_size a" by (simp add: power_strict_increasing_iff)
  moreover have "(256 :: nat) ^ (byte_size a - 1) < 256 ^ s"
    using b(3) [OF n] assms(3) by linarith
  then have "byte_size a - 1 < s" by (simp add: power_strict_increasing_iff)
  ultimately show ?thesis using assms(4) b(3) [OF n] by linarith
qed

definition canonical_compact :: "u32 \<Rightarrow> bool" where
  "canonical_compact c \<longleftrightarrow> \<not> bit c 23 \<and> 2 ^ 15 \<le> mantissa_of c \<and> 3 \<le> exponent_of c \<and> exponent_of c \<le> 32"

lemma div_mod_2_eq: "d div 2 = e \<Longrightarrow> d mod 2 = r \<Longrightarrow> (d :: nat) = 2 * e + r"
  by auto

lemma compact_split: "unat (c :: u32) = mantissa_of c + 2 ^ 24 * exponent_of c + (if bit c 23 then 2 ^ 23 else 0)"
proof -
  have c: "unat c = mantissa_of c + 2 ^ 23 * (unat c div 2 ^ 23)"
    by (simp only: mod_mult_div_eq)
  have odd: "(unat c div 2 ^ 23) mod 2 = (if bit c 23 then 1 else 0)"
    by (simp add: bit_word_unat bit_iff_odd mod_2_eq_odd)
  have "unat c div 2 ^ 23 div 2 = exponent_of c"
    by (simp flip: div_mult2_eq)
  then have "unat c div 2 ^ 23 = 2 * exponent_of c + (if bit c 23 then 1 else 0)"
    using odd by (rule div_mod_2_eq)
  then show ?thesis
    using c by (cases "bit c 23") simp_all
qed

lemma compact_eqI:
  "mantissa_of c = mantissa_of d \<Longrightarrow> exponent_of c = exponent_of d \<Longrightarrow> (bit c 23 \<longleftrightarrow> bit d 23) \<Longrightarrow> c = (d :: u32)"
  using compact_split [of c] compact_split [of d] by (simp add: word_unat_eq_iff)

lemma compact_range:
  fixes m e :: nat
  assumes "2 ^ 15 \<le> m" and "m < 2 ^ 23" and "3 \<le> e"
  shows "m * 256 ^ (e - 3) < 256 ^ e" and "256 ^ (e - 2) \<le> m * 256 ^ (e - 3)"
    and "2 ^ 16 \<le> m \<Longrightarrow> 256 ^ (e - 1) \<le> m * 256 ^ (e - 3)"
    and "m < 2 ^ 16 \<Longrightarrow> m * 256 ^ (e - 3) < 256 ^ (e - 1)"
proof -
  obtain k where "e = k + 3"
    using assms by (metis add.commute le_iff_add)
  then show "m * 256 ^ (e - 3) < 256 ^ e" and "256 ^ (e - 2) \<le> m * 256 ^ (e - 3)"
    and "2 ^ 16 \<le> m \<Longrightarrow> 256 ^ (e - 1) \<le> m * 256 ^ (e - 3)"
    and "m < 2 ^ 16 \<Longrightarrow> m * 256 ^ (e - 3) < 256 ^ (e - 1)"
    using assms(1, 2) by (simp_all add: power_add)
qed

lemma GetCompact_SetCompact:
  assumes "canonical_compact c" and "SetCompact c = (v, neg, ovf)"
  shows "GetCompact v False = Some c"
proof -
  let ?m = "mantissa_of c" and ?e = "exponent_of c"
  have m: "2 ^ 15 \<le> ?m" "?m < 2 ^ 23" and e: "3 \<le> ?e" "?e \<le> 32" and b: "\<not> bit c 23"
    using assms(1) by (auto simp: canonical_compact_def)
  note sc = SetCompact_correct [OF assms(2)]
  have "\<not> ovf"
    using sc(2) compact_overflow_iff [OF m(2), of ?e] e by simp
  then have n: "limbs_val v = ?m * 256 ^ (?e - 3)"
    using sc(3) e by (cases "?e = 3") (simp_all add: compact_value_def)
  have mant: "compact_mant (limbs_val v) ?e = ?m"
    using e by (cases "?e = 3") (simp_all add: n compact_mant_def)
  note range = compact_range [OF m e(1)]
  have size: "compact_size v = ?e"
  proof (cases "2 ^ 16 \<le> ?m")
    case True
    have "byte_size v = ?e"
      using byte_size_unique [OF sc(1), of ?e] range(1) range(3) [OF True] e unfolding n by simp
    then show ?thesis
      using m(2) mant by (simp add: compact_size_def)
  next
    case False
    have "byte_size v = ?e - 1"
      using byte_size_unique [OF sc(1), of "?e - 1"] range(2) range(4) False e unfolding n
      by (simp add: not_le numeral_2_eq_2)
    moreover have "compact_mant (limbs_val v) (?e - 1) div 256 = ?m"
      using compact_mant_Suc [of "limbs_val v" "?e - 1"] e mant by simp
    then have "2 ^ 23 \<le> compact_mant (limbs_val v) (?e - 1)"
      using m(1) by (simp add: less_eq_div_iff_mult_less_eq [symmetric])
    ultimately show ?thesis
      using e by (simp add: compact_size_def)
  qed
  obtain d where "GetCompact v False = Some d" "exponent_of d = ?e" "mantissa_of d = ?m" "\<not> bit d 23"
    using GetCompact_correct [OF sc(1), of False] size mant by auto
  then show ?thesis
    using compact_eqI [of d c] b by simp
qed



subsection \<open>Properties\<close>

text \<open>C38: \<open>SetCompact\<close> decodes \<open>nBits\<close> as the number mantissa * 256 ^ (exponent - 3): the overflow
  flag is set exactly when that number does not fit in 256 bits, without overflow the value is
  exact, and the sign flag is set exactly for a nonzero value whose sign bit is set.\<close>

theorem SetCompact_exact:
  assumes "SetCompact c = (v, neg, ovf)"
  shows "(ovf \<longleftrightarrow> 2 ^ 256 \<le> compact_value (mantissa_of c) (exponent_of c))
    \<and> (\<not> ovf \<longrightarrow> limbs_val v = compact_value (mantissa_of c) (exponent_of c))
    \<and> (neg \<longleftrightarrow> compact_value (mantissa_of c) (exponent_of c) \<noteq> 0 \<and> bit c 23)"
  using SetCompact_correct [OF assms] by blast

theorem SetCompact_exact_witness:
  "case SetCompact 0x04923456 of (v, neg, ovf) \<Rightarrow> neg \<and> \<not> ovf \<and> limbs_val v = 0x12345600"
proof -
  obtain v neg ovf where sc: "SetCompact 0x04923456 = (v, neg, ovf)"
    by (cases "SetCompact 0x04923456") auto
  show ?thesis
    using SetCompact_exact [OF sc] by (simp add: sc compact_value_def bit_numeral_rec)
qed

text \<open>the asserts of \<open>GetCompact\<close> never fail; the encoding rounds down and loses less than one
  part in 2 ^ 15, and decoding the encoding never reports a sign or an overflow.\<close>

theorem GetCompact_precision:
  assumes "uint_wf a"
  shows "\<exists>c v. GetCompact a False = Some c \<and> SetCompact c = (v, False, False) \<and> uint_wf v
    \<and> limbs_val v \<le> limbs_val a \<and> 2 ^ 15 * (limbs_val a - limbs_val v) \<le> limbs_val a"
  by (rule SetCompact_GetCompact [OF assms])

theorem GetCompact_precision_witness:
  "uint_wf (uint_of_u64 0x123456789a) \<and> (\<exists>c v. GetCompact (uint_of_u64 0x123456789a) False = Some c
    \<and> SetCompact c = (v, False, False)
    \<and> 2 ^ 15 * (limbs_val (uint_of_u64 0x123456789a) - limbs_val v) \<le> limbs_val (uint_of_u64 0x123456789a))"
  using GetCompact_precision [of "uint_of_u64 0x123456789a"] by (simp del: One_nat_def) blast

text \<open>a normalised target survives the round trip: encoding the decoded value of a canonical
  \<open>nBits\<close> gives the same \<open>nBits\<close>.\<close>

theorem compact_roundtrip:
  assumes "canonical_compact c" and "SetCompact c = (v, neg, ovf)"
  shows "GetCompact v False = Some c"
  by (rule GetCompact_SetCompact [OF assms])

theorem compact_roundtrip_witness:
  "canonical_compact 0x1d00ffff \<and> GetCompact (fst (SetCompact 0x1d00ffff)) False = Some 0x1d00ffff"
proof -
  have c: "canonical_compact 0x1d00ffff"
    by (simp add: canonical_compact_def bit_numeral_rec)
  obtain v neg ovf where "SetCompact 0x1d00ffff = (v, neg, ovf)"
    by (cases "SetCompact 0x1d00ffff") auto
  with compact_roundtrip [OF c this] c show ?thesis by simp
qed

end
