(* ===== verification/Bytes_Common.thy ===== *)
theory Bytes_Common
  imports Prelude
begin

text \<open>
  Little- and big-endian access to byte arrays, \<open>src/src/crypto/common.h\<close>.  A pointer into a
  buffer is the list of the bytes from there on; a \<open>Write\<close> returns the bytes it stores.  The
  lemmas are the round trips the hash functions, the target conversions and the serialisers use.
\<close>

unbundle bit_operations_syntax

definition ReadLE16 :: "bytes \<Rightarrow> u16" where
  "ReadLE16 p = ucast (p ! 0) OR push_bit 8 (ucast (p ! 1))"

definition ReadLE32 :: "bytes \<Rightarrow> u32" where
  "ReadLE32 p = ucast (p ! 0) OR push_bit 8 (ucast (p ! 1)) OR push_bit 16 (ucast (p ! 2))
     OR push_bit 24 (ucast (p ! 3))"

definition ReadLE64 :: "bytes \<Rightarrow> u64" where
  "ReadLE64 p = ucast (ReadLE32 p) OR push_bit 32 (ucast (ReadLE32 (drop 4 p)))"

definition WriteLE16 :: "u16 \<Rightarrow> bytes" where
  "WriteLE16 x = [ucast x, ucast (drop_bit 8 x)]"

definition WriteLE32 :: "u32 \<Rightarrow> bytes" where
  "WriteLE32 x = [ucast x, ucast (drop_bit 8 x), ucast (drop_bit 16 x), ucast (drop_bit 24 x)]"

definition WriteLE64 :: "u64 \<Rightarrow> bytes" where
  "WriteLE64 x = WriteLE32 (ucast x) @ WriteLE32 (ucast (drop_bit 32 x))"

definition ReadBE32 :: "bytes \<Rightarrow> u32" where
  "ReadBE32 p = ReadLE32 (rev (take 4 p))"

definition ReadBE64 :: "bytes \<Rightarrow> u64" where
  "ReadBE64 p = ReadLE64 (rev (take 8 p))"

definition WriteBE32 :: "u32 \<Rightarrow> bytes" where
  "WriteBE32 x = rev (WriteLE32 x)"

definition WriteBE64 :: "u64 \<Rightarrow> bytes" where
  "WriteBE64 x = rev (WriteLE64 x)"

lemma length_Write [simp]:
  "length (WriteLE16 w) = 2" "length (WriteLE32 x) = 4" "length (WriteLE64 y) = 8"
  "length (WriteBE32 x) = 4" "length (WriteBE64 y) = 8"
  by (simp_all add: WriteLE16_def WriteLE32_def WriteLE64_def WriteBE32_def WriteBE64_def)

lemma ReadLE16_Write [simp]: "ReadLE16 (WriteLE16 x @ r) = x"
  by (rule bit_word_eqI)
    (auto simp: ReadLE16_def WriteLE16_def bit_or_iff bit_push_bit_iff bit_ucast_iff bit_drop_bit_eq)

lemma ReadLE32_Write [simp]: "ReadLE32 (WriteLE32 x @ r) = x"
proof (rule bit_word_eqI)
  fix n assume "n < LENGTH(32)"
  then consider "n < 8" | "8 \<le> n" "n < 16" | "16 \<le> n" "n < 24" | "24 \<le> n" "n < 32" by fastforce
  then show "bit (ReadLE32 (WriteLE32 x @ r)) n = bit x n"
    by cases (auto simp: ReadLE32_def WriteLE32_def bit_or_iff bit_push_bit_iff bit_ucast_iff bit_drop_bit_eq)
qed

lemma ReadLE64_Write [simp]: "ReadLE64 (WriteLE64 x @ r) = x"
  by (rule bit_word_eqI)
    (auto simp: ReadLE64_def WriteLE64_def bit_or_iff bit_push_bit_iff bit_ucast_iff bit_drop_bit_eq)

lemma ReadBE32_Write [simp]: "ReadBE32 (WriteBE32 x @ r) = x"
  using ReadLE32_Write [of x "[]"] by (simp add: ReadBE32_def WriteBE32_def)

lemma ReadBE64_Write [simp]: "ReadBE64 (WriteBE64 x @ r) = x"
  using ReadLE64_Write [of x "[]"] by (simp add: ReadBE64_def WriteBE64_def)

lemma list_4: "length p = 4 \<Longrightarrow> p = [p ! 0, p ! 1, p ! 2, p ! 3]"
  by (cases p; cases "tl p"; cases "tl (tl p)"; cases "tl (tl (tl p))") auto

lemma WriteLE32_Read: "length p = 4 \<Longrightarrow> WriteLE32 (ReadLE32 p) = p"
proof -
  assume "length p = 4"
  then obtain a b c d where "p = [a, b, c, d]"
    by (metis list_4)
  moreover have "WriteLE32 (ReadLE32 [a, b, c, d]) = [a, b, c, d]"
    unfolding WriteLE32_def list.inject
    by (intro conjI bit_word_eqI)
      (auto simp: ReadLE32_def bit_or_iff bit_push_bit_iff bit_ucast_iff bit_drop_bit_eq dest: bit_imp_le_length)
  ultimately show ?thesis by simp
qed

lemma ReadLE32_take: "4 \<le> n \<Longrightarrow> ReadLE32 (take n p) = ReadLE32 p"
  by (simp add: ReadLE32_def)

lemma ReadLE32_append: "4 \<le> length p \<Longrightarrow> ReadLE32 (p @ r) = ReadLE32 p"
  by (cases p) (auto simp: ReadLE32_def nth_append)

end
