(* ===== verification/Md_Stream.thy ===== *)
theory Md_Stream
  imports Bytes_Common
begin

text \<open>
  The buffering shared by the hash classes of \<open>src/src/crypto\<close>: \<open>CSHA1\<close>, \<open>CSHA256\<close>, \<open>CSHA512\<close> and
  \<open>CRIPEMD160\<close> have the same \<open>Write\<close> and \<open>Finalize\<close> around their own \<open>Transform\<close>.  The record
  holds the members \<open>s\<close>, \<open>buf\<close> and \<open>bytes\<close>; the functions take the block size (64 or 128) and
  the transform.  The locale \<open>md_hash\<close> states what a transform has to provide; inside it the
  streaming interface is shown to compute the padded one-shot hash of everything written.
\<close>

record 's md_state =
  md_s :: 's
  md_buf :: bytes
  md_bytes :: u64

definition memcpy_at :: "bytes \<Rightarrow> nat \<Rightarrow> bytes \<Rightarrow> bytes" where
  "memcpy_at buf off src = take off buf @ src @ drop (off + length src) buf"

definition md_init :: "nat \<Rightarrow> 's \<Rightarrow> 's md_state" where
  "md_init B s0 = \<lparr>md_s = s0, md_buf = replicate B 0, md_bytes = 0\<rparr>"

function md_chunks :: "nat \<Rightarrow> ('s \<Rightarrow> bytes \<Rightarrow> 's) \<Rightarrow> bytes \<Rightarrow> 's md_state \<Rightarrow> 's md_state \<times> bytes" where
  "md_chunks B f data st =
     (if B = 0 \<or> length data < B then (st, data)
      else md_chunks B f (drop B data)
             (st\<lparr>md_s := f (md_s st) (take B data), md_bytes := md_bytes st + of_nat B\<rparr>))"
  by pat_completeness auto
termination
  by (relation "measure (\<lambda>(B, f, data, st). length data)") auto

declare md_chunks.simps [simp del]

definition md_write :: "nat \<Rightarrow> ('s \<Rightarrow> bytes \<Rightarrow> 's) \<Rightarrow> bytes \<Rightarrow> 's md_state \<Rightarrow> 's md_state" where
  "md_write B f data st =
     (let bufsize = unat (md_bytes st) mod B;
          (st, data, bufsize) =
            (if bufsize \<noteq> 0 \<and> bufsize + length data \<ge> B
             then let buf = memcpy_at (md_buf st) bufsize (take (B - bufsize) data)
                  in (st\<lparr>md_buf := buf, md_bytes := md_bytes st + of_nat (B - bufsize),
                         md_s := f (md_s st) buf\<rparr>, drop (B - bufsize) data, 0)
             else (st, data, bufsize));
          (st, data) = md_chunks B f data st
      in if data \<noteq> []
         then st\<lparr>md_buf := memcpy_at (md_buf st) bufsize data, md_bytes := md_bytes st + of_nat (length data)\<rparr>
         else st)"

text \<open>
  \<open>Finalize\<close> writes 0x80 and zeros up to \<open>L\<close> bytes before a block boundary, then the length field
  \<open>sizedesc\<close> of \<open>L\<close> bytes; the caller reads the digest from the chaining words.
\<close>

definition md_finish :: "nat \<Rightarrow> nat \<Rightarrow> (u64 \<Rightarrow> bytes) \<Rightarrow> ('s \<Rightarrow> bytes \<Rightarrow> 's) \<Rightarrow> 's md_state \<Rightarrow> 's md_state" where
  "md_finish B L desc f st =
     (let sizedesc = desc (push_bit 3 (md_bytes st));
          pad = 0x80 # replicate (B - 1) 0;
          n = 1 + (2 * B - 1 - L - unat (md_bytes st) mod B) mod B
      in md_write B f sizedesc (md_write B f (take n pad) st))"

subsection \<open>The one-shot reference\<close>

function md_blocks :: "nat \<Rightarrow> ('s \<Rightarrow> bytes \<Rightarrow> 's) \<Rightarrow> bytes \<Rightarrow> 's \<Rightarrow> 's" where
  "md_blocks B f m s = (if B = 0 \<or> length m < B then s else md_blocks B f (drop B m) (f s (take B m)))"
  by pat_completeness auto
termination
  by (relation "measure (\<lambda>(B, f, m, s). length m)") auto

declare md_blocks.simps [simp del]

definition md_tail :: "nat \<Rightarrow> bytes \<Rightarrow> bytes" where
  "md_tail B m = drop (length m - length m mod B) m"

text \<open>The padding of a message: one 0x80, the least number of zeros, the bit length.\<close>

definition md_pad :: "nat \<Rightarrow> nat \<Rightarrow> (u64 \<Rightarrow> bytes) \<Rightarrow> bytes \<Rightarrow> bytes" where
  "md_pad B L desc m =
     m @ [0x80] @ replicate ((2 * B - 1 - L - length m mod B) mod B) 0 @ desc (of_nat (8 * length m))"

lemma md_blocks_short [simp]: "length m < B \<Longrightarrow> md_blocks B f m s = s"
  by (simp add: md_blocks.simps)

lemma md_blocks_append:
  assumes "0 < B" and "length m mod B = 0"
  shows "md_blocks B f (m @ r) s = md_blocks B f r (md_blocks B f m s)"
  using assms
proof (induction B f m s rule: md_blocks.induct)
  case (1 B f m s)
  show ?case
  proof (cases "m = []")
    case False
    then have "B \<le> length m"
      using 1(2,3) by (metis length_greater_0_conv mod_less not_less less_not_refl)
    then show ?thesis
      using 1 by (subst md_blocks.simps, subst (2) md_blocks.simps) (simp add: le_mod_geq)
  qed (use 1(2) in simp)
qed

lemma md_chunks_spec:
  assumes "0 < B" and "md_chunks B f data st = (st', rest)"
  shows "rest = md_tail B data" and "md_s st' = md_blocks B f data (md_s st)"
    and "md_buf st' = md_buf st" and "md_bytes st' = md_bytes st + of_nat (length data - length data mod B)"
proof -
  have "rest = md_tail B data \<and> md_s st' = md_blocks B f data (md_s st) \<and> md_buf st' = md_buf st
    \<and> md_bytes st' = md_bytes st + of_nat (length data - length data mod B)"
    using assms
  proof (induction B f data st rule: md_chunks.induct)
    case (1 B f data st)
    show ?case
    proof (cases "length data < B")
      case True
      then show ?thesis
        using 1(3) by (auto simp: md_chunks.simps [of B f data] md_tail_def)
    next
      case False
      have len: "length data - length data mod B = B + (length data - B - (length data - B) mod B)"
        using False mod_less_eq_dividend [of "length data - B" B] le_mod_geq [of B "length data"] by linarith
      show ?thesis
        using 1(1) [OF _ 1(2)] 1(2,3) False
        by (auto simp: md_chunks.simps [of B f data] md_blocks.simps [of B f data] md_tail_def len
            add.commute [of _ B] simp del: of_nat_diff)
    qed
  qed
  then show "rest = md_tail B data" and "md_s st' = md_blocks B f data (md_s st)"
    and "md_buf st' = md_buf st" and "md_bytes st' = md_bytes st + of_nat (length data - length data mod B)"
    by simp_all
qed


lemma md_split:
  assumes "0 < B"
  obtains full where "m = full @ md_tail B m" and "length full mod B = 0"
    and "length (md_tail B m) = length m mod B" and "md_blocks B f m s = md_blocks B f full s"
proof -
  let ?k = "length m - length m mod B"
  have 1: "m = take ?k m @ md_tail B m"
    by (simp add: md_tail_def)
  have 2: "length (take ?k m) mod B = 0"
    using mod_less_eq_dividend [of "length m" B] by (simp add: min_absorb2 minus_mod_eq_mult_div)
  have 3: "length (md_tail B m) = length m mod B"
    by (simp add: md_tail_def)
  have "md_blocks B f m s = md_blocks B f (take ?k m) s"
    using md_blocks_append [OF assms 2, of f "md_tail B m" s] 1 3 assms by simp
  with 1 2 3 show thesis by (rule that)
qed

lemma md_tail_append_full: "length full mod B = 0 \<Longrightarrow> md_tail B (full @ x) = md_tail B x"
proof -
  assume "length full mod B = 0"
  then have "(length full + length x) mod B = length x mod B"
    by (simp add: mod_add_left_eq [of "length full" B, symmetric])
  moreover have "length full + length x - length x mod B = length full + (length x - length x mod B)"
    using mod_less_eq_dividend [of "length x" B] by linarith
  moreover have "drop (length full + k) (full @ x) = drop k x" for k
    by simp
  ultimately show ?thesis
    by (simp only: md_tail_def length_append)
qed

lemma md_tail_short [simp]: "length x < B \<Longrightarrow> md_tail B x = x"
  by (simp add: md_tail_def)

lemma memcpy_at_length [simp]: "off + length src \<le> length buf \<Longrightarrow> length (memcpy_at buf off src) = length buf"
  by (simp add: memcpy_at_def)

lemma take_memcpy_at:
  "off + length src \<le> length buf \<Longrightarrow> take (off + length src) (memcpy_at buf off src) = take off buf @ src"
  by (simp add: memcpy_at_def)

lemma md_blocks_cong:
  assumes "\<And>s c. P s \<Longrightarrow> length c = B \<Longrightarrow> f s c = g s c" and "\<And>s c. P s \<Longrightarrow> P (g s c)" and "P s"
  shows "md_blocks B f m s = md_blocks B g m s \<and> P (md_blocks B g m s)"
  using assms(3)
proof (induction "length m" arbitrary: m s rule: less_induct)
  case less
  show ?case
  proof (cases "B = 0 \<or> length m < B")
    case False
    then have "length m - B < length m" by linarith
    then show ?thesis
      using False less(1) [of "drop B m" "g s (take B m)"] less(2) assms(1,2)
      by (simp add: md_blocks.simps [of B _ m])
  qed (use less(2) in \<open>auto simp: md_blocks.simps [of B _ m]\<close>)
qed

subsection \<open>The streaming contract\<close>

locale md_hash =
  fixes B :: nat and L :: nat and desc :: "u64 \<Rightarrow> bytes" and f :: "'s \<Rightarrow> bytes \<Rightarrow> 's"
  assumes block_pos: "0 < B" and block_dvd: "B dvd 2 ^ 64"
    and desc_less: "L < B" and desc_length: "length (desc n) = L"
begin

text \<open>The buffer state after \<open>m\<close> has been written to a hasher started at \<open>s0\<close>.\<close>

definition md_inv :: "'s \<Rightarrow> bytes \<Rightarrow> 's md_state \<Rightarrow> bool" where
  "md_inv s0 m st \<longleftrightarrow> length (md_buf st) = B \<and> md_bytes st = of_nat (length m)
     \<and> md_s st = md_blocks B f m s0 \<and> take (length m mod B) (md_buf st) = md_tail B m"

lemma bytes_mod: "unat (of_nat n :: u64) mod B = n mod B"
  using block_dvd by (simp add: unat_of_nat mod_mod_cancel)

lemma init_inv: "md_inv s0 [] (md_init B s0)"
  using block_pos by (simp add: md_inv_def md_init_def)

lemma write_aligned:
  assumes inv: "md_inv s0 m st" and al: "length m mod B = 0" and ch: "md_chunks B f data st = (st', rest)"
  shows "md_inv s0 (m @ data) (if rest \<noteq> [] then st'\<lparr>md_buf := memcpy_at (md_buf st') 0 rest,
      md_bytes := md_bytes st' + of_nat (length rest)\<rparr> else st')"
proof -
  note c = md_chunks_spec [OF block_pos ch]
  have r: "length rest = length data mod B" "length rest < B"
    using block_pos by (simp_all add: c(1) md_tail_def)
  have n: "(length m + length data) mod B = length rest"
    using al r(1) by (metis mod_add_left_eq add_0)
  have cnt: "md_bytes st' + of_nat (length rest) = of_nat (length m + length data)"
    using inv r(1) by (simp add: c(4) md_inv_def flip: of_nat_add)
  have s: "md_s st' = md_blocks B f (m @ data) s0"
    using inv by (simp add: c(2) md_inv_def md_blocks_append [OF block_pos al])
  show ?thesis
    using inv r n cnt s take_memcpy_at [of 0 rest "md_buf st"]
    by (auto simp: md_inv_def c(3) md_tail_append_full [OF al] c(1) [symmetric])
qed

lemma fill_inv:
  assumes inv: "md_inv s0 m st" and "B \<le> length m mod B + length data"
  defines "d \<equiv> take (B - length m mod B) data"
  shows "md_inv s0 (m @ d) (st\<lparr>md_buf := memcpy_at (md_buf st) (length m mod B) d,
      md_bytes := md_bytes st + of_nat (B - length m mod B),
      md_s := f (md_s st) (memcpy_at (md_buf st) (length m mod B) d)\<rparr>)" (is ?inv)
    and "length (m @ d) mod B = 0"
proof -
  let ?b = "length m mod B"
  have lt: "?b < B" using block_pos by simp
  have d: "length d = B - ?b" using assms(2) by (simp add: d_def)
  have buf: "memcpy_at (md_buf st) ?b d = md_tail B m @ d"
    using inv d lt by (simp add: md_inv_def memcpy_at_def)
  obtain full where m: "m = full @ md_tail B m" "length full mod B = 0"
      "length (md_tail B m) = ?b" "md_blocks B f m s0 = md_blocks B f full s0"
    using md_split [OF block_pos, of m f s0] by blast
  have "(length m + (B - ?b)) mod B = (?b + (B - ?b)) mod B"
    by (simp only: mod_add_left_eq)
  then show al: "length (m @ d) mod B = 0"
    using lt d by simp
  have "m @ d = full @ (md_tail B m @ d)"
    using m(1) by (metis append.assoc)
  moreover have "md_blocks B f (md_tail B m @ d) s = f s (md_tail B m @ d)" for s
    using m(3) d lt block_pos by (subst md_blocks.simps) simp
  ultimately have "md_blocks B f (m @ d) s0 = f (md_blocks B f m s0) (md_tail B m @ d)"
    by (metis md_blocks_append [OF block_pos m(2)] m(4))
  then show ?inv
    using inv al d m(3) lt by (simp add: md_inv_def buf md_tail_def)
qed

lemma short_inv:
  assumes inv: "md_inv s0 m st" and short: "length m mod B + length data < B"
  shows "md_inv s0 (m @ data) (st\<lparr>md_buf := memcpy_at (md_buf st) (length m mod B) data,
      md_bytes := md_bytes st + of_nat (length data)\<rparr>)"
proof -
  obtain full where m: "m = full @ md_tail B m" "length full mod B = 0"
      "length (md_tail B m) = length m mod B" "md_blocks B f m s0 = md_blocks B f full s0"
    using md_split [OF block_pos, of m f s0] by blast
  have eq: "m @ data = full @ (md_tail B m @ data)"
    using m(1) by (metis append.assoc)
  have sh: "length (md_tail B m @ data) < B"
    using m(3) short by simp
  have "md_blocks B f (m @ data) s0 = md_blocks B f m s0"
    using sh by (simp only: eq md_blocks_append [OF block_pos m(2)] m(4) md_blocks_short)
  moreover have "md_tail B (m @ data) = md_tail B m @ data"
    using sh by (simp only: eq md_tail_append_full [OF m(2)] md_tail_short)
  moreover have "(length m + length data) mod B = length m mod B + length data"
    using short by (metis mod_add_left_eq mod_less)
  ultimately show ?thesis
    using inv short take_memcpy_at [of "length m mod B" data "md_buf st"] by (simp add: md_inv_def)
qed

lemma write_inv:
  assumes inv: "md_inv s0 m st"
  shows "md_inv s0 (m @ data) (md_write B f data st)"
proof -
  let ?b = "length m mod B"
  have b: "unat (md_bytes st) mod B = ?b" "?b < B" and len: "length (md_buf st) = B"
    and buf: "take ?b (md_buf st) = md_tail B m"
    using inv block_pos by (simp_all add: md_inv_def bytes_mod)
  consider (fill) "?b \<noteq> 0" "B \<le> ?b + length data" | (short) "?b \<noteq> 0" "?b + length data < B" | (aligned) "?b = 0"
    by fastforce
  then show ?thesis
  proof cases
    case fill
    define d where "d = take (B - ?b) data"
    define st1 where "st1 = st\<lparr>md_buf := memcpy_at (md_buf st) ?b d, md_bytes := md_bytes st + of_nat (B - ?b),
      md_s := f (md_s st) (memcpy_at (md_buf st) ?b d)\<rparr>"
    have inv1: "md_inv s0 (m @ d) st1" and al: "length (m @ d) mod B = 0"
      using fill_inv [OF inv] fill by (simp_all add: d_def st1_def)
    obtain st' rest where ch: "md_chunks B f (drop (B - ?b) data) st1 = (st', rest)"
      by (cases "md_chunks B f (drop (B - ?b) data) st1") auto
    have "md_write B f data st = (if rest \<noteq> [] then st'\<lparr>md_buf := memcpy_at (md_buf st') 0 rest,
        md_bytes := md_bytes st' + of_nat (length rest)\<rparr> else st')"
      using fill ch by (simp add: md_write_def b(1) Let_def d_def st1_def)
    then show ?thesis
      using write_aligned [OF inv1 al ch] by (simp add: d_def)
  next
    case short
    then have ch: "md_chunks B f data st = (st, data)"
      by (simp add: md_chunks.simps)
    show ?thesis
      using short_inv [OF inv short(2)] short inv ch
      by (cases "data = []") (simp_all add: md_write_def b(1) Let_def)
  next
    case aligned
    obtain st' rest where ch: "md_chunks B f data st = (st', rest)"
      by (cases "md_chunks B f data st") auto
    then show ?thesis
      using write_aligned [OF inv aligned ch] aligned by (simp add: md_write_def b(1) Let_def)
  qed
qed

lemma write_all_inv: "md_inv s0 m st \<Longrightarrow> md_inv s0 (m @ concat ds) (fold (md_write B f) ds st)"
  by (induction ds arbitrary: m st) (auto dest: write_inv [where data = "hd _"] simp: write_inv simp flip: append_assoc)

lemma finish_inv:
  assumes inv: "md_inv s0 m st"
  shows "md_inv s0 (md_pad B L desc m) (md_finish B L desc f st)"
proof -
  let ?z = "(2 * B - 1 - L - length m mod B) mod B"
  have "?z < B"
    using block_pos by simp
  then have pad: "take (1 + ?z) (0x80 # replicate (B - 1) 0) = [0x80 :: u8] @ replicate ?z 0"
    by simp
  have n: "unat (md_bytes st) mod B = length m mod B"
    and d: "push_bit 3 (md_bytes st) = of_nat (8 * length m)"
    using inv by (simp_all add: md_inv_def bytes_mod push_bit_eq_mult)
  have "md_inv s0 ((m @ [0x80] @ replicate ?z 0) @ desc (of_nat (8 * length m))) (md_finish B L desc f st)"
    unfolding md_finish_def Let_def n d pad by (intro write_inv inv)
  then show ?thesis
    by (simp add: md_pad_def)
qed

lemma finish_state: "md_inv s0 m st \<Longrightarrow> md_s (md_finish B L desc f st) = md_blocks B f (md_pad B L desc m) s0"
  using finish_inv by (simp add: md_inv_def)

lemma reset_inv: "length (md_buf st) = B \<Longrightarrow> md_inv s0 [] (st\<lparr>md_bytes := 0, md_s := s0\<rparr>)"
  using block_pos by (simp add: md_inv_def)

lemma pad_length: "length (md_pad B L desc m) mod B = 0"
proof -
  let ?b = "length m mod B"
  have "?b < B" using block_pos by simp
  then have "(length m + (1 + ((2 * B - 1 - L - ?b) mod B + L))) mod B = (?b + (1 + ((2 * B - 1 - L - ?b) + L))) mod B"
    by (metis (no_types, lifting) mod_add_eq mod_add_left_eq mod_mod_trivial)
  also have "?b + (1 + ((2 * B - 1 - L - ?b) + L)) = 2 * B"
    using desc_less block_pos \<open>?b < B\<close> by linarith
  finally show ?thesis
    by (simp add: md_pad_def desc_length)
qed

lemma stream_one_shot:
  "md_s (md_finish B L desc f (fold (md_write B f) ds (md_init B s0)))
   = md_blocks B f (md_pad B L desc (concat ds)) s0"
  using finish_state [OF write_all_inv [OF init_inv]] by simp

end

end
