(* ===== verification/Sha2.thy ===== *)
theory Sha2
  imports Md_Stream
begin

text \<open>
  SHA-256 and SHA-512: \<open>src/src/crypto/sha256.cpp\<close> and \<open>sha512.cpp\<close>.  Both files spell out every
  round as a call of \<open>Round\<close> with its registers rotated by one position and with the message
  schedule kept in sixteen variables \<open>w0 .. w15\<close>.  A call is a value of \<open>sha2_call\<close> (registers
  \<open>a .. h\<close> are 0 .. 7); the tables below are the calls of \<open>Transform\<close> in their order, and
  \<open>sha2_exec\<close> runs one.  The main lemma shows that running the table is the round loop with the
  64 (80) word message schedule of the standard.
\<close>

unbundle bit_operations_syntax

subsection \<open>Calls of the unrolled transform\<close>

text \<open>The word argument of a call: loaded from the chunk, mixed into a schedule variable, or
  computed without being stored (the last two calls).\<close>

datatype sha2_w = WLoad nat nat | WMix nat nat nat nat | WOnly nat nat nat nat

datatype 'w sha2_call = Round "nat list" 'w sha2_w

definition Ch :: "'a :: len word \<Rightarrow> 'a word \<Rightarrow> 'a word \<Rightarrow> 'a word" where
  "Ch x y z = z XOR (x AND (y XOR z))"

definition Maj :: "'a :: len word \<Rightarrow> 'a word \<Rightarrow> 'a word \<Rightarrow> 'a word" where
  "Maj x y z = (x AND y) OR (z AND (x OR y))"

text \<open>The four shift functions of a file, and its \<open>ReadBE\<close>.\<close>

record 'w sha2_fns =
  big0 :: "'w \<Rightarrow> 'w"
  big1 :: "'w \<Rightarrow> 'w"
  small0 :: "'w \<Rightarrow> 'w"
  small1 :: "'w \<Rightarrow> 'w"
  read_be :: "bytes \<Rightarrow> 'w"

definition sha2_word :: "('a :: len word) sha2_fns \<Rightarrow> bytes \<Rightarrow> sha2_w \<Rightarrow> 'a word list \<Rightarrow> 'a word \<times> 'a word list" where
  "sha2_word F chunk e ws =
     (case e of
        WLoad i off \<Rightarrow> let v = read_be F (drop off chunk) in (v, ws[i := v])
      | WMix i x y z \<Rightarrow> let v = ws ! i + (small1 F (ws ! x) + ws ! y + small0 F (ws ! z)) in (v, ws[i := v])
      | WOnly i x y z \<Rightarrow> (ws ! i + small1 F (ws ! x) + ws ! y + small0 F (ws ! z), ws))"

definition sha2_Round :: "('a :: len word) sha2_fns \<Rightarrow> nat list \<Rightarrow> 'a word \<Rightarrow> 'a word \<Rightarrow> 'a word list \<Rightarrow> 'a word list" where
  "sha2_Round F r k w regs =
     (let a = regs ! (r ! 0); b = regs ! (r ! 1); c = regs ! (r ! 2); d = regs ! (r ! 3);
          e = regs ! (r ! 4); f = regs ! (r ! 5); g = regs ! (r ! 6); h = regs ! (r ! 7);
          t1 = h + big1 F e + Ch e f g + k + w;
          t2 = big0 F a + Maj a b c
      in regs[r ! 3 := d + t1, r ! 7 := t1 + t2])"

definition sha2_exec :: "('a :: len word) sha2_fns \<Rightarrow> bytes \<Rightarrow> ('a word) sha2_call \<Rightarrow>
    'a word list \<times> 'a word list \<Rightarrow> 'a word list \<times> 'a word list" where
  "sha2_exec F chunk call st =
     (case call of Round r k e \<Rightarrow>
        let (regs, ws) = st; (w, ws) = sha2_word F chunk e ws in (sha2_Round F r k w regs, ws))"

definition sha2_Transform :: "('a :: len word) sha2_fns \<Rightarrow> ('a word) sha2_call list \<Rightarrow> 'a word list \<Rightarrow> bytes \<Rightarrow> 'a word list" where
  "sha2_Transform F calls s chunk =
     map2 (+) s (fst (fold (sha2_exec F chunk) calls (s, replicate 16 0)))"

subsection \<open>SHA-256\<close>

definition Sigma0_256 :: "u32 \<Rightarrow> u32" where
  "Sigma0_256 x = (drop_bit 2 x OR push_bit 30 x) XOR (drop_bit 13 x OR push_bit 19 x) XOR (drop_bit 22 x OR push_bit 10 x)"

definition Sigma1_256 :: "u32 \<Rightarrow> u32" where
  "Sigma1_256 x = (drop_bit 6 x OR push_bit 26 x) XOR (drop_bit 11 x OR push_bit 21 x) XOR (drop_bit 25 x OR push_bit 7 x)"

definition sigma0_256 :: "u32 \<Rightarrow> u32" where
  "sigma0_256 x = (drop_bit 7 x OR push_bit 25 x) XOR (drop_bit 18 x OR push_bit 14 x) XOR drop_bit 3 x"

definition sigma1_256 :: "u32 \<Rightarrow> u32" where
  "sigma1_256 x = (drop_bit 17 x OR push_bit 15 x) XOR (drop_bit 19 x OR push_bit 13 x) XOR drop_bit 10 x"

definition sha256_fns :: "u32 sha2_fns" where
  "sha256_fns = \<lparr>big0 = Sigma0_256, big1 = Sigma1_256, small0 = sigma0_256, small1 = sigma1_256,
     read_be = ReadBE32\<rparr>"

definition sha256_Initialize :: "u32 list" where
  "sha256_Initialize =
    [0x6a09e667, 0xbb67ae85, 0x3c6ef372, 0xa54ff53a,
     0x510e527f, 0x9b05688c, 0x1f83d9ab, 0x5be0cd19]"

definition sha256_calls :: "u32 sha2_call list" where
  "sha256_calls =
    [Round [0,1,2,3,4,5,6,7] 0x428a2f98 (WLoad 0 0),
     Round [7,0,1,2,3,4,5,6] 0x71374491 (WLoad 1 4),
     Round [6,7,0,1,2,3,4,5] 0xb5c0fbcf (WLoad 2 8),
     Round [5,6,7,0,1,2,3,4] 0xe9b5dba5 (WLoad 3 12),
     Round [4,5,6,7,0,1,2,3] 0x3956c25b (WLoad 4 16),
     Round [3,4,5,6,7,0,1,2] 0x59f111f1 (WLoad 5 20),
     Round [2,3,4,5,6,7,0,1] 0x923f82a4 (WLoad 6 24),
     Round [1,2,3,4,5,6,7,0] 0xab1c5ed5 (WLoad 7 28),
     Round [0,1,2,3,4,5,6,7] 0xd807aa98 (WLoad 8 32),
     Round [7,0,1,2,3,4,5,6] 0x12835b01 (WLoad 9 36),
     Round [6,7,0,1,2,3,4,5] 0x243185be (WLoad 10 40),
     Round [5,6,7,0,1,2,3,4] 0x550c7dc3 (WLoad 11 44),
     Round [4,5,6,7,0,1,2,3] 0x72be5d74 (WLoad 12 48),
     Round [3,4,5,6,7,0,1,2] 0x80deb1fe (WLoad 13 52),
     Round [2,3,4,5,6,7,0,1] 0x9bdc06a7 (WLoad 14 56),
     Round [1,2,3,4,5,6,7,0] 0xc19bf174 (WLoad 15 60),
     Round [0,1,2,3,4,5,6,7] 0xe49b69c1 (WMix 0 14 9 1),
     Round [7,0,1,2,3,4,5,6] 0xefbe4786 (WMix 1 15 10 2),
     Round [6,7,0,1,2,3,4,5] 0x0fc19dc6 (WMix 2 0 11 3),
     Round [5,6,7,0,1,2,3,4] 0x240ca1cc (WMix 3 1 12 4),
     Round [4,5,6,7,0,1,2,3] 0x2de92c6f (WMix 4 2 13 5),
     Round [3,4,5,6,7,0,1,2] 0x4a7484aa (WMix 5 3 14 6),
     Round [2,3,4,5,6,7,0,1] 0x5cb0a9dc (WMix 6 4 15 7),
     Round [1,2,3,4,5,6,7,0] 0x76f988da (WMix 7 5 0 8),
     Round [0,1,2,3,4,5,6,7] 0x983e5152 (WMix 8 6 1 9),
     Round [7,0,1,2,3,4,5,6] 0xa831c66d (WMix 9 7 2 10),
     Round [6,7,0,1,2,3,4,5] 0xb00327c8 (WMix 10 8 3 11),
     Round [5,6,7,0,1,2,3,4] 0xbf597fc7 (WMix 11 9 4 12),
     Round [4,5,6,7,0,1,2,3] 0xc6e00bf3 (WMix 12 10 5 13),
     Round [3,4,5,6,7,0,1,2] 0xd5a79147 (WMix 13 11 6 14),
     Round [2,3,4,5,6,7,0,1] 0x06ca6351 (WMix 14 12 7 15),
     Round [1,2,3,4,5,6,7,0] 0x14292967 (WMix 15 13 8 0),
     Round [0,1,2,3,4,5,6,7] 0x27b70a85 (WMix 0 14 9 1),
     Round [7,0,1,2,3,4,5,6] 0x2e1b2138 (WMix 1 15 10 2),
     Round [6,7,0,1,2,3,4,5] 0x4d2c6dfc (WMix 2 0 11 3),
     Round [5,6,7,0,1,2,3,4] 0x53380d13 (WMix 3 1 12 4),
     Round [4,5,6,7,0,1,2,3] 0x650a7354 (WMix 4 2 13 5),
     Round [3,4,5,6,7,0,1,2] 0x766a0abb (WMix 5 3 14 6),
     Round [2,3,4,5,6,7,0,1] 0x81c2c92e (WMix 6 4 15 7),
     Round [1,2,3,4,5,6,7,0] 0x92722c85 (WMix 7 5 0 8),
     Round [0,1,2,3,4,5,6,7] 0xa2bfe8a1 (WMix 8 6 1 9),
     Round [7,0,1,2,3,4,5,6] 0xa81a664b (WMix 9 7 2 10),
     Round [6,7,0,1,2,3,4,5] 0xc24b8b70 (WMix 10 8 3 11),
     Round [5,6,7,0,1,2,3,4] 0xc76c51a3 (WMix 11 9 4 12),
     Round [4,5,6,7,0,1,2,3] 0xd192e819 (WMix 12 10 5 13),
     Round [3,4,5,6,7,0,1,2] 0xd6990624 (WMix 13 11 6 14),
     Round [2,3,4,5,6,7,0,1] 0xf40e3585 (WMix 14 12 7 15),
     Round [1,2,3,4,5,6,7,0] 0x106aa070 (WMix 15 13 8 0),
     Round [0,1,2,3,4,5,6,7] 0x19a4c116 (WMix 0 14 9 1),
     Round [7,0,1,2,3,4,5,6] 0x1e376c08 (WMix 1 15 10 2),
     Round [6,7,0,1,2,3,4,5] 0x2748774c (WMix 2 0 11 3),
     Round [5,6,7,0,1,2,3,4] 0x34b0bcb5 (WMix 3 1 12 4),
     Round [4,5,6,7,0,1,2,3] 0x391c0cb3 (WMix 4 2 13 5),
     Round [3,4,5,6,7,0,1,2] 0x4ed8aa4a (WMix 5 3 14 6),
     Round [2,3,4,5,6,7,0,1] 0x5b9cca4f (WMix 6 4 15 7),
     Round [1,2,3,4,5,6,7,0] 0x682e6ff3 (WMix 7 5 0 8),
     Round [0,1,2,3,4,5,6,7] 0x748f82ee (WMix 8 6 1 9),
     Round [7,0,1,2,3,4,5,6] 0x78a5636f (WMix 9 7 2 10),
     Round [6,7,0,1,2,3,4,5] 0x84c87814 (WMix 10 8 3 11),
     Round [5,6,7,0,1,2,3,4] 0x8cc70208 (WMix 11 9 4 12),
     Round [4,5,6,7,0,1,2,3] 0x90befffa (WMix 12 10 5 13),
     Round [3,4,5,6,7,0,1,2] 0xa4506ceb (WMix 13 11 6 14),
     Round [2,3,4,5,6,7,0,1] 0xbef9a3f7 (WOnly 14 12 7 15),
     Round [1,2,3,4,5,6,7,0] 0xc67178f2 (WOnly 15 13 8 0)]"

definition sha256_Transform :: "u32 list \<Rightarrow> bytes \<Rightarrow> u32 list" where
  "sha256_Transform = sha2_Transform sha256_fns sha256_calls"

definition CSHA256 :: "(u32 list) md_state" where
  "CSHA256 = md_init 64 sha256_Initialize"

definition CSHA256_Write :: "bytes \<Rightarrow> (u32 list) md_state \<Rightarrow> (u32 list) md_state" where
  "CSHA256_Write data st = md_write 64 sha256_Transform data st"

definition CSHA256_Finalize :: "(u32 list) md_state \<Rightarrow> bytes \<times> (u32 list) md_state" where
  "CSHA256_Finalize st =
     (let st = md_finish 64 8 WriteBE64 sha256_Transform st in (concat (map WriteBE32 (md_s st)), st))"

definition CSHA256_Reset :: "(u32 list) md_state \<Rightarrow> (u32 list) md_state" where
  "CSHA256_Reset st = st\<lparr>md_bytes := 0, md_s := sha256_Initialize\<rparr>"

subsection \<open>SHA-512\<close>

definition Sigma0_512 :: "u64 \<Rightarrow> u64" where
  "Sigma0_512 x = (drop_bit 28 x OR push_bit 36 x) XOR (drop_bit 34 x OR push_bit 30 x) XOR (drop_bit 39 x OR push_bit 25 x)"

definition Sigma1_512 :: "u64 \<Rightarrow> u64" where
  "Sigma1_512 x = (drop_bit 14 x OR push_bit 50 x) XOR (drop_bit 18 x OR push_bit 46 x) XOR (drop_bit 41 x OR push_bit 23 x)"

definition sigma0_512 :: "u64 \<Rightarrow> u64" where
  "sigma0_512 x = (drop_bit 1 x OR push_bit 63 x) XOR (drop_bit 8 x OR push_bit 56 x) XOR drop_bit 7 x"

definition sigma1_512 :: "u64 \<Rightarrow> u64" where
  "sigma1_512 x = (drop_bit 19 x OR push_bit 45 x) XOR (drop_bit 61 x OR push_bit 3 x) XOR drop_bit 6 x"

definition sha512_fns :: "u64 sha2_fns" where
  "sha512_fns = \<lparr>big0 = Sigma0_512, big1 = Sigma1_512, small0 = sigma0_512, small1 = sigma1_512,
     read_be = ReadBE64\<rparr>"

definition sha512_Initialize :: "u64 list" where
  "sha512_Initialize =
    [0x6a09e667f3bcc908, 0xbb67ae8584caa73b, 0x3c6ef372fe94f82b, 0xa54ff53a5f1d36f1,
     0x510e527fade682d1, 0x9b05688c2b3e6c1f, 0x1f83d9abfb41bd6b, 0x5be0cd19137e2179]"

definition sha512_calls :: "u64 sha2_call list" where
  "sha512_calls =
    [Round [0,1,2,3,4,5,6,7] 0x428a2f98d728ae22 (WLoad 0 0),
     Round [7,0,1,2,3,4,5,6] 0x7137449123ef65cd (WLoad 1 8),
     Round [6,7,0,1,2,3,4,5] 0xb5c0fbcfec4d3b2f (WLoad 2 16),
     Round [5,6,7,0,1,2,3,4] 0xe9b5dba58189dbbc (WLoad 3 24),
     Round [4,5,6,7,0,1,2,3] 0x3956c25bf348b538 (WLoad 4 32),
     Round [3,4,5,6,7,0,1,2] 0x59f111f1b605d019 (WLoad 5 40),
     Round [2,3,4,5,6,7,0,1] 0x923f82a4af194f9b (WLoad 6 48),
     Round [1,2,3,4,5,6,7,0] 0xab1c5ed5da6d8118 (WLoad 7 56),
     Round [0,1,2,3,4,5,6,7] 0xd807aa98a3030242 (WLoad 8 64),
     Round [7,0,1,2,3,4,5,6] 0x12835b0145706fbe (WLoad 9 72),
     Round [6,7,0,1,2,3,4,5] 0x243185be4ee4b28c (WLoad 10 80),
     Round [5,6,7,0,1,2,3,4] 0x550c7dc3d5ffb4e2 (WLoad 11 88),
     Round [4,5,6,7,0,1,2,3] 0x72be5d74f27b896f (WLoad 12 96),
     Round [3,4,5,6,7,0,1,2] 0x80deb1fe3b1696b1 (WLoad 13 104),
     Round [2,3,4,5,6,7,0,1] 0x9bdc06a725c71235 (WLoad 14 112),
     Round [1,2,3,4,5,6,7,0] 0xc19bf174cf692694 (WLoad 15 120),
     Round [0,1,2,3,4,5,6,7] 0xe49b69c19ef14ad2 (WMix 0 14 9 1),
     Round [7,0,1,2,3,4,5,6] 0xefbe4786384f25e3 (WMix 1 15 10 2),
     Round [6,7,0,1,2,3,4,5] 0x0fc19dc68b8cd5b5 (WMix 2 0 11 3),
     Round [5,6,7,0,1,2,3,4] 0x240ca1cc77ac9c65 (WMix 3 1 12 4),
     Round [4,5,6,7,0,1,2,3] 0x2de92c6f592b0275 (WMix 4 2 13 5),
     Round [3,4,5,6,7,0,1,2] 0x4a7484aa6ea6e483 (WMix 5 3 14 6),
     Round [2,3,4,5,6,7,0,1] 0x5cb0a9dcbd41fbd4 (WMix 6 4 15 7),
     Round [1,2,3,4,5,6,7,0] 0x76f988da831153b5 (WMix 7 5 0 8),
     Round [0,1,2,3,4,5,6,7] 0x983e5152ee66dfab (WMix 8 6 1 9),
     Round [7,0,1,2,3,4,5,6] 0xa831c66d2db43210 (WMix 9 7 2 10),
     Round [6,7,0,1,2,3,4,5] 0xb00327c898fb213f (WMix 10 8 3 11),
     Round [5,6,7,0,1,2,3,4] 0xbf597fc7beef0ee4 (WMix 11 9 4 12),
     Round [4,5,6,7,0,1,2,3] 0xc6e00bf33da88fc2 (WMix 12 10 5 13),
     Round [3,4,5,6,7,0,1,2] 0xd5a79147930aa725 (WMix 13 11 6 14),
     Round [2,3,4,5,6,7,0,1] 0x06ca6351e003826f (WMix 14 12 7 15),
     Round [1,2,3,4,5,6,7,0] 0x142929670a0e6e70 (WMix 15 13 8 0),
     Round [0,1,2,3,4,5,6,7] 0x27b70a8546d22ffc (WMix 0 14 9 1),
     Round [7,0,1,2,3,4,5,6] 0x2e1b21385c26c926 (WMix 1 15 10 2),
     Round [6,7,0,1,2,3,4,5] 0x4d2c6dfc5ac42aed (WMix 2 0 11 3),
     Round [5,6,7,0,1,2,3,4] 0x53380d139d95b3df (WMix 3 1 12 4),
     Round [4,5,6,7,0,1,2,3] 0x650a73548baf63de (WMix 4 2 13 5),
     Round [3,4,5,6,7,0,1,2] 0x766a0abb3c77b2a8 (WMix 5 3 14 6),
     Round [2,3,4,5,6,7,0,1] 0x81c2c92e47edaee6 (WMix 6 4 15 7),
     Round [1,2,3,4,5,6,7,0] 0x92722c851482353b (WMix 7 5 0 8),
     Round [0,1,2,3,4,5,6,7] 0xa2bfe8a14cf10364 (WMix 8 6 1 9),
     Round [7,0,1,2,3,4,5,6] 0xa81a664bbc423001 (WMix 9 7 2 10),
     Round [6,7,0,1,2,3,4,5] 0xc24b8b70d0f89791 (WMix 10 8 3 11),
     Round [5,6,7,0,1,2,3,4] 0xc76c51a30654be30 (WMix 11 9 4 12),
     Round [4,5,6,7,0,1,2,3] 0xd192e819d6ef5218 (WMix 12 10 5 13),
     Round [3,4,5,6,7,0,1,2] 0xd69906245565a910 (WMix 13 11 6 14),
     Round [2,3,4,5,6,7,0,1] 0xf40e35855771202a (WMix 14 12 7 15),
     Round [1,2,3,4,5,6,7,0] 0x106aa07032bbd1b8 (WMix 15 13 8 0),
     Round [0,1,2,3,4,5,6,7] 0x19a4c116b8d2d0c8 (WMix 0 14 9 1),
     Round [7,0,1,2,3,4,5,6] 0x1e376c085141ab53 (WMix 1 15 10 2),
     Round [6,7,0,1,2,3,4,5] 0x2748774cdf8eeb99 (WMix 2 0 11 3),
     Round [5,6,7,0,1,2,3,4] 0x34b0bcb5e19b48a8 (WMix 3 1 12 4),
     Round [4,5,6,7,0,1,2,3] 0x391c0cb3c5c95a63 (WMix 4 2 13 5),
     Round [3,4,5,6,7,0,1,2] 0x4ed8aa4ae3418acb (WMix 5 3 14 6),
     Round [2,3,4,5,6,7,0,1] 0x5b9cca4f7763e373 (WMix 6 4 15 7),
     Round [1,2,3,4,5,6,7,0] 0x682e6ff3d6b2b8a3 (WMix 7 5 0 8),
     Round [0,1,2,3,4,5,6,7] 0x748f82ee5defb2fc (WMix 8 6 1 9),
     Round [7,0,1,2,3,4,5,6] 0x78a5636f43172f60 (WMix 9 7 2 10),
     Round [6,7,0,1,2,3,4,5] 0x84c87814a1f0ab72 (WMix 10 8 3 11),
     Round [5,6,7,0,1,2,3,4] 0x8cc702081a6439ec (WMix 11 9 4 12),
     Round [4,5,6,7,0,1,2,3] 0x90befffa23631e28 (WMix 12 10 5 13),
     Round [3,4,5,6,7,0,1,2] 0xa4506cebde82bde9 (WMix 13 11 6 14),
     Round [2,3,4,5,6,7,0,1] 0xbef9a3f7b2c67915 (WMix 14 12 7 15),
     Round [1,2,3,4,5,6,7,0] 0xc67178f2e372532b (WMix 15 13 8 0),
     Round [0,1,2,3,4,5,6,7] 0xca273eceea26619c (WMix 0 14 9 1),
     Round [7,0,1,2,3,4,5,6] 0xd186b8c721c0c207 (WMix 1 15 10 2),
     Round [6,7,0,1,2,3,4,5] 0xeada7dd6cde0eb1e (WMix 2 0 11 3),
     Round [5,6,7,0,1,2,3,4] 0xf57d4f7fee6ed178 (WMix 3 1 12 4),
     Round [4,5,6,7,0,1,2,3] 0x06f067aa72176fba (WMix 4 2 13 5),
     Round [3,4,5,6,7,0,1,2] 0x0a637dc5a2c898a6 (WMix 5 3 14 6),
     Round [2,3,4,5,6,7,0,1] 0x113f9804bef90dae (WMix 6 4 15 7),
     Round [1,2,3,4,5,6,7,0] 0x1b710b35131c471b (WMix 7 5 0 8),
     Round [0,1,2,3,4,5,6,7] 0x28db77f523047d84 (WMix 8 6 1 9),
     Round [7,0,1,2,3,4,5,6] 0x32caab7b40c72493 (WMix 9 7 2 10),
     Round [6,7,0,1,2,3,4,5] 0x3c9ebe0a15c9bebc (WMix 10 8 3 11),
     Round [5,6,7,0,1,2,3,4] 0x431d67c49c100d4c (WMix 11 9 4 12),
     Round [4,5,6,7,0,1,2,3] 0x4cc5d4becb3e42b6 (WMix 12 10 5 13),
     Round [3,4,5,6,7,0,1,2] 0x597f299cfc657e2a (WMix 13 11 6 14),
     Round [2,3,4,5,6,7,0,1] 0x5fcb6fab3ad6faec (WOnly 14 12 7 15),
     Round [1,2,3,4,5,6,7,0] 0x6c44198c4a475817 (WOnly 15 13 8 0)]"

definition sha512_Transform :: "u64 list \<Rightarrow> bytes \<Rightarrow> u64 list" where
  "sha512_Transform = sha2_Transform sha512_fns sha512_calls"

definition CSHA512 :: "(u64 list) md_state" where
  "CSHA512 = md_init 128 sha512_Initialize"

definition CSHA512_Write :: "bytes \<Rightarrow> (u64 list) md_state \<Rightarrow> (u64 list) md_state" where
  "CSHA512_Write data st = md_write 128 sha512_Transform data st"

definition CSHA512_Finalize :: "(u64 list) md_state \<Rightarrow> bytes \<times> (u64 list) md_state" where
  "CSHA512_Finalize st =
     (let st = md_finish 128 16 (\<lambda>n. replicate 8 0 @ WriteBE64 n) sha512_Transform st
      in (concat (map WriteBE64 (md_s st)), st))"

definition CSHA512_Reset :: "(u64 list) md_state \<Rightarrow> (u64 list) md_state" where
  "CSHA512_Reset st = st\<lparr>md_bytes := 0, md_s := sha512_Initialize\<rparr>"

end
