(* ===== verification/Sha2_Correct.thy ===== *)
theory Sha2_Correct
  imports Sha2
begin

text \<open>
  The hash of FIPS 180-4, written from the standard and sharing no function or constant with the code: logical
  functions by rotations, the round loop with its message schedule, constants as the fractional parts of
  square and cube roots of the first primes, big-endian words and the padding.  The unrolled SHA-2 transforms are shown
  to compute it; the streaming contract \<open>md_hash\<close> is interpreted on both classes.
\<close>

unbundle bit_operations_syntax

subsection \<open>The standard's functions\<close>

definition fips_Ch :: "'a :: len word \<Rightarrow> 'a word \<Rightarrow> 'a word \<Rightarrow> 'a word" where
  "fips_Ch x y z = (x AND y) XOR (NOT x AND z)"

definition fips_Maj :: "'a :: len word \<Rightarrow> 'a word \<Rightarrow> 'a word \<Rightarrow> 'a word" where
  "fips_Maj x y z = (x AND y) XOR (x AND z) XOR (y AND z)"

definition be_word :: "nat \<Rightarrow> bytes \<Rightarrow> 'a :: len word" where
  "be_word n p = foldl (\<lambda>v c. v * 256 + ucast c) 0 (take n p)"

definition be_bytes :: "nat \<Rightarrow> nat \<Rightarrow> bytes" where
  "be_bytes n v = map (\<lambda>i. of_nat (v div 256 ^ (n - 1 - i))) [0..<n]"

definition fips256_fns :: "u32 sha2_fns" where
  "fips256_fns = \<lparr>big0 = \<lambda>x. word_rotr 2 x XOR word_rotr 13 x XOR word_rotr 22 x,
     big1 = \<lambda>x. word_rotr 6 x XOR word_rotr 11 x XOR word_rotr 25 x,
     small0 = \<lambda>x. word_rotr 7 x XOR word_rotr 18 x XOR drop_bit 3 x,
     small1 = \<lambda>x. word_rotr 17 x XOR word_rotr 19 x XOR drop_bit 10 x, read_be = be_word 4\<rparr>"

definition fips512_fns :: "u64 sha2_fns" where
  "fips512_fns = \<lparr>big0 = \<lambda>x. word_rotr 28 x XOR word_rotr 34 x XOR word_rotr 39 x,
     big1 = \<lambda>x. word_rotr 14 x XOR word_rotr 18 x XOR word_rotr 41 x,
     small0 = \<lambda>x. word_rotr 1 x XOR word_rotr 8 x XOR drop_bit 7 x,
     small1 = \<lambda>x. word_rotr 19 x XOR word_rotr 61 x XOR drop_bit 6 x, read_be = be_word 8\<rparr>"

text \<open>The padding: a one bit, the least number of zeros that fills a block, and the bit length (modulo \<open>2^64\<close>) as an
  \<open>L\<close>-byte big-endian number.\<close>

definition fips_pad :: "nat \<Rightarrow> nat \<Rightarrow> bytes \<Rightarrow> bytes" where
  "fips_pad B L m = m @ [0x80] @ replicate (LEAST z. (length m + 1 + z + L) mod B = 0) 0
     @ replicate (L - 8) 0 @ be_bytes 8 (8 * length m)"

subsection \<open>The standard's round loop\<close>

fun sha2_W :: "('a :: len word) sha2_fns \<Rightarrow> nat \<Rightarrow> bytes \<Rightarrow> nat \<Rightarrow> 'a word" where
  "sha2_W F b chunk t =
     (if t < 16 then read_be F (drop (b * t) chunk)
      else small1 F (sha2_W F b chunk (t - 2)) + sha2_W F b chunk (t - 7)
             + small0 F (sha2_W F b chunk (t - 15)) + sha2_W F b chunk (t - 16))"

declare sha2_W.simps [simp del]

definition fips_round :: "('a :: len word) sha2_fns \<Rightarrow> 'a word \<Rightarrow> 'a word \<Rightarrow> 'a word list \<Rightarrow> 'a word list" where
  "fips_round F k w v =
     (let t1 = v ! 7 + big1 F (v ! 4) + fips_Ch (v ! 4) (v ! 5) (v ! 6) + k + w;
          t2 = big0 F (v ! 0) + fips_Maj (v ! 0) (v ! 1) (v ! 2)
      in [t1 + t2, v ! 0, v ! 1, v ! 2, v ! 3 + t1, v ! 4, v ! 5, v ! 6])"

definition fips_rounds :: "('a :: len word) sha2_fns \<Rightarrow> 'a word list \<Rightarrow> nat \<Rightarrow> bytes \<Rightarrow> nat \<Rightarrow> 'a word list \<Rightarrow> 'a word list" where
  "fips_rounds F K b chunk n s = fold (\<lambda>t. fips_round F (K ! t) (sha2_W F b chunk t)) [0..<n] s"

definition fips_compress :: "('a :: len word) sha2_fns \<Rightarrow> 'a word list \<Rightarrow> nat \<Rightarrow> 'a word list \<Rightarrow> bytes \<Rightarrow> 'a word list" where
  "fips_compress F K b s chunk = map2 (+) s (fips_rounds F K b chunk (length K) s)"

subsection \<open>The unrolled calls follow one pattern\<close>

definition call_word :: "nat \<Rightarrow> nat \<Rightarrow> nat \<Rightarrow> sha2_w" where
  "call_word n b t =
     (if t < 16 then WLoad t (b * t)
      else if t + 2 < n then WMix (t mod 16) ((t + 14) mod 16) ((t + 9) mod 16) ((t + 1) mod 16)
      else WOnly (t mod 16) ((t + 14) mod 16) ((t + 9) mod 16) ((t + 1) mod 16))"

definition call_regs :: "nat \<Rightarrow> nat list" where
  "call_regs t = map (\<lambda>j. (j + 7 * t) mod 8) [0..<8]"

definition call_key :: "'w sha2_call \<Rightarrow> 'w" where
  "call_key c = (case c of Round r k e \<Rightarrow> k)"

definition regular_calls :: "nat \<Rightarrow> 'w sha2_call list \<Rightarrow> bool" where
  "regular_calls b cs \<longleftrightarrow>
     (\<forall>t < length cs. cs ! t = Round (call_regs t) (call_key (cs ! t)) (call_word (length cs) b t))"

lemma regular_calls_code [code]:
  "regular_calls b cs \<longleftrightarrow>
     list_all2 (\<lambda>c t. c = Round (call_regs t) (call_key c) (call_word (length cs) b t)) cs [0..<length cs]"
  by (auto simp: regular_calls_def list_all2_conv_all_nth)

lemma sha256_calls_regular: "regular_calls 4 sha256_calls \<and> length sha256_calls = 64"
  by code_simp

lemma sha512_calls_regular: "regular_calls 8 sha512_calls \<and> length sha512_calls = 80"
  by code_simp

subsection \<open>Simulation of the loop by the unrolled code\<close>

text \<open>After \<open>t\<close> calls register \<open>(j + 7t) mod 8\<close> holds the loop's \<open>j\<close>-th variable, and the
  schedule variables hold the last sixteen schedule words.\<close>

definition regs_rel :: "nat \<Rightarrow> 'w list \<Rightarrow> 'w list \<Rightarrow> bool" where
  "regs_rel t regs v \<longleftrightarrow> length regs = 8 \<and> length v = 8 \<and> (\<forall>j < 8. regs ! ((j + 7 * t) mod 8) = v ! j)"

definition sched_rel :: "('a :: len word) sha2_fns \<Rightarrow> nat \<Rightarrow> bytes \<Rightarrow> nat \<Rightarrow> nat \<Rightarrow> 'a word list \<Rightarrow> bool" where
  "sched_rel F b chunk n t ws \<longleftrightarrow> length ws = 16 \<and>
     (\<forall>u < t. t \<le> u + 16 \<and> u + 2 < n \<longrightarrow> ws ! (u mod 16) = sha2_W F b chunk u)"

lemma less_8_cases: "(j :: nat) < 8 \<Longrightarrow> j = 0 \<or> j = 1 \<or> j = 2 \<or> j = 3 \<or> j = 4 \<or> j = 5 \<or> j = 6 \<or> j = 7"
  by linarith

lemma all_less_8: "(\<forall>j < 8. P j) \<longleftrightarrow> P 0 \<and> P 1 \<and> P 2 \<and> P 3 \<and> P 4 \<and> P 5 \<and> P 6 \<and> P (7 :: nat)"
  using less_8_cases by fastforce

lemma call_regs_nth: "j < 8 \<Longrightarrow> call_regs t ! j = (j + 7 * t) mod 8"
  by (simp add: call_regs_def)

lemma length_round: "length (sha2_Round F r k w regs) = length regs" "length (fips_round F k w v) = 8"
  by (simp_all add: sha2_Round_def fips_round_def Let_def)

lemma Ch_fips: "Ch x y z = fips_Ch x y z"
  by (rule bit_word_eqI) (auto simp: Ch_def fips_Ch_def bit_simps)

lemma Maj_fips: "Maj x y z = fips_Maj x y z"
  by (rule bit_word_eqI) (auto simp: Maj_def fips_Maj_def bit_simps)

lemma Round_sim:
  assumes "regs_rel t regs v"
  shows "regs_rel (Suc t) (sha2_Round F (call_regs t) k w regs) (fips_round F k w v)"
proof -
  define p where "p j = (j + 7 * t) mod 8" for j
  have p_inj: "i < 8 \<Longrightarrow> j < 8 \<Longrightarrow> p i = p j \<longleftrightarrow> i = j" and p_less: "p i < 8" for i j
    by (simp_all add: p_def mod_add_inj)
  have len: "length regs = 8" and v: "j < 8 \<Longrightarrow> regs ! p j = v ! j" for j
    using assms by (simp_all add: regs_rel_def p_def)
  have p_next: "(0 + 7 * Suc t) mod 8 = p 7" "(Suc j + 7 * Suc t) mod 8 = p j" for j
    using mod_add_self2 [of "j + 7 * t" 8] by (simp_all add: p_def algebra_simps)
  have args: "j < 8 \<Longrightarrow> call_regs t ! j = p j" for j
    by (simp add: call_regs_nth p_def)
  have upd: "j < 8 \<Longrightarrow> regs[p 3 := A, p 7 := B] ! p j = (if j = 7 then B else if j = 3 then A else v ! j)" for j A B
    using v len by (simp add: nth_list_update p_inj p_less)
  have "sha2_Round F (call_regs t) k w regs ! ((j + 7 * Suc t) mod 8) = fips_round F k w v ! j" if "j < 8" for j
  proof (cases j)
    case 0
    then show ?thesis
      unfolding 0 p_next by (simp add: sha2_Round_def fips_round_def Ch_fips Maj_fips Let_def args upd v)
  next
    case (Suc i)
    then have "i = 0 \<or> i = 1 \<or> i = 2 \<or> i = 3 \<or> i = 4 \<or> i = 5 \<or> i = 6"
      using that by linarith
    then show ?thesis
      unfolding Suc p_next by (elim disjE) (simp_all add: sha2_Round_def fips_round_def Ch_fips Maj_fips Let_def args upd v)
  qed
  then show ?thesis
    unfolding regs_rel_def by (intro conjI allI impI) (simp_all only: len length_round)
qed

lemma sched_slot: "16 \<le> t \<Longrightarrow> d \<le> 16 \<Longrightarrow> (t + (16 - d)) mod 16 = (t - d) mod (16 :: nat)"
  by (metis Nat.add_diff_assoc2 Nat.diff_add_assoc le_trans mod_add_self2)

lemma sched_rel_nth:
  assumes "sched_rel F b chunk n t ws" "16 \<le> t" "t < n" "2 \<le> d" "d \<le> 16"
  shows "ws ! ((t + (16 - d)) mod 16) = sha2_W F b chunk (t - d)"
proof -
  have "t - d < t" "t \<le> t - d + 16" "t - d + 2 < n"
    using assms by linarith+
  then have "ws ! ((t - d) mod 16) = sha2_W F b chunk (t - d)"
    using assms(1) by (simp add: sched_rel_def)
  then show ?thesis
    using sched_slot [OF assms(2,5)] by simp
qed

lemma word_sim:
  assumes rel: "sched_rel F b chunk n t ws" and "t < n" and "18 \<le> n"
  shows "fst (sha2_word F chunk (call_word n b t) ws) = sha2_W F b chunk t"
    and "sched_rel F b chunk n (Suc t) (snd (sha2_word F chunk (call_word n b t) ws))"
proof -
  note W = sha2_W.simps [of F b chunk t]
  note nth = sched_rel_nth [OF rel _ assms(2), of 2] sched_rel_nth [OF rel _ assms(2), of 7]
    sched_rel_nth [OF rel _ assms(2), of 15] sched_rel_nth [OF rel _ assms(2), of 16]
  show val: "fst (sha2_word F chunk (call_word n b t) ws) = sha2_W F b chunk t"
    using nth W by (auto simp: sha2_word_def call_word_def Let_def algebra_simps)
  have keep: "ws ! (u mod 16) = sha2_W F b chunk u" if "u < t" "t < u + 16" "u + 2 < n" for u
    using rel that by (simp add: sched_rel_def)
  have ws': "snd (sha2_word F chunk (call_word n b t) ws) =
    (if t < 16 \<or> t + 2 < n then ws[t mod 16 := sha2_W F b chunk t] else ws)"
    using val by (auto simp: sha2_word_def call_word_def Let_def)
  show "sched_rel F b chunk n (Suc t) (snd (sha2_word F chunk (call_word n b t) ws))"
    using rel keep assms(3) slot_other [of _ t 16]
    by (auto simp: ws' sched_rel_def nth_list_update less_Suc_eq eq_commute [of "t mod 16"])
qed

lemma exec_sim:
  assumes "regular_calls b cs" and "18 \<le> length cs" and "t \<le> length cs" and "length s = 8"
  shows "let (regs, ws) = fold (sha2_exec F chunk) (take t cs) (s, replicate 16 0)
    in regs_rel t regs (fips_rounds F (map call_key cs) b chunk t s) \<and> sched_rel F b chunk (length cs) t ws"
  using assms(3)
proof (induction t)
  case 0
  then show ?case
    using assms(4) by (simp add: regs_rel_def sched_rel_def fips_rounds_def)
next
  case (Suc t)
  obtain regs ws where st: "fold (sha2_exec F chunk) (take t cs) (s, replicate 16 0) = (regs, ws)"
    by (cases "fold (sha2_exec F chunk) (take t cs) (s, replicate 16 0)") auto
  let ?v = "fips_rounds F (map call_key cs) b chunk t s"
  have rel: "regs_rel t regs ?v" "sched_rel F b chunk (length cs) t ws"
    using Suc st by auto
  have c: "cs ! t = Round (call_regs t) (call_key (cs ! t)) (call_word (length cs) b t)"
    using assms(1) Suc(2) by (simp add: regular_calls_def)
  have step: "fold (sha2_exec F chunk) (take (Suc t) cs) (s, replicate 16 0) =
      (sha2_Round F (call_regs t) (call_key (cs ! t)) (sha2_W F b chunk t) regs,
       snd (sha2_word F chunk (call_word (length cs) b t) ws))"
    using Suc(2) word_sim(1) [OF rel(2) _ assms(2)]
    by (simp add: take_Suc_conv_app_nth st c [symmetric], subst c)
      (simp add: sha2_exec_def split_beta Let_def)
  show ?case
    using Round_sim [OF rel(1), of F "call_key (cs ! t)" "sha2_W F b chunk t"] word_sim(2) [OF rel(2) _ assms(2)] Suc(2)
    by (simp add: step fips_rounds_def)
qed

lemma Transform_fips:
  assumes "regular_calls b cs" and "18 \<le> length cs" and "length cs mod 8 = 0" and "length s = 8"
  shows "sha2_Transform F cs s chunk = fips_compress F (map call_key cs) b s chunk"
proof -
  obtain regs ws where st: "fold (sha2_exec F chunk) cs (s, replicate 16 0) = (regs, ws)"
    by (cases "fold (sha2_exec F chunk) cs (s, replicate 16 0)") auto
  let ?v = "fips_rounds F (map call_key cs) b chunk (length cs) s"
  have "regs_rel (length cs) regs ?v"
    using exec_sim [OF assms(1,2) order_refl assms(4), of F chunk] by (simp add: st)
  moreover have "(j + 7 * length cs) mod 8 = j" if "j < 8" for j
    using assms(3) that by (metis add.commute add_0 mod_add_left_eq mod_less mod_mult_right_eq mult_0_right)
  ultimately have "regs = ?v"
    by (intro nth_equalityI) (auto simp: regs_rel_def)
  then show ?thesis
    by (simp add: sha2_Transform_def fips_compress_def st)
qed

subsection \<open>The constants of the standard\<close>

text \<open>\<open>root_frac k w p c\<close>: the word \<open>c\<close> is the first \<open>w\<close> bits of the fractional part of the
  \<open>k\<close>-th root of \<open>p\<close>, where \<open>i\<close> is the integer part (at most 7 for the primes used).\<close>

definition root_frac :: "nat \<Rightarrow> nat \<Rightarrow> int \<Rightarrow> int \<Rightarrow> bool" where
  "root_frac k w p c \<longleftrightarrow> 0 \<le> c \<and> c < 2 ^ w \<and>
     (let i = last (takeWhile (\<lambda>i. i ^ k \<le> p) [1, 2, 3, 4, 5, 6, 7])
      in (i * 2 ^ w + c) ^ k \<le> p * 2 ^ (w * k) \<and> p * 2 ^ (w * k) < (i * 2 ^ w + c + 1) ^ k)"

definition primes_80 :: "int list" where
  "primes_80 = [2, 3, 5, 7, 11, 13, 17, 19, 23, 29, 31, 37, 41, 43, 47, 53, 59, 61, 67, 71, 73, 79, 83, 89,
    97, 101, 103, 107, 109, 113, 127, 131, 137, 139, 149, 151, 157, 163, 167, 173, 179, 181, 191, 193,
    197, 199, 211, 223, 227, 229, 233, 239, 241, 251, 257, 263, 269, 271, 277, 281, 283, 293, 307, 311,
    313, 317, 331, 337, 347, 349, 353, 359, 367, 373, 379, 383, 389, 397, 401, 409]"

text \<open>The largest \<open>n\<close> with \<open>n^k \<le> p 2^(wk)\<close> is the \<open>k\<close>-th root of \<open>p\<close> scaled by \<open>2^w\<close> and rounded down; its lowest
  \<open>w\<close> bits are the first bits of the root's fractional part.\<close>

definition root_word :: "nat \<Rightarrow> int \<Rightarrow> 'a :: len word" where
  "root_word k p = word_of_int (GREATEST n. 0 \<le> n \<and> n ^ k \<le> p * 2 ^ (LENGTH('a) * k))"

definition sha256_K :: "u32 list" where
  "sha256_K = map (root_word 3) (take 64 primes_80)"

definition sha256_H0 :: "u32 list" where
  "sha256_H0 = map (root_word 2) (take 8 primes_80)"

definition sha512_K :: "u64 list" where
  "sha512_K = map (root_word 3) primes_80"

definition sha512_H0 :: "u64 list" where
  "sha512_H0 = map (root_word 2) (take 8 primes_80)"

lemma sha256_constants:
  "list_all2 (\<lambda>p c. root_frac 3 32 p (uint (call_key c))) (take 64 primes_80) sha256_calls"
  "list_all2 (\<lambda>p c. root_frac 2 32 p (uint c)) (take 8 primes_80) sha256_Initialize"
  by code_simp+

lemma sha512_constants:
  "list_all2 (\<lambda>p c. root_frac 3 64 p (uint (call_key c))) primes_80 sha512_calls"
  "list_all2 (\<lambda>p c. root_frac 2 64 p (uint c)) (take 8 primes_80) sha512_Initialize"
  by code_simp+

lemma root_frac_word:
  assumes "root_frac k LENGTH('a) p (uint (c :: 'a :: len word))" "0 < p" "0 < k"
  shows "root_word k p = c"
proof -
  let ?w = "LENGTH('a)"
  define i where "i = last (takeWhile (\<lambda>i. i ^ k \<le> p) [1, 2, 3, 4, 5, 6, 7])"
  define N where "N = i * 2 ^ ?w + uint c"
  have "i \<in> set (takeWhile (\<lambda>i. i ^ k \<le> p) [1, 2, 3, 4, 5, 6, 7])"
    unfolding i_def by (rule last_in_set) (use assms(2) in simp)
  then have "0 \<le> i" by (auto dest: set_takeWhileD)
  then have N: "0 \<le> N" "N ^ k \<le> p * 2 ^ (?w * k)" "p * 2 ^ (?w * k) < (N + 1) ^ k"
    using assms(1) by (simp_all add: root_frac_def Let_def i_def N_def)
  have "y \<le> N" if "0 \<le> y \<and> y ^ k \<le> p * 2 ^ (?w * k)" for y
  proof (rule ccontr)
    assume "\<not> y \<le> N"
    then have "(N + 1) ^ k \<le> y ^ k" using N(1) by (intro power_mono) auto
    then show False using N(3) that by linarith
  qed
  then have "(GREATEST n. 0 \<le> n \<and> n ^ k \<le> p * 2 ^ (?w * k)) = N"
    using N by (intro Greatest_equality) simp_all
  then show ?thesis by (simp add: root_word_def N_def word_exp_length_eq_0)
qed

lemma root_frac_words:
  assumes "list_all2 (\<lambda>p c. root_frac k LENGTH('a) p (uint (c :: 'a :: len word))) ps cs" "list_all ((<) 0) ps" "0 < k"
  shows "map (root_word k) ps = cs"
  using assms(1,2) by (induction rule: list_all2_induct) (simp_all add: root_frac_word [OF _ _ assms(3)])

lemma primes_80_pos: "list_all ((<) 0) primes_80" "list_all ((<) 0) (take n primes_80)"
proof -
  show "list_all ((<) 0) primes_80" by (simp add: primes_80_def)
  then show "list_all ((<) 0) (take n primes_80)" by (auto simp: list_all_iff dest: in_set_takeD)
qed

lemma sha2_constants_fips:
  "sha256_K = map call_key sha256_calls" "sha256_H0 = sha256_Initialize"
  "sha512_K = map call_key sha512_calls" "sha512_H0 = sha512_Initialize"
  unfolding sha256_K_def sha256_H0_def sha512_K_def sha512_H0_def
  by (rule root_frac_words; use sha256_constants sha512_constants primes_80_pos in \<open>simp add: list_all2_map2\<close>)+

subsection \<open>The code's functions are the standard's\<close>

lemma word_rotr_shifts: "0 < m \<Longrightarrow> m < LENGTH('a) \<Longrightarrow> word_rotr m w = drop_bit m w OR push_bit (LENGTH('a) - m) w"
  for w :: "'a :: len word"
proof (rule bit_word_eqI)
  fix n assume m: "0 < m" "m < LENGTH('a)" and n: "n < LENGTH('a)"
  show "bit (word_rotr m w) n = bit (drop_bit m w OR push_bit (LENGTH('a) - m) w) n"
  proof (cases "n + m < LENGTH('a)")
    case True
    then show ?thesis using n m by (auto simp: bit_simps add.commute)
  next
    case False
    then have "(n + m) mod LENGTH('a) = n - (LENGTH('a) - m)" "\<not> bit w (m + n)"
      using m n by (auto simp: mod_if bit_imp_le_length dest: bit_imp_le_length)
    then show ?thesis using False n m by (auto simp: bit_simps add.commute)
  qed
qed

definition fns_agree :: "nat \<Rightarrow> ('a :: len word) sha2_fns \<Rightarrow> 'a word sha2_fns \<Rightarrow> bool" where
  "fns_agree b F G \<longleftrightarrow> big0 F = big0 G \<and> big1 F = big1 G \<and> small0 F = small0 G \<and> small1 F = small1 G
     \<and> (\<forall>p. b \<le> length p \<longrightarrow> read_be F p = read_be G p)"

lemma sha2_W_agree: "fns_agree b F G \<Longrightarrow> length chunk = 16 * b \<Longrightarrow> sha2_W F b chunk t = sha2_W G b chunk t"
proof (induction t rule: less_induct)
  case (less t)
  have "b \<le> length (drop (b * t) chunk)" if "t < 16"
  proof -
    have "b * (t + 1) \<le> b * 16" by (rule mult_le_mono2) (use that in simp)
    then have "b * t + b \<le> 16 * b" by (simp only: distrib_left mult_1_right mult.commute)
    then show ?thesis unfolding length_drop less(3) by linarith
  qed
  then show ?case
    using less by (subst (1 2) sha2_W.simps) (simp add: fns_agree_def)
qed

lemma fips_compress_agree: "fns_agree b F G \<Longrightarrow> length chunk = 16 * b \<Longrightarrow> fips_compress F K b s chunk = fips_compress G K b s chunk"
  by (subst fips_compress_def, subst fips_rounds_def, subst sha2_W_agree [of b F G])
    (simp_all add: fips_compress_def fips_rounds_def fips_round_def [abs_def] fns_agree_def)

lemma be_step: "v * 256 + ucast c = push_bit 8 v OR ucast c" for v :: "'a :: len word" and c :: u8
proof -
  have "push_bit 8 v AND ucast c = 0"
    by (rule bit_word_eqI) (auto simp: bit_simps dest: bit_imp_le_length)
  then show ?thesis by (simp add: disjunctive_add_eq_or [symmetric] push_bit_eq_mult)
qed

lemma be_word_or: "be_word n p = foldl (\<lambda>v c. push_bit 8 v OR ucast c) 0 (take n p)"
  by (simp only: be_word_def be_step)

lemma ucast_push_byte: "k \<le> 24 \<Longrightarrow> ucast (push_bit k (ucast c :: u32)) = (push_bit k (ucast c) :: u64)" for c :: u8
  by (rule bit_word_eqI) (auto simp: bit_simps dest: bit_imp_le_length)

lemma ucast_byte: "ucast (ucast c :: u32) = (ucast c :: u64)" for c :: u8
  using ucast_push_byte [of 0 c] by simp

lemma ReadBE32_fips:
  assumes "4 \<le> length p"
  shows "ReadBE32 p = be_word 4 p"
proof -
  obtain x0 x1 x2 x3 r where "p = x0 # x1 # x2 # x3 # r"
    using assms by (auto simp: numeral_eq_Suc Suc_le_length_iff)
  then show ?thesis
    by (simp add: ReadBE32_def ReadLE32_def be_word_or push_bit_or push_bit_push_bit ac_simps)
qed

lemma ReadBE64_fips:
  assumes "8 \<le> length p"
  shows "ReadBE64 p = be_word 8 p"
proof -
  obtain x0 x1 x2 x3 x4 x5 x6 x7 r where "p = x0 # x1 # x2 # x3 # x4 # x5 # x6 # x7 # r"
    using assms by (auto simp: numeral_eq_Suc Suc_le_length_iff)
  then show ?thesis
    by (simp add: ReadBE64_def ReadLE64_def ReadLE32_def be_word_or push_bit_or push_bit_push_bit unsigned_or_eq
        ucast_push_byte ucast_byte ac_simps)
qed

lemma fns_fips: "fns_agree 4 sha256_fns fips256_fns" "fns_agree 8 sha512_fns fips512_fns"
  by (simp_all add: fns_agree_def sha256_fns_def fips256_fns_def sha512_fns_def fips512_fns_def fun_eq_iff word_rotr_shifts
      Sigma0_256_def Sigma1_256_def sigma0_256_def sigma1_256_def Sigma0_512_def Sigma1_512_def sigma0_512_def sigma1_512_def
      ReadBE32_fips ReadBE64_fips)

lemma byte_of_word: "8 * k < LENGTH('a) \<Longrightarrow> 8 * k + 8 \<le> LENGTH('a) \<Longrightarrow> ucast (drop_bit (8 * k) (of_nat v :: 'a :: len word)) = (of_nat (v div 256 ^ k) :: u8)"
proof (rule bit_word_eqI)
  fix n assume k: "8 * k + 8 \<le> LENGTH('a)" and n: "n < LENGTH(8)"
  have "(256 :: nat) ^ k = 2 ^ (8 * k)" by (simp add: power_mult)
  then show "bit (ucast (drop_bit (8 * k) (of_nat v :: 'a word)) :: u8) n = bit (of_nat (v div 256 ^ k) :: u8) n"
    using k n by (auto simp: bit_simps drop_bit_eq_div [symmetric])
qed

lemma upt_4: "[0..<4] = [0, 1, 2, 3 :: nat]"
  and upt_8: "[0..<8] = [0, 1, 2, 3, 4, 5, 6, 7 :: nat]"
  by code_simp+

lemma WriteBE32_fips: "WriteBE32 x = be_bytes 4 (unat x)"
  using byte_of_word [of 0 "unat x", where 'a = 32] byte_of_word [of 1 "unat x", where 'a = 32] byte_of_word [of 2 "unat x", where 'a = 32]
    byte_of_word [of 3 "unat x", where 'a = 32]
  by (simp add: WriteBE32_def WriteLE32_def be_bytes_def upt_4)

lemma WriteLE64_nat: "WriteLE64 (of_nat v) = map (\<lambda>k. of_nat (v div 256 ^ k)) [0..<8]"
proof -
  have low: "ucast (drop_bit (8 * k) (ucast x :: u32)) = (ucast (drop_bit (8 * k) x) :: u8)" if "k < 4" for k and x :: u64
    using that by (intro bit_word_eqI) (auto simp: bit_simps)
  have high: "ucast (drop_bit (8 * k) (ucast (drop_bit 32 x) :: u32)) = (ucast (drop_bit (8 * (k + 4)) x) :: u8)" if "k < 4" for k and x :: u64
    using that by (intro bit_word_eqI) (auto simp: bit_simps algebra_simps)
  have b: "k < 8 \<Longrightarrow> ucast (drop_bit (8 * k) (of_nat v :: u64)) = (of_nat (v div 256 ^ k) :: u8)" for k
    by (rule byte_of_word) simp_all
  show ?thesis
    using low [of 0 "of_nat v"] low [of 1 "of_nat v"] low [of 2 "of_nat v"] low [of 3 "of_nat v"]
      high [of 0 "of_nat v"] high [of 1 "of_nat v"] high [of 2 "of_nat v"] high [of 3 "of_nat v"]
      b [of 0] b [of 1] b [of 2] b [of 3] b [of 4] b [of 5] b [of 6] b [of 7]
    by (simp add: WriteLE64_def WriteLE32_def upt_8)
qed

lemma WriteBE64_fips: "WriteBE64 (of_nat v) = be_bytes 8 v"
  by (simp add: WriteBE64_def WriteLE64_nat be_bytes_def upt_8)

lemma pad_zeros:
  assumes "L < (B :: nat)"
  shows "(LEAST z. (n + 1 + z + L) mod B = 0) = (2 * B - 1 - L - n mod B) mod B"
proof (rule Least_equality)
  let ?q = "2 * B - 1 - L - n mod B"
  have r: "n mod B < B" using assms by simp
  have "(n + 1 + ?q mod B + L) mod B = (n mod B + 1 + ?q + L) mod B"
    by (metis (no_types, opaque_lifting) add.commute add.left_commute mod_add_right_eq)
  also have "n mod B + 1 + ?q + L = 2 * B" using r assms by linarith
  finally show "(n + 1 + ?q mod B + L) mod B = 0" by simp
next
  fix z assume z: "(n + 1 + z + L) mod B = 0"
  let ?q = "2 * B - 1 - L - n mod B"
  have r: "n mod B < B" using assms by simp
  have "(n mod B + 1 + z + L) mod B = 0" using z by (metis (no_types, opaque_lifting) add.assoc mod_add_left_eq)
  then obtain k where "n mod B + 1 + z + L = k * B" by (metis dvdE mod_0_imp_dvd mult.commute)
  moreover have "n mod B + 1 + ?q + L = 2 * B" using r assms by linarith
  ultimately have "?q + k * B = z + 2 * B" by linarith
  then have "?q mod B = z mod B" by (metis mod_mult_self1)
  then show "?q mod B \<le> z" by simp
qed

lemma md_pad_fips:
  "md_pad 64 8 WriteBE64 m = fips_pad 64 8 m" "md_pad 128 16 (\<lambda>n. replicate 8 0 @ WriteBE64 n) m = fips_pad 128 16 m"
  by (simp_all only: md_pad_def fips_pad_def WriteBE64_fips pad_zeros) simp_all

subsection \<open>The hash classes\<close>

interpretation sha256: md_hash 64 8 WriteBE64 sha256_Transform
  by unfold_locales simp_all

interpretation sha512: md_hash 128 16 "\<lambda>n. replicate 8 0 @ WriteBE64 n" sha512_Transform
  by unfold_locales simp_all

definition sha256_spec :: "bytes \<Rightarrow> bytes" where
  "sha256_spec m = concat (map (\<lambda>x. be_bytes 4 (unat x))
     (md_blocks 64 (fips_compress fips256_fns sha256_K 4) (fips_pad 64 8 m) sha256_H0))"

definition sha512_spec :: "bytes \<Rightarrow> bytes" where
  "sha512_spec m = concat (map (\<lambda>x. be_bytes 8 (unat x))
     (md_blocks 128 (fips_compress fips512_fns sha512_K 8) (fips_pad 128 16 m) sha512_H0))"

lemma length_fips_rounds: "length s = 8 \<Longrightarrow> length (fips_rounds F K b chunk n s) = 8"
  by (cases n) (simp_all add: fips_rounds_def length_round)

lemma length_fips_compress: "length s = 8 \<Longrightarrow> length (fips_compress F K b s chunk) = 8"
  by (simp add: fips_compress_def length_fips_rounds)

lemma sha256_Transform_fips:
  "length s = 8 \<Longrightarrow> length chunk = 64 \<Longrightarrow> sha256_Transform s chunk = fips_compress fips256_fns sha256_K 4 s chunk"
  using Transform_fips [of 4 sha256_calls s] sha256_calls_regular fips_compress_agree [OF fns_fips(1), of chunk]
  by (simp add: sha256_Transform_def sha2_constants_fips)

lemma sha512_Transform_fips:
  "length s = 8 \<Longrightarrow> length chunk = 128 \<Longrightarrow> sha512_Transform s chunk = fips_compress fips512_fns sha512_K 8 s chunk"
  using Transform_fips [of 8 sha512_calls s] sha512_calls_regular fips_compress_agree [OF fns_fips(2), of chunk]
  by (simp add: sha512_Transform_def sha2_constants_fips)

lemma sha256_blocks_fips:
  "md_blocks 64 sha256_Transform m sha256_Initialize = md_blocks 64 (fips_compress fips256_fns sha256_K 4) m sha256_H0"
  and length_sha256_blocks: "length (md_blocks 64 (fips_compress fips256_fns sha256_K 4) m sha256_H0) = 8"
  using md_blocks_cong [where P = "\<lambda>s. length s = 8" and f = sha256_Transform and B = 64 and m = m
      and g = "fips_compress fips256_fns sha256_K 4" and s = sha256_Initialize]
  by (simp_all add: sha256_Transform_fips length_fips_compress sha256_Initialize_def sha2_constants_fips(2))

lemma sha512_blocks_fips:
  "md_blocks 128 sha512_Transform m sha512_Initialize = md_blocks 128 (fips_compress fips512_fns sha512_K 8) m sha512_H0"
  and length_sha512_blocks: "length (md_blocks 128 (fips_compress fips512_fns sha512_K 8) m sha512_H0) = 8"
  using md_blocks_cong [where P = "\<lambda>s. length s = 8" and f = sha512_Transform and B = 128 and m = m
      and g = "fips_compress fips512_fns sha512_K 8" and s = sha512_Initialize]
  by (simp_all add: sha512_Transform_fips length_fips_compress sha512_Initialize_def sha2_constants_fips(4))

lemma map_WriteBE: "map WriteBE32 xs = map (\<lambda>x. be_bytes 4 (unat x)) xs" "map WriteBE64 ys = map (\<lambda>x. be_bytes 8 (unat x)) ys"
proof -
  have "WriteBE64 x = be_bytes 8 (unat x)" for x :: u64 using WriteBE64_fips [of "unat x"] by simp
  then show "map WriteBE32 xs = map (\<lambda>x. be_bytes 4 (unat x)) xs" "map WriteBE64 ys = map (\<lambda>x. be_bytes 8 (unat x)) ys"
    by (simp_all add: WriteBE32_fips)
qed

lemma CSHA256_Finalize_inv:
  "sha256.md_inv sha256_Initialize m st \<Longrightarrow> fst (CSHA256_Finalize st) = sha256_spec m"
  by (simp add: CSHA256_Finalize_def sha256_spec_def sha256.finish_state sha256_blocks_fips md_pad_fips map_WriteBE(1) Let_def)

lemma CSHA512_Finalize_inv:
  "sha512.md_inv sha512_Initialize m st \<Longrightarrow> fst (CSHA512_Finalize st) = sha512_spec m"
  by (simp add: CSHA512_Finalize_def sha512_spec_def sha512.finish_state sha512_blocks_fips md_pad_fips map_WriteBE(2) Let_def)

lemma CSHA256_writes_inv: "sha256.md_inv sha256_Initialize (concat ds) (fold CSHA256_Write ds CSHA256)"
  using sha256.write_all_inv [OF sha256.init_inv, of sha256_Initialize ds]
  by (simp add: CSHA256_Write_def [abs_def] CSHA256_def)

lemma CSHA512_writes_inv: "sha512.md_inv sha512_Initialize (concat ds) (fold CSHA512_Write ds CSHA512)"
  using sha512.write_all_inv [OF sha512.init_inv, of sha512_Initialize ds]
  by (simp add: CSHA512_Write_def [abs_def] CSHA512_def)

lemma length_sha256_spec [simp]: "length (sha256_spec m) = 32"
  using length_sha256_blocks [of "fips_pad 64 8 m"]
  by (simp add: sha256_spec_def be_bytes_def length_concat comp_def sum_list_triv)

lemma length_sha512_spec [simp]: "length (sha512_spec m) = 64"
  using length_sha512_blocks [of "fips_pad 128 16 m"]
  by (simp add: sha512_spec_def be_bytes_def length_concat comp_def sum_list_triv)

subsection \<open>Properties\<close>

text \<open>C39: whatever pieces a message is written in, \<open>CSHA256\<close> returns the FIPS 180-4 hash of their
  concatenation.  The right-hand side is written from the standard alone: rotations, \<open>Ch\<close> and \<open>Maj\<close>, the message
  schedule and the round loop, the constants as roots of primes, big-endian words and the padding (whose length
  field, like the code's, is taken modulo \<open>2^64\<close>).\<close>

theorem CSHA256_stream:
  "fst (CSHA256_Finalize (fold CSHA256_Write ds CSHA256)) = sha256_spec (concat ds)"
  by (rule CSHA256_Finalize_inv [OF CSHA256_writes_inv])

text \<open>the same for \<open>CSHA512\<close>, with its 128-byte blocks, 80 rounds and 16-byte length field.\<close>

theorem CSHA512_stream:
  "fst (CSHA512_Finalize (fold CSHA512_Write ds CSHA512)) = sha512_spec (concat ds)"
  by (rule CSHA512_Finalize_inv [OF CSHA512_writes_inv])

text \<open>the round constants and initial states in both files are the first bits of the fractional
  parts of the cube and square roots of the first primes, as the standard prescribes.\<close>

theorem sha2_constants_are_prime_roots:
  "list_all2 (\<lambda>p c. root_frac 3 32 p (uint (call_key c))) (take 64 primes_80) sha256_calls
   \<and> list_all2 (\<lambda>p c. root_frac 2 32 p (uint c)) (take 8 primes_80) sha256_Initialize
   \<and> list_all2 (\<lambda>p c. root_frac 3 64 p (uint (call_key c))) primes_80 sha512_calls
   \<and> list_all2 (\<lambda>p c. root_frac 2 64 p (uint c)) (take 8 primes_80) sha512_Initialize"
  using sha256_constants sha512_constants by blast

end
