(* ===== verification/Ripemd160.thy ===== *)
theory Ripemd160
  imports Md_Stream
begin

text \<open>
  RIPEMD-160, \<open>src/src/crypto/ripemd160.cpp\<close>.  The 160 calls of \<open>Transform\<close> are a table (group,
  line, registers \<open>a .. e\<close> as 0 .. 4, message word, rotation); \<open>ripemd_exec\<close> runs one call on the
  registers of its line.  The lemmas show that the unrolled calls are the two round loops of the
  standard, whose message order is given by the permutations rho and pi.
\<close>

unbundle bit_operations_syntax

subsection \<open>The transform\<close>

definition rmd_f :: "nat \<Rightarrow> u32 \<Rightarrow> u32 \<Rightarrow> u32 \<Rightarrow> u32" where
  "rmd_f n x y z =
     (if n = 1 then x XOR y XOR z
      else if n = 2 then (x AND y) OR (NOT x AND z)
      else if n = 3 then (x OR NOT y) XOR z
      else if n = 4 then (x AND z) OR (y AND NOT z)
      else x XOR (y OR NOT z))"

definition ripemd160_Initialize :: "u32 list" where
  "ripemd160_Initialize = [0x67452301, 0xEFCDAB89, 0x98BADCFE, 0x10325476, 0xC3D2E1F0]"

definition rol :: "u32 \<Rightarrow> nat \<Rightarrow> u32" where
  "rol x i = push_bit i x OR drop_bit (32 - i) x"

definition ripemd_Round :: "nat list \<Rightarrow> u32 \<Rightarrow> u32 \<Rightarrow> u32 \<Rightarrow> nat \<Rightarrow> u32 list \<Rightarrow> u32 list" where
  "ripemd_Round rs f x k r regs =
     regs[rs ! 0 := rol (regs ! (rs ! 0) + f + x + k) r + regs ! (rs ! 4), rs ! 2 := rol (regs ! (rs ! 2)) 10]"

text \<open>\<open>R g l rs w r\<close> is the call of \<open>R<g><l>\<close>: group \<open>g\<close> on line \<open>l\<close>.\<close>

datatype ripemd_call = R nat nat "nat list" nat nat

text \<open>The function and the constant of \<open>R11 .. R51\<close> and \<open>R12 .. R52\<close>.\<close>

definition ripemd_fk :: "nat \<Rightarrow> nat \<Rightarrow> nat \<times> u32" where
  "ripemd_fk l g =
     (if l = 1 then [(1, 0), (2, 0x5A827999), (3, 0x6ED9EBA1), (4, 0x8F1BBCDC), (5, 0xA953FD4E)] ! (g - 1)
      else [(5, 0x50A28BE6), (4, 0x5C4DD124), (3, 0x6D703EF3), (2, 0x7A6D76E9), (1, 0)] ! (g - 1))"

definition ripemd_line :: "bytes \<Rightarrow> ripemd_call \<Rightarrow> u32 list \<Rightarrow> u32 list" where
  "ripemd_line chunk c regs =
     (case c of R g l rs w r \<Rightarrow>
        let (n, k) = ripemd_fk l g
        in ripemd_Round rs (rmd_f n (regs ! (rs ! 1)) (regs ! (rs ! 2)) (regs ! (rs ! 3)))
             (ReadLE32 (drop (4 * w) chunk)) k r regs)"

definition ripemd_exec :: "bytes \<Rightarrow> ripemd_call \<Rightarrow> u32 list \<times> u32 list \<Rightarrow> u32 list \<times> u32 list" where
  "ripemd_exec chunk c st =
     (case c of R g l rs w r \<Rightarrow>
        if l = 1 then (ripemd_line chunk c (fst st), snd st) else (fst st, ripemd_line chunk c (snd st)))"

definition ripemd160_calls :: "ripemd_call list" where
  "ripemd160_calls =
    [R 1 1 [0,1,2,3,4] 0 11, R 1 2 [0,1,2,3,4] 5 8,
     R 1 1 [4,0,1,2,3] 1 14, R 1 2 [4,0,1,2,3] 14 9,
     R 1 1 [3,4,0,1,2] 2 15, R 1 2 [3,4,0,1,2] 7 9,
     R 1 1 [2,3,4,0,1] 3 12, R 1 2 [2,3,4,0,1] 0 11,
     R 1 1 [1,2,3,4,0] 4 5, R 1 2 [1,2,3,4,0] 9 13,
     R 1 1 [0,1,2,3,4] 5 8, R 1 2 [0,1,2,3,4] 2 15,
     R 1 1 [4,0,1,2,3] 6 7, R 1 2 [4,0,1,2,3] 11 15,
     R 1 1 [3,4,0,1,2] 7 9, R 1 2 [3,4,0,1,2] 4 5,
     R 1 1 [2,3,4,0,1] 8 11, R 1 2 [2,3,4,0,1] 13 7,
     R 1 1 [1,2,3,4,0] 9 13, R 1 2 [1,2,3,4,0] 6 7,
     R 1 1 [0,1,2,3,4] 10 14, R 1 2 [0,1,2,3,4] 15 8,
     R 1 1 [4,0,1,2,3] 11 15, R 1 2 [4,0,1,2,3] 8 11,
     R 1 1 [3,4,0,1,2] 12 6, R 1 2 [3,4,0,1,2] 1 14,
     R 1 1 [2,3,4,0,1] 13 7, R 1 2 [2,3,4,0,1] 10 14,
     R 1 1 [1,2,3,4,0] 14 9, R 1 2 [1,2,3,4,0] 3 12,
     R 1 1 [0,1,2,3,4] 15 8, R 1 2 [0,1,2,3,4] 12 6,
     R 2 1 [4,0,1,2,3] 7 7, R 2 2 [4,0,1,2,3] 6 9,
     R 2 1 [3,4,0,1,2] 4 6, R 2 2 [3,4,0,1,2] 11 13,
     R 2 1 [2,3,4,0,1] 13 8, R 2 2 [2,3,4,0,1] 3 15,
     R 2 1 [1,2,3,4,0] 1 13, R 2 2 [1,2,3,4,0] 7 7,
     R 2 1 [0,1,2,3,4] 10 11, R 2 2 [0,1,2,3,4] 0 12,
     R 2 1 [4,0,1,2,3] 6 9, R 2 2 [4,0,1,2,3] 13 8,
     R 2 1 [3,4,0,1,2] 15 7, R 2 2 [3,4,0,1,2] 5 9,
     R 2 1 [2,3,4,0,1] 3 15, R 2 2 [2,3,4,0,1] 10 11,
     R 2 1 [1,2,3,4,0] 12 7, R 2 2 [1,2,3,4,0] 14 7,
     R 2 1 [0,1,2,3,4] 0 12, R 2 2 [0,1,2,3,4] 15 7,
     R 2 1 [4,0,1,2,3] 9 15, R 2 2 [4,0,1,2,3] 8 12,
     R 2 1 [3,4,0,1,2] 5 9, R 2 2 [3,4,0,1,2] 12 7,
     R 2 1 [2,3,4,0,1] 2 11, R 2 2 [2,3,4,0,1] 4 6,
     R 2 1 [1,2,3,4,0] 14 7, R 2 2 [1,2,3,4,0] 9 15,
     R 2 1 [0,1,2,3,4] 11 13, R 2 2 [0,1,2,3,4] 1 13,
     R 2 1 [4,0,1,2,3] 8 12, R 2 2 [4,0,1,2,3] 2 11,
     R 3 1 [3,4,0,1,2] 3 11, R 3 2 [3,4,0,1,2] 15 9,
     R 3 1 [2,3,4,0,1] 10 13, R 3 2 [2,3,4,0,1] 5 7,
     R 3 1 [1,2,3,4,0] 14 6, R 3 2 [1,2,3,4,0] 1 15,
     R 3 1 [0,1,2,3,4] 4 7, R 3 2 [0,1,2,3,4] 3 11,
     R 3 1 [4,0,1,2,3] 9 14, R 3 2 [4,0,1,2,3] 7 8,
     R 3 1 [3,4,0,1,2] 15 9, R 3 2 [3,4,0,1,2] 14 6,
     R 3 1 [2,3,4,0,1] 8 13, R 3 2 [2,3,4,0,1] 6 6,
     R 3 1 [1,2,3,4,0] 1 15, R 3 2 [1,2,3,4,0] 9 14,
     R 3 1 [0,1,2,3,4] 2 14, R 3 2 [0,1,2,3,4] 11 12,
     R 3 1 [4,0,1,2,3] 7 8, R 3 2 [4,0,1,2,3] 8 13,
     R 3 1 [3,4,0,1,2] 0 13, R 3 2 [3,4,0,1,2] 12 5,
     R 3 1 [2,3,4,0,1] 6 6, R 3 2 [2,3,4,0,1] 2 14,
     R 3 1 [1,2,3,4,0] 13 5, R 3 2 [1,2,3,4,0] 10 13,
     R 3 1 [0,1,2,3,4] 11 12, R 3 2 [0,1,2,3,4] 0 13,
     R 3 1 [4,0,1,2,3] 5 7, R 3 2 [4,0,1,2,3] 4 7,
     R 3 1 [3,4,0,1,2] 12 5, R 3 2 [3,4,0,1,2] 13 5,
     R 4 1 [2,3,4,0,1] 1 11, R 4 2 [2,3,4,0,1] 8 15,
     R 4 1 [1,2,3,4,0] 9 12, R 4 2 [1,2,3,4,0] 6 5,
     R 4 1 [0,1,2,3,4] 11 14, R 4 2 [0,1,2,3,4] 4 8,
     R 4 1 [4,0,1,2,3] 10 15, R 4 2 [4,0,1,2,3] 1 11,
     R 4 1 [3,4,0,1,2] 0 14, R 4 2 [3,4,0,1,2] 3 14,
     R 4 1 [2,3,4,0,1] 8 15, R 4 2 [2,3,4,0,1] 11 14,
     R 4 1 [1,2,3,4,0] 12 9, R 4 2 [1,2,3,4,0] 15 6,
     R 4 1 [0,1,2,3,4] 4 8, R 4 2 [0,1,2,3,4] 0 14,
     R 4 1 [4,0,1,2,3] 13 9, R 4 2 [4,0,1,2,3] 5 6,
     R 4 1 [3,4,0,1,2] 3 14, R 4 2 [3,4,0,1,2] 12 9,
     R 4 1 [2,3,4,0,1] 7 5, R 4 2 [2,3,4,0,1] 2 12,
     R 4 1 [1,2,3,4,0] 15 6, R 4 2 [1,2,3,4,0] 13 9,
     R 4 1 [0,1,2,3,4] 14 8, R 4 2 [0,1,2,3,4] 9 12,
     R 4 1 [4,0,1,2,3] 5 6, R 4 2 [4,0,1,2,3] 7 5,
     R 4 1 [3,4,0,1,2] 6 5, R 4 2 [3,4,0,1,2] 10 15,
     R 4 1 [2,3,4,0,1] 2 12, R 4 2 [2,3,4,0,1] 14 8,
     R 5 1 [1,2,3,4,0] 4 9, R 5 2 [1,2,3,4,0] 12 8,
     R 5 1 [0,1,2,3,4] 0 15, R 5 2 [0,1,2,3,4] 15 5,
     R 5 1 [4,0,1,2,3] 5 5, R 5 2 [4,0,1,2,3] 10 12,
     R 5 1 [3,4,0,1,2] 9 11, R 5 2 [3,4,0,1,2] 4 9,
     R 5 1 [2,3,4,0,1] 7 6, R 5 2 [2,3,4,0,1] 1 12,
     R 5 1 [1,2,3,4,0] 12 8, R 5 2 [1,2,3,4,0] 5 5,
     R 5 1 [0,1,2,3,4] 2 13, R 5 2 [0,1,2,3,4] 8 14,
     R 5 1 [4,0,1,2,3] 10 12, R 5 2 [4,0,1,2,3] 7 6,
     R 5 1 [3,4,0,1,2] 14 5, R 5 2 [3,4,0,1,2] 6 8,
     R 5 1 [2,3,4,0,1] 1 12, R 5 2 [2,3,4,0,1] 2 13,
     R 5 1 [1,2,3,4,0] 3 13, R 5 2 [1,2,3,4,0] 13 6,
     R 5 1 [0,1,2,3,4] 8 14, R 5 2 [0,1,2,3,4] 14 5,
     R 5 1 [4,0,1,2,3] 11 11, R 5 2 [4,0,1,2,3] 0 15,
     R 5 1 [3,4,0,1,2] 6 8, R 5 2 [3,4,0,1,2] 3 13,
     R 5 1 [2,3,4,0,1] 15 5, R 5 2 [2,3,4,0,1] 9 11,
     R 5 1 [1,2,3,4,0] 13 6, R 5 2 [1,2,3,4,0] 11 11]"

definition ripemd160_Transform :: "u32 list \<Rightarrow> bytes \<Rightarrow> u32 list" where
  "ripemd160_Transform s chunk =
     (let (p, q) = fold (ripemd_exec chunk) ripemd160_calls (s, s)
      in [s ! 1 + p ! 2 + q ! 3, s ! 2 + p ! 3 + q ! 4, s ! 3 + p ! 4 + q ! 0, s ! 4 + p ! 0 + q ! 1,
          s ! 0 + p ! 1 + q ! 2])"

definition CRIPEMD160 :: "(u32 list) md_state" where
  "CRIPEMD160 = md_init 64 ripemd160_Initialize"

definition CRIPEMD160_Write :: "bytes \<Rightarrow> (u32 list) md_state \<Rightarrow> (u32 list) md_state" where
  "CRIPEMD160_Write data st = md_write 64 ripemd160_Transform data st"

definition CRIPEMD160_Finalize :: "(u32 list) md_state \<Rightarrow> bytes \<times> (u32 list) md_state" where
  "CRIPEMD160_Finalize st =
     (let st = md_finish 64 8 WriteLE64 ripemd160_Transform st in (concat (map WriteLE32 (md_s st)), st))"

definition CRIPEMD160_Reset :: "(u32 list) md_state \<Rightarrow> (u32 list) md_state" where
  "CRIPEMD160_Reset st = st\<lparr>md_bytes := 0, md_s := ripemd160_Initialize\<rparr>"

subsection \<open>The round loops of the standard\<close>

definition rmd_rho :: "nat \<Rightarrow> nat" where
  "rmd_rho i = [7, 4, 13, 1, 10, 6, 15, 3, 12, 0, 9, 5, 2, 14, 11, 8] ! i"

definition rmd_pi :: "nat \<Rightarrow> nat" where
  "rmd_pi i = (9 * i + 5) mod 16"

definition rmd_word :: "nat \<Rightarrow> nat \<Rightarrow> nat" where
  "rmd_word l t = (rmd_rho ^^ (t div 16)) (if l = 1 then t mod 16 else rmd_pi (t mod 16))"

text \<open>The shift table, indexed by group and message word; both lines share it.\<close>

definition rmd_shift :: "nat \<Rightarrow> nat \<Rightarrow> nat" where
  "rmd_shift g w =
     [[11, 14, 15, 12, 5, 8, 7, 9, 11, 13, 14, 15, 6, 7, 9, 8],
      [12, 13, 11, 15, 6, 9, 9, 7, 12, 15, 11, 13, 7, 8, 7, 7],
      [13, 15, 14, 11, 7, 7, 6, 8, 13, 14, 13, 12, 5, 5, 6, 9],
      [14, 11, 12, 14, 8, 6, 5, 5, 15, 12, 15, 14, 9, 9, 8, 6],
      [15, 12, 13, 13, 9, 5, 8, 6, 14, 11, 12, 11, 8, 6, 5, 5]] ! g ! w"

definition rmd_round :: "bytes \<Rightarrow> nat \<Rightarrow> nat \<Rightarrow> u32 list \<Rightarrow> u32 list" where
  "rmd_round chunk l t v =
     (let g = t div 16; (n, k) = ripemd_fk l (g + 1); w = rmd_word l t
      in [v ! 4, rol (v ! 0 + rmd_f n (v ! 1) (v ! 2) (v ! 3) + ReadLE32 (drop (4 * w) chunk) + k) (rmd_shift g w) + v ! 4,
          v ! 1, rol (v ! 2) 10, v ! 3])"

definition rmd_loop :: "bytes \<Rightarrow> nat \<Rightarrow> nat \<Rightarrow> u32 list \<Rightarrow> u32 list" where
  "rmd_loop chunk l n s = fold (rmd_round chunk l) [0..<n] s"

definition rmd_compress :: "u32 list \<Rightarrow> bytes \<Rightarrow> u32 list" where
  "rmd_compress s chunk =
     (let p = rmd_loop chunk 1 80 s; q = rmd_loop chunk 2 80 s
      in [s ! 1 + p ! 2 + q ! 3, s ! 2 + p ! 3 + q ! 4, s ! 3 + p ! 4 + q ! 0, s ! 4 + p ! 0 + q ! 1,
          s ! 0 + p ! 1 + q ! 2])"

definition rmd_call :: "nat \<Rightarrow> nat \<Rightarrow> ripemd_call" where
  "rmd_call l t = R (t div 16 + 1) l (map (\<lambda>j. (j + 4 * t) mod 5) [0..<5]) (rmd_word l t) (rmd_shift (t div 16) (rmd_word l t))"

lemma ripemd160_calls_regular:
  "ripemd160_calls = concat (map (\<lambda>t. [rmd_call 1 t, rmd_call 2 t]) [0..<80])"
  by code_simp

definition reg5_rel :: "nat \<Rightarrow> 'w list \<Rightarrow> 'w list \<Rightarrow> bool" where
  "reg5_rel t regs v \<longleftrightarrow> length regs = 5 \<and> length v = 5 \<and> (\<forall>j < 5. regs ! ((j + 4 * t) mod 5) = v ! j)"

lemma line_sim:
  assumes "reg5_rel t regs v"
  shows "reg5_rel (Suc t) (ripemd_line chunk (rmd_call l t) regs) (rmd_round chunk l t v)"
proof -
  define p where "p j = (j + 4 * t) mod 5" for j
  have p_inj: "i < 5 \<Longrightarrow> j < 5 \<Longrightarrow> p i = p j \<longleftrightarrow> i = j" and p_less: "p i < 5" for i j
    by (simp_all add: p_def mod_add_inj)
  have len: "length regs = 5" and v: "j < 5 \<Longrightarrow> regs ! p j = v ! j" for j
    using assms by (simp_all add: reg5_rel_def p_def)
  have p_next: "(0 + 4 * Suc t) mod 5 = p 4" "(Suc j + 4 * Suc t) mod 5 = p j" for j
    using mod_add_self2 [of "j + 4 * t" 5] by (simp_all add: p_def algebra_simps)
  obtain n k where fk: "ripemd_fk l (t div 16 + 1) = (n, k)"
    by (cases "ripemd_fk l (t div 16 + 1)")
  let ?w = "rmd_word l t"
  define A where "A = rol (v ! 0 + rmd_f n (v ! 1) (v ! 2) (v ! 3) + ReadLE32 (drop (4 * ?w) chunk) + k)
    (rmd_shift (t div 16) ?w) + v ! 4"
  have line: "ripemd_line chunk (rmd_call l t) regs = regs[p 0 := A, p 2 := rol (v ! 2) 10]"
    using fk v [of 0] v [of 1] v [of 2] v [of 3] v [of 4]
    by (simp add: ripemd_line_def rmd_call_def ripemd_Round_def A_def p_def [symmetric] numeral_2_eq_2)
  have loop: "rmd_round chunk l t v = [v ! 4, A, v ! 1, rol (v ! 2) 10, v ! 3]"
    using fk by (simp add: rmd_round_def A_def Let_def)
  have upd: "j < 5 \<Longrightarrow> regs[p 0 := A, p 2 := C] ! p j = (if j = 2 then C else if j = 0 then A else v ! j)" for j C
    using v len by (simp add: nth_list_update p_inj p_less)
  have "ripemd_line chunk (rmd_call l t) regs ! ((j + 4 * Suc t) mod 5) = rmd_round chunk l t v ! j" if "j < 5" for j
  proof (cases j)
    case 0
    show ?thesis
      unfolding 0 p_next line loop by (simp add: upd)
  next
    case (Suc i)
    then have "i = 0 \<or> i = 1 \<or> i = 2 \<or> i = 3"
      using that by linarith
    then show ?thesis
      unfolding Suc p_next line loop by (elim disjE) (simp_all add: upd)
  qed
  moreover have "length (ripemd_line chunk (rmd_call l t) regs) = 5" "length (rmd_round chunk l t v) = 5"
    by (simp_all add: line loop len)
  ultimately show ?thesis
    unfolding reg5_rel_def by blast
qed

lemma exec_pair:
  "fold (ripemd_exec chunk) (concat (map (\<lambda>t. [rmd_call 1 t, rmd_call 2 t]) ts)) (p, q) =
   (fold (\<lambda>t. ripemd_line chunk (rmd_call 1 t)) ts p, fold (\<lambda>t. ripemd_line chunk (rmd_call 2 t)) ts q)"
  by (induction ts arbitrary: p q) (simp_all add: ripemd_exec_def rmd_call_def)

lemma lines_sim:
  "length s = 5 \<Longrightarrow> reg5_rel n (fold (\<lambda>t. ripemd_line chunk (rmd_call l t)) [0..<n] s) (rmd_loop chunk l n s)"
  by (induction n) (simp_all add: rmd_loop_def line_sim, simp add: reg5_rel_def)

lemma reg5_rel_80: "reg5_rel 80 regs v \<Longrightarrow> regs = v"
proof -
  have "(j + 4 * 80) mod 5 = j" if "j < 5" for j :: nat
    using mod_mult_self1 [of j 64 5] that by simp
  then show "reg5_rel 80 regs v \<Longrightarrow> regs = v"
    by (intro nth_equalityI) (auto simp: reg5_rel_def)
qed

lemma ripemd160_Transform_loop: "length s = 5 \<Longrightarrow> ripemd160_Transform s chunk = rmd_compress s chunk"
  using reg5_rel_80 [OF lines_sim, of s chunk 1] reg5_rel_80 [OF lines_sim, of s chunk 2]
  by (simp only: ripemd160_Transform_def rmd_compress_def ripemd160_calls_regular exec_pair Let_def case_prod_conv)

lemma ripemd_constants:
  "list_all2 (\<lambda>p g. (uint (snd (ripemd_fk 1 g))) ^ 2 \<le> p * 2 ^ 60 \<and> p * 2 ^ 60 < (uint (snd (ripemd_fk 1 g)) + 1) ^ 2) [2, 3, 5, 7] [2, 3, 4, 5]"
  "list_all2 (\<lambda>p g. (uint (snd (ripemd_fk 2 g))) ^ 3 \<le> p * 2 ^ 90 \<and> p * 2 ^ 90 < (uint (snd (ripemd_fk 2 g)) + 1) ^ 3) [2, 3, 5, 7] [1, 2, 3, 4]"
  by (simp_all add: ripemd_fk_def)

subsection \<open>The hash class\<close>

interpretation ripemd160: md_hash 64 8 WriteLE64 ripemd160_Transform
  by unfold_locales simp_all

definition ripemd160_spec :: "bytes \<Rightarrow> bytes" where
  "ripemd160_spec m = concat (map WriteLE32 (md_blocks 64 rmd_compress (md_pad 64 8 WriteLE64 m) ripemd160_Initialize))"

lemma ripemd160_blocks:
  "md_blocks 64 ripemd160_Transform m ripemd160_Initialize = md_blocks 64 rmd_compress m ripemd160_Initialize"
  "length (md_blocks 64 rmd_compress m ripemd160_Initialize) = 5"
  using md_blocks_cong [where P = "\<lambda>s. length s = 5" and f = ripemd160_Transform and g = rmd_compress
      and B = 64 and m = m and s = ripemd160_Initialize]
  by (simp_all add: ripemd160_Transform_loop ripemd160_Initialize_def) (simp_all add: rmd_compress_def Let_def)

lemma length_ripemd160_spec [simp]: "length (ripemd160_spec m) = 20"
  by (simp add: ripemd160_spec_def ripemd160_blocks length_concat comp_def sum_list_triv)

lemma CRIPEMD160_Finalize_inv:
  "ripemd160.md_inv ripemd160_Initialize m st \<Longrightarrow> fst (CRIPEMD160_Finalize st) = ripemd160_spec m"
  by (simp add: CRIPEMD160_Finalize_def ripemd160_spec_def ripemd160.finish_state ripemd160_blocks Let_def)

lemma CRIPEMD160_writes_inv: "ripemd160.md_inv ripemd160_Initialize (concat ds) (fold CRIPEMD160_Write ds CRIPEMD160)"
  using ripemd160.write_all_inv [OF ripemd160.init_inv, of ripemd160_Initialize ds]
  by (simp add: CRIPEMD160_Write_def [abs_def] CRIPEMD160_def)

subsection \<open>Properties\<close>

text \<open>\<open>CRIPEMD160\<close> returns the RIPEMD-160 hash of everything written to it, in whatever pieces:
  the 160 unrolled calls are the standard's two parallel loops with message order rho and pi and one
  common shift table.\<close>

theorem CRIPEMD160_stream:
  "fst (CRIPEMD160_Finalize (fold CRIPEMD160_Write ds CRIPEMD160)) = ripemd160_spec (concat ds)"
  by (rule CRIPEMD160_Finalize_inv [OF CRIPEMD160_writes_inv])

end
