(* ===== verification/Hash.thy ===== *)
theory Hash
  imports Sha2_Correct Ripemd160
begin

text \<open>
  The hash front ends of \<open>src/src/hash.h\<close> and \<open>hash.cpp\<close> (\<open>CHash256\<close>, \<open>CHash160\<close>, \<open>Hash\<close>,
  \<open>Hash160\<close>, \<open>CHashWriter\<close>, MurmurHash3, \<open>BIP32Hash\<close>, SipHash-2-4) and the HMAC classes of
  \<open>src/src/crypto/hmac_sha256.cpp\<close> and \<open>hmac_sha512.cpp\<close>.
\<close>

unbundle bit_operations_syntax

subsection \<open>Double SHA-256 and SHA-256 followed by RIPEMD-160\<close>

type_synonym sha256_ctx = "(u32 list) md_state"

definition CHash256_Finalize :: "sha256_ctx \<Rightarrow> bytes \<times> sha256_ctx" where
  "CHash256_Finalize sha =
     (let (buf, sha) = CSHA256_Finalize sha
      in CSHA256_Finalize (CSHA256_Write buf (CSHA256_Reset sha)))"

definition CHash160_Finalize :: "sha256_ctx \<Rightarrow> bytes \<times> sha256_ctx" where
  "CHash160_Finalize sha =
     (let (buf, sha) = CSHA256_Finalize sha
      in (fst (CRIPEMD160_Finalize (CRIPEMD160_Write buf CRIPEMD160)), sha))"

definition Hash :: "bytes \<Rightarrow> bytes" where
  "Hash p = fst (CHash256_Finalize (CSHA256_Write p CSHA256))"

definition Hash2 :: "bytes \<Rightarrow> bytes \<Rightarrow> bytes" where
  "Hash2 p1 p2 = fst (CHash256_Finalize (CSHA256_Write p2 (CSHA256_Write p1 CSHA256)))"

definition Hash3 :: "bytes \<Rightarrow> bytes \<Rightarrow> bytes \<Rightarrow> bytes" where
  "Hash3 p1 p2 p3 =
     fst (CHash256_Finalize (CSHA256_Write p3 (CSHA256_Write p2 (CSHA256_Write p1 CSHA256))))"

definition Hash160 :: "bytes \<Rightarrow> bytes" where
  "Hash160 p = fst (CHash160_Finalize (CSHA256_Write p CSHA256))"

text \<open>\<open>CHashWriter\<close>: the pieces are what the serialisers of the written objects emit.\<close>

definition CHashWriter_GetHash :: "bytes list \<Rightarrow> bytes" where
  "CHashWriter_GetHash pieces = fst (CHash256_Finalize (fold CSHA256_Write pieces CSHA256))"

subsection \<open>HMAC\<close>

record 's hmac =
  hm_outer :: "'s md_state"
  hm_inner :: "'s md_state"

definition CHMAC_SHA256 :: "bytes \<Rightarrow> (u32 list) hmac" where
  "CHMAC_SHA256 key =
     (let rkey = (if length key \<le> 64 then key @ replicate (64 - length key) 0
                  else fst (CSHA256_Finalize (CSHA256_Write key CSHA256)) @ replicate 32 0);
          rkey = map (\<lambda>b. b XOR 0x5c) rkey;
          outer = CSHA256_Write rkey CSHA256;
          rkey = map (\<lambda>b. b XOR (0x5c XOR 0x36)) rkey
      in \<lparr>hm_outer = outer, hm_inner = CSHA256_Write rkey CSHA256\<rparr>)"

definition CHMAC_SHA256_Write :: "bytes \<Rightarrow> (u32 list) hmac \<Rightarrow> (u32 list) hmac" where
  "CHMAC_SHA256_Write data h = h\<lparr>hm_inner := CSHA256_Write data (hm_inner h)\<rparr>"

definition CHMAC_SHA256_Finalize :: "(u32 list) hmac \<Rightarrow> bytes" where
  "CHMAC_SHA256_Finalize h =
     (let temp = fst (CSHA256_Finalize (hm_inner h))
      in fst (CSHA256_Finalize (CSHA256_Write temp (hm_outer h))))"

definition CHMAC_SHA512 :: "bytes \<Rightarrow> (u64 list) hmac" where
  "CHMAC_SHA512 key =
     (let rkey = (if length key \<le> 128 then key @ replicate (128 - length key) 0
                  else fst (CSHA512_Finalize (CSHA512_Write key CSHA512)) @ replicate 64 0);
          rkey = map (\<lambda>b. b XOR 0x5c) rkey;
          outer = CSHA512_Write rkey CSHA512;
          rkey = map (\<lambda>b. b XOR (0x5c XOR 0x36)) rkey
      in \<lparr>hm_outer = outer, hm_inner = CSHA512_Write rkey CSHA512\<rparr>)"

definition CHMAC_SHA512_Write :: "bytes \<Rightarrow> (u64 list) hmac \<Rightarrow> (u64 list) hmac" where
  "CHMAC_SHA512_Write data h = h\<lparr>hm_inner := CSHA512_Write data (hm_inner h)\<rparr>"

definition CHMAC_SHA512_Finalize :: "(u64 list) hmac \<Rightarrow> bytes" where
  "CHMAC_SHA512_Finalize h =
     (let temp = fst (CSHA512_Finalize (hm_inner h))
      in fst (CSHA512_Finalize (CSHA512_Write temp (hm_outer h))))"

definition BIP32Hash :: "bytes \<Rightarrow> u32 \<Rightarrow> u8 \<Rightarrow> bytes \<Rightarrow> bytes" where
  "BIP32Hash chainCode nChild header data =
     (let num = [ucast (drop_bit 24 nChild AND 0xFF), ucast (drop_bit 16 nChild AND 0xFF),
                 ucast (drop_bit 8 nChild AND 0xFF), ucast (drop_bit 0 nChild AND 0xFF)]
      in CHMAC_SHA512_Finalize
           (CHMAC_SHA512_Write num (CHMAC_SHA512_Write data (CHMAC_SHA512_Write [header] (CHMAC_SHA512 chainCode)))))"

subsection \<open>MurmurHash3\<close>

definition ROTL32 :: "u32 \<Rightarrow> nat \<Rightarrow> u32" where
  "ROTL32 x r = push_bit r x OR drop_bit (32 - r) x"

definition murmur_block :: "u32 \<Rightarrow> u32 \<Rightarrow> u32" where
  "murmur_block h1 k =
     (let k1 = ROTL32 (k * 0xcc9e2d51) 15 * 0x1b873593;
          h1 = ROTL32 (h1 XOR k1) 13
      in h1 * 5 + 0xe6546b64)"

definition murmur_tail :: "bytes \<Rightarrow> u32 \<Rightarrow> u32" where
  "murmur_tail tail h1 =
     (let n = length tail;
          k1 = (if n = 3 then push_bit 16 (ucast (tail ! 2)) else 0 :: u32);
          k1 = (if n \<ge> 2 then k1 XOR push_bit 8 (ucast (tail ! 1)) else k1)
      in if n \<ge> 1 then h1 XOR ROTL32 ((k1 XOR ucast (tail ! 0)) * 0xcc9e2d51) 15 * 0x1b873593 else h1)"

definition murmur_final :: "u32 \<Rightarrow> u32" where
  "murmur_final h1 =
     (let h1 = h1 XOR drop_bit 16 h1; h1 = h1 * 0x85ebca6b; h1 = h1 XOR drop_bit 13 h1;
          h1 = h1 * 0xc2b2ae35
      in h1 XOR drop_bit 16 h1)"

definition MurmurHash3 :: "u32 \<Rightarrow> bytes \<Rightarrow> u32" where
  "MurmurHash3 nHashSeed v =
     (let nblocks = length v div 4;
          h1 = fold (\<lambda>i h1. murmur_block h1 (ReadLE32 (drop (4 * i) v))) [0..<nblocks] nHashSeed;
          h1 = murmur_tail (drop (4 * nblocks) v) h1
      in murmur_final (h1 XOR of_nat (length v)))"

subsection \<open>SipHash-2-4\<close>

definition ROTL :: "u64 \<Rightarrow> nat \<Rightarrow> u64" where
  "ROTL x b = push_bit b x OR drop_bit (64 - b) x"

type_synonym sipv = "u64 \<times> u64 \<times> u64 \<times> u64"

definition SIPROUND :: "sipv \<Rightarrow> sipv" where
  "SIPROUND v =
     (let (v0, v1, v2, v3) = v;
          v0 = v0 + v1; v1 = ROTL v1 13; v1 = v1 XOR v0;
          v0 = ROTL v0 32;
          v2 = v2 + v3; v3 = ROTL v3 16; v3 = v3 XOR v2;
          v0 = v0 + v3; v3 = ROTL v3 21; v3 = v3 XOR v0;
          v2 = v2 + v1; v1 = ROTL v1 17; v1 = v1 XOR v2;
          v2 = ROTL v2 32
      in (v0, v1, v2, v3))"

record sip_hasher =
  sip_v :: sipv
  sip_tmp :: u64
  sip_count :: u32

definition CSipHasher :: "u64 \<Rightarrow> u64 \<Rightarrow> sip_hasher" where
  "CSipHasher k0 k1 =
     \<lparr>sip_v = (0x736f6d6570736575 XOR k0, 0x646f72616e646f6d XOR k1, 0x6c7967656e657261 XOR k0,
               0x7465646279746573 XOR k1), sip_tmp = 0, sip_count = 0\<rparr>"

text \<open>The four lines \<open>v3 ^= t; SIPROUND; SIPROUND; v0 ^= t\<close> that the code repeats.\<close>

definition sip_absorb :: "u64 \<Rightarrow> sipv \<Rightarrow> sipv" where
  "sip_absorb d v =
     (let (v0, v1, v2, v3) = v;
          (v0, v1, v2, v3) = SIPROUND (SIPROUND (v0, v1, v2, v3 XOR d))
      in (v0 XOR d, v1, v2, v3))"

text \<open>\<open>Write(uint64_t)\<close>; None is the failed assert on the byte count.\<close>

definition CSipHasher_Write64 :: "u64 \<Rightarrow> sip_hasher \<Rightarrow> sip_hasher option" where
  "CSipHasher_Write64 data h =
     (if unat (sip_count h) mod 8 \<noteq> 0 then None
      else Some (h\<lparr>sip_v := sip_absorb data (sip_v h), sip_count := sip_count h + 8\<rparr>))"

definition sip_byte :: "u8 \<Rightarrow> sip_hasher \<Rightarrow> sip_hasher" where
  "sip_byte b h =
     (let t = sip_tmp h OR push_bit (8 * (unat (sip_count h) mod 8)) (ucast b);
          c = sip_count h + 1
      in if c AND 7 = 0 then h\<lparr>sip_v := sip_absorb t (sip_v h), sip_tmp := 0, sip_count := c\<rparr>
         else h\<lparr>sip_tmp := t, sip_count := c\<rparr>)"

definition CSipHasher_Write :: "bytes \<Rightarrow> sip_hasher \<Rightarrow> sip_hasher" where
  "CSipHasher_Write data h = fold sip_byte data h"

definition sip_finish :: "u64 \<Rightarrow> sipv \<Rightarrow> u64" where
  "sip_finish t v =
     (let (v0, v1, v2, v3) = sip_absorb t v;
          (v0, v1, v2, v3) = SIPROUND (SIPROUND (SIPROUND (SIPROUND (v0, v1, v2 XOR 0xFF, v3))))
      in v0 XOR v1 XOR v2 XOR v3)"

definition CSipHasher_Finalize :: "sip_hasher \<Rightarrow> u64" where
  "CSipHasher_Finalize h = sip_finish (sip_tmp h OR push_bit 56 (ucast (sip_count h))) (sip_v h)"

definition GetUint64 :: "bytes \<Rightarrow> nat \<Rightarrow> u64" where
  "GetUint64 data pos =
     (let ptr = drop (pos * 8) data
      in ucast (ptr ! 0) OR push_bit 8 (ucast (ptr ! 1)) OR push_bit 16 (ucast (ptr ! 2))
         OR push_bit 24 (ucast (ptr ! 3)) OR push_bit 32 (ucast (ptr ! 4)) OR push_bit 40 (ucast (ptr ! 5))
         OR push_bit 48 (ucast (ptr ! 6)) OR push_bit 56 (ucast (ptr ! 7)))"

definition SipHashUint256 :: "u64 \<Rightarrow> u64 \<Rightarrow> bytes \<Rightarrow> u64" where
  "SipHashUint256 k0 k1 val =
     (let d = GetUint64 val 0;
          v0 = 0x736f6d6570736575 XOR k0; v1 = 0x646f72616e646f6d XOR k1;
          v2 = 0x6c7967656e657261 XOR k0; v3 = 0x7465646279746573 XOR k1 XOR d;
          (v0, v1, v2, v3) = SIPROUND (SIPROUND (v0, v1, v2, v3));
          v0 = v0 XOR d; d = GetUint64 val 1; v3 = v3 XOR d;
          (v0, v1, v2, v3) = SIPROUND (SIPROUND (v0, v1, v2, v3));
          v0 = v0 XOR d; d = GetUint64 val 2; v3 = v3 XOR d;
          (v0, v1, v2, v3) = SIPROUND (SIPROUND (v0, v1, v2, v3));
          v0 = v0 XOR d; d = GetUint64 val 3; v3 = v3 XOR d;
          (v0, v1, v2, v3) = SIPROUND (SIPROUND (v0, v1, v2, v3));
          v0 = v0 XOR d; v3 = v3 XOR push_bit 59 4;
          (v0, v1, v2, v3) = SIPROUND (SIPROUND (v0, v1, v2, v3));
          v0 = v0 XOR push_bit 59 4; v2 = v2 XOR 0xFF;
          (v0, v1, v2, v3) = SIPROUND (SIPROUND (SIPROUND (SIPROUND (v0, v1, v2, v3))))
      in v0 XOR v1 XOR v2 XOR v3)"

subsection \<open>Double hashing\<close>

lemma CSHA256_Write_inv:
  "sha256.md_inv sha256_Initialize m st \<Longrightarrow> sha256.md_inv sha256_Initialize (m @ d) (CSHA256_Write d st)"
  by (simp add: CSHA256_Write_def sha256.write_inv)

lemma CSHA256_init_inv: "sha256.md_inv sha256_Initialize [] CSHA256"
  by (simp add: CSHA256_def sha256.init_inv)

lemma CSHA256_Finalize_buf:
  "sha256.md_inv sha256_Initialize m st \<Longrightarrow> length (md_buf (snd (CSHA256_Finalize st))) = 64"
  using sha256.finish_inv [of sha256_Initialize m st] by (simp add: CSHA256_Finalize_def Let_def sha256.md_inv_def)

lemma CHash256_Finalize_inv:
  assumes "sha256.md_inv sha256_Initialize m st"
  shows "fst (CHash256_Finalize st) = sha256_spec (sha256_spec m)"
proof -
  have "sha256.md_inv sha256_Initialize [] (CSHA256_Reset (snd (CSHA256_Finalize st)))"
    unfolding CSHA256_Reset_def by (rule sha256.reset_inv [OF CSHA256_Finalize_buf [OF assms]])
  from CSHA256_Finalize_inv [OF CSHA256_Write_inv [OF this]] show ?thesis
    using CSHA256_Finalize_inv [OF assms] by (simp add: CHash256_Finalize_def split_beta Let_def)
qed

lemma CHashWriter_GetHash_concat: "CHashWriter_GetHash ds = sha256_spec (sha256_spec (concat ds))"
  by (simp add: CHashWriter_GetHash_def CHash256_Finalize_inv [OF CSHA256_writes_inv])

lemma Hash_spec: "Hash p = sha256_spec (sha256_spec p)"
  using CHashWriter_GetHash_concat [of "[p]"] by (simp add: Hash_def CHashWriter_GetHash_def)

lemma Hash2_append: "Hash2 p q = Hash (p @ q)"
  using CHashWriter_GetHash_concat [of "[p, q]"] by (simp add: Hash2_def CHashWriter_GetHash_def Hash_spec)

lemma Hash3_append: "Hash3 p q r = Hash (p @ q @ r)"
  using CHashWriter_GetHash_concat [of "[p, q, r]"] by (simp add: Hash3_def CHashWriter_GetHash_def Hash_spec)

lemma length_Hash [simp]: "length (Hash p) = 32" "length (Hash2 p q) = 32"
  by (simp_all add: Hash2_append Hash_spec)

lemma CSHA256_one: "fst (CSHA256_Finalize (CSHA256_Write p CSHA256)) = sha256_spec p"
  using CSHA256_Finalize_inv [OF CSHA256_writes_inv, of "[p]"] by simp

lemma CSHA512_one: "fst (CSHA512_Finalize (CSHA512_Write p CSHA512)) = sha512_spec p"
  using CSHA512_Finalize_inv [OF CSHA512_writes_inv, of "[p]"] by simp

lemma CRIPEMD160_one: "fst (CRIPEMD160_Finalize (CRIPEMD160_Write p CRIPEMD160)) = ripemd160_spec p"
  using CRIPEMD160_Finalize_inv [OF CRIPEMD160_writes_inv, of "[p]"] by simp

lemma Hash160_spec: "Hash160 p = ripemd160_spec (sha256_spec p)"
  by (simp add: Hash160_def CHash160_Finalize_def split_beta Let_def CSHA256_one CRIPEMD160_one)

lemma length_Hash160 [simp]: "length (Hash160 p) = 20"
  by (simp add: Hash160_spec)

subsection \<open>HMAC is the RFC 2104 construction\<close>

definition hmac_key :: "nat \<Rightarrow> (bytes \<Rightarrow> bytes) \<Rightarrow> bytes \<Rightarrow> bytes" where
  "hmac_key B H key = (let k = (if length key \<le> B then key else H key) in k @ replicate (B - length k) 0)"

definition hmac_spec :: "nat \<Rightarrow> (bytes \<Rightarrow> bytes) \<Rightarrow> bytes \<Rightarrow> bytes \<Rightarrow> bytes" where
  "hmac_spec B H key m =
     H (map (\<lambda>b. b XOR 0x5c) (hmac_key B H key) @ H (map (\<lambda>b. b XOR 0x36) (hmac_key B H key) @ m))"

lemma xor_pads: "((b :: u8) XOR 0x5c) XOR (0x5c XOR 0x36) = b XOR 0x36"
proof -
  have "(b XOR 0x5c) XOR (0x5c XOR 0x36) = b XOR ((0x5c XOR 0x5c) XOR 0x36)"
    by (simp only: xor.assoc)
  then show ?thesis by simp
qed

lemma map_xor_pads: "map (\<lambda>b. b XOR (0x5c XOR 0x36)) (map (\<lambda>b. b XOR 0x5c) k) = map (\<lambda>b. b XOR (0x36 :: u8)) k"
  by (simp only: map_map comp_def xor_pads)

lemma CHMAC_SHA256_inner:
  "hm_inner (fold CHMAC_SHA256_Write ds h) = fold CSHA256_Write ds (hm_inner h)"
  "hm_outer (fold CHMAC_SHA256_Write ds h) = hm_outer h"
  by (induction ds arbitrary: h) (simp_all add: CHMAC_SHA256_Write_def)

lemma CHMAC_SHA512_inner:
  "hm_inner (fold CHMAC_SHA512_Write ds h) = fold CSHA512_Write ds (hm_inner h)"
  "hm_outer (fold CHMAC_SHA512_Write ds h) = hm_outer h"
  by (induction ds arbitrary: h) (simp_all add: CHMAC_SHA512_Write_def)

lemma CHMAC_SHA256_key:
  "CHMAC_SHA256 key = (let k = hmac_key 64 sha256_spec key
     in \<lparr>hm_outer = CSHA256_Write (map (\<lambda>b. b XOR 0x5c) k) CSHA256, hm_inner = CSHA256_Write (map (\<lambda>b. b XOR 0x36) k) CSHA256\<rparr>)"
  unfolding CHMAC_SHA256_def hmac_key_def Let_def map_xor_pads CSHA256_one by simp

lemma CHMAC_SHA512_key:
  "CHMAC_SHA512 key = (let k = hmac_key 128 sha512_spec key
     in \<lparr>hm_outer = CSHA512_Write (map (\<lambda>b. b XOR 0x5c) k) CSHA512, hm_inner = CSHA512_Write (map (\<lambda>b. b XOR 0x36) k) CSHA512\<rparr>)"
  unfolding CHMAC_SHA512_def hmac_key_def Let_def map_xor_pads CSHA512_one by simp

lemma hmac256_spec:
  "CHMAC_SHA256_Finalize (fold CHMAC_SHA256_Write ds (CHMAC_SHA256 key)) = hmac_spec 64 sha256_spec key (concat ds)"
proof -
  let ?k = "hmac_key 64 sha256_spec key"
  have "fst (CSHA256_Finalize (fold CSHA256_Write ds (CSHA256_Write (map (\<lambda>b. b XOR 0x36) ?k) CSHA256)))
      = sha256_spec (map (\<lambda>b. b XOR 0x36) ?k @ concat ds)"
    using CSHA256_Finalize_inv [OF CSHA256_writes_inv, of "map (\<lambda>b. b XOR 0x36) ?k # ds"] by simp
  then show ?thesis
    using CSHA256_Finalize_inv [OF CSHA256_writes_inv,
        of "[map (\<lambda>b. b XOR 0x5c) ?k, sha256_spec (map (\<lambda>b. b XOR 0x36) ?k @ concat ds)]"]
    by (simp add: CHMAC_SHA256_Finalize_def CHMAC_SHA256_inner CHMAC_SHA256_key Let_def hmac_spec_def)
qed

lemma hmac512_spec:
  "CHMAC_SHA512_Finalize (fold CHMAC_SHA512_Write ds (CHMAC_SHA512 key)) = hmac_spec 128 sha512_spec key (concat ds)"
proof -
  let ?k = "hmac_key 128 sha512_spec key"
  have "fst (CSHA512_Finalize (fold CSHA512_Write ds (CSHA512_Write (map (\<lambda>b. b XOR 0x36) ?k) CSHA512)))
      = sha512_spec (map (\<lambda>b. b XOR 0x36) ?k @ concat ds)"
    using CSHA512_Finalize_inv [OF CSHA512_writes_inv, of "map (\<lambda>b. b XOR 0x36) ?k # ds"] by simp
  then show ?thesis
    using CSHA512_Finalize_inv [OF CSHA512_writes_inv,
        of "[map (\<lambda>b. b XOR 0x5c) ?k, sha512_spec (map (\<lambda>b. b XOR 0x36) ?k @ concat ds)]"]
    by (simp add: CHMAC_SHA512_Finalize_def CHMAC_SHA512_inner CHMAC_SHA512_key Let_def hmac_spec_def)
qed

subsection \<open>SipHash\<close>

lemma list_8: "length p = 8 \<Longrightarrow> \<exists>a b c d e f g h. p = [a, b, c, d, e, f, g, h]"
  by (auto simp: numeral_eq_Suc length_Suc_conv)

lemma GetUint64_append: "length w = 8 \<Longrightarrow> GetUint64 (w @ r) 0 = GetUint64 w 0"
  by (auto dest!: list_8 simp: GetUint64_def)

lemma GetUint64_skip: "length w = 8 \<Longrightarrow> GetUint64 (w @ r) (Suc n) = GetUint64 r n"
  by (simp add: GetUint64_def)

lemma count_mod_8: "(c :: u32) AND 7 = 0 \<longleftrightarrow> unat c mod 8 = 0" "unat (c + 1 :: u32) mod 8 = (unat c + 1) mod 8"
proof -
  have "c AND 7 = take_bit 3 c"
    using take_bit_eq_mask [of 3 c] by (simp add: mask_numeral)
  then have "c AND 7 = 0 \<longleftrightarrow> unat (take_bit 3 c) = 0"
    by (simp only: unat_eq_0)
  then show "c AND 7 = 0 \<longleftrightarrow> unat c mod 8 = 0"
    by (simp add: take_bit_eq_mod unat_mod)
  show "unat (c + 1) mod 8 = (unat c + 1) mod 8"
    by (simp add: unat_word_ariths mod_mod_cancel)
qed

lemma count_mod_8_add: "unat (c :: u32) mod 8 = 0 \<Longrightarrow> j < 8 \<Longrightarrow> unat (c + of_nat j) mod 8 = j"
proof -
  assume c: "unat c mod 8 = 0" and j: "j < 8"
  have "unat (c + of_nat j) mod 8 = (unat c + j mod 2 ^ 32) mod 8"
    by (simp add: unat_word_ariths unat_of_nat mod_mod_cancel)
  also have "\<dots> = (unat c mod 8 + j) mod 8"
    using j by (simp add: mod_add_left_eq)
  finally show ?thesis
    using c j by simp
qed

lemma sip_byte_step:
  assumes "unat (sip_count h) mod 8 = i"
  shows "sip_byte b h =
    (if i = 7 then h\<lparr>sip_v := sip_absorb (sip_tmp h OR push_bit 56 (ucast b)) (sip_v h), sip_tmp := 0, sip_count := sip_count h + 1\<rparr>
     else h\<lparr>sip_tmp := sip_tmp h OR push_bit (8 * i) (ucast b), sip_count := sip_count h + 1\<rparr>)"
proof -
  have "i < 8" using assms by auto
  moreover have "unat (sip_count h + 1) mod 8 = (i + 1) mod 8"
    using assms count_mod_8(2) [of "sip_count h"] by (metis mod_add_left_eq)
  ultimately show ?thesis
    using assms by (auto simp: sip_byte_def count_mod_8(1))
qed

text \<open>Eight bytes written to a hasher at a word boundary are one 64-bit write.\<close>

lemma sip_eight_bytes:
  assumes "length w = 8" and "sip_tmp h = 0" and "unat (sip_count h) mod 8 = 0"
  shows "fold sip_byte w h = h\<lparr>sip_v := sip_absorb (GetUint64 w 0) (sip_v h), sip_count := sip_count h + 8\<rparr>"
proof -
  obtain a b c d e f g i where w: "w = [a, b, c, d, e, f, g, i]"
    using list_8 [OF assms(1)] by blast
  have mods: "unat (sip_count h + 1) mod 8 = 1" "unat (sip_count h + 2) mod 8 = 2" "unat (sip_count h + 3) mod 8 = 3"
    "unat (sip_count h + 4) mod 8 = 4" "unat (sip_count h + 5) mod 8 = 5" "unat (sip_count h + 6) mod 8 = 6"
    "unat (sip_count h + 7) mod 8 = 7"
    using count_mod_8_add [OF assms(3), of 1] count_mod_8_add [OF assms(3), of 2] count_mod_8_add [OF assms(3), of 3]
      count_mod_8_add [OF assms(3), of 4] count_mod_8_add [OF assms(3), of 5] count_mod_8_add [OF assms(3), of 6]
      count_mod_8_add [OF assms(3), of 7] by simp_all
  show ?thesis
    using assms(2,3) mods by (simp add: w sip_byte_step GetUint64_def or.assoc add.assoc)
qed

lemma sip_Write64:
  "sip_count h \<in> {0, 8, 16, 24} \<Longrightarrow>
   CSipHasher_Write64 d h = Some (h\<lparr>sip_v := sip_absorb d (sip_v h), sip_count := sip_count h + 8\<rparr>)"
  by (auto simp: CSipHasher_Write64_def)

lemma SipHashUint256_absorb:
  "SipHashUint256 k0 k1 val = sip_finish (push_bit 59 4)
     (sip_absorb (GetUint64 val 3) (sip_absorb (GetUint64 val 2) (sip_absorb (GetUint64 val 1)
       (sip_absorb (GetUint64 val 0) (sip_v (CSipHasher k0 k1))))))"
proof -
  obtain x0 x1 x2 x3 where 1: "SIPROUND (SIPROUND (0x736f6d6570736575 XOR k0, 0x646f72616e646f6d XOR k1,
      0x6c7967656e657261 XOR k0, 0x7465646279746573 XOR k1 XOR GetUint64 val 0)) = (x0, x1, x2, x3)"
    by (metis prod_cases4)
  obtain y0 y1 y2 y3 where 2: "SIPROUND (SIPROUND (x0 XOR GetUint64 val 0, x1, x2, x3 XOR GetUint64 val 1)) = (y0, y1, y2, y3)"
    by (metis prod_cases4)
  obtain z0 z1 z2 z3 where 3: "SIPROUND (SIPROUND (y0 XOR GetUint64 val 1, y1, y2, y3 XOR GetUint64 val 2)) = (z0, z1, z2, z3)"
    by (metis prod_cases4)
  obtain u0 u1 u2 u3 where 4: "SIPROUND (SIPROUND (z0 XOR GetUint64 val 2, z1, z2, z3 XOR GetUint64 val 3)) = (u0, u1, u2, u3)"
    by (metis prod_cases4)
  obtain w0 w1 w2 w3 where 5: "SIPROUND (SIPROUND (u0 XOR GetUint64 val 3, u1, u2, u3 XOR push_bit 59 4)) = (w0, w1, w2, w3)"
    by (metis prod_cases4)
  show ?thesis
    unfolding SipHashUint256_def sip_finish_def sip_absorb_def CSipHasher_def Let_def
    by (simp only: sip_hasher.simps case_prod_conv xor.assoc 1 2 3 4 5)
qed

subsection \<open>Properties\<close>

text \<open>the front ends hash what was written, whatever the pieces: \<open>CHashWriter\<close> and \<open>Hash\<close> are
  double SHA-256 of the concatenation (the reset hasher is reused correctly), \<open>Hash160\<close> is RIPEMD-160
  of SHA-256.\<close>

theorem hash_front_ends:
  "CHashWriter_GetHash ds = Hash (concat ds) \<and> Hash p = sha256_spec (sha256_spec p)
   \<and> Hash2 p q = Hash (p @ q) \<and> Hash3 p q r = Hash (p @ q @ r) \<and> Hash160 p = ripemd160_spec (sha256_spec p)"
  by (simp add: CHashWriter_GetHash_concat Hash_spec Hash2_append Hash3_append Hash160_spec)

text \<open>both HMAC classes compute the RFC 2104 construction over SHA-256 and SHA-512, for keys of
  every length and data written in any pieces.\<close>

theorem hmac_rfc2104:
  "CHMAC_SHA256_Finalize (fold CHMAC_SHA256_Write ds (CHMAC_SHA256 key)) = hmac_spec 64 sha256_spec key (concat ds)
   \<and> CHMAC_SHA512_Finalize (fold CHMAC_SHA512_Write ds (CHMAC_SHA512 key)) = hmac_spec 128 sha512_spec key (concat ds)"
  by (simp only: hmac256_spec hmac512_spec)

text \<open>the specialised \<open>SipHashUint256\<close> is identical to the generic hasher, fed with the four
  64-bit words of the value (the asserts on the byte count hold) or with its 32 bytes.\<close>

theorem SipHashUint256_identical:
  assumes "length val = 32"
  shows "\<exists>h1 h2 h3 h4. CSipHasher_Write64 (GetUint64 val 0) (CSipHasher k0 k1) = Some h1
      \<and> CSipHasher_Write64 (GetUint64 val 1) h1 = Some h2 \<and> CSipHasher_Write64 (GetUint64 val 2) h2 = Some h3
      \<and> CSipHasher_Write64 (GetUint64 val 3) h3 = Some h4 \<and> CSipHasher_Finalize h4 = SipHashUint256 k0 k1 val
      \<and> CSipHasher_Write val (CSipHasher k0 k1) = h4"
proof -
  define a b c d where "a = take 8 val" and "b = take 8 (drop 8 val)" and "c = take 8 (drop 16 val)"
    and "d = drop 24 val"
  have len: "length a = 8" "length b = 8" "length c = 8" "length d = 8"
    using assms by (simp_all add: a_def b_def c_def d_def)
  have val: "val = a @ b @ c @ d"
    using append_take_drop_id [of 8 val] append_take_drop_id [of 8 "drop 8 val"]
      append_take_drop_id [of 8 "drop 16 val"] by (simp add: a_def b_def c_def d_def)
  have words: "GetUint64 val 0 = GetUint64 a 0" "GetUint64 val 1 = GetUint64 b 0"
    "GetUint64 val 2 = GetUint64 c 0" "GetUint64 val 3 = GetUint64 d 0"
    using len by (simp_all add: val GetUint64_append GetUint64_skip numeral_2_eq_2 numeral_3_eq_3)
  have init: "sip_tmp (CSipHasher k0 k1) = 0" "sip_count (CSipHasher k0 k1) = 0"
    by (simp_all add: CSipHasher_def)
  show ?thesis
    using len init
    by (simp add: words words(2) [unfolded One_nat_def] sip_Write64 SipHashUint256_absorb CSipHasher_Finalize_def CSipHasher_Write_def sip_eight_bytes)
      (simp add: val sip_eight_bytes)
qed

theorem SipHashUint256_identical_witness:
  "length (replicate 32 (7 :: u8)) = 32 \<and> (\<exists>h. CSipHasher_Write (replicate 32 7) (CSipHasher 1 2) = h
    \<and> CSipHasher_Finalize h = SipHashUint256 1 2 (replicate 32 7))"
proof -
  have len: "length (replicate 32 (7 :: u8)) = 32" by simp
  show ?thesis
    using len SipHashUint256_identical [OF len, of 1 2] by blast
qed

end
