(* ===== verification/Sha1.thy ===== *)
theory Sha1
  imports Md_Stream
begin

text \<open>
  SHA-1, \<open>src/src/crypto/sha1.cpp\<close>: the eighty calls of \<open>Round\<close> as a table (registers \<open>a .. e\<close> are
  0 .. 4), run one by one, and the proof that they are the round loop of FIPS 180-4.
\<close>

unbundle bit_operations_syntax

subsection \<open>The transform\<close>

definition sha1_f :: "nat \<Rightarrow> u32 \<Rightarrow> u32 \<Rightarrow> u32 \<Rightarrow> u32" where
  "sha1_f n b c d =
     (if n = 1 then d XOR (b AND (c XOR d))
      else if n = 2 then b XOR c XOR d
      else (b AND c) OR (d AND (b OR c)))"

definition sha1_left :: "u32 \<Rightarrow> u32" where
  "sha1_left x = push_bit 1 x OR drop_bit 31 x"

definition sha1_Initialize :: "u32 list" where
  "sha1_Initialize = [0x67452301, 0xEFCDAB89, 0x98BADCFE, 0x10325476, 0xC3D2E1F0]"

definition sha1_k :: "nat \<Rightarrow> u32" where
  "sha1_k n = [0x5A827999, 0x6ED9EBA1, 0x8F1BBCDC, 0xCA62C1D6] ! (n - 1)"

datatype sha1_w = XLoad nat nat | XLeft nat nat nat nat | XOnly nat nat nat nat

text \<open>\<open>S rs f k w\<close>: a call of \<open>Round\<close> with function \<open>f<f>\<close> and constant \<open>k<k>\<close>.\<close>

datatype sha1_call = S "nat list" nat nat sha1_w

definition sha1_word :: "bytes \<Rightarrow> sha1_w \<Rightarrow> u32 list \<Rightarrow> u32 \<times> u32 list" where
  "sha1_word chunk e ws =
     (case e of
        XLoad i off \<Rightarrow> let v = ReadBE32 (drop off chunk) in (v, ws[i := v])
      | XLeft i x y z \<Rightarrow> let v = sha1_left (ws ! i XOR ws ! x XOR ws ! y XOR ws ! z) in (v, ws[i := v])
      | XOnly i x y z \<Rightarrow> (sha1_left (ws ! i XOR ws ! x XOR ws ! y XOR ws ! z), ws))"

definition sha1_Round :: "nat list \<Rightarrow> u32 \<Rightarrow> u32 \<Rightarrow> u32 \<Rightarrow> u32 list \<Rightarrow> u32 list" where
  "sha1_Round rs f k w regs =
     (let a = regs ! (rs ! 0); b = regs ! (rs ! 1)
      in regs[rs ! 4 := regs ! (rs ! 4) + ((push_bit 5 a OR drop_bit 27 a) + f + k + w),
              rs ! 1 := push_bit 30 b OR drop_bit 2 b])"

definition sha1_exec :: "bytes \<Rightarrow> sha1_call \<Rightarrow> u32 list \<times> u32 list \<Rightarrow> u32 list \<times> u32 list" where
  "sha1_exec chunk c st =
     (case c of S rs f k e \<Rightarrow>
        let (regs, ws) = st; (w, ws) = sha1_word chunk e ws
        in (sha1_Round rs (sha1_f f (regs ! (rs ! 1)) (regs ! (rs ! 2)) (regs ! (rs ! 3))) (sha1_k k) w regs, ws))"

definition sha1_calls :: "sha1_call list" where
  "sha1_calls =
    [S [0,1,2,3,4] 1 1 (XLoad 0 0), S [4,0,1,2,3] 1 1 (XLoad 1 4),
     S [3,4,0,1,2] 1 1 (XLoad 2 8), S [2,3,4,0,1] 1 1 (XLoad 3 12),
     S [1,2,3,4,0] 1 1 (XLoad 4 16), S [0,1,2,3,4] 1 1 (XLoad 5 20),
     S [4,0,1,2,3] 1 1 (XLoad 6 24), S [3,4,0,1,2] 1 1 (XLoad 7 28),
     S [2,3,4,0,1] 1 1 (XLoad 8 32), S [1,2,3,4,0] 1 1 (XLoad 9 36),
     S [0,1,2,3,4] 1 1 (XLoad 10 40), S [4,0,1,2,3] 1 1 (XLoad 11 44),
     S [3,4,0,1,2] 1 1 (XLoad 12 48), S [2,3,4,0,1] 1 1 (XLoad 13 52),
     S [1,2,3,4,0] 1 1 (XLoad 14 56), S [0,1,2,3,4] 1 1 (XLoad 15 60),
     S [4,0,1,2,3] 1 1 (XLeft 0 13 8 2), S [3,4,0,1,2] 1 1 (XLeft 1 14 9 3),
     S [2,3,4,0,1] 1 1 (XLeft 2 15 10 4), S [1,2,3,4,0] 1 1 (XLeft 3 0 11 5),
     S [0,1,2,3,4] 2 2 (XLeft 4 1 12 6), S [4,0,1,2,3] 2 2 (XLeft 5 2 13 7),
     S [3,4,0,1,2] 2 2 (XLeft 6 3 14 8), S [2,3,4,0,1] 2 2 (XLeft 7 4 15 9),
     S [1,2,3,4,0] 2 2 (XLeft 8 5 0 10), S [0,1,2,3,4] 2 2 (XLeft 9 6 1 11),
     S [4,0,1,2,3] 2 2 (XLeft 10 7 2 12), S [3,4,0,1,2] 2 2 (XLeft 11 8 3 13),
     S [2,3,4,0,1] 2 2 (XLeft 12 9 4 14), S [1,2,3,4,0] 2 2 (XLeft 13 10 5 15),
     S [0,1,2,3,4] 2 2 (XLeft 14 11 6 0), S [4,0,1,2,3] 2 2 (XLeft 15 12 7 1),
     S [3,4,0,1,2] 2 2 (XLeft 0 13 8 2), S [2,3,4,0,1] 2 2 (XLeft 1 14 9 3),
     S [1,2,3,4,0] 2 2 (XLeft 2 15 10 4), S [0,1,2,3,4] 2 2 (XLeft 3 0 11 5),
     S [4,0,1,2,3] 2 2 (XLeft 4 1 12 6), S [3,4,0,1,2] 2 2 (XLeft 5 2 13 7),
     S [2,3,4,0,1] 2 2 (XLeft 6 3 14 8), S [1,2,3,4,0] 2 2 (XLeft 7 4 15 9),
     S [0,1,2,3,4] 3 3 (XLeft 8 5 0 10), S [4,0,1,2,3] 3 3 (XLeft 9 6 1 11),
     S [3,4,0,1,2] 3 3 (XLeft 10 7 2 12), S [2,3,4,0,1] 3 3 (XLeft 11 8 3 13),
     S [1,2,3,4,0] 3 3 (XLeft 12 9 4 14), S [0,1,2,3,4] 3 3 (XLeft 13 10 5 15),
     S [4,0,1,2,3] 3 3 (XLeft 14 11 6 0), S [3,4,0,1,2] 3 3 (XLeft 15 12 7 1),
     S [2,3,4,0,1] 3 3 (XLeft 0 13 8 2), S [1,2,3,4,0] 3 3 (XLeft 1 14 9 3),
     S [0,1,2,3,4] 3 3 (XLeft 2 15 10 4), S [4,0,1,2,3] 3 3 (XLeft 3 0 11 5),
     S [3,4,0,1,2] 3 3 (XLeft 4 1 12 6), S [2,3,4,0,1] 3 3 (XLeft 5 2 13 7),
     S [1,2,3,4,0] 3 3 (XLeft 6 3 14 8), S [0,1,2,3,4] 3 3 (XLeft 7 4 15 9),
     S [4,0,1,2,3] 3 3 (XLeft 8 5 0 10), S [3,4,0,1,2] 3 3 (XLeft 9 6 1 11),
     S [2,3,4,0,1] 3 3 (XLeft 10 7 2 12), S [1,2,3,4,0] 3 3 (XLeft 11 8 3 13),
     S [0,1,2,3,4] 2 4 (XLeft 12 9 4 14), S [4,0,1,2,3] 2 4 (XLeft 13 10 5 15),
     S [3,4,0,1,2] 2 4 (XLeft 14 11 6 0), S [2,3,4,0,1] 2 4 (XLeft 15 12 7 1),
     S [1,2,3,4,0] 2 4 (XLeft 0 13 8 2), S [0,1,2,3,4] 2 4 (XLeft 1 14 9 3),
     S [4,0,1,2,3] 2 4 (XLeft 2 15 10 4), S [3,4,0,1,2] 2 4 (XLeft 3 0 11 5),
     S [2,3,4,0,1] 2 4 (XLeft 4 1 12 6), S [1,2,3,4,0] 2 4 (XLeft 5 2 13 7),
     S [0,1,2,3,4] 2 4 (XLeft 6 3 14 8), S [4,0,1,2,3] 2 4 (XLeft 7 4 15 9),
     S [3,4,0,1,2] 2 4 (XLeft 8 5 0 10), S [2,3,4,0,1] 2 4 (XLeft 9 6 1 11),
     S [1,2,3,4,0] 2 4 (XLeft 10 7 2 12), S [0,1,2,3,4] 2 4 (XLeft 11 8 3 13),
     S [4,0,1,2,3] 2 4 (XLeft 12 9 4 14), S [3,4,0,1,2] 2 4 (XOnly 13 10 5 15),
     S [2,3,4,0,1] 2 4 (XOnly 14 11 6 0), S [1,2,3,4,0] 2 4 (XOnly 15 12 7 1)]"

definition sha1_Transform :: "u32 list \<Rightarrow> bytes \<Rightarrow> u32 list" where
  "sha1_Transform s chunk = map2 (+) s (fst (fold (sha1_exec chunk) sha1_calls (s, replicate 16 0)))"

definition CSHA1 :: "(u32 list) md_state" where
  "CSHA1 = md_init 64 sha1_Initialize"

definition CSHA1_Write :: "bytes \<Rightarrow> (u32 list) md_state \<Rightarrow> (u32 list) md_state" where
  "CSHA1_Write data st = md_write 64 sha1_Transform data st"

definition CSHA1_Finalize :: "(u32 list) md_state \<Rightarrow> bytes \<times> (u32 list) md_state" where
  "CSHA1_Finalize st =
     (let st = md_finish 64 8 WriteBE64 sha1_Transform st in (concat (map WriteBE32 (md_s st)), st))"

definition CSHA1_Reset :: "(u32 list) md_state \<Rightarrow> (u32 list) md_state" where
  "CSHA1_Reset st = st\<lparr>md_bytes := 0, md_s := sha1_Initialize\<rparr>"

subsection \<open>The round loop of the standard\<close>

fun sha1_W :: "bytes \<Rightarrow> nat \<Rightarrow> u32" where
  "sha1_W chunk t =
     (if t < 16 then ReadBE32 (drop (4 * t) chunk)
      else sha1_left (sha1_W chunk (t - 3) XOR sha1_W chunk (t - 8) XOR sha1_W chunk (t - 14) XOR sha1_W chunk (t - 16)))"

declare sha1_W.simps [simp del]

definition sha1_step :: "bytes \<Rightarrow> nat \<Rightarrow> u32 list \<Rightarrow> u32 list" where
  "sha1_step chunk t v =
     (let f = (if t < 20 then 1 else if t < 40 then 2 else if t < 60 then 3 else 2); k = sha1_k (t div 20 + 1)
      in [v ! 4 + ((push_bit 5 (v ! 0) OR drop_bit 27 (v ! 0)) + sha1_f f (v ! 1) (v ! 2) (v ! 3) + k + sha1_W chunk t),
          v ! 0, push_bit 30 (v ! 1) OR drop_bit 2 (v ! 1), v ! 2, v ! 3])"

definition sha1_loop :: "bytes \<Rightarrow> nat \<Rightarrow> u32 list \<Rightarrow> u32 list" where
  "sha1_loop chunk n s = fold (sha1_step chunk) [0..<n] s"

definition sha1_compress :: "u32 list \<Rightarrow> bytes \<Rightarrow> u32 list" where
  "sha1_compress s chunk = map2 (+) s (sha1_loop chunk 80 s)"

definition sha1_call_word :: "nat \<Rightarrow> sha1_w" where
  "sha1_call_word t =
     (if t < 16 then XLoad t (4 * t)
      else if t < 77 then XLeft (t mod 16) ((t + 13) mod 16) ((t + 8) mod 16) ((t + 2) mod 16)
      else XOnly (t mod 16) ((t + 13) mod 16) ((t + 8) mod 16) ((t + 2) mod 16))"

definition sha1_call_at :: "nat \<Rightarrow> sha1_call" where
  "sha1_call_at t =
     S (map (\<lambda>j. (j + 4 * t) mod 5) [0..<5]) (if t < 20 then 1 else if t < 40 then 2 else if t < 60 then 3 else 2)
       (t div 20 + 1) (sha1_call_word t)"

lemma sha1_calls_regular: "sha1_calls = map sha1_call_at [0..<80]"
  by code_simp

definition sha1_regs_rel :: "nat \<Rightarrow> 'w list \<Rightarrow> 'w list \<Rightarrow> bool" where
  "sha1_regs_rel t regs v \<longleftrightarrow> length regs = 5 \<and> length v = 5 \<and> (\<forall>j < 5. regs ! ((j + 4 * t) mod 5) = v ! j)"

definition sha1_sched_rel :: "bytes \<Rightarrow> nat \<Rightarrow> u32 list \<Rightarrow> bool" where
  "sha1_sched_rel chunk t ws \<longleftrightarrow> length ws = 16 \<and>
     (\<forall>u < t. t \<le> u + 16 \<and> u < 77 \<longrightarrow> ws ! (u mod 16) = sha1_W chunk u)"

lemma sha1_sched_nth:
  assumes "sha1_sched_rel chunk t ws" "16 \<le> t" "t < 80" "3 \<le> d" "d \<le> 16"
  shows "ws ! ((t + (16 - d)) mod 16) = sha1_W chunk (t - d)"
proof -
  have "t - d < t" "t \<le> t - d + 16" "t - d < 77"
    using assms by linarith+
  then have "ws ! ((t - d) mod 16) = sha1_W chunk (t - d)"
    using assms(1) by (simp add: sha1_sched_rel_def)
  moreover have "(t + (16 - d)) mod 16 = (t - d) mod 16"
    using assms by (metis Nat.add_diff_assoc2 Nat.diff_add_assoc le_trans mod_add_self2)
  ultimately show ?thesis by simp
qed

lemma sha1_word_sim:
  assumes rel: "sha1_sched_rel chunk t ws" and "t < 80"
  shows "fst (sha1_word chunk (sha1_call_word t) ws) = sha1_W chunk t"
    and "sha1_sched_rel chunk (Suc t) (snd (sha1_word chunk (sha1_call_word t) ws))"
proof -
  note W = sha1_W.simps [of chunk t]
  note nth = sha1_sched_nth [OF rel _ assms(2), of 3] sha1_sched_nth [OF rel _ assms(2), of 8]
    sha1_sched_nth [OF rel _ assms(2), of 14] sha1_sched_nth [OF rel _ assms(2), of 16]
  show val: "fst (sha1_word chunk (sha1_call_word t) ws) = sha1_W chunk t"
    using nth W by (auto simp: sha1_word_def sha1_call_word_def Let_def ac_simps)
  have keep: "ws ! (u mod 16) = sha1_W chunk u" if "u < t" "t < u + 16" "u < 77" for u
    using rel that by (simp add: sha1_sched_rel_def)
  have ws': "snd (sha1_word chunk (sha1_call_word t) ws) = (if t < 77 then ws[t mod 16 := sha1_W chunk t] else ws)"
    using val by (auto simp: sha1_word_def sha1_call_word_def Let_def)
  show "sha1_sched_rel chunk (Suc t) (snd (sha1_word chunk (sha1_call_word t) ws))"
    using rel keep slot_other [of _ t 16]
    by (auto simp: ws' sha1_sched_rel_def nth_list_update less_Suc_eq eq_commute [of "t mod 16"])
qed

lemma sha1_round_sim:
  assumes "sha1_regs_rel t regs v"
  shows "sha1_regs_rel (Suc t)
    (sha1_Round (map (\<lambda>j. (j + 4 * t) mod 5) [0..<5]) (sha1_f n (v ! 1) (v ! 2) (v ! 3)) k w regs)
    [v ! 4 + ((push_bit 5 (v ! 0) OR drop_bit 27 (v ! 0)) + sha1_f n (v ! 1) (v ! 2) (v ! 3) + k + w),
     v ! 0, push_bit 30 (v ! 1) OR drop_bit 2 (v ! 1), v ! 2, v ! 3]" (is "sha1_regs_rel _ ?r ?v")
proof -
  define p where "p j = (j + 4 * t) mod 5" for j
  have p_inj: "i < 5 \<Longrightarrow> j < 5 \<Longrightarrow> p i = p j \<longleftrightarrow> i = j" and p_less: "p i < 5" for i j
    by (simp_all add: p_def mod_add_inj)
  have len: "length regs = 5" and v: "j < 5 \<Longrightarrow> regs ! p j = v ! j" for j
    using assms by (simp_all add: sha1_regs_rel_def p_def)
  have p_next: "(0 + 4 * Suc t) mod 5 = p 4" "(Suc j + 4 * Suc t) mod 5 = p j" for j
    using mod_add_self2 [of "j + 4 * t" 5] by (simp_all add: p_def algebra_simps)
  define A where "A = v ! 4 + ((push_bit 5 (v ! 0) OR drop_bit 27 (v ! 0)) + sha1_f n (v ! 1) (v ! 2) (v ! 3) + k + w)"
  define B where "B = (push_bit 30 (v ! 1) OR drop_bit 2 (v ! 1))"
  have r: "?r = regs[p 4 := A, p 1 := B]"
    using v [of 0] v [of 1] v [of 4] by (simp add: sha1_Round_def Let_def A_def B_def p_def [symmetric])
  have upd: "j < 5 \<Longrightarrow> regs[p 4 := A, p 1 := B] ! p j = (if j = 1 then B else if j = 4 then A else v ! j)" for j
    using v len by (simp add: nth_list_update p_inj p_less)
  have "regs[p 4 := A, p 1 := B] ! ((j + 4 * Suc t) mod 5) = [A, v ! 0, B, v ! 2, v ! 3] ! j" if "j < 5" for j
  proof (cases j)
    case 0
    show ?thesis
      unfolding 0 p_next using upd [of 4] by simp
  next
    case (Suc i)
    then have "i = 0 \<or> i = 1 \<or> i = 2 \<or> i = 3"
      using that by linarith
    then show ?thesis
      unfolding Suc p_next using upd [of 0] upd [of 1] upd [of 2] upd [of 3] by (elim disjE) simp_all
  qed
  then show ?thesis
    unfolding sha1_regs_rel_def r A_def [symmetric] B_def [symmetric] by (simp add: len)
qed

lemma sha1_exec_sim:
  assumes "length s = 5" and "t \<le> 80"
  shows "let (regs, ws) = fold (sha1_exec chunk) (map sha1_call_at [0..<t]) (s, replicate 16 0)
    in sha1_regs_rel t regs (sha1_loop chunk t s) \<and> sha1_sched_rel chunk t ws"
  using assms(2)
proof (induction t)
  case 0
  then show ?case
    using assms(1) by (simp add: sha1_regs_rel_def sha1_sched_rel_def sha1_loop_def)
next
  case (Suc t)
  obtain regs ws where st: "fold (sha1_exec chunk) (map sha1_call_at [0..<t]) (s, replicate 16 0) = (regs, ws)"
    by (cases "fold (sha1_exec chunk) (map sha1_call_at [0..<t]) (s, replicate 16 0)") auto
  let ?v = "sha1_loop chunk t s" and ?rs = "map (\<lambda>j. (j + 4 * t) mod 5) [0..<5]"
  have rel: "sha1_regs_rel t regs ?v" "sha1_sched_rel chunk t ws"
    using Suc st by auto
  have nth: "j < 5 \<Longrightarrow> regs ! (?rs ! j) = ?v ! j" for j
    using rel(1) by (simp add: sha1_regs_rel_def)
  define n where "n = (if t < 20 then 1 else if t < 40 then 2 else if t < 60 then 3 else 2 :: nat)"
  have c: "sha1_call_at t = S ?rs n (t div 20 + 1) (sha1_call_word t)"
    by (simp add: sha1_call_at_def n_def)
  have "fold (sha1_exec chunk) (map sha1_call_at [0..<Suc t]) (s, replicate 16 0) =
      (sha1_Round ?rs (sha1_f n (?v ! 1) (?v ! 2) (?v ! 3)) (sha1_k (t div 20 + 1)) (sha1_W chunk t) regs,
       snd (sha1_word chunk (sha1_call_word t) ws))"
    using sha1_word_sim(1) [OF rel(2)] Suc(2) nth [of 1] nth [of 2] nth [of 3]
    by (simp add: st c sha1_exec_def split_beta Let_def del: upt_Suc) (simp add: st c sha1_exec_def split_beta Let_def)
  moreover have "sha1_loop chunk (Suc t) s = [?v ! 4 + ((push_bit 5 (?v ! 0) OR drop_bit 27 (?v ! 0))
      + sha1_f n (?v ! 1) (?v ! 2) (?v ! 3) + sha1_k (t div 20 + 1) + sha1_W chunk t),
     ?v ! 0, push_bit 30 (?v ! 1) OR drop_bit 2 (?v ! 1), ?v ! 2, ?v ! 3]"
    by (simp add: sha1_loop_def sha1_step_def n_def Let_def)
  ultimately show ?case
    using sha1_round_sim [OF rel(1), of n "sha1_k (t div 20 + 1)" "sha1_W chunk t"] sha1_word_sim(2) [OF rel(2)] Suc(2)
    by (simp del: upt_Suc)
qed

lemma sha1_Transform_loop: "length s = 5 \<Longrightarrow> sha1_Transform s chunk = sha1_compress s chunk"
proof -
  assume len: "length s = 5"
  have "(j + 4 * 80) mod 5 = j" if "j < 5" for j :: nat
    using mod_mult_self1 [of j 64 5] that by simp
  then have eq: "sha1_regs_rel 80 regs v \<Longrightarrow> regs = v" for regs v :: "u32 list"
    by (intro nth_equalityI) (auto simp: sha1_regs_rel_def)
  have "fst (fold (sha1_exec chunk) (map sha1_call_at [0..<80]) (s, replicate 16 0)) = sha1_loop chunk 80 s"
    using sha1_exec_sim [OF len, of 80 chunk] by (intro eq) (simp add: split_beta del: upt_Suc)
  then show ?thesis
    by (simp only: sha1_Transform_def sha1_compress_def sha1_calls_regular)
qed

subsection \<open>The hash class\<close>

interpretation sha1: md_hash 64 8 WriteBE64 sha1_Transform
  by unfold_locales simp_all

definition sha1_spec :: "bytes \<Rightarrow> bytes" where
  "sha1_spec m = concat (map WriteBE32 (md_blocks 64 sha1_compress (md_pad 64 8 WriteBE64 m) sha1_Initialize))"

lemma length_sha1_compress: "length s = 5 \<Longrightarrow> length (sha1_compress s chunk) = 5"
  using sha1_exec_sim [of s 80 chunk] by (auto simp: sha1_compress_def sha1_regs_rel_def split_beta Let_def)

lemma sha1_blocks:
  "md_blocks 64 sha1_Transform m sha1_Initialize = md_blocks 64 sha1_compress m sha1_Initialize"
  "length (md_blocks 64 sha1_compress m sha1_Initialize) = 5"
  using md_blocks_cong [where P = "\<lambda>s. length s = 5" and f = sha1_Transform and g = sha1_compress
      and B = 64 and m = m and s = sha1_Initialize]
  by (simp_all add: sha1_Transform_loop sha1_Initialize_def length_sha1_compress)

lemma length_sha1_spec [simp]: "length (sha1_spec m) = 20"
  by (simp add: sha1_spec_def sha1_blocks length_concat comp_def sum_list_triv)

lemma CSHA1_Finalize_inv: "sha1.md_inv sha1_Initialize m st \<Longrightarrow> fst (CSHA1_Finalize st) = sha1_spec m"
  by (simp add: CSHA1_Finalize_def sha1_spec_def sha1.finish_state sha1_blocks Let_def)

lemma CSHA1_writes_inv: "sha1.md_inv sha1_Initialize (concat ds) (fold CSHA1_Write ds CSHA1)"
  using sha1.write_all_inv [OF sha1.init_inv, of sha1_Initialize ds]
  by (simp add: CSHA1_Write_def [abs_def] CSHA1_def)

subsection \<open>Properties\<close>

text \<open>\<open>CSHA1\<close> returns the FIPS 180-4 SHA-1 hash of the concatenation of everything written.\<close>

theorem CSHA1_stream: "fst (CSHA1_Finalize (fold CSHA1_Write ds CSHA1)) = sha1_spec (concat ds)"
  by (rule CSHA1_Finalize_inv [OF CSHA1_writes_inv])

end
