(* ===== verification/Str_Encodings.thy ===== *)
theory Str_Encodings
  imports Prelude "HOL-Library.Char_ord"
begin

text \<open>
  Text encodings, \<open>src/src/utilstrencodings.cpp\<close> and \<open>utilstrencodings.h\<close>: hexadecimal, base64,
  base32, string sanitising, constant-time comparison and fixed-point parsing.  A C string is the
  list of its characters before the terminator; reading the terminator gives the NUL character.
\<close>

unbundle bit_operations_syntax

subsection \<open>C strings\<close>

definition char_at :: "string \<Rightarrow> nat \<Rightarrow> char" where
  "char_at p i = (if i < length p then p ! i else CHR 0x00)"

definition isspace :: "char \<Rightarrow> bool" where
  "isspace c \<longleftrightarrow> c \<in> {CHR '' '', CHR 0x09, CHR 0x0A, CHR 0x0B, CHR 0x0C, CHR 0x0D}"

definition CHARS_ALPHA_NUM :: string where
  "CHARS_ALPHA_NUM = ''abcdefghijklmnopqrstuvwxyzABCDEFGHIJKLMNOPQRSTUVWXYZ0123456789''"

definition SAFE_CHARS :: "nat \<Rightarrow> string" where
  "SAFE_CHARS rule = [CHARS_ALPHA_NUM @ '' .,;-_/:?@()'', CHARS_ALPHA_NUM @ '' .,;-_?@''] ! rule"

definition SanitizeString :: "string \<Rightarrow> nat \<Rightarrow> string" where
  "SanitizeString str rule = filter (\<lambda>c. c \<in> set (SAFE_CHARS rule)) str"

subsection \<open>Hexadecimal\<close>

definition p_util_hexdigit :: "int list" where
  "p_util_hexdigit =
     replicate 48 (- 1) @ [0, 1, 2, 3, 4, 5, 6, 7, 8, 9] @ replicate 7 (- 1) @ [10, 11, 12, 13, 14, 15]
     @ replicate 26 (- 1) @ [10, 11, 12, 13, 14, 15] @ replicate 153 (- 1)"

definition HexDigit :: "char \<Rightarrow> int" where
  "HexDigit c = p_util_hexdigit ! of_char c"

definition IsHex :: "string \<Rightarrow> bool" where
  "IsHex str \<longleftrightarrow> list_all (\<lambda>c. \<not> HexDigit c < 0) str \<and> length str > 0 \<and> length str mod 2 = 0"

lemma HexDigit_NUL [simp]: "HexDigit (CHR 0x00) = - 1"
  by (simp add: HexDigit_def p_util_hexdigit_def nth_append)

function ParseHex_loop :: "string \<Rightarrow> bytes \<Rightarrow> bytes" where
  "ParseHex_loop psz vch =
     (let psz = dropWhile isspace psz; c = HexDigit (char_at psz 0); psz = drop 1 psz
      in if c = - 1 then vch
         else let n = push_bit 4 c; d = HexDigit (char_at psz 0); psz = drop 1 psz
              in if d = - 1 then vch else ParseHex_loop psz (vch @ [word_of_int (n OR d)]))"
  by pat_completeness auto
termination
proof (relation "measure (\<lambda>(psz, vch). length psz)", goal_cases)
  case (2 psz vch p c q n d r)
  have "p \<noteq> []"
    using 2(2,4) by (cases p) (auto simp: char_at_def)
  moreover have "length p \<le> length psz"
    using 2 by (simp add: length_dropWhile_le)
  ultimately have "length (drop 1 (drop 1 p)) < length psz"
    by (cases p) auto
  with 2 show ?case by simp
qed simp

declare ParseHex_loop.simps [simp del]

definition ParseHex :: "string \<Rightarrow> bytes" where
  "ParseHex psz = ParseHex_loop psz []"

definition hexmap :: string where
  "hexmap = ''0123456789abcdef''"

definition HexStr_byte :: "u8 \<Rightarrow> string" where
  "HexStr_byte val = [hexmap ! unat (drop_bit 4 val), hexmap ! unat (val AND 15)]"

fun HexStr :: "bytes \<Rightarrow> bool \<Rightarrow> string" where
  "HexStr [] fSpaces = []"
| "HexStr (v # vs) fSpaces =
     HexStr_byte v @ concat (map (\<lambda>v. (if fSpaces then '' '' else '''') @ HexStr_byte v) vs)"

subsection \<open>Base64\<close>

definition pbase64 :: string where
  "pbase64 = ''ABCDEFGHIJKLMNOPQRSTUVWXYZabcdefghijklmnopqrstuvwxyz0123456789+/''"

definition EncodeBase64_step :: "u8 \<Rightarrow> nat \<times> int \<times> string \<Rightarrow> nat \<times> int \<times> string" where
  "EncodeBase64_step b st =
     (let (mode, left, ret) = st; enc = uint b
      in if mode = 0 then (1, push_bit 4 (enc AND 3), ret @ [pbase64 ! nat (drop_bit 2 enc)])
         else if mode = 1
         then (2, push_bit 2 (enc AND 15), ret @ [pbase64 ! nat (left OR drop_bit 4 enc)])
         else (0, left, ret @ [pbase64 ! nat (left OR drop_bit 6 enc), pbase64 ! nat (enc AND 63)]))"

definition EncodeBase64 :: "bytes \<Rightarrow> string" where
  "EncodeBase64 pch =
     (let (mode, left, ret) = fold EncodeBase64_step pch (0, 0, [])
      in if mode \<noteq> 0
         then ret @ [pbase64 ! nat left] @ ''='' @ (if mode = 1 then ''='' else [])
         else ret)"

definition decode64_table :: "int list" where
  "decode64_table =
     replicate 43 (- 1) @ [62] @ replicate 3 (- 1) @ [63, 52, 53, 54, 55, 56, 57, 58, 59, 60, 61]
     @ replicate 7 (- 1)
     @ [0, 1, 2, 3, 4, 5, 6, 7, 8, 9, 10, 11, 12, 13, 14, 15, 16, 17, 18, 19, 20, 21, 22, 23, 24, 25]
     @ replicate 6 (- 1)
     @ [26, 27, 28, 29, 30, 31, 32, 33, 34, 35, 36, 37, 38, 39, 40, 41, 42, 43, 44, 45, 46, 47, 48, 49, 50, 51]
     @ replicate 133 (- 1)"

definition decode64 :: "char \<Rightarrow> int" where
  "decode64 c = decode64_table ! of_char c"

definition DecodeBase64_step :: "int \<Rightarrow> nat \<times> int \<times> bytes \<Rightarrow> nat \<times> int \<times> bytes" where
  "DecodeBase64_step dec st =
     (let (mode, left, ret) = st
      in if mode = 0 then (1, dec, ret)
         else if mode = 1 then (2, dec AND 15, ret @ [word_of_int (push_bit 2 left OR drop_bit 4 dec)])
         else if mode = 2 then (3, dec AND 3, ret @ [word_of_int (push_bit 4 left OR drop_bit 2 dec)])
         else (0, left, ret @ [word_of_int (push_bit 6 left OR dec)]))"

fun DecodeBase64_loop :: "string \<Rightarrow> nat \<times> int \<times> bytes \<Rightarrow> string \<times> nat \<times> int \<times> bytes" where
  "DecodeBase64_loop [] st = ([], st)"
| "DecodeBase64_loop (c # p) st =
     (if decode64 c = - 1 then (c # p, st) else DecodeBase64_loop p (DecodeBase64_step (decode64 c) st))"

text \<open>The decoded bytes and the value of \<open>*pfInvalid\<close>.\<close>

definition DecodeBase64 :: "string \<Rightarrow> bytes \<times> bool" where
  "DecodeBase64 str =
     (let (p, mode, left, ret) = DecodeBase64_loop str (0, 0, [])
      in (ret,
          if mode = 0 then False
          else if mode = 1 then True
          else if mode = 2
          then left \<noteq> 0 \<or> char_at p 0 \<noteq> CHR ''='' \<or> char_at p 1 \<noteq> CHR ''='' \<or> decode64 (char_at p 2) \<noteq> - 1
          else left \<noteq> 0 \<or> char_at p 0 \<noteq> CHR ''='' \<or> decode64 (char_at p 1) \<noteq> - 1))"

subsection \<open>Base32\<close>

definition pbase32 :: string where
  "pbase32 = ''abcdefghijklmnopqrstuvwxyz234567''"

definition EncodeBase32_step :: "u8 \<Rightarrow> nat \<times> int \<times> string \<Rightarrow> nat \<times> int \<times> string" where
  "EncodeBase32_step b st =
     (let (mode, left, ret) = st; enc = uint b
      in if mode = 0 then (1, push_bit 2 (enc AND 7), ret @ [pbase32 ! nat (drop_bit 3 enc)])
         else if mode = 1
         then (2, push_bit 4 (enc AND 1),
               ret @ [pbase32 ! nat (left OR drop_bit 6 enc), pbase32 ! nat (drop_bit 1 enc AND 31)])
         else if mode = 2 then (3, push_bit 1 (enc AND 15), ret @ [pbase32 ! nat (left OR drop_bit 4 enc)])
         else if mode = 3
         then (4, push_bit 3 (enc AND 3),
               ret @ [pbase32 ! nat (left OR drop_bit 7 enc), pbase32 ! nat (drop_bit 2 enc AND 31)])
         else (0, left, ret @ [pbase32 ! nat (left OR drop_bit 5 enc), pbase32 ! nat (enc AND 31)]))"

definition nPadding :: "nat list" where
  "nPadding = [0, 6, 4, 3, 1]"

definition EncodeBase32 :: "bytes \<Rightarrow> string" where
  "EncodeBase32 pch =
     (let (mode, left, ret) = fold EncodeBase32_step pch (0, 0, [])
      in if mode \<noteq> 0 then ret @ [pbase32 ! nat left] @ replicate (nPadding ! mode) (CHR ''='') else ret)"

definition decode32_table :: "int list" where
  "decode32_table =
     replicate 50 (- 1) @ [26, 27, 28, 29, 30, 31] @ replicate 9 (- 1)
     @ [0, 1, 2, 3, 4, 5, 6, 7, 8, 9, 10, 11, 12, 13, 14, 15, 16, 17, 18, 19, 20, 21, 22, 23, 24, 25]
     @ replicate 6 (- 1)
     @ [0, 1, 2, 3, 4, 5, 6, 7, 8, 9, 10, 11, 12, 13, 14, 15, 16, 17, 18, 19, 20, 21, 22, 23, 24, 25]
     @ replicate 133 (- 1)"

definition decode32 :: "char \<Rightarrow> int" where
  "decode32 c = decode32_table ! of_char c"

definition DecodeBase32_step :: "int \<Rightarrow> nat \<times> int \<times> bytes \<Rightarrow> nat \<times> int \<times> bytes" where
  "DecodeBase32_step dec st =
     (let (mode, left, ret) = st
      in if mode = 0 then (1, dec, ret)
         else if mode = 1 then (2, dec AND 3, ret @ [word_of_int (push_bit 3 left OR drop_bit 2 dec)])
         else if mode = 2 then (3, push_bit 5 left OR dec, ret)
         else if mode = 3 then (4, dec AND 15, ret @ [word_of_int (push_bit 1 left OR drop_bit 4 dec)])
         else if mode = 4 then (5, dec AND 1, ret @ [word_of_int (push_bit 4 left OR drop_bit 1 dec)])
         else if mode = 5 then (6, push_bit 5 left OR dec, ret)
         else if mode = 6 then (7, dec AND 7, ret @ [word_of_int (push_bit 2 left OR drop_bit 3 dec)])
         else (0, left, ret @ [word_of_int (push_bit 5 left OR dec)]))"

fun DecodeBase32_loop :: "string \<Rightarrow> nat \<times> int \<times> bytes \<Rightarrow> string \<times> nat \<times> int \<times> bytes" where
  "DecodeBase32_loop [] st = ([], st)"
| "DecodeBase32_loop (c # p) st =
     (if decode32 c = - 1 then (c # p, st) else DecodeBase32_loop p (DecodeBase32_step (decode32 c) st))"

definition DecodeBase32 :: "string \<Rightarrow> bytes \<times> bool" where
  "DecodeBase32 str =
     (let (p, mode, left, ret) = DecodeBase32_loop str (0, 0, []);
          bad = (\<lambda>n. left \<noteq> 0 \<or> (\<exists>i \<in> set [0..<n]. char_at p i \<noteq> CHR ''='') \<or> decode32 (char_at p n) \<noteq> - 1)
      in (ret,
          if mode = 0 then False
          else if mode = 1 \<or> mode = 3 \<or> mode = 6 then True
          else if mode = 2 then bad 6
          else if mode = 4 then bad 4
          else if mode = 5 then bad 3
          else bad 1))"

subsection \<open>Comparison\<close>

definition TimingResistantEqual :: "bytes \<Rightarrow> bytes \<Rightarrow> bool" where
  "TimingResistantEqual a b =
     (if length b = 0 then length a = 0
      else fold (\<lambda>i acc. acc OR ucast (a ! i XOR b ! (i mod length b))) [0..<length a]
             (of_nat (length a) XOR of_nat (length b) :: u64) = 0)"

subsection \<open>Hexadecimal round trip\<close>

lemma of_char_less_256 [simp]: "(of_char c :: nat) < 256"
  by (metis nat_of_char_less_256 of_char_of)

lemma hexmap_digit: "n < 16 \<Longrightarrow> HexDigit (hexmap ! n) = int n \<and> \<not> isspace (hexmap ! n)"
proof -
  have "list_all (\<lambda>n. HexDigit (hexmap ! n) = int n \<and> \<not> isspace (hexmap ! n)) [0..<16]"
    by (simp add: HexDigit_def p_util_hexdigit_def hexmap_def isspace_def nth_append upt_rec)
  then show "n < 16 \<Longrightarrow> HexDigit (hexmap ! n) = int n \<and> \<not> isspace (hexmap ! n)"
    by (simp add: list_all_iff)
qed

lemma and_masks: "(x :: 'a :: semiring_bit_operations) AND 1 = take_bit 1 x" "x AND 3 = take_bit 2 x"
  "x AND 7 = take_bit 3 x" "x AND 15 = take_bit 4 x" "x AND 31 = take_bit 5 x" "x AND 63 = take_bit 6 x"
  by (simp_all add: take_bit_eq_mask mask_numeral)

lemma nibbles: "unat (drop_bit 4 (v :: u8)) < 16" "unat (v AND 15) < 16"
  "word_of_int (push_bit 4 (int (unat (drop_bit 4 v))) OR int (unat (v AND 15))) = v"
proof -
  show "unat (drop_bit 4 v) < 16"
    using unat_lt_exp [of v] by (simp add: unat_drop_bit)
  show "unat (v AND 15) < 16"
    by (simp add: and_masks take_bit_eq_mod unat_mod)
  show "word_of_int (push_bit 4 (int (unat (drop_bit 4 v))) OR int (unat (v AND 15))) = v"
    by (rule bit_word_eqI)
      (auto simp: and_masks uint_nat [symmetric] bit_simps)
qed

lemma ParseHex_byte:
  "ParseHex_loop (HexStr_byte v @ s) vch = ParseHex_loop s (vch @ [v])"
  "ParseHex_loop (CHR '' '' # HexStr_byte v @ s) vch = ParseHex_loop s (vch @ [v])"
proof -
  define x y where "x = hexmap ! unat (drop_bit 4 v)" and "y = hexmap ! unat (v AND 15)"
  have d: "HexDigit x = int (unat (drop_bit 4 v))" "HexDigit y = int (unat (v AND 15))" "\<not> isspace x" "isspace CHR '' ''"
    using hexmap_digit [OF nibbles(1), of v] hexmap_digit [OF nibbles(2), of v] by (simp_all add: x_def y_def isspace_def)
  have nn: "uint w \<noteq> - 1" for w :: u8
    using uint_ge_0 [of w] by linarith
  have b: "HexStr_byte v = [x, y]"
    by (simp add: HexStr_byte_def x_def y_def)
  show "ParseHex_loop (HexStr_byte v @ s) vch = ParseHex_loop s (vch @ [v])"
    unfolding b by (subst ParseHex_loop.simps) (use d nibbles(3) [of v] in \<open>simp add: char_at_def Let_def nn\<close>)
  show "ParseHex_loop (CHR '' '' # HexStr_byte v @ s) vch = ParseHex_loop s (vch @ [v])"
    unfolding b by (subst ParseHex_loop.simps) (use d nibbles(3) [of v] in \<open>simp add: char_at_def Let_def nn\<close>)
qed

lemma ParseHex_HexStr_loop:
  "ParseHex_loop (concat (map (\<lambda>v. (if sp then '' '' else []) @ HexStr_byte v) vs)) vch = vch @ vs"
proof (induction vs arbitrary: vch)
  case Nil
  then show ?case
    by (simp add: ParseHex_loop.simps char_at_def)
next
  case (Cons v vs)
  then show ?case
    by (cases sp) (simp_all add: ParseHex_byte)
qed

lemma ParseHex_HexStr: "ParseHex (HexStr vs sp) = vs"
  using ParseHex_HexStr_loop [of sp "tl vs"]
  by (cases vs) (simp_all add: ParseHex_def ParseHex_byte ParseHex_loop.simps [of "[]"] char_at_def)

lemma IsHex_HexStr: "IsHex (HexStr vs False) \<longleftrightarrow> vs \<noteq> []"
proof -
  have d: "list_all (\<lambda>c. \<not> HexDigit c < 0) (HexStr_byte v)" for v
    using hexmap_digit [OF nibbles(1)] hexmap_digit [OF nibbles(2)] by (simp add: HexStr_byte_def)
  have "HexStr vs False = concat (map HexStr_byte vs)"
    by (cases vs) simp_all
  moreover have "length (concat (map HexStr_byte vs)) = 2 * length vs"
    by (induction vs) (simp_all add: HexStr_byte_def)
  moreover have "list_all (\<lambda>c. \<not> HexDigit c < 0) (concat (map HexStr_byte vs))"
    using d by (induction vs) auto
  ultimately show ?thesis
    by (auto simp: IsHex_def)
qed

subsection \<open>Base64 round trip\<close>

text \<open>The six-bit groups of three bytes.\<close>

definition sx1 :: "u8 \<Rightarrow> int" where "sx1 a = drop_bit 2 (uint a)"
definition sx2 :: "u8 \<Rightarrow> u8 \<Rightarrow> int" where "sx2 a b = push_bit 4 (uint a AND 3) OR drop_bit 4 (uint b)"
definition sx3 :: "u8 \<Rightarrow> u8 \<Rightarrow> int" where "sx3 b c = push_bit 2 (uint b AND 15) OR drop_bit 6 (uint c)"
definition sx4 :: "u8 \<Rightarrow> int" where "sx4 c = uint c AND 63"

lemmas sx_defs = sx1_def sx2_def sx3_def sx4_def

fun sextets :: "bytes \<Rightarrow> int list" where
  "sextets [] = []"
| "sextets [a] = [sx1 a, sx2 a 0]"
| "sextets [a, b] = [sx1 a, sx2 a b, sx3 b 0]"
| "sextets (a # b # c # r) = sx1 a # sx2 a b # sx3 b c # sx4 c # sextets r"

lemma bit_lt_exp: "(0 :: int) \<le> x \<Longrightarrow> (\<And>n. bit x n \<Longrightarrow> n < k) \<Longrightarrow> x < 2 ^ k"
  by (metis bit_eq_iff bit_take_bit_iff take_bit_int_less_exp)

lemma sx1_range: "0 \<le> sx1 a \<and> sx1 a < 64"
  using bit_lt_exp [of "sx1 a" 6]
  by (fastforce simp: sx1_def and_masks bit_simps or_nonnegative_int_iff dest: bit_imp_le_length)

lemma sx2_range: "0 \<le> sx2 a b \<and> sx2 a b < 64"
  using bit_lt_exp [of "sx2 a b" 6]
  by (fastforce simp: sx2_def and_masks bit_simps or_nonnegative_int_iff dest: bit_imp_le_length)

lemma sx3_range: "0 \<le> sx3 a b \<and> sx3 a b < 64"
  using bit_lt_exp [of "sx3 a b" 6]
  by (fastforce simp: sx3_def and_masks bit_simps or_nonnegative_int_iff dest: bit_imp_le_length)

lemma sx4_range: "0 \<le> sx4 a \<and> sx4 a < 64"
  using bit_lt_exp [of "sx4 a" 6]
  by (fastforce simp: sx4_def and_masks bit_simps or_nonnegative_int_iff dest: bit_imp_le_length)

lemmas sx_range = sx1_range sx2_range sx3_range sx4_range

lemma sx_bytes:
  "word_of_int (push_bit 2 (sx1 a) OR drop_bit 4 (sx2 a b)) = a"
  "word_of_int (push_bit 4 (sx2 a b AND 15) OR drop_bit 2 (sx3 b c)) = b"
  "word_of_int (push_bit 6 (sx3 b c AND 3) OR sx4 c) = c"
proof -
  show "word_of_int (push_bit 2 (sx1 a) OR drop_bit 4 (sx2 a b)) = a"
  proof (rule bit_word_eqI)
    fix n assume "n < LENGTH(8)"
    then show "bit (word_of_int (push_bit 2 (sx1 a) OR drop_bit 4 (sx2 a b)) :: u8) n = bit a n"
      by (cases "n < 2") (auto simp: sx_defs and_masks bit_simps simp del: add_2_eq_Suc add_2_eq_Suc' dest: bit_imp_le_length)
  qed
  show "word_of_int (push_bit 4 (sx2 a b AND 15) OR drop_bit 2 (sx3 b c)) = b"
  proof (rule bit_word_eqI)
    fix n assume "n < LENGTH(8)"
    then show "bit (word_of_int (push_bit 4 (sx2 a b AND 15) OR drop_bit 2 (sx3 b c)) :: u8) n = bit b n"
      by (cases "n < 4") (auto simp: sx_defs and_masks bit_simps simp del: add_2_eq_Suc add_2_eq_Suc' dest: bit_imp_le_length)
  qed
  show "word_of_int (push_bit 6 (sx3 b c AND 3) OR sx4 c) = c"
  proof (rule bit_word_eqI)
    fix n assume "n < LENGTH(8)"
    then show "bit (word_of_int (push_bit 6 (sx3 b c AND 3) OR sx4 c) :: u8) n = bit c n"
      by (cases "n < 6") (auto simp: sx_defs and_masks bit_simps simp del: add_2_eq_Suc add_2_eq_Suc' dest: bit_imp_le_length)
  qed
qed

lemma sx_rest: "sx2 a 0 AND 15 = 0" "sx3 b 0 AND 3 = 0"
  by (rule bit_eqI; auto simp: sx_defs and_masks bit_simps)+

lemma sextets_range: "x \<in> set (sextets bs) \<Longrightarrow> 0 \<le> x \<and> x < 64"
  by (induction bs rule: sextets.induct) (auto simp: sx_range)

lemma pbase64_decode: "0 \<le> x \<Longrightarrow> x < 64 \<Longrightarrow> decode64 (pbase64 ! nat x) = x"
proof -
  have "list_all (\<lambda>n. decode64 (pbase64 ! n) = int n) [0..<64]"
    by code_simp
  then show "0 \<le> x \<Longrightarrow> x < 64 \<Longrightarrow> decode64 (pbase64 ! nat x) = x"
    by (simp add: list_all_iff)
qed

lemma encode64_steps:
  "EncodeBase64_step a (0, l, ret) = (1, sx2 a 0, ret @ [pbase64 ! nat (sx1 a)])"
  "EncodeBase64_step b (Suc 0, sx2 a 0, ret) = (2, sx3 b 0, ret @ [pbase64 ! nat (sx2 a b)])"
  "EncodeBase64_step c (2, sx3 b 0, ret) = (0, sx3 b 0, ret @ [pbase64 ! nat (sx3 b c), pbase64 ! nat (sx4 c)])"
  by (simp_all add: EncodeBase64_step_def sx_defs Let_def)

lemma decode64_steps:
  "DecodeBase64_step (sx1 a) (0, l, ret) = (1, sx1 a, ret)"
  "DecodeBase64_step (sx2 a b) (Suc 0, sx1 a, ret) = (2, sx2 a b AND 15, ret @ [a])"
  "DecodeBase64_step (sx3 b c) (2, sx2 a b AND 15, ret) = (3, sx3 b c AND 3, ret @ [b])"
  "DecodeBase64_step (sx4 c) (3, sx3 b c AND 3, ret) = (0, sx3 b c AND 3, ret @ [c])"
  by (simp_all only: DecodeBase64_step_def Let_def case_prod_conv sx_bytes) simp_all

definition close64 :: "nat \<times> int \<times> string \<Rightarrow> string" where
  "close64 st = (case st of (mode, left, ret) \<Rightarrow>
     if mode \<noteq> 0 then ret @ [pbase64 ! nat left] @ ''='' @ (if mode = 1 then ''='' else []) else ret)"

lemma encode64_fold:
  "close64 (fold EncodeBase64_step bs (0, l, ret)) =
   ret @ map (\<lambda>x. pbase64 ! nat x) (sextets bs) @ replicate ((3 - length bs mod 3) mod 3) (CHR ''='')"
proof (induction bs arbitrary: l ret rule: sextets.induct)
  case (4 a b c r)
  then show ?case
    by (simp add: encode64_steps)
qed (simp_all add: encode64_steps close64_def numeral_2_eq_2)

lemma decode64_chars:
  "(\<And>x. x \<in> set xs \<Longrightarrow> 0 \<le> x \<and> x < 64) \<Longrightarrow>
   DecodeBase64_loop (map (\<lambda>x. pbase64 ! nat x) xs @ rest) st = DecodeBase64_loop rest (fold DecodeBase64_step xs st)"
proof (induction xs arbitrary: st)
  case (Cons x xs)
  have "0 \<le> x" "x < 64" using Cons(2) by auto
  moreover from this have "x \<noteq> - 1" by linarith
  ultimately show ?case
    using Cons by (simp add: pbase64_decode)
qed simp

lemma decode64_sextets:
  "\<exists>l'. fold DecodeBase64_step (sextets bs) (0, l, ret) =
     (if length bs mod 3 = 0 then 0 else length bs mod 3 + 1, if length bs mod 3 = 0 then l' else 0, ret @ bs)"
proof (induction bs arbitrary: l ret rule: sextets.induct)
  case (4 a b c r)
  show ?case
    using 4 [of "sx3 b c AND 3" "ret @ [a, b, c]"]
    by (cases "length r mod 3 = 0") (simp_all add: decode64_steps)
qed (auto simp: decode64_steps sx_rest)

lemma decode64_pad: "decode64 (CHR ''='') = - 1" "decode64 (CHR 0x00) = - 1"
  by code_simp+

lemma DecodeBase64_Encode: "DecodeBase64 (EncodeBase64 bs) = (bs, False)"
proof -
  let ?pad = "replicate ((3 - length bs mod 3) mod 3) (CHR ''='')"
  obtain l' where f: "fold DecodeBase64_step (sextets bs) (0, 0, []) =
      (if length bs mod 3 = 0 then 0 else length bs mod 3 + 1, if length bs mod 3 = 0 then l' else 0, bs)"
    using decode64_sextets [of bs 0 "[]"] by (metis append_Nil)
  have enc: "EncodeBase64 bs = map (\<lambda>x. pbase64 ! nat x) (sextets bs) @ ?pad"
    using encode64_fold [of bs 0 "[]"] by (simp add: EncodeBase64_def close64_def split_beta Let_def)
  have "DecodeBase64_loop ?pad st = (?pad, st)" for st
    by (cases "(3 - length bs mod 3) mod 3") (simp_all add: decode64_pad)
  then have loop: "DecodeBase64_loop (EncodeBase64 bs) (0, 0, []) = (?pad, fold DecodeBase64_step (sextets bs) (0, 0, []))"
    unfolding enc using decode64_chars [OF sextets_range] by simp
  consider "length bs mod 3 = 0" | "length bs mod 3 = 1" | "length bs mod 3 = 2" by linarith
  then show ?thesis
    by cases (simp_all add: DecodeBase64_def loop f char_at_def decode64_pad)
qed

subsection \<open>Base32 round trip\<close>

text \<open>The five-bit groups of five bytes.\<close>

definition qx1 :: "u8 \<Rightarrow> int" where "qx1 a = drop_bit 3 (uint a)"
definition qx2 :: "u8 \<Rightarrow> u8 \<Rightarrow> int" where "qx2 a b = push_bit 2 (uint a AND 7) OR drop_bit 6 (uint b)"
definition qx3 :: "u8 \<Rightarrow> int" where "qx3 b = drop_bit 1 (uint b) AND 31"
definition qx4 :: "u8 \<Rightarrow> u8 \<Rightarrow> int" where "qx4 b c = push_bit 4 (uint b AND 1) OR drop_bit 4 (uint c)"
definition qx5 :: "u8 \<Rightarrow> u8 \<Rightarrow> int" where "qx5 c d = push_bit 1 (uint c AND 15) OR drop_bit 7 (uint d)"
definition qx6 :: "u8 \<Rightarrow> int" where "qx6 d = drop_bit 2 (uint d) AND 31"
definition qx7 :: "u8 \<Rightarrow> u8 \<Rightarrow> int" where "qx7 d e = push_bit 3 (uint d AND 3) OR drop_bit 5 (uint e)"
definition qx8 :: "u8 \<Rightarrow> int" where "qx8 e = uint e AND 31"

lemmas qx_defs = qx1_def qx2_def qx3_def qx4_def qx5_def qx6_def qx7_def qx8_def

fun quintets :: "bytes \<Rightarrow> int list" where
  "quintets [] = []"
| "quintets [a] = [qx1 a, qx2 a 0]"
| "quintets [a, b] = [qx1 a, qx2 a b, qx3 b, qx4 b 0]"
| "quintets [a, b, c] = [qx1 a, qx2 a b, qx3 b, qx4 b c, qx5 c 0]"
| "quintets [a, b, c, d] = [qx1 a, qx2 a b, qx3 b, qx4 b c, qx5 c d, qx6 d, qx7 d 0]"
| "quintets (a # b # c # d # e # r) =
     qx1 a # qx2 a b # qx3 b # qx4 b c # qx5 c d # qx6 d # qx7 d e # qx8 e # quintets r"

lemma qx1_range: "0 \<le> qx1 a \<and> qx1 a < 32"
  using bit_lt_exp [of "qx1 a" 5]
  by (fastforce simp: qx1_def and_masks bit_simps or_nonnegative_int_iff dest: bit_imp_le_length)

lemma qx2_range: "0 \<le> qx2 a b \<and> qx2 a b < 32"
  using bit_lt_exp [of "qx2 a b" 5]
  by (fastforce simp: qx2_def and_masks bit_simps or_nonnegative_int_iff dest: bit_imp_le_length)

lemma qx3_range: "0 \<le> qx3 a \<and> qx3 a < 32"
  using bit_lt_exp [of "qx3 a" 5]
  by (fastforce simp: qx3_def and_masks bit_simps or_nonnegative_int_iff dest: bit_imp_le_length)

lemma qx4_range: "0 \<le> qx4 a b \<and> qx4 a b < 32"
  using bit_lt_exp [of "qx4 a b" 5]
  by (fastforce simp: qx4_def and_masks bit_simps or_nonnegative_int_iff dest: bit_imp_le_length)

lemma qx5_range: "0 \<le> qx5 a b \<and> qx5 a b < 32"
proof -
  have "qx5 a b = 2 * take_bit 4 (uint a) OR drop_bit 7 (uint b)"
    by (simp add: qx5_def and_masks push_bit_eq_mult mult.commute)
  then show ?thesis
    using bit_lt_exp [of "qx5 a b" 5]
    by (fastforce simp: bit_simps bit_double_iff or_nonnegative_int_iff dest: bit_imp_le_length)
qed

lemma qx6_range: "0 \<le> qx6 a \<and> qx6 a < 32"
  using bit_lt_exp [of "qx6 a" 5]
  by (fastforce simp: qx6_def and_masks bit_simps or_nonnegative_int_iff dest: bit_imp_le_length)

lemma qx7_range: "0 \<le> qx7 a b \<and> qx7 a b < 32"
  using bit_lt_exp [of "qx7 a b" 5]
  by (fastforce simp: qx7_def and_masks bit_simps or_nonnegative_int_iff dest: bit_imp_le_length)

lemma qx8_range: "0 \<le> qx8 a \<and> qx8 a < 32"
  using bit_lt_exp [of "qx8 a" 5]
  by (fastforce simp: qx8_def and_masks bit_simps or_nonnegative_int_iff dest: bit_imp_le_length)

lemmas qx_range = qx1_range qx2_range qx3_range qx4_range qx5_range qx6_range qx7_range qx8_range

lemma qx_byte1: "word_of_int (push_bit 3 (qx1 a) OR drop_bit 2 (qx2 a b)) = a"
proof (rule bit_word_eqI)
  fix n assume "n < LENGTH(8)"
  then show "bit (word_of_int (push_bit 3 (qx1 a) OR drop_bit 2 (qx2 a b)) :: u8) n = bit a n"
    by (cases "n < 3") (auto simp: qx_defs and_masks bit_simps simp del: add_2_eq_Suc add_2_eq_Suc' One_nat_def push_bit_Suc dest: bit_imp_le_length)
qed

lemma qx_byte2: "word_of_int (push_bit 1 (push_bit 5 (qx2 a b AND 3) OR qx3 b) OR drop_bit 4 (qx4 b c)) = b"
proof (rule bit_word_eqI)
  fix n assume "n < LENGTH(8)"
  then show "bit (word_of_int (push_bit 1 (push_bit 5 (qx2 a b AND 3) OR qx3 b) OR drop_bit 4 (qx4 b c)) :: u8) n = bit b n"
    by (cases "n < 1") (auto simp: qx_defs and_masks bit_simps simp del: add_2_eq_Suc add_2_eq_Suc' One_nat_def push_bit_Suc dest: bit_imp_le_length)
qed

lemma qx_byte3: "word_of_int (push_bit 4 (qx4 b c AND 15) OR drop_bit 1 (qx5 c d)) = c"
proof (rule bit_word_eqI)
  fix n assume "n < LENGTH(8)"
  then show "bit (word_of_int (push_bit 4 (qx4 b c AND 15) OR drop_bit 1 (qx5 c d)) :: u8) n = bit c n"
    by (cases "n < 4") (auto simp: qx_defs and_masks bit_simps simp del: add_2_eq_Suc add_2_eq_Suc' One_nat_def push_bit_Suc dest: bit_imp_le_length)
qed

lemma qx_byte4: "word_of_int (push_bit 2 (push_bit 5 (qx5 c d AND 1) OR qx6 d) OR drop_bit 3 (qx7 d e)) = d"
proof (rule bit_word_eqI)
  fix n assume "n < LENGTH(8)"
  then consider "n < 2" | "2 \<le> n" "n < 7" | "n = 7" by fastforce
  then show "bit (word_of_int (push_bit 2 (push_bit 5 (qx5 c d AND 1) OR qx6 d) OR drop_bit 3 (qx7 d e)) :: u8) n = bit d n"
    by cases (auto simp: qx_defs and_masks bit_simps simp del: add_2_eq_Suc add_2_eq_Suc' One_nat_def push_bit_Suc dest: bit_imp_le_length)
qed

lemma qx_byte5: "word_of_int (push_bit 5 (qx7 d e AND 7) OR qx8 e) = e"
proof (rule bit_word_eqI)
  fix n assume "n < LENGTH(8)"
  then show "bit (word_of_int (push_bit 5 (qx7 d e AND 7) OR qx8 e) :: u8) n = bit e n"
    by (cases "n < 5") (auto simp: qx_defs and_masks bit_simps simp del: add_2_eq_Suc add_2_eq_Suc' One_nat_def push_bit_Suc dest: bit_imp_le_length)
qed

lemmas qx_bytes = qx_byte1 qx_byte2 qx_byte3 qx_byte4 qx_byte5

lemma qx_rest: "qx2 a 0 AND 3 = 0" "qx4 b 0 AND 15 = 0" "qx5 c 0 AND 1 = 0" "qx7 d 0 AND 7 = 0"
  by (rule bit_eqI; auto simp: qx_defs and_masks bit_simps)+

lemma quintets_range: "x \<in> set (quintets bs) \<Longrightarrow> 0 \<le> x \<and> x < 32"
  by (induction bs rule: quintets.induct) (auto simp: qx_range)

lemma pbase32_decode: "0 \<le> x \<Longrightarrow> x < 32 \<Longrightarrow> decode32 (pbase32 ! nat x) = x"
proof -
  have "list_all (\<lambda>n. decode32 (pbase32 ! n) = int n) [0..<32]"
    by code_simp
  then show "0 \<le> x \<Longrightarrow> x < 32 \<Longrightarrow> decode32 (pbase32 ! nat x) = x"
    by (simp add: list_all_iff)
qed

lemma encode32_steps:
  "EncodeBase32_step a (0, l, ret) = (1, qx2 a 0, ret @ [pbase32 ! nat (qx1 a)])"
  "EncodeBase32_step b (Suc 0, qx2 a 0, ret) = (2, qx4 b 0, ret @ [pbase32 ! nat (qx2 a b), pbase32 ! nat (qx3 b)])"
  "EncodeBase32_step c (2, qx4 b 0, ret) = (3, qx5 c 0, ret @ [pbase32 ! nat (qx4 b c)])"
  "EncodeBase32_step d (3, qx5 c 0, ret) = (4, qx7 d 0, ret @ [pbase32 ! nat (qx5 c d), pbase32 ! nat (qx6 d)])"
  "EncodeBase32_step e (4, qx7 d 0, ret) = (0, qx7 d 0, ret @ [pbase32 ! nat (qx7 d e), pbase32 ! nat (qx8 e)])"
  by (simp_all add: EncodeBase32_step_def qx_defs Let_def)

text \<open>The seven and six bits the decoder keeps after the third and the sixth group.\<close>

definition qy3 :: "u8 \<Rightarrow> u8 \<Rightarrow> int" where "qy3 a b = push_bit 5 (qx2 a b AND 3) OR qx3 b"
definition qy6 :: "u8 \<Rightarrow> u8 \<Rightarrow> int" where "qy6 c d = push_bit 5 (qx5 c d AND 1) OR qx6 d"

lemma decode32_steps:
  "DecodeBase32_step (qx1 a) (0, l, ret) = (1, qx1 a, ret)"
  "DecodeBase32_step (qx2 a b) (Suc 0, qx1 a, ret) = (2, qx2 a b AND 3, ret @ [a])"
  "DecodeBase32_step (qx3 b) (2, qx2 a b AND 3, ret) = (3, qy3 a b, ret)"
  "DecodeBase32_step (qx4 b c) (3, qy3 a b, ret) = (4, qx4 b c AND 15, ret @ [b])"
  "DecodeBase32_step (qx5 c d) (4, qx4 b c AND 15, ret) = (5, qx5 c d AND 1, ret @ [c])"
  "DecodeBase32_step (qx6 d) (5, qx5 c d AND 1, ret) = (6, qy6 c d, ret)"
  "DecodeBase32_step (qx7 d e) (6, qy6 c d, ret) = (7, qx7 d e AND 7, ret @ [d])"
  "DecodeBase32_step (qx8 e) (7, qx7 d e AND 7, ret) = (0, qx7 d e AND 7, ret @ [e])"
  by (simp_all only: DecodeBase32_step_def Let_def case_prod_conv qy3_def qy6_def qx_bytes) simp_all

definition close32 :: "nat \<times> int \<times> string \<Rightarrow> string" where
  "close32 st = (case st of (mode, left, ret) \<Rightarrow>
     if mode \<noteq> 0 then ret @ [pbase32 ! nat left] @ replicate (nPadding ! mode) (CHR ''='') else ret)"

lemma encode32_fold:
  "close32 (fold EncodeBase32_step bs (0, l, ret)) =
   ret @ map (\<lambda>x. pbase32 ! nat x) (quintets bs) @ replicate (nPadding ! (length bs mod 5)) (CHR ''='')"
proof (induction bs arbitrary: l ret rule: quintets.induct)
  case (6 a b c d e r)
  then show ?case
    by (simp add: encode32_steps)
qed (simp_all add: encode32_steps close32_def nPadding_def)

lemma decode32_chars:
  "(\<And>x. x \<in> set xs \<Longrightarrow> 0 \<le> x \<and> x < 32) \<Longrightarrow>
   DecodeBase32_loop (map (\<lambda>x. pbase32 ! nat x) xs @ rest) st = DecodeBase32_loop rest (fold DecodeBase32_step xs st)"
proof (induction xs arbitrary: st)
  case (Cons x xs)
  have "0 \<le> x" "x < 32" using Cons(2) by auto
  moreover from this have "x \<noteq> - 1" by linarith
  ultimately show ?case
    using Cons by (simp add: pbase32_decode)
qed simp

lemma decode32_quintets:
  "\<exists>l'. fold DecodeBase32_step (quintets bs) (0, l, ret) =
     ([0, 2, 4, 5, 7] ! (length bs mod 5), if length bs mod 5 = 0 then l' else 0, ret @ bs)"
proof (induction bs arbitrary: l ret rule: quintets.induct)
  case (6 a b c d e r)
  show ?case
    using 6 [of "qx7 d e AND 7" "ret @ [a, b, c, d, e]"]
    by (cases "length r mod 5 = 0") (simp_all add: decode32_steps)
qed (auto simp: decode32_steps qx_rest)

lemma decode32_pad: "decode32 (CHR ''='') = - 1" "decode32 (CHR 0x00) = - 1"
  by code_simp+

lemma DecodeBase32_Encode: "DecodeBase32 (EncodeBase32 bs) = (bs, False)"
proof -
  let ?pad = "replicate (nPadding ! (length bs mod 5)) (CHR ''='')"
  obtain l' where f: "fold DecodeBase32_step (quintets bs) (0, 0, []) =
      ([0, 2, 4, 5, 7] ! (length bs mod 5), if length bs mod 5 = 0 then l' else 0, bs)"
    using decode32_quintets [of bs 0 "[]"] by (metis append_Nil)
  have enc: "EncodeBase32 bs = map (\<lambda>x. pbase32 ! nat x) (quintets bs) @ ?pad"
    using encode32_fold [of bs 0 "[]"] by (simp add: EncodeBase32_def close32_def split_beta Let_def)
  have "DecodeBase32_loop ?pad st = (?pad, st)" for st
    by (cases "nPadding ! (length bs mod 5)") (simp_all add: decode32_pad)
  then have loop: "DecodeBase32_loop (EncodeBase32 bs) (0, 0, []) = (?pad, fold DecodeBase32_step (quintets bs) (0, 0, []))"
    unfolding enc using decode32_chars [OF quintets_range] by simp
  have good: "\<forall>i \<in> {0..<n}. char_at (replicate n CHR ''='') i = CHR ''=''"
    "decode32 (char_at (replicate n CHR ''='') n) = - 1" for n
    by (simp_all add: char_at_def decode32_pad)
  consider "length bs mod 5 = 0" | "length bs mod 5 = 1" | "length bs mod 5 = 2" | "length bs mod 5 = 3" | "length bs mod 5 = 4"
    by linarith
  then show ?thesis
    using good [of 6] good [of 4] good [of 3] good [of 1]
    by cases (simp_all add: DecodeBase32_def loop f Let_def nPadding_def)
qed

subsection \<open>Comparison in time independent of the contents\<close>

lemma fold_or_zero:
  "fold (\<lambda>i acc. acc OR (g i :: u64)) xs acc = 0 \<longleftrightarrow> acc = 0 \<and> (\<forall>i \<in> set xs. g i = 0)"
  by (induction xs arbitrary: acc) (auto simp: or_eq_0_iff)

lemma xor_zero_iff: "x XOR y = 0 \<longleftrightarrow> x = (y :: 'a :: len word)"
  by (metis xor.assoc xor.right_neutral xor_self_eq xor.left_neutral)

lemma unat_u64_of_u8: "unat (ucast (x :: u8) :: u64) = unat x"
  by (rule unat_ucast_widen) simp

lemma unat_len: "n < 2 ^ 64 \<Longrightarrow> unat (of_nat n :: u64) = n"
  by (simp add: unat_of_nat)

lemma TimingResistantEqual_iff:
  assumes "length a < 2 ^ 64" and "length b < 2 ^ 64"
  shows "TimingResistantEqual a b \<longleftrightarrow> a = b"
proof (cases "b = []")
  case False
  have len: "(of_nat (length a) XOR of_nat (length b) :: u64) = 0 \<longleftrightarrow> length a = length b"
    unfolding xor_zero_iff using unat_len [OF assms(1)] unat_len [OF assms(2)] by metis
  have byte: "(ucast (x XOR y) :: u64) = 0 \<longleftrightarrow> x = y" for x y :: u8
    using xor_zero_iff [of x y] unat_u64_of_u8 [of "x XOR y"] by (metis unat_eq_0)
  have eq: "TimingResistantEqual a b \<longleftrightarrow> length a = length b \<and> (\<forall>i \<in> set [0..<length a]. a ! i = b ! (i mod length b))"
    using False by (simp only: TimingResistantEqual_def fold_or_zero len byte length_0_conv if_False)
  show ?thesis
  proof
    assume "TimingResistantEqual a b"
    then have len: "length a = length b" and nth: "\<And>i. i < length a \<Longrightarrow> a ! i = b ! (i mod length b)"
      by (simp_all add: eq)
    show "a = b"
      by (rule nth_equalityI [OF len]) (metis nth len mod_less)
  next
    assume "a = b"
    then show "TimingResistantEqual a b"
      unfolding eq by simp
  qed
qed (simp add: TimingResistantEqual_def)

subsection \<open>Properties\<close>

text \<open>hexadecimal, base64 and base32 text decodes to the bytes it was made from, with and
  without spaces between the hexadecimal bytes, and the base64 and base32 decoders accept the
  padding the encoders write.\<close>

theorem text_encodings_roundtrip:
  "ParseHex (HexStr v sp) = v \<and> (IsHex (HexStr v False) \<longleftrightarrow> v \<noteq> [])
   \<and> DecodeBase64 (EncodeBase64 v) = (v, False) \<and> DecodeBase32 (EncodeBase32 v) = (v, False)"
  by (simp add: ParseHex_HexStr IsHex_HexStr DecodeBase64_Encode DecodeBase32_Encode)

end
