(* ===== verification/Uint256.thy ===== *)
theory Uint256
  imports Arith_Uint256 Bytes_Common Str_Encodings
begin

text \<open>
  Opaque blobs, \<open>src/src/uint256.h\<close> and \<open>uint256.cpp\<close>, and the conversions between them and
  \<open>arith_uint256\<close>.  A \<open>base_blob\<close> of width \<open>W\<close> is a list of \<open>W\<close> bytes, least significant first.
\<close>

unbundle bit_operations_syntax

type_synonym uint256 = bytes
type_synonym uint160 = bytes

definition blob_wf :: "nat \<Rightarrow> bytes \<Rightarrow> bool" where
  "blob_wf W b \<longleftrightarrow> length b = W"

definition blob_zero :: "nat \<Rightarrow> bytes" where
  "blob_zero W = replicate W 0"

text \<open>The constructor from a byte vector; None is its failed assert.\<close>

definition blob_of_vector :: "nat \<Rightarrow> bytes \<Rightarrow> bytes option" where
  "blob_of_vector W vch = (if length vch = W then Some vch else None)"

definition blob_IsNull :: "bytes \<Rightarrow> bool" where
  "blob_IsNull data \<longleftrightarrow> list_all (\<lambda>b. b = 0) data"

text \<open>\<open>memcmp\<close>: the sign of the first differing byte.\<close>

fun blob_Compare :: "bytes \<Rightarrow> bytes \<Rightarrow> int" where
  "blob_Compare (a # as) (b # bs) = (if a < b then - 1 else if b < a then 1 else blob_Compare as bs)"
| "blob_Compare as bs = 0"

definition blob_GetHex :: "bytes \<Rightarrow> string" where
  "blob_GetHex data = concat (map HexStr_byte (rev data))"

text \<open>The loop of \<open>SetHex\<close> walks the digits from the last one; at most \<open>W\<close> bytes are set.\<close>

fun SetHex_loop :: "nat \<Rightarrow> string \<Rightarrow> bytes" where
  "SetHex_loop 0 ds = []"
| "SetHex_loop (Suc w) [] = replicate (Suc w) 0"
| "SetHex_loop (Suc w) [d] = word_of_int (HexDigit d) # replicate w 0"
| "SetHex_loop (Suc w) (d # e # ds) =
     (word_of_int (HexDigit d) OR push_bit 4 (word_of_int (HexDigit e))) # SetHex_loop w ds"

definition tolower_x :: "char \<Rightarrow> bool" where
  "tolower_x c \<longleftrightarrow> c = CHR ''x'' \<or> c = CHR ''X''"

definition blob_SetHex :: "nat \<Rightarrow> string \<Rightarrow> bytes" where
  "blob_SetHex W psz =
     (let psz = dropWhile isspace psz;
          psz = (if char_at psz 0 = CHR ''0'' \<and> tolower_x (char_at psz 1) then drop 2 psz else psz);
          digits = takeWhile (\<lambda>c. HexDigit c \<noteq> - 1) psz
      in SetHex_loop W (rev digits))"

definition uint256S :: "string \<Rightarrow> uint256" where
  "uint256S str = blob_SetHex 32 str"

definition GetCheapHash :: "uint256 \<Rightarrow> u64" where
  "GetCheapHash data = ReadLE64 data"

definition ArithToUint256 :: "base_uint \<Rightarrow> uint256" where
  "ArithToUint256 a = concat (map (\<lambda>x. WriteLE32 (a ! x)) [0..<WIDTH])"

definition UintToArith256 :: "uint256 \<Rightarrow> base_uint" where
  "UintToArith256 a = map (\<lambda>x. ReadLE32 (drop (x * 4) a)) [0..<WIDTH]"

definition arith_GetHex :: "base_uint \<Rightarrow> string" where
  "arith_GetHex a = blob_GetHex (ArithToUint256 a)"

definition arith_SetHex :: "string \<Rightarrow> base_uint" where
  "arith_SetHex psz = UintToArith256 (uint256S psz)"

subsection \<open>Comparison\<close>

lemma blob_Compare_eq: "length a = length b \<Longrightarrow> blob_Compare a b = 0 \<longleftrightarrow> a = b"
  by (induction a b rule: blob_Compare.induct) (auto simp: antisym_conv3)

lemma blob_Compare_antisym: "length a = length b \<Longrightarrow> blob_Compare b a = - blob_Compare a b"
  by (induction a b rule: blob_Compare.induct) auto

subsection \<open>Hexadecimal text\<close>

lemma SetHex_bytes:
  "SetHex_loop (length bs) (concat (map (\<lambda>b. rev (HexStr_byte b)) bs)) = bs"
proof (induction bs)
  case (Cons b bs)
  have d: "HexDigit (hexmap ! unat (drop_bit 4 b)) = int (unat (drop_bit 4 b))"
    "HexDigit (hexmap ! unat (b AND 15)) = int (unat (b AND 15))"
    using hexmap_digit [OF nibbles(1)] hexmap_digit [OF nibbles(2)] by blast+
  have "(b AND 15) OR push_bit 4 (drop_bit 4 b) = b"
  proof (rule bit_word_eqI)
    fix n assume "n < LENGTH(8)"
    then show "bit ((b AND 15) OR push_bit 4 (drop_bit 4 b)) n = bit b n"
      by (cases "n < 4") (auto simp: and_masks bit_simps)
  qed
  then show ?case
    using Cons d by (simp add: HexStr_byte_def)
qed simp

lemma HexStr_byte_digits: "c \<in> set (HexStr_byte b) \<Longrightarrow> HexDigit c \<noteq> - 1 \<and> \<not> isspace c"
proof -
  have "int n \<noteq> - 1" for n by simp
  then show "c \<in> set (HexStr_byte b) \<Longrightarrow> HexDigit c \<noteq> - 1 \<and> \<not> isspace c"
    using hexmap_digit [OF nibbles(1), of b] hexmap_digit [OF nibbles(2), of b]
    unfolding HexStr_byte_def by (metis empty_iff list.set(1) set_ConsD)
qed

lemma blob_GetHex_digits: "c \<in> set (blob_GetHex bs) \<Longrightarrow> HexDigit c \<noteq> - 1 \<and> \<not> isspace c"
  using HexStr_byte_digits by (auto simp: blob_GetHex_def)

lemma HexDigit_x: "tolower_x c \<Longrightarrow> HexDigit c = - 1"
  by (auto simp: tolower_x_def HexDigit_def p_util_hexdigit_def nth_append)

lemma SetHex_GetHex_prefixed:
  assumes "\<And>c. c \<in> set sp \<Longrightarrow> isspace c" and "pre = [] \<or> pre = ''0x'' \<or> pre = ''0X''"
  shows "blob_SetHex (length bs) (sp @ pre @ blob_GetHex bs) = bs"
proof -
  let ?h = "blob_GetHex bs"
  have t: "takeWhile (\<lambda>c. HexDigit c \<noteq> - 1) ?h = ?h"
    using blob_GetHex_digits by (simp add: takeWhile_eq_all_conv)
  have r: "rev ?h = concat (map (\<lambda>b. rev (HexStr_byte b)) bs)"
    by (simp add: blob_GetHex_def rev_concat rev_map comp_def)
  have "dropWhile isspace (sp @ pre @ ?h) = dropWhile isspace (pre @ ?h)"
    using assms(1) by (simp add: dropWhile_append2)
  also have "\<dots> = pre @ ?h"
  proof -
    have "dropWhile isspace ?h = ?h"
      using blob_GetHex_digits [of _ bs] by (cases ?h) auto
    moreover have "\<not> isspace CHR ''0''"
      by (simp add: isspace_def)
    ultimately show ?thesis
      using assms(2) by auto
  qed
  finally have d: "dropWhile isspace (sp @ pre @ ?h) = pre @ ?h" .
  have nx: "\<not> tolower_x (char_at ?h 1)"
  proof (cases "1 < length ?h")
    case True
    then show ?thesis
      using blob_GetHex_digits [OF nth_mem [OF True]] HexDigit_x [of "?h ! 1"] by (auto simp: char_at_def)
  qed (simp add: char_at_def tolower_x_def)
  have "blob_SetHex (length bs) (sp @ pre @ ?h) = SetHex_loop (length bs) (rev ?h)"
    using assms(2) nx by (auto simp: blob_SetHex_def d t char_at_def tolower_x_def Let_def)
  then show ?thesis
    by (simp add: r SetHex_bytes)
qed

subsection \<open>Conversions\<close>

lemma Uint_Arith_roundtrip: "uint_wf a \<Longrightarrow> UintToArith256 (ArithToUint256 a) = a"
proof -
  assume wf: "uint_wf a"
  have drop: "drop (x * 4) (concat (map (\<lambda>x. WriteLE32 (a ! x)) [0..<WIDTH])) =
      concat (map (\<lambda>x. WriteLE32 (a ! x)) [x..<WIDTH])" if "x \<le> WIDTH" for x
    using that
  proof (induction x)
    case (Suc x)
    have "drop (Suc x * 4) (concat (map (\<lambda>x. WriteLE32 (a ! x)) [0..<WIDTH])) =
        drop 4 (concat (map (\<lambda>x. WriteLE32 (a ! x)) [x..<WIDTH]))"
      using Suc(1) [OF Suc_leD [OF Suc(2)]] by (simp only: mult_Suc drop_drop [symmetric])
    also have "[x..<WIDTH] = x # [Suc x..<WIDTH]"
      using Suc by (simp add: upt_conv_Cons)
    finally show ?case by simp
  qed simp
  have "ReadLE32 (drop (x * 4) (ArithToUint256 a)) = a ! x" if "x < WIDTH" for x
    using drop [of x] that upt_conv_Cons [of x WIDTH] by (simp add: ArithToUint256_def)
  then have "UintToArith256 (ArithToUint256 a) = map (\<lambda>x. a ! x) [0..<WIDTH]"
    by (simp add: UintToArith256_def)
  then show ?thesis
    using wf map_nth [of a] by (simp add: uint_wf_def)
qed

lemma length_ArithToUint256 [simp]: "length (ArithToUint256 a) = 32"
  by (simp add: ArithToUint256_def WIDTH_def length_concat comp_def sum_list_triv)

lemma uint_wf_UintToArith256 [simp]: "uint_wf (UintToArith256 b)"
  by (simp add: UintToArith256_def uint_wf_def)

lemma Arith_Uint_roundtrip: "length b = 32 \<Longrightarrow> ArithToUint256 (UintToArith256 b) = b"
proof -
  assume len: "length b = 32"
  have w: "WriteLE32 (ReadLE32 (drop (x * 4) b)) = take 4 (drop (x * 4) b)" if "x < 8" for x
    using WriteLE32_Read [of "take 4 (drop (x * 4) b)"] len that by (simp add: ReadLE32_take)
  have "concat (map (\<lambda>x. take 4 (drop (x * 4) b)) [0..<n]) = take (n * 4) b" if "n \<le> 8" for n
    using that by (induction n) (simp_all add: take_add [symmetric] add.commute)
  moreover have "map (\<lambda>x. WriteLE32 (UintToArith256 b ! x)) [0..<8] = map (\<lambda>x. take 4 (drop (x * 4) b)) [0..<8]"
    by (rule map_cong) (simp_all add: UintToArith256_def WIDTH_def w)
  ultimately show ?thesis
    using len by (simp only: ArithToUint256_def WIDTH_def) simp
qed

subsection \<open>Properties\<close>

text \<open>\<open>SetHex\<close> reads back what \<open>GetHex\<close> prints, for blobs of every width, also after leading
  white space and a 0x prefix; \<open>UintToArith256\<close> and \<open>ArithToUint256\<close> are inverse to each other.\<close>

theorem uint256_text_and_arith_roundtrip:
  assumes "list_all isspace sp" and "pre = [] \<or> pre = ''0x'' \<or> pre = ''0X''"
    and "length b = 32" and "uint_wf a"
  shows "blob_SetHex (length d) (sp @ pre @ blob_GetHex d) = d \<and> ArithToUint256 (UintToArith256 b) = b
    \<and> UintToArith256 (ArithToUint256 a) = a \<and> arith_SetHex (arith_GetHex a) = a"
proof -
  have "blob_SetHex 32 (blob_GetHex (ArithToUint256 a)) = ArithToUint256 a"
    using SetHex_GetHex_prefixed [of "[]" "[]" "ArithToUint256 a"] by simp
  then have "arith_SetHex (arith_GetHex a) = a"
    using assms(4) by (simp add: arith_SetHex_def arith_GetHex_def uint256S_def Uint_Arith_roundtrip)
  then show ?thesis
    using assms SetHex_GetHex_prefixed [of sp pre d] by (simp add: Uint_Arith_roundtrip Arith_Uint_roundtrip list_all_iff)
qed

theorem uint256_text_and_arith_roundtrip_witness:
  "list_all isspace ''  '' \<and> length (replicate 32 (5 :: u8)) = 32 \<and> uint_wf uint_zero
   \<and> blob_SetHex (length [1, 2, 3 :: u8]) (''  '' @ ''0x'' @ blob_GetHex [1, 2, 3]) = [1, 2, 3]"
  using uint256_text_and_arith_roundtrip [of "''  ''" "''0x''" "replicate 32 5" uint_zero "[1, 2, 3]"]
  by (simp add: isspace_def)

end
