(* ===== verification/Merkle.thy ===== *)
theory Merkle
  imports Hash Uint256
begin

text \<open>
  Merkle roots and branches, \<open>src/src/consensus/merkle.cpp\<close>.  \<open>MerkleComputation\<close> keeps an array of
  32 subtree hashes and a 32-bit counter; every loop over the levels is translated with the shift
  and array bounds of the code, so None stands for running past level 31 (undefined behaviour).
  The reference is the tree of the levels: \<open>tree_node ls l k\<close> is node \<open>k\<close> of level \<open>l\<close>, where an odd
  last node is paired with itself.
\<close>

unbundle bit_operations_syntax

subsection \<open>The computation\<close>

text \<open>The state of a level loop: current hash, whether it depends on the wanted leaf, the branch so
  far, the mutation flag.\<close>

record mstate =
  m_h :: uint256
  m_matchh :: bool
  m_branch :: "uint256 list"
  m_mutated :: bool

text \<open>The \<open>if (pbranch)\<close> block, shared by both level loops.\<close>

definition branch_step :: "bool \<Rightarrow> int \<Rightarrow> nat \<Rightarrow> uint256 \<Rightarrow> mstate \<Rightarrow> mstate" where
  "branch_step fBranch matchlevel level inner_l st =
     (if fBranch
      then if m_matchh st then st\<lparr>m_branch := m_branch st @ [inner_l]\<rparr>
           else if matchlevel = int level then st\<lparr>m_branch := m_branch st @ [m_h st], m_matchh := True\<rparr>
           else st
      else st)"

text \<open>The level loop for one leaf: lines 73 to 84.\<close>

function leaf_levels :: "bool \<Rightarrow> u32 \<Rightarrow> int \<Rightarrow> uint256 list \<Rightarrow> nat \<Rightarrow> mstate \<Rightarrow> (nat \<times> mstate) option" where
  "leaf_levels fBranch count matchlevel inner level st =
     (if level \<ge> 32 then None
      else if count AND push_bit level 1 \<noteq> 0 then Some (level, st)
      else let st = branch_step fBranch matchlevel level (inner ! level) st;
               st = st\<lparr>m_mutated := m_mutated st \<or> inner ! level = m_h st\<rparr>;
               st = st\<lparr>m_h := Hash2 (inner ! level) (m_h st)\<rparr>
           in leaf_levels fBranch count matchlevel inner (level + 1) st)"
  by pat_completeness auto
termination
  by (relation "measure (\<lambda>(fB, c, ml, inner, level, st). 32 - level)") auto

text \<open>The loop over the leaves: lines 65 to 90.\<close>

fun leaves_loop :: "bool \<Rightarrow> u32 \<Rightarrow> uint256 list \<Rightarrow> u32 \<Rightarrow> uint256 list \<Rightarrow> int \<Rightarrow> uint256 list \<Rightarrow> bool
    \<Rightarrow> (u32 \<times> uint256 list \<times> int \<times> uint256 list \<times> bool) option" where
  "leaves_loop fBranch branchpos [] count inner matchlevel branch mutated = Some (count, inner, matchlevel, branch, mutated)"
| "leaves_loop fBranch branchpos (h # leaves) count inner matchlevel branch mutated =
     (let st = \<lparr>m_h = h, m_matchh = (count = branchpos), m_branch = branch, m_mutated = mutated\<rparr>; count = count + 1
      in case leaf_levels fBranch count matchlevel inner 0 st of
           None \<Rightarrow> None
         | Some (level, st) \<Rightarrow>
             leaves_loop fBranch branchpos leaves count (inner[level := m_h st])
               (if m_matchh st then int level else matchlevel) (m_branch st) (m_mutated st))"

text \<open>Lines 97 to 99: the first level that holds something.\<close>

function skip_levels :: "u32 \<Rightarrow> nat \<Rightarrow> nat option" where
  "skip_levels count level =
     (if level \<ge> 32 then None
      else if count AND push_bit level 1 \<noteq> 0 then Some level else skip_levels count (level + 1))"
  by pat_completeness auto
termination
  by (relation "measure (\<lambda>(c, level). 32 - level)") auto

text \<open>Lines 115 to 126: propagate upwards.\<close>

function up_levels :: "bool \<Rightarrow> u32 \<Rightarrow> int \<Rightarrow> uint256 list \<Rightarrow> nat \<Rightarrow> mstate \<Rightarrow> (nat \<times> mstate) option" where
  "up_levels fBranch count matchlevel inner level st =
     (if level \<ge> 32 then None
      else if count AND push_bit level 1 \<noteq> 0 then Some (level, st)
      else let st = branch_step fBranch matchlevel level (inner ! level) st;
               st = st\<lparr>m_h := Hash2 (inner ! level) (m_h st)\<rparr>
           in up_levels fBranch count matchlevel inner (level + 1) st)"
  by pat_completeness auto
termination
  by (relation "measure (\<lambda>(fB, c, ml, inner, level, st). 32 - level)") auto

declare leaf_levels.simps [simp del] skip_levels.simps [simp del] up_levels.simps [simp del]

lemma up_levels_level: "up_levels fB c ml inner level st = Some (l', st') \<Longrightarrow> level \<le> l'"
proof (induction fB c ml inner level st rule: up_levels.induct)
  case (1 fB c ml inner level st)
  from "1.prems" show ?case
    by (subst (asm) up_levels.simps) (auto simp: Let_def split: if_splits dest!: "1.IH" [OF _ _ refl refl])
qed

text \<open>Lines 102 to 127: the sweep over the rightmost branch.\<close>

function sweep :: "bool \<Rightarrow> u32 \<Rightarrow> int \<Rightarrow> uint256 list \<Rightarrow> nat \<Rightarrow> mstate \<Rightarrow> mstate option" where
  "sweep fBranch count matchlevel inner level st =
     (if level \<ge> 32 then None
      else if count = push_bit level 1 then Some st
      else let st = (if fBranch \<and> m_matchh st then st\<lparr>m_branch := m_branch st @ [m_h st]\<rparr> else st);
               st = st\<lparr>m_h := Hash2 (m_h st) (m_h st)\<rparr>;
               count = count + push_bit level 1
           in case up_levels fBranch count matchlevel inner (level + 1) st of
                None \<Rightarrow> None
              | Some (level', st) \<Rightarrow> sweep fBranch count matchlevel inner level' st)"
  by pat_completeness auto
termination
  by (relation "measure (\<lambda>(fB, c, ml, inner, level, st). 32 - level)") (auto dest!: up_levels_level)

declare sweep.simps [simp del]

text \<open>Root, mutation flag and branch; None is undefined behaviour of the level loops.\<close>

definition MerkleComputation :: "uint256 list \<Rightarrow> u32 \<Rightarrow> bool \<Rightarrow> (uint256 \<times> bool \<times> uint256 list) option" where
  "MerkleComputation leaves branchpos fBranch =
     (if length leaves = 0 then Some (blob_zero 32, False, [])
      else case leaves_loop fBranch branchpos leaves 0 (replicate 32 (blob_zero 32)) (- 1) [] False of
          None \<Rightarrow> None
        | Some (count, inner, matchlevel, branch, mutated) \<Rightarrow>
            (case skip_levels count 0 of
               None \<Rightarrow> None
             | Some level \<Rightarrow>
                 (case sweep fBranch count matchlevel inner level
                         \<lparr>m_h = inner ! level, m_matchh = (matchlevel = int level), m_branch = branch, m_mutated = mutated\<rparr> of
                    None \<Rightarrow> None
                  | Some st \<Rightarrow> Some (m_h st, mutated, m_branch st))))"

definition ComputeMerkleRoot :: "uint256 list \<Rightarrow> (uint256 \<times> bool) option" where
  "ComputeMerkleRoot leaves = map_option (\<lambda>(r, m, b). (r, m)) (MerkleComputation leaves (- 1) False)"

definition ComputeMerkleBranch :: "uint256 list \<Rightarrow> u32 \<Rightarrow> (uint256 list) option" where
  "ComputeMerkleBranch leaves position = map_option (\<lambda>(r, m, b). b) (MerkleComputation leaves position True)"

fun ComputeMerkleRootFromBranch :: "uint256 \<Rightarrow> uint256 list \<Rightarrow> u32 \<Rightarrow> uint256" where
  "ComputeMerkleRootFromBranch hash [] nIndex = hash"
| "ComputeMerkleRootFromBranch hash (it # vMerkleBranch) nIndex =
     ComputeMerkleRootFromBranch (if nIndex AND 1 \<noteq> 0 then Hash2 it hash else Hash2 hash it) vMerkleBranch (drop_bit 1 nIndex)"

text \<open>A block enters with the hash function of its transactions; \<open>leaves[0]\<close> of an empty block is out of range.\<close>

definition BlockMerkleRoot :: "('tx \<Rightarrow> uint256) \<Rightarrow> 'tx list \<Rightarrow> (uint256 \<times> bool) option" where
  "BlockMerkleRoot GetHash vtx = ComputeMerkleRoot (map GetHash vtx)"

definition BlockWitnessMerkleRoot :: "('tx \<Rightarrow> uint256) \<Rightarrow> 'tx list \<Rightarrow> (uint256 \<times> bool) option" where
  "BlockWitnessMerkleRoot GetWitnessHash vtx =
     (if vtx = [] then None else ComputeMerkleRoot (blob_zero 32 # map GetWitnessHash (tl vtx)))"

definition BlockMerkleBranch :: "('tx \<Rightarrow> uint256) \<Rightarrow> 'tx list \<Rightarrow> u32 \<Rightarrow> (uint256 list) option" where
  "BlockMerkleBranch GetHash vtx position = ComputeMerkleBranch (map GetHash vtx) position"

subsection \<open>The tree of the levels\<close>

definition level_size :: "nat \<Rightarrow> nat \<Rightarrow> nat" where
  "level_size n l = (n + 2 ^ l - 1) div 2 ^ l"

fun tree_node :: "uint256 list \<Rightarrow> nat \<Rightarrow> nat \<Rightarrow> uint256" where
  "tree_node ls 0 k = ls ! k"
| "tree_node ls (Suc l) k =
     Hash2 (tree_node ls l (2 * k))
       (tree_node ls l (if 2 * k + 1 < level_size (length ls) l then 2 * k + 1 else 2 * k))"

definition tree_height :: "nat \<Rightarrow> nat" where
  "tree_height n = (LEAST l. n \<le> 2 ^ l)"

definition merkle_root :: "uint256 list \<Rightarrow> uint256" where
  "merkle_root ls = tree_node ls (tree_height (length ls)) 0"

text \<open>The sibling that a branch shows at a level: the last node of an odd level is its own sibling.\<close>

definition sibling :: "uint256 list \<Rightarrow> nat \<Rightarrow> nat \<Rightarrow> uint256" where
  "sibling ls pos j =
     (let k = pos div 2 ^ j; s = (if even k then k + 1 else k - 1)
      in tree_node ls j (if s < level_size (length ls) j then s else k))"

text \<open>Two complete equal neighbours: what the mutation flag reports.\<close>

definition twin :: "uint256 list \<Rightarrow> nat \<Rightarrow> nat \<Rightarrow> bool" where
  "twin ls l k \<longleftrightarrow> tree_node ls l (2 * k) = tree_node ls l (2 * k + 1)"

definition twins_below :: "uint256 list \<Rightarrow> nat \<Rightarrow> bool" where
  "twins_below ls c \<longleftrightarrow> (\<exists>l k. (2 * k + 2) * 2 ^ l \<le> c \<and> twin ls l k)"

subsection \<open>Arithmetic of the levels\<close>

lemma level_size_0 [simp]: "level_size n 0 = n"
  by (simp add: level_size_def)

lemma level_size_Suc: "level_size n (Suc l) = (level_size n l + 1) div 2"
proof -
  have p: "(0::nat) < 2 ^ l" by simp
  have "(level_size n l + 1) div 2 = ((n + 2 ^ l - 1 + 2 ^ l) div 2 ^ l) div 2"
    unfolding level_size_def using p by (subst div_add_self2) auto
  also have "n + 2 ^ l - 1 + 2 ^ l = n + 2 ^ Suc l - 1" using p by simp
  also have "(n + 2 ^ Suc l - 1) div 2 ^ l div 2 = (n + 2 ^ Suc l - 1) div 2 ^ Suc l"
    by (simp only: power_Suc2 div_mult2_eq)
  finally show ?thesis by (simp add: level_size_def)
qed

lemma level_size_bounds: "n \<le> level_size n l * 2 ^ l" "0 < n \<Longrightarrow> (level_size n l - 1) * 2 ^ l < n"
proof -
  have p: "(0::nat) < 2 ^ l" by simp
  define q where "q = level_size n l"
  have "n + 2 ^ l - 1 = q * 2 ^ l + (n + 2 ^ l - 1) mod 2 ^ l"
    unfolding q_def level_size_def by (simp add: div_mult_mod_eq)
  moreover have "(n + 2 ^ l - 1) mod 2 ^ l < 2 ^ l" using p by simp
  ultimately have a: "n + 2 ^ l - 1 < q * 2 ^ l + 2 ^ l" "q * 2 ^ l \<le> n + 2 ^ l - 1" by linarith+
  show "n \<le> level_size n l * 2 ^ l" using a(1) p unfolding q_def by linarith
  assume "0 < n"
  have "(q - 1) * 2 ^ l = q * 2 ^ l - 2 ^ l" by (simp add: diff_mult_distrib)
  then show "(level_size n l - 1) * 2 ^ l < n" using a(2) p \<open>0 < n\<close> unfolding q_def by linarith
qed

lemma level_size_unique: "(q - 1) * 2 ^ l < n \<Longrightarrow> n \<le> q * 2 ^ l \<Longrightarrow> level_size n l = q"
proof -
  assume a: "(q - 1) * 2 ^ l < n" "n \<le> q * 2 ^ l"
  have q: "0 < q" using a by (cases q) auto
  have n: "0 < n" using a by simp
  have b: "(level_size n l - 1) * 2 ^ l < n" "n \<le> level_size n l * 2 ^ l" using level_size_bounds n by auto
  have p: "0 < level_size n l" using b n by (cases "level_size n l") auto
  have "(q - 1) * 2 ^ l < level_size n l * 2 ^ l" using a b by linarith
  moreover have "(level_size n l - 1) * 2 ^ l < q * 2 ^ l" using a b by linarith
  ultimately show ?thesis using p q by auto
qed

lemma level_size_ge: "x * 2 ^ l \<le> n \<Longrightarrow> x \<le> level_size n l"
proof -
  assume "x * 2 ^ l \<le> n"
  then have "x * 2 ^ l \<le> level_size n l * 2 ^ l" using level_size_bounds(1) [of n l] by linarith
  then show ?thesis by simp
qed

lemma level_size_le_pow: "n \<le> 2 ^ m \<Longrightarrow> l \<le> m \<Longrightarrow> level_size n l * 2 ^ l \<le> 2 ^ m"
proof (cases "n = 0")
  case False
  assume a: "n \<le> 2 ^ m" "l \<le> m"
  have e: "(2::nat) ^ m = 2 ^ (m - l) * 2 ^ l" using a by (simp flip: power_add)
  have "(level_size n l - 1) * 2 ^ l < 2 ^ (m - l) * 2 ^ l"
    using level_size_bounds(2) [of n l] False a e by linarith
  then have "level_size n l - 1 < 2 ^ (m - l)" by simp
  then have "level_size n l \<le> 2 ^ (m - l)" by linarith
  then show ?thesis unfolding e by simp
next
  case True
  then show ?thesis by (simp add: level_size_def)
qed

lemma level_size_div: "n < level_size n l * 2 ^ l \<Longrightarrow> 0 < n \<Longrightarrow> n div 2 ^ l = level_size n l - 1"
  using level_size_bounds(2) [of n l]
  by (intro div_nat_eqI) (auto simp: mult.commute algebra_simps diff_mult_distrib)

lemma tree_node_full: "(2 * k + 2) * 2 ^ l \<le> length ls \<Longrightarrow>
  tree_node ls (Suc l) k = Hash2 (tree_node ls l (2 * k)) (tree_node ls l (2 * k + 1))"
  using level_size_ge [of "2 * k + 2" l "length ls"] by simp

lemma count_bit: "level < 32 \<Longrightarrow> c < 2 ^ 32 \<Longrightarrow> (of_nat c :: u32) AND push_bit level 1 \<noteq> 0 \<longleftrightarrow> odd (c div 2 ^ level)"
proof -
  assume a: "level < 32" "c < 2 ^ 32"
  have "(of_nat c :: u32) AND push_bit level 1 \<noteq> 0 \<longleftrightarrow> bit (of_nat c :: u32) level"
    by (simp add: push_bit_eq_mult and_exp_eq_0_iff_not_bit)
  also have "\<dots> \<longleftrightarrow> bit c level" using a by (simp add: bit_simps)
  finally show ?thesis by (simp add: bit_iff_odd)
qed

subsection \<open>The leaves\<close>

text \<open>\<open>inner\<close> holds the last complete subtree of every level whose bit of the count is set, and
  \<open>matchlevel\<close> is the level of the subtree that holds the wanted leaf.\<close>

definition inner_ok :: "uint256 list \<Rightarrow> nat \<Rightarrow> uint256 list \<Rightarrow> bool" where
  "inner_ok ls c inner \<longleftrightarrow> length inner = 32 \<and>
     (\<forall>l < 32. odd (c div 2 ^ l) \<longrightarrow> inner ! l = tree_node ls l (c div 2 ^ l - 1))"

definition match_ok :: "uint256 list \<Rightarrow> nat \<Rightarrow> nat \<Rightarrow> nat \<Rightarrow> int \<Rightarrow> uint256 list \<Rightarrow> bool" where
  "match_ok ls pos lo c ml br \<longleftrightarrow>
     (if pos < c
      then \<exists>l. lo \<le> l \<and> l < 32 \<and> ml = int l \<and> odd (c div 2 ^ l) \<and> pos div 2 ^ l = c div 2 ^ l - 1 \<and> br = map (sibling ls pos) [0..<l]
      else ml = - 1 \<and> br = [])"

definition path_ok :: "uint256 list \<Rightarrow> nat \<Rightarrow> nat \<Rightarrow> nat \<Rightarrow> nat \<Rightarrow> int \<Rightarrow> mstate \<Rightarrow> bool" where
  "path_ok ls pos c level k ml st \<longleftrightarrow>
     (if m_matchh st then pos div 2 ^ level = k \<and> m_branch st = map (sibling ls pos) [0..<level]
      else match_ok ls pos level c ml (m_branch st))"

definition leaf_inv :: "uint256 list \<Rightarrow> nat \<Rightarrow> bool \<Rightarrow> nat \<Rightarrow> int \<Rightarrow> bool \<Rightarrow> nat \<Rightarrow> nat \<Rightarrow> mstate \<Rightarrow> bool" where
  "leaf_inv ls c fB pos ml mut level x st \<longleftrightarrow>
     c + 1 = x * 2 ^ level \<and> m_h st = tree_node ls level (x - 1) \<and>
     (m_mutated st \<longleftrightarrow> mut \<or> (\<exists>l < level. \<exists>k. (2 * k + 2) * 2 ^ l = c + 1 \<and> twin ls l k)) \<and>
     (fB \<longrightarrow> path_ok ls pos c level (x - 1) ml st \<and> (if m_matchh st then pos < c + 1 else pos \<noteq> c))"

lemma pred_div_pow:
  fixes c x :: nat
  shows "c + 1 = x * 2 ^ l \<Longrightarrow> c div 2 ^ l = x - 1"
proof (intro div_nat_eqI)
  assume c: "c + 1 = x * 2 ^ l"
  have p: "(0::nat) < 2 ^ l" by simp
  show "2 ^ l * (x - 1) \<le> c"
  proof (cases x)
    case (Suc y)
    then have "Suc c = 2 ^ l + y * 2 ^ l" using c by simp
    then have "y * 2 ^ l \<le> c" using p by linarith
    then show ?thesis using Suc by (simp add: mult.commute)
  qed (use c in simp)
  show "c < 2 ^ l * Suc (x - 1)" using c p by (cases x) (auto simp: mult.commute)
qed

lemma sibling_left: "pos div 2 ^ l = k \<Longrightarrow> even k \<Longrightarrow> k + 1 < level_size (length ls) l \<Longrightarrow> sibling ls pos l = tree_node ls l (k + 1)"
  by (simp add: sibling_def Let_def)

lemma sibling_self: "pos div 2 ^ l = k \<Longrightarrow> even k \<Longrightarrow> k + 1 \<ge> level_size (length ls) l \<Longrightarrow> sibling ls pos l = tree_node ls l k"
  by (simp add: sibling_def Let_def)

text \<open>What the branch block keeps, for both level loops: \<open>c\<close> leaves are in \<open>inner\<close>, and the hash of node
  \<open>2z + 1\<close> is about to be joined with node \<open>2z\<close>.\<close>

lemma branch_step_path:
  assumes fB and size: "2 * z + 2 \<le> level_size (length ls) level" and cd: "c div 2 ^ level = 2 * z + 1"
    and inner: "inner_l = tree_node ls level (2 * z)" and h: "m_h st = tree_node ls level (2 * z + 1)"
    and inv: "path_ok ls pos c level (2 * z + 1) ml st"
    and st': "st' = branch_step fB ml level inner_l st"
  shows "path_ok ls pos c (Suc level) z ml st'" "m_matchh st' \<longleftrightarrow> m_matchh st \<or> ml = int level"
    "ml = int level \<Longrightarrow> m_matchh st \<or> pos < c"
proof -
  have up: "pos div 2 ^ Suc level = (pos div 2 ^ level) div 2"
    by (simp only: power_Suc2 div_mult2_eq)
  show "m_matchh st' \<longleftrightarrow> m_matchh st \<or> ml = int level" using \<open>fB\<close> by (simp add: st' branch_step_def)
  show "ml = int level \<Longrightarrow> m_matchh st \<or> pos < c" using inv by (auto simp: path_ok_def match_ok_def split: if_splits)
  consider (matched) "m_matchh st" | (now) "\<not> m_matchh st" "ml = int level" | (later) "\<not> m_matchh st" "ml \<noteq> int level"
    by blast
  then show "path_ok ls pos c (Suc level) z ml st'"
  proof cases
    case matched
    then have p: "pos div 2 ^ level = 2 * z + 1" using inv by (simp add: path_ok_def)
    have "sibling ls pos level = inner_l"
      using p size inner by (simp add: sibling_def Let_def)
    moreover have "pos div 2 ^ Suc level = z" unfolding up p by simp
    ultimately show ?thesis
      using matched inv \<open>fB\<close> by (simp add: path_ok_def st' branch_step_def del: power_Suc)
  next
    case now
    then have p: "pos div 2 ^ level = 2 * z" "m_branch st = map (sibling ls pos) [0..<level]"
      using inv by (auto simp: path_ok_def match_ok_def cd split: if_splits)
    have "sibling ls pos level = m_h st"
      using sibling_left [OF p(1)] size h by simp
    moreover have "pos div 2 ^ Suc level = z" unfolding up p by simp
    ultimately show ?thesis using now p \<open>fB\<close> by (simp add: path_ok_def st' branch_step_def del: power_Suc)
  next
    case later
    then have "match_ok ls pos (Suc level) c ml (m_branch st)"
      using inv by (auto simp: path_ok_def match_ok_def not_less_eq_eq le_less split: if_splits)
    then show ?thesis using later \<open>fB\<close> by (simp add: path_ok_def st' branch_step_def)
  qed
qed

lemma leaf_step:
  assumes inv: "leaf_inv ls c fB pos ml mut level (2 * z + 2) st" and n: "c + 1 \<le> length ls" and ok: "inner_ok ls c inner"
    and level: "level < 32"
    and st': "st' = branch_step fB ml level (inner ! level) st"
  shows "leaf_inv ls c fB pos ml mut (Suc level) (z + 1)
           (st'\<lparr>m_mutated := m_mutated st' \<or> inner ! level = m_h st', m_h := Hash2 (inner ! level) (m_h st')\<rparr>)"
proof -
  have c: "c + 1 = (2 * z + 2) * 2 ^ level" using inv by (simp add: leaf_inv_def)
  have same: "m_h st' = m_h st" "m_mutated st' = m_mutated st"
    by (simp_all add: st' branch_step_def)
  have h: "m_h st = tree_node ls level (2 * z + 1)" using inv by (simp add: leaf_inv_def)
  have cd: "c div 2 ^ level = 2 * z + 1" using pred_div_pow [OF c] by simp
  then have i: "inner ! level = tree_node ls level (2 * z)"
    using ok level by (simp add: inner_ok_def)
  have node: "tree_node ls (Suc level) z = Hash2 (inner ! level) (m_h st)"
    unfolding i h using c n by (intro tree_node_full) simp
  have twins: "(\<exists>l < Suc level. \<exists>k. (2 * k + 2) * 2 ^ l = c + 1 \<and> twin ls l k)
     \<longleftrightarrow> (\<exists>l < level. \<exists>k. (2 * k + 2) * 2 ^ l = c + 1 \<and> twin ls l k) \<or> inner ! level = m_h st"
  proof -
    have "(2 * k + 2) * 2 ^ level = c + 1 \<longleftrightarrow> k = z" for k
      unfolding c by (simp only: mult_cancel2) simp
    then show ?thesis by (simp only: less_Suc_eq twin_def i h ex_disj_distrib conj_disj_distribR) auto
  qed
  have size: "2 * z + 2 \<le> level_size (length ls) level" using c n by (intro level_size_ge) simp
  have branch: "fB \<longrightarrow> path_ok ls pos c (Suc level) z ml st' \<and> (if m_matchh st' then pos < c + 1 else pos \<noteq> c)"
  proof
    assume fB
    then have p: "path_ok ls pos c level (2 * z + 1) ml st" "if m_matchh st then pos < c + 1 else pos \<noteq> c"
      using inv by (auto simp: leaf_inv_def split: if_splits)
    note step = branch_step_path [OF \<open>fB\<close> size cd i h p(1) st']
    show "path_ok ls pos c (Suc level) z ml st' \<and> (if m_matchh st' then pos < c + 1 else pos \<noteq> c)"
      using step p(2) by (auto split: if_splits)
  qed
  have mut: "m_mutated st \<longleftrightarrow> mut \<or> (\<exists>l < level. \<exists>k. (2 * k + 2) * 2 ^ l = c + 1 \<and> twin ls l k)"
    using inv unfolding leaf_inv_def by blast
  have c2: "c + 1 = (z + 1) * 2 ^ Suc level" using c by simp
  let ?s = "st'\<lparr>m_mutated := m_mutated st' \<or> inner ! level = m_h st', m_h := Hash2 (inner ! level) (m_h st')\<rparr>"
  have sel: "m_h ?s = Hash2 (inner ! level) (m_h st)" "m_mutated ?s = (m_mutated st \<or> inner ! level = m_h st)"
    "m_matchh ?s = m_matchh st'" "m_branch ?s = m_branch st'"
    by (simp_all add: same)
  show ?thesis
    unfolding leaf_inv_def path_ok_def twins sel add_diff_cancel_right' node mut
    using branch c2 unfolding path_ok_def by blast
qed

lemma leaf_levels_inv:
  assumes "leaf_inv ls c fB pos ml mut level x st" "c + 1 \<le> length ls" "length ls \<le> 2 ^ 31" "inner_ok ls c inner"
  shows "\<exists>l' x' st'. leaf_levels fB (of_nat (c + 1)) ml inner level st = Some (l', st') \<and> odd x' \<and> l' < 32
           \<and> leaf_inv ls c fB pos ml mut l' x' st'"
  using assms(1)
proof (induction "32 - level" arbitrary: level x st rule: less_induct)
  case less
  have c: "c + 1 = x * 2 ^ level" using less.prems by (simp add: leaf_inv_def)
  then have "2 ^ level \<le> c + 1" by (cases x) auto
  then have "(2::nat) ^ level \<le> 2 ^ 31" using assms by linarith
  then have "level \<le> 31" by (rule power_le_imp_le_exp [rotated]) simp
  then have level: "level < 32" by simp
  have bit: "(of_nat (c + 1) :: u32) AND push_bit level 1 \<noteq> 0 \<longleftrightarrow> odd x"
  proof -
    have "c + 1 < 2 ^ 32" using assms by simp
    from count_bit [OF level this] show ?thesis unfolding c by simp
  qed
  show ?case
  proof (cases "odd x")
    case True
    then have "leaf_levels fB (of_nat (c + 1)) ml inner level st = Some (level, st)"
      using bit level by (subst leaf_levels.simps) (simp del: of_nat_add)
    then show ?thesis using less.prems True level by blast
  next
    case False
    moreover have "x \<noteq> 0" using c by (cases x) auto
    ultimately obtain z where z: "x = 2 * z + 2" by (metis dvdE not0_implies_Suc mult_Suc_right add.commute mult_0_right)
    define st1 where "st1 = branch_step fB ml level (inner ! level) st"
    define st2 where "st2 = st1\<lparr>m_mutated := m_mutated st1 \<or> inner ! level = m_h st1, m_h := Hash2 (inner ! level) (m_h st1)\<rparr>"
    have "leaf_inv ls c fB pos ml mut (Suc level) (z + 1) st2"
      unfolding st2_def using less.prems assms level by (intro leaf_step [OF _ _ _ _ st1_def]) (simp_all add: z)
    from less.hyps [OF _ this] level obtain l' x' st' where
      "leaf_levels fB (of_nat (c + 1)) ml inner (Suc level) st2 = Some (l', st')" "odd x'" "l' < 32" "leaf_inv ls c fB pos ml mut l' x' st'"
      by fastforce
    moreover have "leaf_levels fB (of_nat (c + 1)) ml inner level st = leaf_levels fB (of_nat (c + 1)) ml inner (Suc level) st2"
      using bit level False by (subst leaf_levels.simps) (simp add: Let_def st1_def st2_def del: of_nat_add)
    ultimately show ?thesis by metis
  qed
qed

definition leaves_inv :: "uint256 list \<Rightarrow> bool \<Rightarrow> nat \<Rightarrow> nat \<Rightarrow> uint256 list \<Rightarrow> int \<Rightarrow> uint256 list \<Rightarrow> bool \<Rightarrow> bool" where
  "leaves_inv ls fB pos c inner ml br mut \<longleftrightarrow>
     inner_ok ls c inner \<and> (mut \<longleftrightarrow> twins_below ls c) \<and> (fB \<longrightarrow> match_ok ls pos 0 c ml br)"

lemma high_levels_keep:
  fixes c x :: nat
  assumes "c + 1 = x * 2 ^ l" "odd x" "l < j"
  shows "(c + 1) div 2 ^ j = c div 2 ^ j"
proof -
  have e: "(2::nat) ^ j = 2 ^ l * (2 * 2 ^ (j - l - 1))"
    using assms(3) by (simp flip: power_add power_Suc)
  have "(c + 1) div 2 ^ j = x div (2 * 2 ^ (j - l - 1))" unfolding e div_mult2_eq assms(1) by simp
  also have "\<dots> = (x - 1) div (2 * 2 ^ (j - l - 1))" using assms(2) unfolding div_mult2_eq by (auto elim!: oddE)
  also have "\<dots> = c div 2 ^ j" unfolding e div_mult2_eq pred_div_pow [OF assms(1)] by simp
  finally show ?thesis .
qed

lemma low_levels_even:
  fixes x :: nat
  assumes "j < l"
  shows "even ((x * 2 ^ l) div 2 ^ j)"
proof -
  have "(2::nat) ^ l = 2 ^ j * (2 * 2 ^ (l - j - 1))"
    using assms by (simp flip: power_add power_Suc)
  then have "x * 2 ^ l = 2 ^ j * (2 * (2 ^ (l - j - 1) * x))" by simp
  then show ?thesis by (simp only: nonzero_mult_div_cancel_left) simp
qed

lemma inner_ok_store:
  assumes ok: "inner_ok ls c inner" and c: "c + 1 = x * 2 ^ l" and x: "odd x" and l: "l < 32"
  shows "inner_ok ls (c + 1) (inner[l := tree_node ls l (x - 1)])"
  unfolding inner_ok_def
proof (intro conjI allI impI)
  show "length (inner[l := tree_node ls l (x - 1)]) = 32" using ok by (simp add: inner_ok_def)
  fix j
  assume j: "j < 32" "odd ((c + 1) div 2 ^ j)"
  show "inner[l := tree_node ls l (x - 1)] ! j = tree_node ls j ((c + 1) div 2 ^ j - 1)"
  proof (cases j l rule: linorder_cases)
    case less
    then show ?thesis using j low_levels_even [of j l x] unfolding c by simp
  next
    case equal
    then show ?thesis using l ok unfolding c by (simp add: inner_ok_def)
  next
    case greater
    then have "(c + 1) div 2 ^ j = c div 2 ^ j" by (intro high_levels_keep [OF c x])
    then show ?thesis using greater ok j by (simp add: inner_ok_def)
  qed
qed

lemma twins_below_step:
  assumes c: "c + 1 = x * 2 ^ l" and x: "odd x"
  shows "twins_below ls (c + 1) \<longleftrightarrow> twins_below ls c \<or> (\<exists>j < l. \<exists>k. (2 * k + 2) * 2 ^ j = c + 1 \<and> twin ls j k)"
proof -
  have "j < l" if "(2 * k + 2) * 2 ^ j = c + 1" for j k
  proof (rule ccontr)
    assume "\<not> j < l"
    then have e: "(2::nat) ^ j = 2 ^ (j - l) * 2 ^ l" by (simp flip: power_add)
    have "((2 * k + 2) * 2 ^ (j - l)) * 2 ^ l = x * 2 ^ l" using that c unfolding e by (simp only: mult.assoc)
    then have "(2 * k + 2) * 2 ^ (j - l) = x" by (simp only: mult_cancel2) simp
    then have "even x" by (metis dvd_add dvd_mult2 dvd_triv_left dvd_refl)
    then show False using x by simp
  qed
  moreover have "m \<le> c + 1 \<longleftrightarrow> m \<le> c \<or> m = c + 1" for m by auto
  ultimately show ?thesis unfolding twins_below_def by blast
qed

lemma match_ok_store:
  assumes inv: "leaf_inv ls c fB pos ml mut l x st" and fB and x: "odd x" and l: "l < 32"
  shows "match_ok ls pos 0 (c + 1) (if m_matchh st then int l else ml) (m_branch st)"
proof (cases "m_matchh st")
  case True
  then show ?thesis using inv x l \<open>fB\<close> by (auto simp: leaf_inv_def path_ok_def match_ok_def)
next
  case False
  have c: "c + 1 = x * 2 ^ l" using inv by (simp add: leaf_inv_def)
  have m: "pos \<noteq> c" "match_ok ls pos l c ml (m_branch st)" using inv False \<open>fB\<close> by (simp_all add: leaf_inv_def path_ok_def)
  show ?thesis
  proof (cases "pos < c")
    case True
    then obtain j where j: "l \<le> j" "j < 32" "ml = int j" "odd (c div 2 ^ j)" "pos div 2 ^ j = c div 2 ^ j - 1"
      "m_branch st = map (sibling ls pos) [0..<j]"
      using m by (auto simp: match_ok_def)
    have "j \<noteq> l" using j(4) pred_div_pow [OF c] x by auto
    then have "(c + 1) div 2 ^ j = c div 2 ^ j" using j by (intro high_levels_keep [OF c x]) simp
    then show ?thesis using True False j by (auto simp: match_ok_def)
  next
    case 2: False
    then show ?thesis using m False by (simp add: match_ok_def)
  qed
qed

lemma of_nat_u32_eq: "c < 2 ^ 32 \<Longrightarrow> pos < 2 ^ 32 \<Longrightarrow> (of_nat c :: u32) = of_nat pos \<longleftrightarrow> pos = c"
  by (auto simp: word_of_nat_eq_iff take_bit_nat_eq_self)

lemma match_ok_start: "match_ok ls c lo c ml br \<Longrightarrow> br = []"
  by (simp add: match_ok_def)

lemma leaves_step:
  assumes inv: "leaves_inv ls fB pos c inner ml br mut" and c: "c < length ls" and n: "length ls \<le> 2 ^ 31"
    and pos: "pos < 2 ^ 32"
  shows "\<exists>l st. leaf_levels fB (of_nat (c + 1)) ml inner 0
             \<lparr>m_h = ls ! c, m_matchh = ((of_nat c :: u32) = of_nat pos), m_branch = br, m_mutated = mut\<rparr> = Some (l, st)
           \<and> leaves_inv ls fB pos (c + 1) (inner[l := m_h st]) (if m_matchh st then int l else ml) (m_branch st) (m_mutated st)"
proof -
  let ?st = "\<lparr>m_h = ls ! c, m_matchh = ((of_nat c :: u32) = of_nat pos), m_branch = br, m_mutated = mut\<rparr>"
  have ok: "inner_ok ls c inner" and mut: "mut \<longleftrightarrow> twins_below ls c" using inv by (auto simp: leaves_inv_def)
  have "(of_nat c :: u32) = of_nat pos \<longleftrightarrow> pos = c"
    using c n pos by (intro of_nat_u32_eq) simp_all
  then have "leaf_inv ls c fB pos ml mut 0 (c + 1) ?st"
    using inv match_ok_start [of ls c 0 ml br] unfolding leaf_inv_def leaves_inv_def path_ok_def by auto
  moreover have "c + 1 \<le> length ls" using c by simp
  ultimately obtain l x st where
    l: "leaf_levels fB (of_nat (c + 1)) ml inner 0 ?st = Some (l, st)" "odd x" "l < 32" "leaf_inv ls c fB pos ml mut l x st"
    using leaf_levels_inv [OF _ _ n ok] by blast
  have cx: "c + 1 = x * 2 ^ l" and h: "m_h st = tree_node ls l (x - 1)" using l(4) by (auto simp: leaf_inv_def)
  have "m_mutated st \<longleftrightarrow> twins_below ls (c + 1)"
    unfolding twins_below_step [OF cx l(2)] using l(4) mut unfolding leaf_inv_def by blast
  then have "leaves_inv ls fB pos (c + 1) (inner[l := m_h st]) (if m_matchh st then int l else ml) (m_branch st) (m_mutated st)"
    unfolding leaves_inv_def using inner_ok_store [OF ok cx l(2,3)] match_ok_store [OF l(4) _ l(2,3)] h by simp
  then show ?thesis using l(1) by blast
qed

lemma leaves_loop_inv:
  assumes "leaves_inv ls fB pos c inner ml br mut" "c \<le> length ls" "length ls \<le> 2 ^ 31" "pos < 2 ^ 32"
  shows "\<exists>inner' ml' br' mut'. leaves_loop fB (of_nat pos) (drop c ls) (of_nat c) inner ml br mut
             = Some (of_nat (length ls), inner', ml', br', mut') \<and> leaves_inv ls fB pos (length ls) inner' ml' br' mut'"
  using assms(1,2)
proof (induction "length ls - c" arbitrary: c inner ml br mut)
  case 0
  then show ?case by auto
next
  case (Suc m)
  then have c: "c < length ls" by simp
  obtain l st where l: "leaf_levels fB (of_nat (c + 1)) ml inner 0
       \<lparr>m_h = ls ! c, m_matchh = ((of_nat c :: u32) = of_nat pos), m_branch = br, m_mutated = mut\<rparr> = Some (l, st)"
     "leaves_inv ls fB pos (c + 1) (inner[l := m_h st]) (if m_matchh st then int l else ml) (m_branch st) (m_mutated st)"
    using leaves_step [OF Suc.prems(1) c assms(3,4)] by blast
  have "leaves_loop fB (of_nat pos) (drop c ls) (of_nat c) inner ml br mut
     = leaves_loop fB (of_nat pos) (drop (c + 1) ls) (of_nat (c + 1)) (inner[l := m_h st])
         (if m_matchh st then int l else ml) (m_branch st) (m_mutated st)"
    unfolding Cons_nth_drop_Suc [OF c, symmetric] using l(1) by (simp add: Let_def add.commute)
  then show ?case using Suc.hyps(1) [OF _ l(2)] Suc.hyps(2) c by simp
qed

subsection \<open>The sweep\<close>

text \<open>\<open>up_inv\<close> is the invariant of the sweep at node \<open>x - 1\<close>, the last node of its level; \<open>lo\<close> is the
  lowest level at which the wanted leaf can still be met.\<close>

definition up_inv :: "uint256 list \<Rightarrow> bool \<Rightarrow> nat \<Rightarrow> int \<Rightarrow> nat \<Rightarrow> nat \<Rightarrow> mstate \<Rightarrow> bool" where
  "up_inv ls fB pos ml level x st \<longleftrightarrow>
     x = level_size (length ls) level \<and> (\<forall>j < level. 2 ^ j < length ls) \<and>
     m_h st = tree_node ls level (x - 1) \<and> (fB \<longrightarrow> path_ok ls pos (length ls) level (x - 1) ml st)"

lemma skip_levels_ok:
  assumes "n = x * 2 ^ level" "0 < n" "n \<le> 2 ^ 31"
  shows "\<exists>l y. skip_levels (of_nat n) level = Some l \<and> n = y * 2 ^ l \<and> odd y \<and> l < 32"
  using assms(1)
proof (induction "32 - level" arbitrary: level x rule: less_induct)
  case less
  then have "2 ^ level \<le> n" using assms(2) by (cases x) auto
  then have "(2::nat) ^ level \<le> 2 ^ 31" using assms by linarith
  then have "level \<le> 31" by (rule power_le_imp_le_exp [rotated]) simp
  then have level: "level < 32" by simp
  have bit: "(of_nat n :: u32) AND push_bit level 1 \<noteq> 0 \<longleftrightarrow> odd x"
  proof -
    have "n < 2 ^ 32" using assms by simp
    from count_bit [OF level this] show ?thesis unfolding less.prems by simp
  qed
  show ?case
  proof (cases "odd x")
    case True
    then have "skip_levels (of_nat n) level = Some level"
      using bit level by (subst skip_levels.simps) simp
    then show ?thesis using less.prems True level by blast
  next
    case False
    then obtain z where "x = 2 * z" by blast
    then have "n = z * 2 ^ Suc level" using less.prems by simp
    moreover have "skip_levels (of_nat n) level = skip_levels (of_nat n) (Suc level)"
      using bit level False by (subst skip_levels.simps) simp
    ultimately show ?thesis using less.hyps [of "Suc level" z] level by simp
  qed
qed

lemma up_step:
  assumes inv: "up_inv ls fB pos ml level (2 * z + 2) st" and n: "length ls < (2 * z + 2) * 2 ^ level" "0 < length ls"
    and ok: "inner_ok ls (length ls) inner" and level: "level < 32"
    and st': "st' = branch_step fB ml level (inner ! level) st"
  shows "up_inv ls fB pos ml (Suc level) (z + 1) (st'\<lparr>m_h := Hash2 (inner ! level) (m_h st')\<rparr>)"
proof -
  have x: "level_size (length ls) level = 2 * z + 2" using inv by (simp add: up_inv_def)
  then have cd: "length ls div 2 ^ level = 2 * z + 1" using level_size_div [of "length ls" level] n by simp
  have i: "inner ! level = tree_node ls level (2 * z)" using ok level cd by (simp add: inner_ok_def)
  have h: "m_h st = tree_node ls level (2 * z + 1)" using inv by (simp add: up_inv_def)
  have same: "m_h st' = m_h st" by (simp add: st' branch_step_def)
  have node: "tree_node ls (Suc level) z = Hash2 (inner ! level) (m_h st)"
    using x by (simp add: i h)
  have "(2 * z + 2 - 1) * 2 ^ level < length ls" using level_size_bounds(2) [OF n(2), of level] unfolding x .
  then have "2 ^ level < length ls" by simp
  then have low: "\<forall>j < Suc level. 2 ^ j < length ls" using inv by (auto simp: up_inv_def less_Suc_eq)
  have "fB \<longrightarrow> path_ok ls pos (length ls) (Suc level) z ml st'"
  proof
    assume fB
    then have "path_ok ls pos (length ls) level (2 * z + 1) ml st" using inv by (simp add: up_inv_def)
    then show "path_ok ls pos (length ls) (Suc level) z ml st'"
      using branch_step_path(1) [OF \<open>fB\<close> _ cd i h _ st'] x by simp
  qed
  then show ?thesis
    using node low x same by (simp add: up_inv_def level_size_Suc path_ok_def del: power_Suc)
qed

lemma level_small:
  assumes "level_size n level * 2 ^ level \<le> 2 ^ 31" "0 < n"
  shows "level < 32"
proof -
  have "0 < level_size n level" using assms(2) level_size_bounds(1) [of n level] by (cases "level_size n level") auto
  then have "(2::nat) ^ level \<le> level_size n level * 2 ^ level" by simp
  then have "(2::nat) ^ level \<le> 2 ^ 31" using assms(1) by linarith
  then have "level \<le> 31" by (rule power_le_imp_le_exp [rotated]) simp
  then show ?thesis by simp
qed

lemma up_levels_ok:
  assumes "up_inv ls fB pos ml level x st" "length ls < x * 2 ^ level" "x * 2 ^ level = P" "P \<le> 2 ^ 31"
    "0 < length ls" "inner_ok ls (length ls) inner"
  shows "\<exists>l' x' st'. up_levels fB (of_nat P) ml inner level st = Some (l', st') \<and> odd x' \<and> l' < 32 \<and> level \<le> l'
           \<and> x' * 2 ^ l' = P \<and> up_inv ls fB pos ml l' x' st'"
  using assms(1-3)
proof (induction "32 - level" arbitrary: level x st rule: less_induct)
  case less
  have x: "level_size (length ls) level = x" using less.prems by (simp add: up_inv_def)
  then have level: "level < 32" using less.prems assms by (intro level_small [of "length ls"]) simp_all
  have bit: "(of_nat P :: u32) AND push_bit level 1 \<noteq> 0 \<longleftrightarrow> odd x"
  proof -
    have "P < 2 ^ 32" using assms by simp
    from count_bit [OF level this] show ?thesis unfolding less.prems(3) [symmetric] by simp
  qed
  show ?case
  proof (cases "odd x")
    case True
    then have "up_levels fB (of_nat P) ml inner level st = Some (level, st)"
      using bit level by (subst up_levels.simps) simp
    then show ?thesis using less.prems True level by blast
  next
    case False
    moreover have "x \<noteq> 0" using less.prems(2) by (cases x) auto
    ultimately obtain z where z: "x = 2 * z + 2" by (metis dvdE not0_implies_Suc mult_Suc_right add.commute mult_0_right)
    define st1 where "st1 = branch_step fB ml level (inner ! level) st"
    define st2 where "st2 = st1\<lparr>m_h := Hash2 (inner ! level) (m_h st1)\<rparr>"
    have "up_inv ls fB pos ml (Suc level) (z + 1) st2"
      unfolding st2_def using less.prems assms level by (intro up_step [OF _ _ _ _ _ st1_def]) (simp_all add: z)
    moreover have "length ls < (z + 1) * 2 ^ Suc level" "(z + 1) * 2 ^ Suc level = P"
      using less.prems by (simp_all add: z)
    ultimately obtain l' x' st' where
      "up_levels fB (of_nat P) ml inner (Suc level) st2 = Some (l', st')" "odd x'" "l' < 32" "Suc level \<le> l'"
      "x' * 2 ^ l' = P" "up_inv ls fB pos ml l' x' st'"
      using less.hyps [of "Suc level" "z + 1" st2] level by (metis diff_less_mono2 lessI)
    moreover have "up_levels fB (of_nat P) ml inner level st = up_levels fB (of_nat P) ml inner (Suc level) st2"
      using bit level False by (subst up_levels.simps) (simp add: Let_def st1_def st2_def)
    ultimately show ?thesis by (metis Suc_leD)
  qed
qed

lemma double_step:
  assumes inv: "up_inv ls fB pos ml level (2 * z + 1) st" and z: "0 < z" and n: "0 < length ls"
    and met: "fB \<and> \<not> m_matchh st \<longrightarrow> ml \<noteq> int level"
    and st': "st' = (if fB \<and> m_matchh st then st\<lparr>m_branch := m_branch st @ [m_h st]\<rparr> else st)"
  shows "up_inv ls fB pos ml (Suc level) (z + 1) (st'\<lparr>m_h := Hash2 (m_h st') (m_h st')\<rparr>)"
proof -
  have x: "level_size (length ls) level = 2 * z + 1" using inv by (simp add: up_inv_def)
  have h: "m_h st = tree_node ls level (2 * z)" "m_h st' = m_h st" using inv by (simp_all add: up_inv_def st')
  have node: "tree_node ls (Suc level) z = Hash2 (m_h st) (m_h st)" using x by (simp add: h)
  have "2 * z * 2 ^ level < length ls" using level_size_bounds(2) [OF n, of level] unfolding x by simp
  moreover have "(2::nat) ^ level \<le> 2 * z * 2 ^ level" using z by simp
  ultimately have "2 ^ level < length ls" by linarith
  then have low: "\<forall>j < Suc level. 2 ^ j < length ls" using inv by (auto simp: up_inv_def less_Suc_eq)
  have up: "pos div 2 ^ Suc level = (pos div 2 ^ level) div 2"
    by (simp only: power_Suc2 div_mult2_eq)
  have "path_ok ls pos (length ls) (Suc level) z ml st'" if fB
  proof (cases "m_matchh st")
    case True
    then have p: "pos div 2 ^ level = 2 * z" "m_branch st = map (sibling ls pos) [0..<level]"
      using inv that by (simp_all add: up_inv_def path_ok_def)
    have "sibling ls pos level = m_h st" using sibling_self [OF p(1)] x by (simp add: h)
    moreover have "pos div 2 ^ Suc level = z" unfolding up p by simp
    ultimately show ?thesis using True that p by (simp add: path_ok_def st' del: power_Suc)
  next
    case False
    then have "match_ok ls pos level (length ls) ml (m_branch st)" "ml \<noteq> int level"
      using inv that met by (simp_all add: up_inv_def path_ok_def)
    then have "match_ok ls pos (Suc level) (length ls) ml (m_branch st)"
      by (auto simp: match_ok_def not_less_eq_eq le_less split: if_splits)
    then show ?thesis using False by (simp add: path_ok_def st')
  qed
  then show ?thesis
    using node low x h by (simp add: up_inv_def level_size_Suc path_ok_def del: power_Suc)
qed

lemma sweep_ok:
  assumes "up_inv ls fB pos ml level y st" "odd y" "level < 32" "y * 2 ^ level = P" "P \<le> 2 ^ 31"
    "fB \<and> \<not> m_matchh st \<longrightarrow> ml \<noteq> int level"
    and n: "0 < length ls" "length ls \<le> 2 ^ 31" and ok: "inner_ok ls (length ls) inner"
  shows "\<exists>l st'. sweep fB (of_nat P) ml inner level st = Some st' \<and> l < 32 \<and> up_inv ls fB pos ml l 1 st'"
  using assms(1-6)
proof (induction "32 - level" arbitrary: level y P st rule: less_induct)
  case less
  have "(2::nat) ^ level < 2 ^ 32" using less.prems(3) by (rule power_strict_increasing) simp
  then have "(of_nat P :: u32) = of_nat (2 ^ level) \<longleftrightarrow> 2 ^ level = P"
    using less.prems(5) by (intro of_nat_u32_eq) simp_all
  then have one: "(of_nat P :: u32) = push_bit level 1 \<longleftrightarrow> y = 1"
    unfolding less.prems(4) [symmetric] by (auto simp: push_bit_eq_mult)
  show ?case
  proof (cases "y = 1")
    case True
    then have "sweep fB (of_nat P) ml inner level st = Some st"
      using one less.prems by (subst sweep.simps) simp
    then show ?thesis using less.prems True by blast
  next
    case False
    obtain z where z: "y = 2 * z + 1" "0 < z" using False less.prems(2) by (metis oddE add_0 gr0I mult_0_right)
    define st1 where "st1 = (if fB \<and> m_matchh st then st\<lparr>m_branch := m_branch st @ [m_h st]\<rparr> else st)"
    define st2 where "st2 = st1\<lparr>m_h := Hash2 (m_h st1) (m_h st1)\<rparr>"
    have inv2: "up_inv ls fB pos ml (Suc level) (z + 1) st2"
      unfolding st2_def using less.prems n by (intro double_step [OF _ z(2) _ _ st1_def]) (simp_all add: z)
    define P' where "P' = (z + 1) * 2 ^ Suc level"
    have sz: "level_size (length ls) (Suc level) = z + 1" "level_size (length ls) level = y"
      using inv2 less.prems(1) by (simp_all add: up_inv_def)
    have P': "P' = P + 2 ^ level" unfolding P'_def using less.prems(4) z by simp
    have "length ls \<le> P" using level_size_bounds(1) [of "length ls" level] sz less.prems(4) by simp
    then have lt: "length ls < P'" unfolding P' by (rule le_less_trans) simp
    have lev: "Suc level \<le> 31"
    proof (rule ccontr)
      assume "\<not> Suc level \<le> 31"
      then have "31 \<le> level" by simp
      then have "2 ^ 31 \<le> (2::nat) ^ level" by (rule power_increasing) simp
      moreover have "3 * 2 ^ level \<le> y * 2 ^ level" using z by simp
      ultimately show False using less.prems(4,5) by simp
    qed
    have P31: "P' \<le> 2 ^ 31" using level_size_le_pow [OF n(2) lev] sz by (simp add: P'_def)
    obtain l' x' st' where up: "up_levels fB (of_nat P') ml inner (Suc level) st2 = Some (l', st')" "odd x'" "l' < 32"
        "Suc level \<le> l'" "x' * 2 ^ l' = P'" "up_inv ls fB pos ml l' x' st'"
      using up_levels_ok [OF inv2 _ P'_def [symmetric] P31 n(1) ok] lt unfolding P'_def by blast
    have met: "fB \<and> \<not> m_matchh st' \<longrightarrow> ml \<noteq> int l'"
    proof -
      have "length ls div 2 ^ l' = x' - 1"
        using level_size_div [of "length ls" l'] up lt n by (simp add: up_inv_def)
      then show ?thesis using up by (auto simp: up_inv_def path_ok_def match_ok_def split: if_splits)
    qed
    have "sweep fB (of_nat P) ml inner level st = sweep fB (of_nat P') ml inner l' st'"
      using one False less.prems(3) up(1) unfolding P'
      by (subst sweep.simps) (simp add: Let_def st1_def [symmetric] st2_def [symmetric] push_bit_eq_mult)
    moreover have "32 - l' < 32 - level" using up by simp
    ultimately show ?thesis using less.hyps [OF _ up(6,2,3,5) P31 met] by simp
  qed
qed

lemma tree_height_eq:
  assumes "level_size n l = 1" "\<forall>j < l. 2 ^ j < n"
  shows "tree_height n = l"
  unfolding tree_height_def
proof (rule Least_equality)
  show "n \<le> 2 ^ l" using level_size_bounds(1) [of n l] assms(1) by simp
  show "l \<le> j" if "n \<le> 2 ^ j" for j using assms(2) that by (meson leD leI)
qed

lemma top_branch:
  assumes "up_inv ls True pos ml l 1 st" "pos < length ls"
  shows "m_branch st = map (sibling ls pos) [0..<l]"
proof (cases "m_matchh st")
  case True
  then show ?thesis using assms by (simp add: up_inv_def path_ok_def)
next
  case False
  then obtain j where j: "l \<le> j" "odd (length ls div 2 ^ j)" "m_branch st = map (sibling ls pos) [0..<j]"
    using assms by (auto simp: up_inv_def path_ok_def match_ok_def)
  have "level_size (length ls) l = 1" using assms(1) unfolding up_inv_def by (metis (no_types))
  then have "length ls \<le> 2 ^ l" using level_size_bounds(1) [of "length ls" l] by simp
  moreover have "2 ^ j \<le> length ls" using j(2) by (metis div_less even_zero not_less)
  ultimately have "(2::nat) ^ j \<le> 2 ^ l" by linarith
  then have "j \<le> l" by (rule power_le_imp_le_exp [rotated]) simp
  then show ?thesis using j by simp
qed

lemma start_up_inv:
  assumes ok: "inner_ok ls (length ls) inner" and path: "fB \<longrightarrow> match_ok ls pos 0 (length ls) ml br"
    and y: "length ls = y * 2 ^ l" "odd y" "l < 32"
  shows "up_inv ls fB pos ml l y \<lparr>m_h = inner ! l, m_matchh = (ml = int l), m_branch = br, m_mutated = mut\<rparr>"
proof -
  have y0: "0 < y" using y(2) by (cases y) auto
  have yl: "length ls div 2 ^ l = y" using y by simp
  have "(y - 1) * 2 ^ l < length ls" unfolding y(1) using y0 by simp
  then have size: "level_size (length ls) l = y" using y by (intro level_size_unique) simp_all
  have low: "2 ^ j < length ls" if "j < l" for j
  proof -
    have "(2::nat) ^ j < 2 ^ l" using that by simp
    also have "\<dots> \<le> y * 2 ^ l" using y0 by simp
    finally show ?thesis using y by simp
  qed
  have "match_ok ls pos l (length ls) ml br" if fB
  proof -
    have "l \<le> j" if "odd (length ls div 2 ^ j)" for j
      using low_levels_even [of j l y] that y(1) by (metis not_less)
    then show ?thesis using path \<open>fB\<close> by (auto simp: match_ok_def split: if_splits)
  qed
  then show ?thesis
    using size low ok y yl by (auto simp: up_inv_def path_ok_def inner_ok_def match_ok_def split: if_splits)
qed

lemma MerkleComputation_ok:
  assumes n: "0 < length ls" "length ls \<le> 2 ^ 31" and pos: "pos < 2 ^ 32"
  shows "\<exists>br. MerkleComputation ls (of_nat pos) fB = Some (merkle_root ls, twins_below ls (length ls), br)
           \<and> (fB \<and> pos < length ls \<longrightarrow> br = map (sibling ls pos) [0..<tree_height (length ls)])"
proof -
  have "leaves_inv ls fB pos 0 (replicate 32 (blob_zero 32)) (- 1) [] False"
    by (simp add: leaves_inv_def inner_ok_def match_ok_def twins_below_def)
  from leaves_loop_inv [OF this _ n(2) pos] obtain inner ml br mut where
    loop: "leaves_loop fB (of_nat pos) ls 0 (replicate 32 (blob_zero 32)) (- 1) [] False = Some (of_nat (length ls), inner, ml, br, mut)"
      and inv: "leaves_inv ls fB pos (length ls) inner ml br mut"
    by auto
  have ok: "inner_ok ls (length ls) inner" and mut: "mut \<longleftrightarrow> twins_below ls (length ls)"
    and path: "fB \<longrightarrow> match_ok ls pos 0 (length ls) ml br" using inv by (auto simp: leaves_inv_def)
  obtain l y where skip: "skip_levels (of_nat (length ls)) 0 = Some l" and y: "length ls = y * 2 ^ l" "odd y" "l < 32"
    using skip_levels_ok [of "length ls" "length ls" 0] n by auto
  define st where "st = \<lparr>m_h = inner ! l, m_matchh = (ml = int l), m_branch = br, m_mutated = mut\<rparr>"
  have "up_inv ls fB pos ml l y st" "fB \<and> \<not> m_matchh st \<longrightarrow> ml \<noteq> int l"
    unfolding st_def using start_up_inv [OF ok path y] by simp_all
  then obtain l' st' where sw: "sweep fB (of_nat (length ls)) ml inner l st = Some st'" "l' < 32" "up_inv ls fB pos ml l' 1 st'"
    using sweep_ok [of ls fB pos ml l y st "length ls" inner] y n ok by auto
  have h: "tree_height (length ls) = l'" using sw(3) by (intro tree_height_eq) (simp_all add: up_inv_def)
  have "MerkleComputation ls (of_nat pos) fB = Some (m_h st', mut, m_branch st')"
    using n loop skip sw(1) by (simp add: MerkleComputation_def st_def)
  moreover have "m_h st' = merkle_root ls" using sw(3) h by (simp add: up_inv_def merkle_root_def)
  ultimately show ?thesis using mut sw(3) h top_branch [of ls pos ml l' st'] by (cases fB) auto
qed

subsection \<open>Branches and mutations\<close>

lemma div_level_size: "pos < n \<Longrightarrow> pos div 2 ^ j < level_size n j"
proof -
  assume "pos < n"
  then have "pos < level_size n j * 2 ^ j" using level_size_bounds(1) [of n j] by simp
  then show ?thesis by (simp add: less_mult_imp_div_less)
qed

lemma branch_to_node:
  assumes "pos < length ls" "pos < 2 ^ 32" "j \<le> h"
  shows "ComputeMerkleRootFromBranch (tree_node ls j (pos div 2 ^ j)) (map (sibling ls pos) [j..<h]) (of_nat (pos div 2 ^ j))
    = tree_node ls h (pos div 2 ^ h)"
  using assms(3)
proof (induction "h - j" arbitrary: j)
  case 0
  then show ?case by simp
next
  case (Suc m)
  define k where "k = pos div 2 ^ j"
  have up: "pos div 2 ^ Suc j = k div 2" unfolding k_def by (simp only: power_Suc2 div_mult2_eq)
  have k: "k < level_size (length ls) j" unfolding k_def by (rule div_level_size) (rule assms)
  have "k \<le> pos" by (simp add: k_def)
  then have k32: "k < 2 ^ 32" using assms(2) by linarith
  have odd: "(of_nat k :: u32) AND 1 \<noteq> 0 \<longleftrightarrow> odd k" using count_bit [of 0 k] k32 by simp
  have shift: "drop_bit 1 (of_nat k :: u32) = of_nat (k div 2)"
    using k32 by (intro word_unat_eq_iff [THEN iffD2]) (simp add: unat_div unat_of_nat drop_bit_eq_div take_bit_nat_eq_self)
  have node: "tree_node ls (Suc j) (k div 2)
     = (if odd k then Hash2 (sibling ls pos j) (tree_node ls j k) else Hash2 (tree_node ls j k) (sibling ls pos j))"
    using k by (auto simp: sibling_def Let_def k_def [symmetric] elim!: oddE evenE)
  have "[j..<h] = j # [Suc j..<h]" using Suc by (intro upt_conv_Cons) simp
  then have "ComputeMerkleRootFromBranch (tree_node ls j k) (map (sibling ls pos) [j..<h]) (of_nat k)
     = ComputeMerkleRootFromBranch (tree_node ls (Suc j) (pos div 2 ^ Suc j)) (map (sibling ls pos) [Suc j..<h]) (of_nat (pos div 2 ^ Suc j))"
    unfolding up node by (simp only: list.map ComputeMerkleRootFromBranch.simps odd shift)
  also have "\<dots> = tree_node ls h (pos div 2 ^ h)" using Suc by (intro Suc.hyps) simp_all
  finally show ?case unfolding k_def .
qed

text \<open>The two strings that are hashed for a node, and all of them.\<close>

definition kids :: "uint256 list \<Rightarrow> nat \<Rightarrow> nat \<Rightarrow> uint256 \<times> uint256" where
  "kids ls l k = (tree_node ls l (2 * k), tree_node ls l (if 2 * k + 1 < level_size (length ls) l then 2 * k + 1 else 2 * k))"

definition hashed_pairs :: "uint256 list \<Rightarrow> (uint256 \<times> uint256) set" where
  "hashed_pairs ls = {kids ls l k | l k. l < tree_height (length ls) \<and> k < level_size (length ls) (Suc l)}"

lemma kids_node: "tree_node ls (Suc l) k = case_prod Hash2 (kids ls l k)"
  by (simp add: kids_def)

lemma kids_hashed: "l < tree_height (length ls) \<Longrightarrow> k < level_size (length ls) (Suc l) \<Longrightarrow> kids ls l k \<in> hashed_pairs ls"
  by (auto simp: hashed_pairs_def)

lemma tree_height_top:
  shows "n \<le> 2 ^ tree_height n" "j < tree_height n \<Longrightarrow> 2 ^ j < n" "0 < n \<Longrightarrow> level_size n (tree_height n) = 1"
proof -
  have "n \<le> 2 ^ n" by (simp add: less_imp_le)
  then show le: "n \<le> 2 ^ tree_height n" unfolding tree_height_def by (rule LeastI)
  show "2 ^ j < n" if "j < tree_height n" using not_less_Least [of j "\<lambda>l. n \<le> 2 ^ l"] that by (simp add: tree_height_def not_le)
  show "level_size n (tree_height n) = 1" if "0 < n" using le that by (intro level_size_unique) simp_all
qed

text \<open>A complete node that equals the padded last node of its level hides a twin: the padding repeats a
  hash somewhere below, and the complete node repeats it there.\<close>

lemma padded_twin:
  assumes inj: "inj_on (case_prod Hash2) (hashed_pairs ls)" and n: "0 < length ls"
  shows "l \<le> tree_height (length ls) \<Longrightarrow> (k + 1) * 2 ^ l \<le> length ls \<Longrightarrow> k' < level_size (length ls) l \<Longrightarrow>
    length ls < (k' + 1) * 2 ^ l \<Longrightarrow> tree_node ls l k = tree_node ls l k' \<Longrightarrow> twins_below ls (length ls)"
proof (induction l arbitrary: k k')
  case 0
  then show ?case by simp
next
  case (Suc l)
  have full: "(2 * k + 2) * 2 ^ l \<le> length ls" using Suc.prems(2) by simp
  then have size: "2 * k + 2 \<le> level_size (length ls) l" by (rule level_size_ge)
  have "k + 1 \<le> level_size (length ls) (Suc l)" using Suc.prems(2) by (rule level_size_ge)
  then have "kids ls l k \<in> hashed_pairs ls" "kids ls l k' \<in> hashed_pairs ls"
    using Suc.prems(1,3) by (simp_all add: kids_hashed)
  moreover have "case_prod Hash2 (kids ls l k) = case_prod Hash2 (kids ls l k')"
    using Suc.prems(5) unfolding kids_node .
  ultimately have "kids ls l k = kids ls l k'" using inj by (metis inj_onD)
  then have e: "tree_node ls l (2 * k) = tree_node ls l (2 * k')"
    "tree_node ls l (2 * k + 1) = tree_node ls l (if 2 * k' + 1 < level_size (length ls) l then 2 * k' + 1 else 2 * k')"
    using size by (auto simp: kids_def)
  show ?case
  proof (cases "2 * k' + 1 < level_size (length ls) l")
    case True
    then show ?thesis using Suc.prems full e by (intro Suc.IH [of "2 * k + 1" "2 * k' + 1"]) (simp_all add: algebra_simps)
  next
    case False
    then have "twin ls l k" using e by (simp add: twin_def)
    then show ?thesis using full by (auto simp: twins_below_def)
  qed
qed

text \<open>Equal levels above give equal levels below, unless a twin or a hash collision is there.\<close>

lemma half_eq_less:
  fixes a b :: nat
  shows "(a + 1) div 2 = (b + 1) div 2 \<Longrightarrow> a < b \<Longrightarrow> \<exists>s. a = 2 * s + 1 \<and> b = 2 * s + 2 \<and> (a + 1) div 2 = s + 1"
  by presburger

lemma level_not_longer:
  assumes inj: "inj_on (case_prod Hash2) (hashed_pairs ls \<union> hashed_pairs ls')"
    and l: "l < tree_height (length ls)" "tree_height (length ls) = tree_height (length ls')" and n: "0 < length ls'"
    and sizes: "level_size (length ls) (Suc l) = level_size (length ls') (Suc l)"
    and nodes: "\<forall>k < level_size (length ls) (Suc l). tree_node ls (Suc l) k = tree_node ls' (Suc l) k"
    and unmutated: "\<not> twins_below ls' (length ls')"
  shows "level_size (length ls') l \<le> level_size (length ls) l"
proof (rule ccontr)
  assume "\<not> level_size (length ls') l \<le> level_size (length ls) l"
  then obtain s where s: "level_size (length ls) l = 2 * s + 1" "level_size (length ls') l = 2 * s + 2"
    "level_size (length ls) (Suc l) = s + 1"
    using half_eq_less [of "level_size (length ls) l" "level_size (length ls') l"] sizes unfolding level_size_Suc by auto
  have "kids ls l s \<in> hashed_pairs ls \<union> hashed_pairs ls'" "kids ls' l s \<in> hashed_pairs ls \<union> hashed_pairs ls'"
    using kids_hashed [of l ls s] kids_hashed [of l ls' s] l s(3) sizes by simp_all
  moreover have "case_prod Hash2 (kids ls l s) = case_prod Hash2 (kids ls' l s)"
    using nodes s unfolding kids_node by simp
  ultimately have "kids ls l s = kids ls' l s" using inj by (metis inj_onD)
  then have twin: "twin ls' l s" using s by (auto simp: kids_def twin_def)
  have below: "(2 * s + 1) * 2 ^ l < length ls'" using level_size_bounds(2) [OF n, of l] s by simp
  show False
  proof (cases "(2 * s + 2) * 2 ^ l \<le> length ls'")
    case True
    then show ?thesis using twin unmutated by (auto simp: twins_below_def)
  next
    case False
    have "inj_on (case_prod Hash2) (hashed_pairs ls')" using inj by (rule inj_on_subset) simp
    from padded_twin [OF this n, of l "2 * s" "2 * s + 1"]
    show ?thesis using unmutated twin l s below False by (simp add: twin_def)
  qed
qed

lemma levels_equal:
  assumes inj: "inj_on (case_prod Hash2) (hashed_pairs ls \<union> hashed_pairs ls')"
    and h: "tree_height (length ls) = tree_height (length ls')" and n: "0 < length ls" "0 < length ls'"
    and root: "merkle_root ls = merkle_root ls'"
    and unmutated: "\<not> twins_below ls (length ls)" "\<not> twins_below ls' (length ls')"
  shows "l \<le> tree_height (length ls) \<Longrightarrow> level_size (length ls) l = level_size (length ls') l
     \<and> (\<forall>k < level_size (length ls) l. tree_node ls l k = tree_node ls' l k)"
proof (induction l rule: inc_induct)
  case base
  have "level_size (length ls) (tree_height (length ls)) = 1" "level_size (length ls') (tree_height (length ls)) = 1"
    using tree_height_top(3) n unfolding h by (metis h, metis)
  then show ?case using root unfolding merkle_root_def h by simp
next
  case (step l)
  have inj': "inj_on (case_prod Hash2) (hashed_pairs ls' \<union> hashed_pairs ls)" using inj by (simp add: Un_commute)
  have size: "level_size (length ls) l = level_size (length ls') l"
    using level_not_longer [OF inj _ h n(2) _ _ unmutated(2), of l] level_not_longer [OF inj' _ h [symmetric] n(1) _ _ unmutated(1), of l]
      step h by (simp del: tree_node.simps)
  have "tree_node ls l k = tree_node ls' l k" if "k < level_size (length ls) l" for k
  proof -
    have k: "k div 2 < level_size (length ls) (Suc l)" using that unfolding level_size_Suc by presburger
    then have "kids ls l (k div 2) \<in> hashed_pairs ls \<union> hashed_pairs ls'" "kids ls' l (k div 2) \<in> hashed_pairs ls \<union> hashed_pairs ls'"
      using kids_hashed [of l ls "k div 2"] kids_hashed [of l ls' "k div 2"] step h by simp_all
    moreover have "case_prod Hash2 (kids ls l (k div 2)) = case_prod Hash2 (kids ls' l (k div 2))"
      using step.IH k unfolding kids_node by simp
    ultimately have "kids ls l (k div 2) = kids ls' l (k div 2)" using inj by (metis inj_onD)
    then show ?thesis using that size by (cases "even k") (auto simp: kids_def elim!: evenE oddE)
  qed
  then show ?case using size by simp
qed

lemma ComputeMerkleRoot_value:
  assumes "0 < length ls" "length ls \<le> 2 ^ 31"
  shows "ComputeMerkleRoot ls = Some (merkle_root ls, twins_below ls (length ls))"
proof -
  have m1: "(- 1 :: u32) = of_nat (2 ^ 32 - 1)" by simp
  show ?thesis
    unfolding ComputeMerkleRoot_def m1 using MerkleComputation_ok [OF assms, of "2 ^ 32 - 1" False] by force
qed

lemma two_leaves:
  assumes "a \<noteq> b"
  shows "inj_on (case_prod Hash2) (hashed_pairs [a, b])" "ComputeMerkleRoot [a, b] = Some (merkle_root [a, b], False)"
proof -
  have "tree_height (length [a, b]) = 1" by (intro tree_height_eq) (simp_all add: level_size_def)
  then have "hashed_pairs [a, b] \<subseteq> {kids [a, b] 0 0}"
    by (auto simp: hashed_pairs_def level_size_def)
  then show "inj_on (case_prod Hash2) (hashed_pairs [a, b])" by (rule inj_on_subset [rotated]) simp
  have "\<not> twins_below [a, b] (length [a, b])"
  proof
    assume "twins_below [a, b] (length [a, b])"
    then obtain l k where lk: "(2 * k + 2) * 2 ^ l \<le> length [a, b]" "twin [a, b] l k" unfolding twins_below_def by blast
    have "(2 * k + 2) * 1 \<le> (2 * k + 2) * 2 ^ l" by (intro mult_le_mono2) simp
    also have "\<dots> \<le> 2" using lk(1) by simp
    finally have "k = 0" by simp
    moreover have "(2::nat) ^ l \<le> 2 ^ 0" using lk(1) \<open>k = 0\<close> by simp
    then have "l = 0" using power_le_imp_le_exp [of "2::nat" l 0] by simp
    ultimately show False using lk(2) assms by (simp add: twin_def)
  qed
  then show "ComputeMerkleRoot [a, b] = Some (merkle_root [a, b], False)" using ComputeMerkleRoot_value [of "[a, b]"] by simp
qed

subsection \<open>Correctness\<close>

text \<open>C8: For 1 to 2^31 leaves the constant-space \<open>ComputeMerkleRoot\<close> terminates inside its 32 levels, its
  root is the top of the tree of the levels, and it reports a mutation exactly when two complete
  neighbouring subtrees are equal.\<close>

theorem ComputeMerkleRoot_is_tree:
  assumes "0 < length ls" "length ls \<le> 2 ^ 31"
  shows "\<exists>mutated. ComputeMerkleRoot ls = Some (merkle_root ls, mutated)
           \<and> (mutated \<longleftrightarrow> (\<exists>l k. (2 * k + 2) * 2 ^ l \<le> length ls \<and> tree_node ls l (2 * k) = tree_node ls l (2 * k + 1)))"
  unfolding ComputeMerkleRoot_value [OF assms] twins_below_def twin_def by simp

theorem ComputeMerkleRoot_is_tree_witness:
  "\<exists>mutated. ComputeMerkleRoot (map (replicate 32) [7, 7, 9]) = Some (merkle_root (map (replicate 32) [7, 7, 9]), mutated) \<and> mutated"
proof -
  let ?ls = "map (replicate 32) [7, 7, 9 :: u8]"
  have "(2 * 0 + 2) * 2 ^ 0 \<le> length ?ls \<and> tree_node ?ls 0 (2 * 0) = tree_node ?ls 0 (2 * 0 + 1)"
    by simp
  moreover obtain mutated where "ComputeMerkleRoot ?ls = Some (merkle_root ?ls, mutated)"
    "mutated \<longleftrightarrow> (\<exists>l k. (2 * k + 2) * 2 ^ l \<le> length ?ls \<and> tree_node ?ls l (2 * k) = tree_node ?ls l (2 * k + 1))"
    using ComputeMerkleRoot_is_tree [of ?ls] by auto
  ultimately show ?thesis by blast
qed

text \<open>C40: The branch that \<open>ComputeMerkleBranch\<close> returns for a leaf has one hash per level, and
  \<open>ComputeMerkleRootFromBranch\<close> folds the leaf and that branch back to the Merkle root.\<close>

theorem ComputeMerkleBranch_verifies:
  assumes "pos < length ls" "length ls \<le> 2 ^ 31"
  shows "\<exists>branch mutated. ComputeMerkleBranch ls (of_nat pos) = Some branch
           \<and> length branch = tree_height (length ls)
           \<and> ComputeMerkleRoot ls = Some (ComputeMerkleRootFromBranch (ls ! pos) branch (of_nat pos), mutated)"
proof -
  have n: "0 < length ls" using assms(1) by linarith
  have pos: "pos < 2 ^ 32" using assms by simp
  obtain br where "MerkleComputation ls (of_nat pos) True = Some (merkle_root ls, twins_below ls (length ls), br)"
      "br = map (sibling ls pos) [0..<tree_height (length ls)]"
    using MerkleComputation_ok [OF n assms(2) pos, of True] assms by auto
  moreover have "ComputeMerkleRootFromBranch (ls ! pos) (map (sibling ls pos) [0..<tree_height (length ls)]) (of_nat pos) = merkle_root ls"
    using branch_to_node [OF assms(1) pos, of 0 "tree_height (length ls)"] div_level_size [OF assms(1), of "tree_height (length ls)"]
    by (simp add: merkle_root_def tree_height_top(3) [OF n])
  ultimately show ?thesis by (simp add: ComputeMerkleBranch_def ComputeMerkleRoot_value [OF n assms(2)])
qed

theorem ComputeMerkleBranch_verifies_witness:
  "\<exists>branch mutated. ComputeMerkleBranch (map (replicate 32) [1, 2, 3, 4, 5]) (of_nat 4) = Some branch
     \<and> length branch = tree_height (length (map (replicate 32) [1, 2, 3, 4, 5 :: u8]))
     \<and> ComputeMerkleRoot (map (replicate 32) [1, 2, 3, 4, 5])
         = Some (ComputeMerkleRootFromBranch (map (replicate 32) [1, 2, 3, 4, 5] ! 4) branch (of_nat 4), mutated)"
  by (rule ComputeMerkleBranch_verifies) simp_all

text \<open>C9: Two leaf lists of trees of one height that both pass the mutation check and have the same
  Merkle root are the same list, unless two different inputs that the two trees hash collide: the
  mutation flag closes CVE-2012-2459.\<close>

theorem merkle_root_binding:
  assumes "0 < length ls" "length ls \<le> 2 ^ 31" "0 < length ls'" "length ls' \<le> 2 ^ 31"
    and "tree_height (length ls) = tree_height (length ls')"
    and "inj_on (case_prod Hash2) (hashed_pairs ls \<union> hashed_pairs ls')"
    and "ComputeMerkleRoot ls = Some (root, False)" "ComputeMerkleRoot ls' = Some (root, False)"
  shows "ls = ls'"
proof -
  have "length ls = length ls' \<and> (\<forall>k < length ls. ls ! k = ls' ! k)"
    using levels_equal [OF assms(6,5,1,3), of 0] assms(7,8)
    by (simp add: ComputeMerkleRoot_value [OF assms(1,2)] ComputeMerkleRoot_value [OF assms(3,4)])
  then show ?thesis by (simp add: list_eq_iff_nth_eq)
qed

theorem merkle_root_binding_witness:
  "\<exists>ls ls' root. map (replicate 32) [1, 2 :: u8] = ls \<and> length ls' = 2 \<and> ComputeMerkleRoot ls' = Some (root, False) \<and> ls = ls'"
proof -
  obtain a b where ab: "map (replicate 32) [1, 2 :: u8] = [a, b]" "a \<noteq> b" by simp
  note two = two_leaves [OF ab(2)]
  have "[a, b] = [a, b]" by (rule merkle_root_binding [OF _ _ _ _ refl _ two(2) two(2)]) (simp_all add: two(1))
  then show ?thesis using two(2) ab(1) by fastforce
qed

end
