(* ===== verification/Chain.thy ===== *)
theory Chain
  imports Uint256 Arith_Compact
begin

text \<open>
  The block index and the active chain: \<open>src/src/chain.h\<close>, \<open>src/src/chain.cpp\<close> and
  \<open>AddToBlockIndex\<close> of \<open>src/src/main.cpp\<close>.  \<open>mapBlockIndex\<close> owns one \<open>CBlockIndex\<close> object per block hash,
  so the hash stands for the pointer and the map is the heap; a null pointer is None.  Heights are
  mathematical integers (an \<open>int\<close> that overflows is undefined); the fields of \<open>CBlockIndex\<close> that no
  modelled operation reads are left out.  A result of None is a crash of the
  process (a failed assert, a null or dangling pointer, an index outside a vector), so that
  \<open>Some None\<close> is a returned null pointer.  The hash of a header is a parameter.
\<close>

unbundle bit_operations_syntax

type_synonym ptr = "uint256 option"

record CBlockIndex =
  pprev :: ptr
  pskip :: ptr
  nHeight :: int
  nChainWork :: base_uint
  nStatus :: u32
  nVersion :: int
  nTime :: u32
  nBits :: u32

type_synonym BlockMap = "uint256 \<Rightarrow> CBlockIndex option"

record CBlockHeader =
  h_nVersion :: int
  hashPrevBlock :: uint256
  h_nTime :: u32
  h_nBits :: u32

subsection \<open>Skip list\<close>

definition InvertLowestOne :: "int \<Rightarrow> int" where
  "InvertLowestOne n = n AND (n - 1)"

definition GetSkipHeight :: "int \<Rightarrow> int" where
  "GetSkipHeight height =
     (if height < 2 then 0
      else if height AND 1 \<noteq> 0 then InvertLowestOne (InvertLowestOne (height - 1)) + 1
      else InvertLowestOne height)"

lemma InvertLowestOne_bounds: "0 < n \<Longrightarrow> 0 \<le> InvertLowestOne n \<and> InvertLowestOne n < n"
proof -
  assume "0 < n"
  then have "n AND (n - 1) \<le> n - 1" "0 \<le> n AND (n - 1)" by (simp_all add: AND_upper2)
  then show ?thesis by (simp add: InvertLowestOne_def)
qed

lemma InvertLowestOne_nonneg: "0 \<le> n \<Longrightarrow> 0 \<le> InvertLowestOne n \<and> InvertLowestOne n \<le> n"
  using InvertLowestOne_bounds [of n] by (cases "n = 0") (auto simp: InvertLowestOne_def)

lemma GetSkipHeight_bounds: "0 \<le> GetSkipHeight h" "0 < h \<Longrightarrow> GetSkipHeight h < h"
  using InvertLowestOne_bounds [of "h - 1"] InvertLowestOne_bounds [of h] InvertLowestOne_nonneg [of "InvertLowestOne (h - 1)"]
    InvertLowestOne_nonneg [of "h - 1"]
  by (auto simp: GetSkipHeight_def)

text \<open>The loop of \<open>GetAncestor\<close>; its caller has excluded a negative height.\<close>

function ancestor_walk :: "BlockMap \<Rightarrow> int \<Rightarrow> uint256 \<Rightarrow> int \<Rightarrow> uint256 option" where
  "ancestor_walk idx height pindexWalk heightWalk =
     (if height < 0 then None
      else if heightWalk > height
      then let heightSkip = GetSkipHeight heightWalk; heightSkipPrev = GetSkipHeight (heightWalk - 1)
           in case idx pindexWalk of None \<Rightarrow> None
              | Some b \<Rightarrow>
                (case pskip b of
                   Some s \<Rightarrow>
                     if heightSkip = height
                        \<or> heightSkip > height \<and> \<not> (heightSkipPrev < heightSkip - 2 \<and> heightSkipPrev \<ge> height)
                     then ancestor_walk idx height s heightSkip
                     else (case pprev b of None \<Rightarrow> None | Some q \<Rightarrow> ancestor_walk idx height q (heightWalk - 1))
                 | None \<Rightarrow> (case pprev b of None \<Rightarrow> None | Some q \<Rightarrow> ancestor_walk idx height q (heightWalk - 1)))
      else Some pindexWalk)"
  by pat_completeness auto
termination
proof (relation "measure (\<lambda>(idx, height, p, hw). nat (hw - height))")
qed (use GetSkipHeight_bounds(2) in auto)

declare ancestor_walk.simps [simp del]

definition GetAncestor :: "BlockMap \<Rightarrow> uint256 \<Rightarrow> int \<Rightarrow> ptr option" where
  "GetAncestor idx this height =
     (case idx this of None \<Rightarrow> None
      | Some b \<Rightarrow> if height > nHeight b \<or> height < 0 then Some None
                  else map_option Some (ancestor_walk idx height this (nHeight b)))"

definition BuildSkip :: "BlockMap \<Rightarrow> uint256 \<Rightarrow> BlockMap option" where
  "BuildSkip idx this =
     (case idx this of None \<Rightarrow> None
      | Some b \<Rightarrow> (case pprev b of None \<Rightarrow> Some idx
                   | Some q \<Rightarrow> map_option (\<lambda>s. idx(this \<mapsto> b\<lparr>pskip := s\<rparr>)) (GetAncestor idx q (GetSkipHeight (nHeight b)))))"

subsection \<open>Work and status\<close>

definition GetBlockProof :: "u32 \<Rightarrow> base_uint option" where
  "GetBlockProof bits =
     (case SetCompact bits of (bnTarget, fNegative, fOverflow) \<Rightarrow>
        if fNegative \<or> fOverflow \<or> EqualTo bnTarget 0 then Some uint_zero
        else map_option (\<lambda>q. uint_add q (uint_of_u64 1)) (uint_div (uint_not bnTarget) (uint_add bnTarget (uint_of_u64 1))))"

definition GetBlockProofEquivalentTime :: "base_uint \<Rightarrow> base_uint \<Rightarrow> u32 \<Rightarrow> u64 \<Rightarrow> int option" where
  "GetBlockProofEquivalentTime to_work from_work tip_bits nPowTargetSpacing =
     (let (r, sign) = (if CompareTo to_work from_work > 0 then (uint_sub to_work from_work, 1) else (uint_sub from_work to_work, - 1))
      in case GetBlockProof tip_bits of None \<Rightarrow> None
         | Some proof \<Rightarrow>
            (case uint_div (uint_mul r (uint_of_u64 nPowTargetSpacing)) proof of None \<Rightarrow> None
             | Some r \<Rightarrow> Some (if uint_bits r > 63 then sign * (2 ^ 63 - 1) else sint (of_int sign * GetLow64 r))))"

definition BLOCK_VALID_TREE :: u32 where "BLOCK_VALID_TREE = 2"
definition BLOCK_VALID_MASK :: u32 where "BLOCK_VALID_MASK = 7"
definition BLOCK_FAILED_MASK :: u32 where "BLOCK_FAILED_MASK = 96"
definition BLOCK_PROOF_OF_STAKE :: u32 where "BLOCK_PROOF_OF_STAKE = 256"

definition IsProofOfStake :: "CBlockIndex \<Rightarrow> bool" where
  "IsProofOfStake b \<longleftrightarrow> nStatus b AND BLOCK_PROOF_OF_STAKE \<noteq> 0"

definition SetProofOfStake :: "CBlockIndex \<Rightarrow> CBlockIndex" where
  "SetProofOfStake b = b\<lparr>nStatus := nStatus b OR BLOCK_PROOF_OF_STAKE\<rparr>"

definition IsValid :: "CBlockIndex \<Rightarrow> u32 \<Rightarrow> bool option" where
  "IsValid b nUpTo =
     (if nUpTo AND NOT BLOCK_VALID_MASK \<noteq> 0 then None
      else if nStatus b AND BLOCK_FAILED_MASK \<noteq> 0 then Some False
      else Some (nStatus b AND BLOCK_VALID_MASK \<ge> nUpTo))"

definition RaiseValidity :: "CBlockIndex \<Rightarrow> u32 \<Rightarrow> (CBlockIndex \<times> bool) option" where
  "RaiseValidity b nUpTo =
     (if nUpTo AND NOT BLOCK_VALID_MASK \<noteq> 0 then None
      else if nStatus b AND BLOCK_FAILED_MASK \<noteq> 0 then Some (b, False)
      else if nStatus b AND BLOCK_VALID_MASK < nUpTo
           then Some (b\<lparr>nStatus := (nStatus b AND NOT BLOCK_VALID_MASK) OR nUpTo\<rparr>, True)
           else Some (b, False))"

subsection \<open>Median time\<close>

fun past_times :: "BlockMap \<Rightarrow> nat \<Rightarrow> ptr \<Rightarrow> int list option" where
  "past_times idx 0 pindex = Some []"
| "past_times idx (Suc i) None = Some []"
| "past_times idx (Suc i) (Some p) =
     (case idx p of None \<Rightarrow> None
      | Some b \<Rightarrow> map_option (\<lambda>ts. uint (nTime b) # ts) (past_times idx i (pprev b)))"

definition nMedianTimeSpan :: nat where "nMedianTimeSpan = 11"

definition GetMedianTimePast :: "BlockMap \<Rightarrow> uint256 \<Rightarrow> int option" where
  "GetMedianTimePast idx this =
     map_option (\<lambda>ts. sort ts ! (length ts div 2)) (past_times idx nMedianTimeSpan (Some this))"

subsection \<open>Adding a header\<close>

record blocktree =
  mapBlockIndex :: BlockMap
  pindexBestHeader :: ptr
  setDirtyBlockIndex :: "uint256 list"

definition CBlockIndex_init :: "CBlockHeader \<Rightarrow> CBlockIndex" where
  "CBlockIndex_init block =
     \<lparr>pprev = None, pskip = None, nHeight = 0, nChainWork = uint_zero, nStatus = 0,
      nVersion = h_nVersion block, nTime = h_nTime block, nBits = h_nBits block\<rparr>"

definition link_prev :: "BlockMap \<Rightarrow> uint256 \<Rightarrow> CBlockHeader \<Rightarrow> BlockMap option" where
  "link_prev idx hash block =
     (case idx (hashPrevBlock block) of
        None \<Rightarrow> Some idx
      | Some bprev \<Rightarrow>
          BuildSkip (idx(hash \<mapsto> (the (idx hash))\<lparr>pprev := Some (hashPrevBlock block), nHeight := nHeight bprev + 1\<rparr>)) hash)"

definition finish_new :: "blocktree \<Rightarrow> uint256 \<Rightarrow> BlockMap \<Rightarrow> blocktree option" where
  "finish_new st hash idx =
     (let new = the (idx hash)
      in case GetBlockProof (nBits new) of None \<Rightarrow> None
         | Some proof \<Rightarrow>
           let work = (case pprev new of None \<Rightarrow> uint_zero | Some q \<Rightarrow> nChainWork (the (idx q)))
           in case RaiseValidity (new\<lparr>nChainWork := uint_add work proof\<rparr>) BLOCK_VALID_TREE of None \<Rightarrow> None
              | Some (new, _) \<Rightarrow>
                let idx = idx(hash \<mapsto> new);
                    best = (case pindexBestHeader st of
                              None \<Rightarrow> Some hash
                            | Some q \<Rightarrow> (if CompareTo (nChainWork (the (idx q))) (nChainWork new) < 0 then Some hash else Some q))
                in Some \<lparr>mapBlockIndex = idx, pindexBestHeader = best,
                         setDirtyBlockIndex = List.insert hash (setDirtyBlockIndex st)\<rparr>)"

definition AddToBlockIndex :: "(CBlockHeader \<Rightarrow> uint256) \<Rightarrow> blocktree \<Rightarrow> CBlockHeader \<Rightarrow> (blocktree \<times> uint256) option" where
  "AddToBlockIndex GetHash st block =
     (let hash = GetHash block
      in if mapBlockIndex st hash \<noteq> None then Some (st, hash)
         else case link_prev ((mapBlockIndex st)(hash \<mapsto> CBlockIndex_init block)) hash block of
                None \<Rightarrow> None
              | Some idx \<Rightarrow> map_option (\<lambda>st. (st, hash)) (finish_new st hash idx))"

subsection \<open>The active chain\<close>

type_synonym CChain = "ptr list"

definition chain_at :: "CChain \<Rightarrow> int \<Rightarrow> ptr" where
  "chain_at vChain h = (if h < 0 \<or> h \<ge> int (length vChain) then None else vChain ! nat h)"

definition Genesis :: "CChain \<Rightarrow> ptr" where
  "Genesis vChain = (if length vChain > 0 then vChain ! 0 else None)"

definition Tip :: "CChain \<Rightarrow> ptr" where
  "Tip vChain = (if length vChain > 0 then vChain ! (length vChain - 1) else None)"

definition Height :: "CChain \<Rightarrow> int" where
  "Height vChain = int (length vChain) - 1"

definition Contains :: "BlockMap \<Rightarrow> CChain \<Rightarrow> uint256 \<Rightarrow> bool option" where
  "Contains idx vChain p = map_option (\<lambda>b. chain_at vChain (nHeight b) = Some p) (idx p)"

definition Next :: "BlockMap \<Rightarrow> CChain \<Rightarrow> uint256 \<Rightarrow> ptr option" where
  "Next idx vChain p =
     (case Contains idx vChain p of None \<Rightarrow> None
      | Some c \<Rightarrow> Some (if c then chain_at vChain (nHeight (the (idx p)) + 1) else None))"

definition vec_resize :: "nat \<Rightarrow> CChain \<Rightarrow> CChain" where
  "vec_resize n v = take n v @ replicate (n - length v) None"

partial_function (option) set_tip_loop :: "BlockMap \<Rightarrow> CChain \<Rightarrow> ptr \<Rightarrow> CChain option" where
  "set_tip_loop idx vChain pindex =
     (case pindex of None \<Rightarrow> Some vChain
      | Some p \<Rightarrow>
        (case idx p of None \<Rightarrow> None
         | Some b \<Rightarrow>
           if nHeight b < 0 \<or> nHeight b \<ge> int (length vChain) then None
           else if vChain ! nat (nHeight b) \<noteq> Some p
           then set_tip_loop idx (vChain[nat (nHeight b) := Some p]) (pprev b)
           else Some vChain))"

definition SetTip :: "BlockMap \<Rightarrow> CChain \<Rightarrow> ptr \<Rightarrow> CChain option" where
  "SetTip idx vChain pindex =
     (case pindex of None \<Rightarrow> Some []
      | Some p \<Rightarrow> (case idx p of None \<Rightarrow> None
                   | Some b \<Rightarrow> set_tip_loop idx (vec_resize (nat (nHeight b + 1)) vChain) pindex))"

partial_function (option) fork_loop :: "BlockMap \<Rightarrow> CChain \<Rightarrow> ptr \<Rightarrow> ptr option" where
  "fork_loop idx vChain pindex =
     (case pindex of None \<Rightarrow> Some None
      | Some p \<Rightarrow>
        (case idx p of None \<Rightarrow> None
         | Some b \<Rightarrow> if chain_at vChain (nHeight b) = Some p then Some (Some p) else fork_loop idx vChain (pprev b)))"

definition FindFork :: "BlockMap \<Rightarrow> CChain \<Rightarrow> ptr \<Rightarrow> ptr option" where
  "FindFork idx vChain pindex =
     (case pindex of None \<Rightarrow> Some None
      | Some p \<Rightarrow>
        (case idx p of None \<Rightarrow> None
         | Some b \<Rightarrow>
           (case (if nHeight b > Height vChain then GetAncestor idx p (Height vChain) else Some (Some p)) of
              None \<Rightarrow> None
            | Some q \<Rightarrow> fork_loop idx vChain q)))"

partial_function (option) locator_loop :: "BlockMap \<Rightarrow> CChain \<Rightarrow> ptr \<Rightarrow> int \<Rightarrow> uint256 list \<Rightarrow> uint256 list option" where
  "locator_loop idx vChain pindex nStep vHave =
     (case pindex of None \<Rightarrow> Some vHave
      | Some p \<Rightarrow>
        (case idx p of None \<Rightarrow> None
         | Some b \<Rightarrow>
           let vHave = vHave @ [p]
           in if nHeight b = 0 then Some vHave
              else let height = max (nHeight b - nStep) 0
              in case (if chain_at vChain (nHeight b) = Some p then Some (chain_at vChain height)
                       else GetAncestor idx p height) of
                   None \<Rightarrow> None
                 | Some q \<Rightarrow> locator_loop idx vChain q (if length vHave > 10 then nStep * 2 else nStep) vHave))"

definition GetLocator :: "BlockMap \<Rightarrow> CChain \<Rightarrow> ptr \<Rightarrow> uint256 list option" where
  "GetLocator idx vChain pindex =
     locator_loop idx vChain (if pindex = None then Tip vChain else pindex) 1 []"

partial_function (option) GetLastBlockIndex :: "BlockMap \<Rightarrow> ptr \<Rightarrow> bool \<Rightarrow> ptr option" where
  "GetLastBlockIndex idx pindex fProofOfStake =
     (case pindex of None \<Rightarrow> Some None
      | Some p \<Rightarrow>
        (case idx p of None \<Rightarrow> None
         | Some b \<Rightarrow> if pprev b \<noteq> None \<and> IsProofOfStake b \<noteq> fProofOfStake
                     then GetLastBlockIndex idx (pprev b) fProofOfStake else Some (Some p)))"

subsection \<open>Well-formed block index\<close>

text \<open>The reference for every walk: follow \<open>pprev\<close> a number of times.\<close>

fun prev_n :: "BlockMap \<Rightarrow> nat \<Rightarrow> uint256 \<Rightarrow> ptr" where
  "prev_n idx 0 p = Some p"
| "prev_n idx (Suc k) p = (case idx p of None \<Rightarrow> None | Some b \<Rightarrow> (case pprev b of None \<Rightarrow> None | Some q \<Rightarrow> prev_n idx k q))"

definition block_ok :: "BlockMap \<Rightarrow> uint256 \<Rightarrow> CBlockIndex \<Rightarrow> bool" where
  "block_ok idx p b \<longleftrightarrow>
     0 \<le> nHeight b \<and> uint_wf (nChainWork b)
     \<and> (case pprev b of None \<Rightarrow> nHeight b = 0 \<and> pskip b = None
        | Some q \<Rightarrow> (\<exists>c. idx q = Some c \<and> nHeight b = nHeight c + 1)
            \<and> (case pskip b of None \<Rightarrow> True | Some s \<Rightarrow> prev_n idx (nat (nHeight b - GetSkipHeight (nHeight b))) p = Some s))"

definition index_ok :: "BlockMap \<Rightarrow> bool" where
  "index_ok idx \<longleftrightarrow> (\<forall>p b. idx p = Some b \<longrightarrow> block_ok idx p b)"

lemma index_okD: "index_ok idx \<Longrightarrow> idx p = Some b \<Longrightarrow> block_ok idx p b"
  by (simp add: index_ok_def)

lemma height_nonneg: "index_ok idx \<Longrightarrow> idx p = Some b \<Longrightarrow> 0 \<le> nHeight b"
  by (auto simp: index_ok_def block_ok_def)

lemma prev_block:
  assumes "index_ok idx" "idx p = Some b" "0 < nHeight b"
  obtains q c where "pprev b = Some q" "idx q = Some c" "nHeight b = nHeight c + 1"
  using index_okD [OF assms(1,2)] assms(3) that by (cases "pprev b") (auto simp: block_ok_def)

lemma prev_n_add: "prev_n idx (i + j) p = (case prev_n idx i p of None \<Rightarrow> None | Some q \<Rightarrow> prev_n idx j q)"
  by (induction i arbitrary: p) (auto split: option.splits)

lemma prev_n_block:
  assumes "index_ok idx" "idx p = Some b" "int k \<le> nHeight b"
  shows "\<exists>q c. prev_n idx k p = Some q \<and> idx q = Some c \<and> nHeight c = nHeight b - int k"
  using assms(2,3)
proof (induction k arbitrary: p b)
  case 0
  then show ?case by simp
next
  case (Suc k)
  then obtain q c where "pprev b = Some q" "idx q = Some c" "nHeight b = nHeight c + 1"
    using assms(1) by (elim prev_block [where p = p]) auto
  then show ?case using Suc.IH [of q c] Suc.prems by auto
qed

lemma prev_n_height:
  assumes "index_ok idx" "idx p = Some b" "prev_n idx k p = Some q"
  shows "\<exists>c. idx q = Some c \<and> nHeight c = nHeight b - int k"
  using assms(2,3)
proof (induction k arbitrary: p b)
  case 0
  then show ?case by simp
next
  case (Suc k)
  then obtain r where r: "pprev b = Some r" "prev_n idx k r = Some q" by (auto split: option.splits)
  then obtain c where "idx r = Some c" "nHeight b = nHeight c + 1"
    using index_okD [OF assms(1) Suc.prems(1)] by (auto simp: block_ok_def)
  then show ?case using Suc.IH r by fastforce
qed

subsection \<open>Ancestors\<close>

lemma ancestor_walk_back:
  assumes "index_ok idx" "idx p = Some b" "0 \<le> height" "height \<le> nHeight b"
  shows "ancestor_walk idx height p (nHeight b) = prev_n idx (nat (nHeight b - height)) p"
  using assms(2,4)
proof (induction "nat (nHeight b - height)" arbitrary: p b rule: less_induct)
  case less
  show ?case
  proof (cases "nHeight b > height")
    case False
    then show ?thesis using less.prems assms(3) by (subst ancestor_walk.simps) auto
  next
    case True
    obtain q c where q: "pprev b = Some q" "idx q = Some c" "nHeight b = nHeight c + 1"
      using prev_block [OF assms(1) less.prems(1)] True assms(3) by (metis le_less_trans)
    have step: "ancestor_walk idx height q (nHeight b - 1) = prev_n idx (nat (nHeight b - height)) p"
    proof -
      have "ancestor_walk idx height q (nHeight c) = prev_n idx (nat (nHeight c - height)) q"
        using True q by (intro less.hyps) auto
      moreover have "nat (nHeight b - height) = Suc (nat (nHeight c - height))" using q True by simp
      ultimately show ?thesis using q less.prems by simp
    qed
    have skip: "ancestor_walk idx height s (GetSkipHeight (nHeight b)) = prev_n idx (nat (nHeight b - height)) p"
      if s: "pskip b = Some s" "GetSkipHeight (nHeight b) \<ge> height" for s
    proof -
      let ?k = "nat (nHeight b - GetSkipHeight (nHeight b))"
      have lt: "GetSkipHeight (nHeight b) < nHeight b" using True assms(3) by (intro GetSkipHeight_bounds(2)) simp
      have bs: "prev_n idx ?k p = Some s"
        using index_okD [OF assms(1) less.prems(1)] s q by (simp add: block_ok_def)
      then obtain d where d: "idx s = Some d" "nHeight d = GetSkipHeight (nHeight b)"
        using prev_n_height [OF assms(1) less.prems(1) bs] lt by auto
      have "ancestor_walk idx height s (nHeight d) = prev_n idx (nat (nHeight d - height)) s"
        using lt s d True by (intro less.hyps) auto
      moreover have "nat (nHeight b - height) = ?k + nat (nHeight d - height)" using lt s d by simp
      ultimately show ?thesis using bs d by (simp add: prev_n_add)
    qed
    show ?thesis
      using True assms(3) less.prems(1) q step skip
      by (subst ancestor_walk.simps) (auto simp: Let_def split: option.split)
  qed
qed

lemma GetAncestor_back:
  assumes "index_ok idx" "idx p = Some b"
  shows "GetAncestor idx p height = Some (if 0 \<le> height \<and> height \<le> nHeight b then prev_n idx (nat (nHeight b - height)) p else None)"
proof (cases "0 \<le> height \<and> height \<le> nHeight b")
  case True
  then obtain q where "prev_n idx (nat (nHeight b - height)) p = Some q"
    using prev_n_block [OF assms, of "nat (nHeight b - height)"] by auto
  then show ?thesis using True assms by (simp add: GetAncestor_def ancestor_walk_back)
next
  case False
  then show ?thesis using assms by (auto simp: GetAncestor_def)
qed

subsection \<open>Chains of ancestors\<close>

definition chain_of :: "BlockMap \<Rightarrow> uint256 \<Rightarrow> nat \<Rightarrow> CChain" where
  "chain_of idx p h = map (\<lambda>i. prev_n idx (h - i) p) [0..<Suc h]"

definition chain_ok :: "BlockMap \<Rightarrow> CChain \<Rightarrow> bool" where
  "chain_ok idx v \<longleftrightarrow> v = [] \<or> (\<exists>p b. idx p = Some b \<and> v = chain_of idx p (nat (nHeight b)))"

lemma length_chain_of [simp]: "length (chain_of idx p h) = Suc h"
  by (simp add: chain_of_def)

lemma nth_chain_of: "i \<le> h \<Longrightarrow> chain_of idx p h ! i = prev_n idx (h - i) p"
  by (simp add: chain_of_def nth_append del: upt_Suc)

lemma chain_below:
  assumes "chain_ok idx v" "j < length v" "v ! j = Some q" "i \<le> j"
  shows "v ! i = prev_n idx (j - i) q"
proof -
  obtain p b where v: "v = chain_of idx p (nat (nHeight b))" "idx p = Some b"
    using assms(1,2) by (auto simp: chain_ok_def)
  let ?h = "nat (nHeight b)"
  have j: "j \<le> ?h" using assms(2) v by simp
  then have "prev_n idx (?h - j) p = Some q" using assms(3) v by (simp add: nth_chain_of)
  moreover have e: "?h - i = (?h - j) + (j - i)" using j assms(4) by simp
  ultimately have "prev_n idx (?h - i) p = prev_n idx (j - i) q" unfolding e prev_n_add by simp
  then show ?thesis using v j assms(4) by (simp add: nth_chain_of)
qed

lemma chain_height:
  assumes "index_ok idx" "chain_ok idx v" "i < length v"
  shows "\<exists>q c. v ! i = Some q \<and> idx q = Some c \<and> nHeight c = int i"
proof -
  obtain p b where v: "v = chain_of idx p (nat (nHeight b))" "idx p = Some b" using assms by (auto simp: chain_ok_def)
  have "0 \<le> nHeight b" using height_nonneg [OF assms(1) v(2)] .
  then show ?thesis
    using prev_n_block [OF assms(1) v(2), of "nat (nHeight b) - i"] v assms(3)
    by (auto simp: nth_chain_of)
qed

lemma chain_contains:
  assumes "index_ok idx" "chain_ok idx v" "idx q = Some c"
  shows "chain_at v (nHeight c) = Some q \<longleftrightarrow> Some q \<in> set v"
proof
  show "chain_at v (nHeight c) = Some q \<Longrightarrow> Some q \<in> set v"
    by (auto simp: chain_at_def in_set_conv_nth split: if_splits) (metis nat_less_iff not_less)
  assume "Some q \<in> set v"
  then obtain i where i: "i < length v" "v ! i = Some q" by (auto simp: in_set_conv_nth)
  then show "chain_at v (nHeight c) = Some q"
    using chain_height [OF assms(1,2) i(1)] assms(3) by (auto simp: chain_at_def)
qed

lemma set_tip_loop_target:
  assumes "index_ok idx" "chain_ok idx old" "idx p = Some b" "h = nat (nHeight b)"
  shows "j \<le> h \<Longrightarrow> length v = Suc h \<Longrightarrow> prev_n idx (h - j) p = Some q \<Longrightarrow>
     \<forall>i. j < i \<and> i \<le> h \<longrightarrow> v ! i = prev_n idx (h - i) p \<Longrightarrow>
     \<forall>i \<le> j. v ! i = (if i < length old then old ! i else None) \<Longrightarrow>
     set_tip_loop idx v (Some q) = Some (chain_of idx p h)"
proof (induction j arbitrary: v q)
  case (0 v q)
  have hb: "nHeight b = int h" using height_nonneg [OF assms(1,3)] assms(4) by simp
  obtain c where c: "idx q = Some c" "nHeight c = 0"
    using prev_n_height [OF assms(1,3) "0.prems"(3)] hb by auto
  have none: "pprev c = None" using index_okD [OF assms(1) c(1)] c(2) height_nonneg [OF assms(1)]
    by (cases "pprev c") (fastforce simp: block_ok_def)+
  have "v[0 := Some q] = chain_of idx p h"
  proof (rule nth_equalityI)
    fix i
    assume "i < length (v[0 := Some q])"
    then show "v[0 := Some q] ! i = chain_of idx p h ! i"
      using 0 by (cases "i = 0") (simp_all add: nth_chain_of)
  qed (use 0 in simp)
  moreover have "v = v[0 := Some q]" if "v ! 0 = Some q" using that by (metis list_update_id)
  moreover have "set_tip_loop idx v' None = Some v'" for v' by (subst set_tip_loop.simps) simp
  ultimately show ?case
    using c none "0.prems" by (subst set_tip_loop.simps) auto
next
  case (Suc j v q)
  have hb: "nHeight b = int h" using height_nonneg [OF assms(1,3)] assms(4) by simp
  obtain c where c: "idx q = Some c" "nHeight c = int (Suc j)"
    using prev_n_height [OF assms(1,3) Suc.prems(3)] hb Suc.prems(1) by auto
  have hd: "h - j = (h - Suc j) + 1" using Suc.prems(1) by simp
  have "0 < nHeight c" using c(2) by simp
  then obtain r d where r: "pprev c = Some r" "idx r = Some d" using prev_block [OF assms(1) c(1)] by blast
  have pr: "prev_n idx (h - j) p = Some r" unfolding hd prev_n_add Suc.prems(3) using c r by simp
  show ?case
  proof (cases "v ! Suc j = Some q")
    case True
    then have old: "Suc j < length old" "old ! Suc j = Some q" using Suc.prems(5) by (auto split: if_splits)
    have "v = chain_of idx p h"
    proof (rule nth_equalityI)
      fix i
      assume i: "i < length v"
      show "v ! i = chain_of idx p h ! i"
      proof (cases "Suc j < i")
        case True
        then show ?thesis using Suc.prems i by (simp add: nth_chain_of)
      next
        case False
        then have "v ! i = prev_n idx (Suc j - i) q"
          using Suc.prems(5) old chain_below [OF assms(2) old, of i] by auto
        moreover have e: "h - i = (h - Suc j) + (Suc j - i)" using False Suc.prems(1) by simp
        have "prev_n idx (h - i) p = prev_n idx (Suc j - i) q" unfolding e prev_n_add Suc.prems(3) by simp
        ultimately show ?thesis using False i Suc.prems(1,2) by (simp add: nth_chain_of)
      qed
    qed (use Suc.prems in simp)
    then show ?thesis using c True Suc.prems by (subst set_tip_loop.simps) (simp add: nat_add_distrib)
  next
    case False
    have "set_tip_loop idx (v[Suc j := Some q]) (Some r) = Some (chain_of idx p h)"
    proof (rule Suc.IH)
      show "\<forall>i. j < i \<and> i \<le> h \<longrightarrow> v[Suc j := Some q] ! i = prev_n idx (h - i) p"
      proof (intro allI impI)
        fix i
        assume "j < i \<and> i \<le> h"
        then show "v[Suc j := Some q] ! i = prev_n idx (h - i) p"
          using Suc.prems by (cases "i = Suc j") simp_all
      qed
    qed (use Suc.prems pr in simp_all)
    then show ?thesis using c False r Suc.prems by (subst set_tip_loop.simps) (simp add: nat_add_distrib)
  qed
qed

lemma SetTip_chain_of:
  assumes "index_ok idx" "chain_ok idx v" "idx p = Some b"
  shows "SetTip idx v (Some p) = Some (chain_of idx p (nat (nHeight b)))"
proof -
  have "0 \<le> nHeight b" using height_nonneg [OF assms(1,3)] .
  then have n: "nat (nHeight b + 1) = Suc (nat (nHeight b))" by simp
  have "set_tip_loop idx (vec_resize (Suc (nat (nHeight b))) v) (Some p) = Some (chain_of idx p (nat (nHeight b)))"
    by (rule set_tip_loop_target [OF assms refl order_refl]) (auto simp: vec_resize_def nth_append)
  then show ?thesis using assms(3) n by (simp add: SetTip_def)
qed

lemma fork_loop_first:
  assumes "index_ok idx" "chain_ok idx v"
  shows "idx q = Some c \<Longrightarrow> \<exists>k. fork_loop idx v (Some q) = Some (prev_n idx k q) \<and> (\<forall>j < k. prev_n idx j q \<notin> set v)
     \<and> (prev_n idx k q = None \<or> prev_n idx k q \<in> set v)"
proof (induction "nat (nHeight c)" arbitrary: q c)
  case 0
  note mem = chain_contains [OF assms "0.prems"]
  have c0: "nHeight c = 0" using 0 height_nonneg [OF assms(1) "0.prems"] by simp
  then have none: "pprev c = None" using index_okD [OF assms(1) "0.prems"] height_nonneg [OF assms(1)]
    by (cases "pprev c") (fastforce simp: block_ok_def)+
  have nn: "fork_loop idx v None = Some None" by (subst fork_loop.simps) simp
  show ?case
  proof (cases "Some q \<in> set v")
    case True
    then have "fork_loop idx v (Some q) = Some (prev_n idx 0 q)" using mem 0 by (subst fork_loop.simps) simp
    then show ?thesis using True by (intro exI [of _ 0]) simp
  next
    case False
    then have "fork_loop idx v (Some q) = Some (prev_n idx 1 q)" using mem 0 none nn by (subst fork_loop.simps) simp
    then show ?thesis using False 0 none by (intro exI [of _ 1]) simp
  qed
next
  case (Suc n)
  note mem = chain_contains [OF assms Suc.prems]
  obtain r d where r: "pprev c = Some r" "idx r = Some d" "nHeight c = nHeight d + 1"
    using Suc.hyps(2) by (elim prev_block [OF assms(1) Suc.prems, rotated]) auto
  show ?case
  proof (cases "Some q \<in> set v")
    case True
    then have "fork_loop idx v (Some q) = Some (prev_n idx 0 q)" using mem Suc.prems by (subst fork_loop.simps) simp
    then show ?thesis using True by (intro exI [of _ 0]) simp
  next
    case False
    then have e: "fork_loop idx v (Some q) = fork_loop idx v (Some r)" using mem Suc.prems r by (subst fork_loop.simps) simp
    obtain k where k: "fork_loop idx v (Some r) = Some (prev_n idx k r)" "\<forall>j < k. prev_n idx j r \<notin> set v"
      "prev_n idx k r = None \<or> prev_n idx k r \<in> set v"
      using Suc.hyps(1) [OF _ r(2)] Suc.hyps(2) r(3) height_nonneg [OF assms(1) r(2)] by (auto simp: nat_add_distrib)
    have "\<forall>j < Suc k. prev_n idx j q \<notin> set v" using k(2) False Suc.prems r by (auto simp: less_Suc_eq_0_disj)
    then show ?thesis using e k Suc.prems r by (intro exI [of _ "Suc k"]) simp
  qed
qed

lemma FindFork_first:
  assumes "index_ok idx" "chain_ok idx v" "idx p = Some b"
  shows "\<exists>k. FindFork idx v (Some p) = Some (prev_n idx k p) \<and> (\<forall>j < k. prev_n idx j p \<notin> set v)
     \<and> (prev_n idx k p = None \<or> prev_n idx k p \<in> set v)"
proof (cases "nHeight b > Height v")
  case False
  then show ?thesis using fork_loop_first [OF assms] assms(3) by (simp add: FindFork_def)
next
  case True
  define d where "d = (if v = [] then nat (nHeight b) + 1 else nat (nHeight b - Height v))"
  have far: "\<forall>j < d. prev_n idx j p \<notin> set v"
  proof (intro allI impI notI)
    fix j
    assume j: "j < d" "prev_n idx j p \<in> set v"
    then obtain i where i: "i < length v" "v ! i = prev_n idx j p" by (auto simp: in_set_conv_nth)
    obtain q c where q: "v ! i = Some q" "idx q = Some c" "nHeight c = int i" using chain_height [OF assms(1,2) i(1)] by auto
    have "nHeight c = nHeight b - int j" using prev_n_height [OF assms(1,3), of j q] i q by simp
    then show False using q(3) i(1) j(1) True by (auto simp: d_def Height_def split: if_splits)
  qed
  show ?thesis
  proof (cases "v = []")
    case v: True
    have "prev_n idx d p = None"
      using prev_n_height [OF assms(1,3), of d] height_nonneg [OF assms(1)] height_nonneg [OF assms(1,3)] v
      by (cases "prev_n idx d p") (fastforce simp: d_def)+
    moreover have "fork_loop idx v None = Some None" by (subst fork_loop.simps) simp
    ultimately show ?thesis
      using True v assms far GetAncestor_back [OF assms(1,3), of "Height v"]
      by (intro exI [of _ d]) (simp add: FindFork_def Height_def)
  next
    case v: False
    have h: "0 \<le> Height v" using v by (cases v) (simp_all add: Height_def)
    obtain q c where q: "prev_n idx d p = Some q" "idx q = Some c"
      using prev_n_block [OF assms(1,3), of d] True h v by (auto simp: d_def)
    obtain k where k: "fork_loop idx v (Some q) = Some (prev_n idx k q)" "\<forall>j < k. prev_n idx j q \<notin> set v"
      "prev_n idx k q = None \<or> prev_n idx k q \<in> set v"
      using fork_loop_first [OF assms(1,2) q(2)] by auto
    have add: "prev_n idx (d + j) p = prev_n idx j q" for j by (simp add: prev_n_add q)
    have "prev_n idx j p \<notin> set v" if "j < d + k" for j
      using far k(2) add [of "j - d"] that by (cases "j < d") (auto simp: not_less)
    moreover have "FindFork idx v (Some p) = Some (prev_n idx (d + k) p)"
      using True assms h v q k GetAncestor_back [OF assms(1,3), of "Height v"] unfolding add by (simp add: FindFork_def d_def)
    ultimately show ?thesis using k(3) add by (intro exI [of _ "d + k"]) auto
  qed
qed

subsection \<open>Locators\<close>

text \<open>A locator lists ancestors: \<open>ks\<close> are the distances, starting with 0 and ending at the genesis block.\<close>

definition locator_of :: "BlockMap \<Rightarrow> uint256 \<Rightarrow> int \<Rightarrow> nat list \<Rightarrow> uint256 list \<Rightarrow> bool" where
  "locator_of idx p h ks hs \<longleftrightarrow>
     sorted_wrt (<) ks \<and> ks \<noteq> [] \<and> hd ks = 0 \<and> int (last ks) = h \<and> map Some hs = map (\<lambda>k. prev_n idx k p) ks"

lemma locator_of_Cons:
  assumes "prev_n idx d p = Some q" "0 < d" "locator_of idx q h ks hs"
  shows "locator_of idx p (h + int d) (0 # map ((+) d) ks) (p # hs)"
proof -
  have "map (\<lambda>k. prev_n idx k p) (map ((+) d) ks) = map (\<lambda>k. prev_n idx k q) ks"
    using assms(1) by (simp add: prev_n_add)
  moreover have "sorted_wrt (<) (map ((+) d) ks)" using assms(3) by (simp add: locator_of_def sorted_wrt_map)
  ultimately show ?thesis using assms(2,3) by (auto simp: locator_of_def last_map)
qed

lemma locator_loop_ok:
  assumes "index_ok idx" "chain_ok idx v"
  shows "idx q = Some c \<Longrightarrow> 0 < nStep \<Longrightarrow>
     \<exists>ks hs. locator_loop idx v (Some q) nStep vHave = Some (vHave @ hs) \<and> locator_of idx q (nHeight c) ks hs"
proof (induction "nat (nHeight c)" arbitrary: q c nStep vHave rule: less_induct)
  case less
  have h0: "0 \<le> nHeight c" using height_nonneg [OF assms(1) less.prems(1)] .
  show ?case
  proof (cases "nHeight c = 0")
    case True
    then have "locator_loop idx v (Some q) nStep vHave = Some (vHave @ [q])"
      using less.prems by (subst locator_loop.simps) (simp add: Let_def)
    moreover have "locator_of idx q (nHeight c) [0] [q]" using True by (simp add: locator_of_def)
    ultimately show ?thesis by blast
  next
    case False
    define height where "height = max (nHeight c - nStep) 0"
    define d where "d = nat (nHeight c - height)"
    have d: "0 < d" "int d \<le> nHeight c" "0 \<le> height" "height < nHeight c" "nHeight c - int d = height"
      using False h0 less.prems(2) by (auto simp: d_def height_def)
    obtain r e where r: "prev_n idx d q = Some r" "idx r = Some e" "nHeight e = height"
      using prev_n_block [OF assms(1) less.prems(1) d(2)] d(5) by auto
    have at: "chain_at v height = Some r" if "chain_at v (nHeight c) = Some q"
    proof -
      have v: "nat (nHeight c) < length v" "v ! nat (nHeight c) = Some q"
        using that by (auto simp: chain_at_def split: if_splits)
      have "v ! nat height = prev_n idx (nat (nHeight c) - nat height) q"
        using d by (intro chain_below [OF assms(2) v]) simp
      then show ?thesis using d v r by (auto simp: chain_at_def d_def nat_diff_distrib)
    qed
    have anc: "GetAncestor idx q height = Some (Some r)"
      using GetAncestor_back [OF assms(1) less.prems(1), of height] d r by (simp add: d_def)
    define nStep' where "nStep' = (if length (vHave @ [q]) > 10 then nStep * 2 else nStep)"
    have loop: "locator_loop idx v (Some q) nStep vHave = locator_loop idx v (Some r) nStep' (vHave @ [q])"
      using less.prems False at anc
      by (subst locator_loop.simps) (simp add: Let_def height_def [symmetric] nStep'_def)
    have "0 < nStep'" using less.prems(2) by (simp add: nStep'_def)
    then obtain ks hs where ks: "locator_loop idx v (Some r) nStep' (vHave @ [q]) = Some ((vHave @ [q]) @ hs)"
        "locator_of idx r (nHeight e) ks hs"
      using less.hyps [OF _ r(2), of nStep' "vHave @ [q]"] d r(3) by auto
    have "locator_of idx q (nHeight c) (0 # map ((+) d) ks) (q # hs)"
      using locator_of_Cons [OF r(1) d(1) ks(2)] r(3) d(5) by (simp add: algebra_simps)
    then show ?thesis using loop ks(1) by fastforce
  qed
qed

subsection \<open>Work\<close>

lemma not_all_ones: "m < 2 ^ 24 \<Longrightarrow> compact_value m e \<noteq> 2 ^ 256 - 1"
proof (cases "e \<le> 3")
  case True
  assume m: "m < 2 ^ 24"
  have "m div 256 ^ (3 - e) \<le> m" by (rule div_le_dividend)
  then have "m div 256 ^ (3 - e) < 2 ^ 24" using m by linarith
  then have "compact_value m e < 2 ^ 24" using True unfolding compact_value_def by simp
  then show ?thesis by simp
next
  case False
  then have "e - 3 = Suc (e - 4)" by simp
  then have "compact_value m e = 256 * (m * 256 ^ (e - 4))"
    using False by (simp add: compact_value_def)
  then have "compact_value m e mod 256 = 0" by simp
  moreover have "(2 ^ 256 - 1 :: nat) mod 256 \<noteq> 0" by simp
  ultimately show ?thesis by metis
qed

definition block_target :: "u32 \<Rightarrow> nat option" where
  "block_target bits =
     (let t = compact_value (mantissa_of bits) (exponent_of bits)
      in if t = 0 \<or> bit bits 23 \<or> 2 ^ 256 \<le> t then None else Some t)"

lemma GetBlockProof_value:
  "\<exists>w. GetBlockProof bits = Some w \<and> uint_wf w
     \<and> limbs_val w = (case block_target bits of None \<Rightarrow> 0 | Some t \<Rightarrow> 2 ^ 256 div (t + 1))"
proof -
  obtain v neg ovf where sc: "SetCompact bits = (v, neg, ovf)" by (cases "SetCompact bits") auto
  note c = SetCompact_correct [OF sc]
  let ?t = "compact_value (mantissa_of bits) (exponent_of bits)"
  have zero: "EqualTo v 0 \<longleftrightarrow> limbs_val v = 0"
  proof -
    have "limbs_val (uint_of_u64 0) = 0" using unat_to256_uint_of_u64 [of 0] by simp
    then show ?thesis using EqualTo_iff [OF c(1), of 0] to256_inj [OF c(1) uint_wf_simps(2), of 0] by (auto simp: to256_def)
  qed
  show ?thesis
  proof (cases "neg \<or> ovf \<or> EqualTo v 0")
    case True
    then have "block_target bits = None" using c zero by (auto simp: block_target_def)
    then show ?thesis using True sc by (simp add: GetBlockProof_def uint_zero_def uint_wf_def)
  next
    case False
    then have v: "limbs_val v = ?t" "?t \<noteq> 0" "block_target bits = Some ?t"
      using c zero by (auto simp: block_target_def)
    have "mantissa_of bits < 2 ^ 23" by (rule mod_less_divisor) simp
    then have "?t \<noteq> 2 ^ 256 - 1" by (intro not_all_ones, elim less_trans) simp
    moreover have "unat (- 1 :: 256 word) = 2 ^ 256 - 1" by (simp add: unsigned_minus_1_eq_mask mask_eq_exp_minus_1)
    ultimately have "unat (to256 v) \<noteq> unat (- 1 :: 256 word)" unfolding unat_to256 [OF c(1)] v(1) by metis
    moreover have "unat (to256 v) \<noteq> 0" using v c(1) by (simp add: unat_to256)
    ultimately have "to256 v \<noteq> - 1" "to256 v \<noteq> 0" by auto
    from arith256.work_quotient [OF c(1) this] obtain q where q: "uint_div (uint_not v) (uint_add v (uint_of_u64 1)) = Some q"
      "uint_wf (uint_add q (uint_of_u64 1))" "unat (to256 (uint_add q (uint_of_u64 1))) = 2 ^ 256 div (unat (to256 v) + 1)"
      by auto
    then show ?thesis using False sc v c(1) by (simp add: GetBlockProof_def unat_to256)
  qed
qed

subsection \<open>The index keeps its form\<close>

lemma prev_n_extend:
  assumes "\<And>x c. idx x = Some c \<Longrightarrow> \<exists>c'. idx' x = Some c' \<and> pprev c' = pprev c"
  shows "prev_n idx k p = Some s \<Longrightarrow> prev_n idx' k p = Some s"
proof (induction k arbitrary: p)
  case (Suc k)
  then obtain c q where "idx p = Some c" "pprev c = Some q" "prev_n idx k q = Some s" by (auto split: option.splits)
  then show ?case using Suc.IH assms by fastforce
qed simp

definition fresh_ok :: "BlockMap \<Rightarrow> CBlockIndex \<Rightarrow> bool" where
  "fresh_ok idx b \<longleftrightarrow> 0 \<le> nHeight b \<and>
     (case pprev b of None \<Rightarrow> nHeight b = 0 \<and> pskip b = None
      | Some q \<Rightarrow> (\<exists>c. idx q = Some c \<and> nHeight b = nHeight c + 1)
           \<and> (pskip b = None \<or> pskip b = prev_n idx (nat (nHeight b - 1 - GetSkipHeight (nHeight b))) q))"

lemma index_ok_insert:
  assumes ok: "index_ok idx" and new: "idx p = None" and fresh: "fresh_ok idx b" and b: "uint_wf (nChainWork b)"
  shows "index_ok (idx(p \<mapsto> b))"
  unfolding index_ok_def
proof (intro allI impI)
  fix x c
  assume x: "(idx(p \<mapsto> b)) x = Some c"
  have ext: "prev_n idx k y = Some s \<Longrightarrow> prev_n (idx(p \<mapsto> b)) k y = Some s" for k y s
  proof (rule prev_n_extend)
    show "\<exists>c'. (idx(p \<mapsto> b)) z = Some c' \<and> pprev c' = pprev c" if "idx z = Some c" for z c using that new by auto
  qed
  show "block_ok (idx(p \<mapsto> b)) x c"
  proof (cases "x = p")
    case False
    then have bo: "block_ok idx x c" using x ok by (simp add: index_ok_def)
    have keep: "(idx(p \<mapsto> b)) q = Some d" if "idx q = Some d" for q d using that new by auto
    show ?thesis
    proof (cases "pprev c")
      case None
      then show ?thesis using bo by (simp add: block_ok_def)
    next
      case (Some q)
      then obtain d where d: "idx q = Some d" "nHeight c = nHeight d + 1" using bo unfolding block_ok_def by auto
      have "prev_n (idx(p \<mapsto> b)) (nat (nHeight c - GetSkipHeight (nHeight c))) x = Some s" if "pskip c = Some s" for s
        using bo Some that by (intro ext) (simp add: block_ok_def)
      then show ?thesis
        using bo Some keep [OF d(1)] d(2) unfolding block_ok_def by (cases "pskip c") (simp_all del: fun_upd_apply)
    qed
  next
    case True
    then have c: "c = b" using x by simp
    show ?thesis
    proof (cases "pprev b")
      case None
      then show ?thesis using fresh b by (simp add: block_ok_def fresh_ok_def c True)
    next
      case (Some q)
      then obtain d where d: "idx q = Some d" "nHeight b = nHeight d + 1" using fresh by (auto simp: fresh_ok_def)
      have "q \<noteq> p" using d new by auto
      have "0 < nHeight b" using d height_nonneg [OF ok d(1)] by simp
      then have e: "nat (nHeight b - GetSkipHeight (nHeight b)) = Suc (nat (nHeight b - 1 - GetSkipHeight (nHeight b)))"
        using GetSkipHeight_bounds(2) [of "nHeight b"] by simp
      have "prev_n (idx(p \<mapsto> b)) (nat (nHeight b - GetSkipHeight (nHeight b))) p = Some s" if "pskip b = Some s" for s
      proof -
        have "prev_n idx (nat (nHeight b - 1 - GetSkipHeight (nHeight b))) q = Some s" using Some fresh that by (simp add: fresh_ok_def)
        then have "prev_n (idx(p \<mapsto> b)) (nat (nHeight b - 1 - GetSkipHeight (nHeight b))) q = Some s" by (rule ext)
        then show ?thesis unfolding e using Some by simp
      qed
      moreover have "(idx(p \<mapsto> b)) q = Some d" using d \<open>q \<noteq> p\<close> by simp
      ultimately show ?thesis
        using Some d(2) b \<open>0 < nHeight b\<close> unfolding block_ok_def c True by (cases "pskip b") (simp_all del: fun_upd_apply)
    qed
  qed
qed

text \<open>The best header carries the most work of the index.\<close>

definition tree_ok :: "blocktree \<Rightarrow> bool" where
  "tree_ok st \<longleftrightarrow> index_ok (mapBlockIndex st)
     \<and> (case pindexBestHeader st of
          None \<Rightarrow> mapBlockIndex st = Map.empty
        | Some q \<Rightarrow> \<exists>c. mapBlockIndex st q = Some c
            \<and> (\<forall>p b. mapBlockIndex st p = Some b \<longrightarrow> to256 (nChainWork b) \<le> to256 (nChainWork c)))"

lemma raise_tree: "nStatus b = 0 \<Longrightarrow> RaiseValidity b BLOCK_VALID_TREE = Some (b\<lparr>nStatus := 2\<rparr>, True)"
  by (simp add: RaiseValidity_def BLOCK_VALID_TREE_def BLOCK_VALID_MASK_def BLOCK_FAILED_MASK_def)

lemma tree_ok_insert:
  assumes ok: "tree_ok st" and new: "mapBlockIndex st p = None" and ins: "index_ok ((mapBlockIndex st)(p \<mapsto> b))"
    and best: "best = (case pindexBestHeader st of None \<Rightarrow> Some p
        | Some q \<Rightarrow> (if CompareTo (nChainWork (the (((mapBlockIndex st)(p \<mapsto> b)) q))) (nChainWork b) < 0 then Some p else Some q))"
  shows "tree_ok \<lparr>mapBlockIndex = (mapBlockIndex st)(p \<mapsto> b), pindexBestHeader = best, setDirtyBlockIndex = d\<rparr>"
proof (cases "pindexBestHeader st")
  case None
  then have "mapBlockIndex st = Map.empty" using ok by (simp add: tree_ok_def)
  then show ?thesis using None ins best by (simp add: tree_ok_def)
next
  case (Some q)
  then obtain c where c: "mapBlockIndex st q = Some c" "\<And>x e. mapBlockIndex st x = Some e \<Longrightarrow> to256 (nChainWork e) \<le> to256 (nChainWork c)"
    using ok by (auto simp: tree_ok_def)
  have "q \<noteq> p" using c new by auto
  have "uint_wf (nChainWork c)" "uint_wf (nChainWork b)"
    using ins c(1) \<open>q \<noteq> p\<close> index_okD [OF ins, of q c] index_okD [OF ins, of p b] by (simp_all add: block_ok_def)
  then have cmp: "CompareTo (nChainWork c) (nChainWork b) < 0 \<longleftrightarrow> to256 (nChainWork c) < to256 (nChainWork b)"
    by (rule CompareTo_less)
  show ?thesis
  proof (cases "to256 (nChainWork c) < to256 (nChainWork b)")
    case True
    then have "to256 (nChainWork e) \<le> to256 (nChainWork b)" if "mapBlockIndex st x = Some e" for x e
      using c(2) [OF that] by simp
    then show ?thesis using Some c \<open>q \<noteq> p\<close> ins best cmp True by (simp add: tree_ok_def)
  next
    case False
    then have "best = Some q" using Some c \<open>q \<noteq> p\<close> best cmp by simp
    then show ?thesis using Some c \<open>q \<noteq> p\<close> ins False by (simp add: tree_ok_def)
  qed
qed

lemma link_prev_ok:
  assumes ok: "index_ok idx" and new: "idx h = None" and loop: "h \<noteq> hashPrevBlock block"
  shows "\<exists>n. link_prev (idx(h \<mapsto> CBlockIndex_init block)) h block = Some (idx(h \<mapsto> n))
     \<and> fresh_ok idx n \<and> nStatus n = 0 \<and> nBits n = h_nBits block
     \<and> pprev n = (if idx (hashPrevBlock block) = None then None else Some (hashPrevBlock block))"
proof (cases "idx (hashPrevBlock block)")
  case None
  then show ?thesis using loop
    by (intro exI [of _ "CBlockIndex_init block"]) (simp add: link_prev_def CBlockIndex_init_def fresh_ok_def)
next
  case (Some c)
  let ?pr = "hashPrevBlock block"
  define n where "n = (CBlockIndex_init block)\<lparr>pprev := Some ?pr, nHeight := nHeight c + 1\<rparr>"
  define s where "s = prev_n idx (nat (nHeight c - GetSkipHeight (nHeight c + 1))) ?pr"
  have c0: "0 \<le> nHeight c" using height_nonneg [OF ok Some] .
  have "fresh_ok idx n" and ok2: "fresh_ok idx (n\<lparr>pskip := s\<rparr>)"
    using Some c0 by (simp_all add: fresh_ok_def n_def s_def CBlockIndex_init_def)
  then have ok1: "index_ok (idx(h \<mapsto> n))"
    by (intro index_ok_insert [OF ok new]) (simp_all add: n_def CBlockIndex_init_def)
  have skip: "GetSkipHeight (nHeight c + 1) \<le> nHeight c" "0 \<le> GetSkipHeight (nHeight c + 1)"
    using GetSkipHeight_bounds [of "nHeight c + 1"] c0 by simp_all
  have pr: "(idx(h \<mapsto> n)) ?pr = Some c" using Some loop by simp
  obtain q where q: "s = Some q"
    using prev_n_block [OF ok Some, of "nat (nHeight c - GetSkipHeight (nHeight c + 1))"] skip by (auto simp: s_def)
  have "prev_n (idx(h \<mapsto> n)) (nat (nHeight c - GetSkipHeight (nHeight c + 1))) ?pr = Some q"
  proof (rule prev_n_extend)
    show "\<exists>d. (idx(h \<mapsto> n)) z = Some d \<and> pprev d = pprev e" if "idx z = Some e" for z e using that new by auto
  qed (use q s_def in simp)
  then have "GetAncestor (idx(h \<mapsto> n)) ?pr (GetSkipHeight (nHeight c + 1)) = Some s"
    unfolding GetAncestor_back [OF ok1 pr] using skip q by simp
  then have "BuildSkip (idx(h \<mapsto> n)) h = Some (idx(h \<mapsto> n\<lparr>pskip := s\<rparr>))"
    by (simp add: BuildSkip_def n_def)
  then have "link_prev (idx(h \<mapsto> CBlockIndex_init block)) h block = Some (idx(h \<mapsto> n\<lparr>pskip := s\<rparr>))"
    using Some loop by (simp add: link_prev_def n_def)
  then show ?thesis using ok2 Some by (intro exI [of _ "n\<lparr>pskip := s\<rparr>"]) (simp add: n_def CBlockIndex_init_def)
qed

lemma finish_new_ok:
  assumes ok: "tree_ok st" and new: "mapBlockIndex st h = None" and fresh: "fresh_ok (mapBlockIndex st) n" and n: "nStatus n = 0"
  shows "\<exists>st' b. finish_new st h ((mapBlockIndex st)(h \<mapsto> n)) = Some st' \<and> tree_ok st' \<and> mapBlockIndex st' = (mapBlockIndex st)(h \<mapsto> b)
     \<and> pprev b = pprev n \<and> pskip b = pskip n \<and> nHeight b = nHeight n
     \<and> limbs_val (nChainWork b) = ((case pprev n of None \<Rightarrow> 0 | Some q \<Rightarrow> limbs_val (nChainWork (the (mapBlockIndex st q))))
         + (case block_target (nBits n) of None \<Rightarrow> 0 | Some t \<Rightarrow> 2 ^ 256 div (t + 1))) mod 2 ^ 256"
proof -
  let ?idx = "mapBlockIndex st"
  obtain w where w: "GetBlockProof (nBits n) = Some w" "uint_wf w"
      "limbs_val w = (case block_target (nBits n) of None \<Rightarrow> 0 | Some t \<Rightarrow> 2 ^ 256 div (t + 1))"
    using GetBlockProof_value by blast
  define work where "work = (case pprev n of None \<Rightarrow> uint_zero | Some q \<Rightarrow> nChainWork (the (?idx q)))"
  have noth: "pprev n \<noteq> Some h" using fresh new by (auto simp: fresh_ok_def)
  have work_wf: "uint_wf work"
  proof (cases "pprev n")
    case (Some q)
    then obtain c where "?idx q = Some c" using fresh by (auto simp: fresh_ok_def)
    then show ?thesis using Some ok index_okD [of ?idx q c] by (simp add: work_def tree_ok_def block_ok_def)
  qed (simp add: work_def)
  define b where "b = n\<lparr>nChainWork := uint_add work w, nStatus := 2\<rparr>"
  have sel: "pprev b = pprev n" "pskip b = pskip n" "nHeight b = nHeight n" by (simp_all add: b_def)
  have "fresh_ok ?idx b" using fresh unfolding fresh_ok_def sel .
  then have insb: "index_ok (?idx(h \<mapsto> b))"
    using ok new work_wf w(2) by (intro index_ok_insert) (simp_all add: b_def tree_ok_def)
  have "RaiseValidity (n\<lparr>nChainWork := uint_add work w\<rparr>) BLOCK_VALID_TREE = Some (b, True)"
    using raise_tree [of "n\<lparr>nChainWork := uint_add work w\<rparr>"] n by (simp add: b_def)
  moreover have "(case pprev n of None \<Rightarrow> uint_zero | Some q \<Rightarrow> nChainWork (the ((?idx(h \<mapsto> n)) q))) = work"
    using noth by (auto simp: work_def split: option.split)
  ultimately have "finish_new st h (?idx(h \<mapsto> n)) = Some \<lparr>mapBlockIndex = ?idx(h \<mapsto> b),
       pindexBestHeader = (case pindexBestHeader st of None \<Rightarrow> Some h
         | Some q \<Rightarrow> (if CompareTo (nChainWork (the ((?idx(h \<mapsto> b)) q))) (nChainWork b) < 0 then Some h else Some q)),
       setDirtyBlockIndex = List.insert h (setDirtyBlockIndex st)\<rparr>"
    unfolding finish_new_def Let_def using w(1) by (simp add: fun_upd_same del: fun_upd_apply split: option.split)
  moreover have "limbs_val (nChainWork b) = (limbs_val work + limbs_val w) mod 2 ^ 256"
    using uint_add_val [OF work_wf w(2)] by (simp add: b_def)
  moreover have "limbs_val work = (case pprev n of None \<Rightarrow> 0 | Some q \<Rightarrow> limbs_val (nChainWork (the (?idx q))))"
    by (simp add: work_def split: option.split)
  ultimately show ?thesis
    using tree_ok_insert [OF ok new insb refl] w(3) by (fastforce simp: b_def)
qed

lemma AddToBlockIndex_new:
  assumes ok: "tree_ok st" and new: "mapBlockIndex st (GetHash block) = None" and loop: "GetHash block \<noteq> hashPrevBlock block"
  shows "\<exists>st' b. AddToBlockIndex GetHash st block = Some (st', GetHash block) \<and> tree_ok st'
     \<and> mapBlockIndex st' = (mapBlockIndex st)(GetHash block \<mapsto> b)
     \<and> pprev b = (if mapBlockIndex st (hashPrevBlock block) = None then None else Some (hashPrevBlock block))
     \<and> limbs_val (nChainWork b) = ((case mapBlockIndex st (hashPrevBlock block) of None \<Rightarrow> 0 | Some c \<Rightarrow> limbs_val (nChainWork c))
         + (case block_target (h_nBits block) of None \<Rightarrow> 0 | Some t \<Rightarrow> 2 ^ 256 div (t + 1))) mod 2 ^ 256"
proof -
  obtain n where n: "link_prev ((mapBlockIndex st)(GetHash block \<mapsto> CBlockIndex_init block)) (GetHash block) block
      = Some ((mapBlockIndex st)(GetHash block \<mapsto> n))" "fresh_ok (mapBlockIndex st) n" "nStatus n = 0" "nBits n = h_nBits block"
      "pprev n = (if mapBlockIndex st (hashPrevBlock block) = None then None else Some (hashPrevBlock block))"
    using link_prev_ok [of "mapBlockIndex st" "GetHash block" block] new loop ok unfolding tree_ok_def by blast
  obtain st' b where "finish_new st (GetHash block) ((mapBlockIndex st)(GetHash block \<mapsto> n)) = Some st'" "tree_ok st'"
     "mapBlockIndex st' = (mapBlockIndex st)(GetHash block \<mapsto> b)" "pprev b = pprev n"
     "limbs_val (nChainWork b) = ((case pprev n of None \<Rightarrow> 0 | Some q \<Rightarrow> limbs_val (nChainWork (the (mapBlockIndex st q))))
         + (case block_target (nBits n) of None \<Rightarrow> 0 | Some t \<Rightarrow> 2 ^ 256 div (t + 1))) mod 2 ^ 256"
    using finish_new_ok [OF ok new n(2,3)] by auto
  then show ?thesis
    using n new by (intro exI [of _ st'] exI [of _ b]) (auto simp: AddToBlockIndex_def Let_def split: option.split)
qed

subsection \<open>An example index\<close>

text \<open>Genesis [0], a chain [1], [2] on it, and a fork block [3] at height 1.\<close>

definition demo_block :: "ptr \<Rightarrow> ptr \<Rightarrow> int \<Rightarrow> CBlockIndex" where
  "demo_block prv skp h = \<lparr>pprev = prv, pskip = skp, nHeight = h, nChainWork = uint_zero, nStatus = 2, nVersion = 2, nTime = 0, nBits = 0x1d00ffff\<rparr>"

definition demo_idx :: BlockMap where
  "demo_idx = [[0] \<mapsto> demo_block None None 0, [1] \<mapsto> demo_block (Some [0]) (Some [0]) 1,
               [2] \<mapsto> demo_block (Some [1]) (Some [0]) 2, [3] \<mapsto> demo_block (Some [0]) None 1]"

definition demo_header :: CBlockHeader where
  "demo_header = \<lparr>h_nVersion = 2, hashPrevBlock = [2], h_nTime = 4, h_nBits = 0x1d00ffff\<rparr>"

lemma prev_n_2: "prev_n idx 2 p = (case idx p of None \<Rightarrow> None | Some b \<Rightarrow> (case pprev b of None \<Rightarrow> None | Some q \<Rightarrow> prev_n idx (Suc 0) q))"
  by (simp add: numeral_2_eq_2)

lemma demo_index_ok: "index_ok demo_idx"
  by (auto simp: index_ok_def block_ok_def demo_idx_def demo_block_def GetSkipHeight_def InvertLowestOne_def
      prev_n_2 split: if_splits)

lemma demo_chain_ok: "chain_ok demo_idx [Some [0], Some [3]]"
  unfolding chain_ok_def
  by (rule disjI2, intro exI [of _ "[3]"] exI [of _ "demo_block (Some [0]) None 1"])
    (simp add: demo_idx_def demo_block_def chain_of_def)

subsection \<open>Properties\<close>

text \<open>C27: On a well-formed index \<open>GetAncestor\<close> never crashes, and the skip list gives exactly the block that
  following \<open>pprev\<close> step by step gives; a height outside 0 .. nHeight gives a null pointer.\<close>

theorem GetAncestor_follows_pprev:
  assumes "index_ok idx" "idx p = Some b"
  shows "GetAncestor idx p height = Some (if 0 \<le> height \<and> height \<le> nHeight b then prev_n idx (nat (nHeight b - height)) p else None)"
  by (rule GetAncestor_back [OF assms])

theorem GetAncestor_follows_pprev_witness:
  "GetAncestor demo_idx [2] 0 = Some (Some [0]) \<and> GetAncestor demo_idx [2] 3 = Some None"
  using GetAncestor_follows_pprev [OF demo_index_ok, of "[2]" "demo_block (Some [1]) (Some [0]) 2"]
  by (simp add: demo_idx_def demo_block_def prev_n_2)

text \<open>C11: \<open>AddToBlockIndex\<close> keeps the index well-formed (heights, skip pointers, the best header carries the
  most work), changes no other entry, and gives the new entry the work of its parent plus
  2^256 / (target + 1), where invalid targets count as no work.\<close>

theorem AddToBlockIndex_keeps_index:
  assumes "tree_ok st" "GetHash block \<noteq> hashPrevBlock block"
  shows "\<exists>st'. AddToBlockIndex GetHash st block = Some (st', GetHash block) \<and> tree_ok st'
     \<and> (\<forall>q. q \<noteq> GetHash block \<longrightarrow> mapBlockIndex st' q = mapBlockIndex st q)
     \<and> (if mapBlockIndex st (GetHash block) \<noteq> None then st' = st
        else \<exists>b. mapBlockIndex st' (GetHash block) = Some b
          \<and> limbs_val (nChainWork b) = ((case mapBlockIndex st (hashPrevBlock block) of None \<Rightarrow> 0 | Some c \<Rightarrow> limbs_val (nChainWork c))
              + (case block_target (h_nBits block) of None \<Rightarrow> 0 | Some t \<Rightarrow> 2 ^ 256 div (t + 1))) mod 2 ^ 256)"
proof (cases "mapBlockIndex st (GetHash block)")
  case None
  then show ?thesis using AddToBlockIndex_new [of st GetHash block] assms by auto
next
  case (Some b)
  then show ?thesis using assms by (simp add: AddToBlockIndex_def Let_def)
qed

theorem AddToBlockIndex_keeps_index_witness:
  "\<exists>st'. AddToBlockIndex (\<lambda>h. [ucast (h_nTime h)]) \<lparr>mapBlockIndex = demo_idx, pindexBestHeader = Some [2], setDirtyBlockIndex = []\<rparr> demo_header
       = Some (st', [4]) \<and> tree_ok st' \<and> mapBlockIndex st' [4] \<noteq> None"
proof -
  let ?st = "\<lparr>mapBlockIndex = demo_idx, pindexBestHeader = Some [2], setDirtyBlockIndex = []\<rparr>"
  have "tree_ok ?st" using demo_index_ok by (simp add: tree_ok_def) (simp add: demo_idx_def demo_block_def)
  moreover have "demo_idx [4] = None" by (simp add: demo_idx_def)
  ultimately show ?thesis
    using AddToBlockIndex_keeps_index [of ?st "\<lambda>h. [ucast (h_nTime h)]" demo_header] by (auto simp: demo_header_def)
qed

text \<open>\<open>SetTip\<close> terminates with the vector of all ancestors of the new tip, whichever branch the old
  chain was on: the early stop at the first common block loses nothing.\<close>

theorem SetTip_lists_ancestors:
  assumes "index_ok idx" "chain_ok idx vChain" "idx p = Some b"
  shows "SetTip idx vChain (Some p) = Some (map (\<lambda>h. prev_n idx (nat (nHeight b) - h) p) [0..<Suc (nat (nHeight b))])"
  using SetTip_chain_of [OF assms] by (simp add: chain_of_def)

theorem SetTip_lists_ancestors_witness:
  "SetTip demo_idx [Some [0], Some [3]] (Some [2]) = Some [Some [0], Some [1], Some [2]]"
proof -
  have "[0..<3] = [0, 1, 2::nat]" by (simp add: upt_conv_Cons)
  then show ?thesis
    using SetTip_lists_ancestors [OF demo_index_ok demo_chain_ok, of "[2]" "demo_block (Some [1]) (Some [0]) 2"]
    by (simp add: demo_idx_def demo_block_def prev_n_2)
qed

text \<open>\<open>FindFork\<close> returns the first block, walking back from the given one, that is in the chain, and
  null exactly when none is.\<close>

theorem FindFork_last_common:
  assumes "index_ok idx" "chain_ok idx vChain" "idx p = Some b"
  shows "\<exists>k. FindFork idx vChain (Some p) = Some (prev_n idx k p) \<and> (\<forall>j < k. prev_n idx j p \<notin> set vChain)
     \<and> (prev_n idx k p = None \<or> prev_n idx k p \<in> set vChain)"
  by (rule FindFork_first [OF assms])

theorem FindFork_last_common_witness:
  "\<exists>k. FindFork demo_idx [Some [0], Some [3]] (Some [2]) = Some (prev_n demo_idx k [2])
     \<and> (prev_n demo_idx k [2] = None \<or> prev_n demo_idx k [2] \<in> {Some [0], Some [3]})"
  using FindFork_last_common [OF demo_index_ok demo_chain_ok, of "[2]" "demo_block (Some [1]) (Some [0]) 2"]
  by (auto simp: demo_idx_def)

text \<open>The locator loop terminates; a locator starts at the block, ends at its genesis block, and lists
  ancestors at strictly increasing distances.\<close>

theorem GetLocator_reaches_genesis:
  assumes "index_ok idx" "chain_ok idx vChain" "idx p = Some b"
  shows "\<exists>ks hs. GetLocator idx vChain (Some p) = Some hs \<and> map Some hs = map (\<lambda>k. prev_n idx k p) ks
     \<and> sorted_wrt (<) ks \<and> ks \<noteq> [] \<and> hd ks = 0 \<and> int (last ks) = nHeight b"
  using locator_loop_ok [OF assms, of 1 "[]"] by (auto simp: GetLocator_def locator_of_def)

theorem GetLocator_reaches_genesis_witness:
  "\<exists>ks hs. GetLocator demo_idx [Some [0], Some [3]] (Some [2]) = Some hs \<and> map Some hs = map (\<lambda>k. prev_n demo_idx k [2]) ks
     \<and> hd ks = 0 \<and> last ks = 2"
proof -
  have "demo_idx [2] = Some (demo_block (Some [1]) (Some [0]) 2)" by (simp add: demo_idx_def)
  from GetLocator_reaches_genesis [OF demo_index_ok demo_chain_ok this] show ?thesis by (force simp: demo_block_def)
qed

end
