(* ===== verification/Script.thy ===== *)
theory Script
  imports Hash Sha1 Uint256
begin

text \<open>
  Scripts: \<open>src/src/script/script.h\<close> and \<open>script.cpp\<close>.  A script is its byte list and an iterator is the
  list of the bytes that are left.  The theory holds the opcodes, the instruction reader \<open>GetOp2\<close>, the
  push encoding, the numbers of the stack machine (\<open>CScriptNum\<close>), \<open>FindAndDelete\<close>, the counters and the
  template tests.  An exception of the code is the value Inl of the script error it is turned into.
\<close>

unbundle bit_operations_syntax

type_synonym CScript = bytes
type_synonym opcodetype = nat

abbreviation OP_0 :: opcodetype where "OP_0 \<equiv> 0"
abbreviation OP_FALSE :: opcodetype where "OP_FALSE \<equiv> 0"
abbreviation OP_PUSHDATA1 :: opcodetype where "OP_PUSHDATA1 \<equiv> 0x4c"
abbreviation OP_PUSHDATA2 :: opcodetype where "OP_PUSHDATA2 \<equiv> 0x4d"
abbreviation OP_PUSHDATA4 :: opcodetype where "OP_PUSHDATA4 \<equiv> 0x4e"
abbreviation OP_1NEGATE :: opcodetype where "OP_1NEGATE \<equiv> 0x4f"
abbreviation OP_RESERVED :: opcodetype where "OP_RESERVED \<equiv> 0x50"
abbreviation OP_1 :: opcodetype where "OP_1 \<equiv> 0x51"
abbreviation OP_TRUE :: opcodetype where "OP_TRUE \<equiv> 0x51"
abbreviation OP_2 :: opcodetype where "OP_2 \<equiv> 0x52"
abbreviation OP_3 :: opcodetype where "OP_3 \<equiv> 0x53"
abbreviation OP_4 :: opcodetype where "OP_4 \<equiv> 0x54"
abbreviation OP_5 :: opcodetype where "OP_5 \<equiv> 0x55"
abbreviation OP_6 :: opcodetype where "OP_6 \<equiv> 0x56"
abbreviation OP_7 :: opcodetype where "OP_7 \<equiv> 0x57"
abbreviation OP_8 :: opcodetype where "OP_8 \<equiv> 0x58"
abbreviation OP_9 :: opcodetype where "OP_9 \<equiv> 0x59"
abbreviation OP_10 :: opcodetype where "OP_10 \<equiv> 0x5a"
abbreviation OP_11 :: opcodetype where "OP_11 \<equiv> 0x5b"
abbreviation OP_12 :: opcodetype where "OP_12 \<equiv> 0x5c"
abbreviation OP_13 :: opcodetype where "OP_13 \<equiv> 0x5d"
abbreviation OP_14 :: opcodetype where "OP_14 \<equiv> 0x5e"
abbreviation OP_15 :: opcodetype where "OP_15 \<equiv> 0x5f"
abbreviation OP_16 :: opcodetype where "OP_16 \<equiv> 0x60"
abbreviation OP_NOP :: opcodetype where "OP_NOP \<equiv> 0x61"
abbreviation OP_VER :: opcodetype where "OP_VER \<equiv> 0x62"
abbreviation OP_IF :: opcodetype where "OP_IF \<equiv> 0x63"
abbreviation OP_NOTIF :: opcodetype where "OP_NOTIF \<equiv> 0x64"
abbreviation OP_VERIF :: opcodetype where "OP_VERIF \<equiv> 0x65"
abbreviation OP_VERNOTIF :: opcodetype where "OP_VERNOTIF \<equiv> 0x66"
abbreviation OP_ELSE :: opcodetype where "OP_ELSE \<equiv> 0x67"
abbreviation OP_ENDIF :: opcodetype where "OP_ENDIF \<equiv> 0x68"
abbreviation OP_VERIFY :: opcodetype where "OP_VERIFY \<equiv> 0x69"
abbreviation OP_RETURN :: opcodetype where "OP_RETURN \<equiv> 0x6a"
abbreviation OP_TOALTSTACK :: opcodetype where "OP_TOALTSTACK \<equiv> 0x6b"
abbreviation OP_FROMALTSTACK :: opcodetype where "OP_FROMALTSTACK \<equiv> 0x6c"
abbreviation OP_2DROP :: opcodetype where "OP_2DROP \<equiv> 0x6d"
abbreviation OP_2DUP :: opcodetype where "OP_2DUP \<equiv> 0x6e"
abbreviation OP_3DUP :: opcodetype where "OP_3DUP \<equiv> 0x6f"
abbreviation OP_2OVER :: opcodetype where "OP_2OVER \<equiv> 0x70"
abbreviation OP_2ROT :: opcodetype where "OP_2ROT \<equiv> 0x71"
abbreviation OP_2SWAP :: opcodetype where "OP_2SWAP \<equiv> 0x72"
abbreviation OP_IFDUP :: opcodetype where "OP_IFDUP \<equiv> 0x73"
abbreviation OP_DEPTH :: opcodetype where "OP_DEPTH \<equiv> 0x74"
abbreviation OP_DROP :: opcodetype where "OP_DROP \<equiv> 0x75"
abbreviation OP_DUP :: opcodetype where "OP_DUP \<equiv> 0x76"
abbreviation OP_NIP :: opcodetype where "OP_NIP \<equiv> 0x77"
abbreviation OP_OVER :: opcodetype where "OP_OVER \<equiv> 0x78"
abbreviation OP_PICK :: opcodetype where "OP_PICK \<equiv> 0x79"
abbreviation OP_ROLL :: opcodetype where "OP_ROLL \<equiv> 0x7a"
abbreviation OP_ROT :: opcodetype where "OP_ROT \<equiv> 0x7b"
abbreviation OP_SWAP :: opcodetype where "OP_SWAP \<equiv> 0x7c"
abbreviation OP_TUCK :: opcodetype where "OP_TUCK \<equiv> 0x7d"
abbreviation OP_CAT :: opcodetype where "OP_CAT \<equiv> 0x7e"
abbreviation OP_SUBSTR :: opcodetype where "OP_SUBSTR \<equiv> 0x7f"
abbreviation OP_LEFT :: opcodetype where "OP_LEFT \<equiv> 0x80"
abbreviation OP_RIGHT :: opcodetype where "OP_RIGHT \<equiv> 0x81"
abbreviation OP_SIZE :: opcodetype where "OP_SIZE \<equiv> 0x82"
abbreviation OP_INVERT :: opcodetype where "OP_INVERT \<equiv> 0x83"
abbreviation OP_AND :: opcodetype where "OP_AND \<equiv> 0x84"
abbreviation OP_OR :: opcodetype where "OP_OR \<equiv> 0x85"
abbreviation OP_XOR :: opcodetype where "OP_XOR \<equiv> 0x86"
abbreviation OP_EQUAL :: opcodetype where "OP_EQUAL \<equiv> 0x87"
abbreviation OP_EQUALVERIFY :: opcodetype where "OP_EQUALVERIFY \<equiv> 0x88"
abbreviation OP_RESERVED1 :: opcodetype where "OP_RESERVED1 \<equiv> 0x89"
abbreviation OP_RESERVED2 :: opcodetype where "OP_RESERVED2 \<equiv> 0x8a"
abbreviation OP_1ADD :: opcodetype where "OP_1ADD \<equiv> 0x8b"
abbreviation OP_1SUB :: opcodetype where "OP_1SUB \<equiv> 0x8c"
abbreviation OP_2MUL :: opcodetype where "OP_2MUL \<equiv> 0x8d"
abbreviation OP_2DIV :: opcodetype where "OP_2DIV \<equiv> 0x8e"
abbreviation OP_NEGATE :: opcodetype where "OP_NEGATE \<equiv> 0x8f"
abbreviation OP_ABS :: opcodetype where "OP_ABS \<equiv> 0x90"
abbreviation OP_NOT :: opcodetype where "OP_NOT \<equiv> 0x91"
abbreviation OP_0NOTEQUAL :: opcodetype where "OP_0NOTEQUAL \<equiv> 0x92"
abbreviation OP_ADD :: opcodetype where "OP_ADD \<equiv> 0x93"
abbreviation OP_SUB :: opcodetype where "OP_SUB \<equiv> 0x94"
abbreviation OP_MUL :: opcodetype where "OP_MUL \<equiv> 0x95"
abbreviation OP_DIV :: opcodetype where "OP_DIV \<equiv> 0x96"
abbreviation OP_MOD :: opcodetype where "OP_MOD \<equiv> 0x97"
abbreviation OP_LSHIFT :: opcodetype where "OP_LSHIFT \<equiv> 0x98"
abbreviation OP_RSHIFT :: opcodetype where "OP_RSHIFT \<equiv> 0x99"
abbreviation OP_BOOLAND :: opcodetype where "OP_BOOLAND \<equiv> 0x9a"
abbreviation OP_BOOLOR :: opcodetype where "OP_BOOLOR \<equiv> 0x9b"
abbreviation OP_NUMEQUAL :: opcodetype where "OP_NUMEQUAL \<equiv> 0x9c"
abbreviation OP_NUMEQUALVERIFY :: opcodetype where "OP_NUMEQUALVERIFY \<equiv> 0x9d"
abbreviation OP_NUMNOTEQUAL :: opcodetype where "OP_NUMNOTEQUAL \<equiv> 0x9e"
abbreviation OP_LESSTHAN :: opcodetype where "OP_LESSTHAN \<equiv> 0x9f"
abbreviation OP_GREATERTHAN :: opcodetype where "OP_GREATERTHAN \<equiv> 0xa0"
abbreviation OP_LESSTHANOREQUAL :: opcodetype where "OP_LESSTHANOREQUAL \<equiv> 0xa1"
abbreviation OP_GREATERTHANOREQUAL :: opcodetype where "OP_GREATERTHANOREQUAL \<equiv> 0xa2"
abbreviation OP_MIN :: opcodetype where "OP_MIN \<equiv> 0xa3"
abbreviation OP_MAX :: opcodetype where "OP_MAX \<equiv> 0xa4"
abbreviation OP_WITHIN :: opcodetype where "OP_WITHIN \<equiv> 0xa5"
abbreviation OP_RIPEMD160 :: opcodetype where "OP_RIPEMD160 \<equiv> 0xa6"
abbreviation OP_SHA1 :: opcodetype where "OP_SHA1 \<equiv> 0xa7"
abbreviation OP_SHA256 :: opcodetype where "OP_SHA256 \<equiv> 0xa8"
abbreviation OP_HASH160 :: opcodetype where "OP_HASH160 \<equiv> 0xa9"
abbreviation OP_HASH256 :: opcodetype where "OP_HASH256 \<equiv> 0xaa"
abbreviation OP_CODESEPARATOR :: opcodetype where "OP_CODESEPARATOR \<equiv> 0xab"
abbreviation OP_CHECKSIG :: opcodetype where "OP_CHECKSIG \<equiv> 0xac"
abbreviation OP_CHECKSIGVERIFY :: opcodetype where "OP_CHECKSIGVERIFY \<equiv> 0xad"
abbreviation OP_CHECKMULTISIG :: opcodetype where "OP_CHECKMULTISIG \<equiv> 0xae"
abbreviation OP_CHECKMULTISIGVERIFY :: opcodetype where "OP_CHECKMULTISIGVERIFY \<equiv> 0xaf"
abbreviation OP_NOP1 :: opcodetype where "OP_NOP1 \<equiv> 0xb0"
abbreviation OP_CHECKLOCKTIMEVERIFY :: opcodetype where "OP_CHECKLOCKTIMEVERIFY \<equiv> 0xb1"
abbreviation OP_NOP2 :: opcodetype where "OP_NOP2 \<equiv> 0xb1"
abbreviation OP_CHECKSEQUENCEVERIFY :: opcodetype where "OP_CHECKSEQUENCEVERIFY \<equiv> 0xb2"
abbreviation OP_NOP3 :: opcodetype where "OP_NOP3 \<equiv> 0xb2"
abbreviation OP_NOP4 :: opcodetype where "OP_NOP4 \<equiv> 0xb3"
abbreviation OP_NOP5 :: opcodetype where "OP_NOP5 \<equiv> 0xb4"
abbreviation OP_NOP6 :: opcodetype where "OP_NOP6 \<equiv> 0xb5"
abbreviation OP_NOP7 :: opcodetype where "OP_NOP7 \<equiv> 0xb6"
abbreviation OP_NOP8 :: opcodetype where "OP_NOP8 \<equiv> 0xb7"
abbreviation OP_NOP9 :: opcodetype where "OP_NOP9 \<equiv> 0xb8"
abbreviation OP_NOP10 :: opcodetype where "OP_NOP10 \<equiv> 0xb9"
abbreviation OP_SMALLINTEGER :: opcodetype where "OP_SMALLINTEGER \<equiv> 0xfa"
abbreviation OP_PUBKEYS :: opcodetype where "OP_PUBKEYS \<equiv> 0xfb"
abbreviation OP_PUBKEYHASH :: opcodetype where "OP_PUBKEYHASH \<equiv> 0xfd"
abbreviation OP_PUBKEY :: opcodetype where "OP_PUBKEY \<equiv> 0xfe"
abbreviation OP_INVALIDOPCODE :: opcodetype where "OP_INVALIDOPCODE \<equiv> 0xff"
abbreviation OP_ZEROCOINMINT :: opcodetype where "OP_ZEROCOINMINT \<equiv> 0xc1"
abbreviation OP_ZEROCOINSPEND :: opcodetype where "OP_ZEROCOINSPEND \<equiv> 0xc2"
abbreviation OP_SIGMAMINT :: opcodetype where "OP_SIGMAMINT \<equiv> 0xc3"
abbreviation OP_SIGMASPEND :: opcodetype where "OP_SIGMASPEND \<equiv> 0xc4"

definition MAX_SCRIPT_ELEMENT_SIZE :: nat where "MAX_SCRIPT_ELEMENT_SIZE = 520"
definition MAX_OPS_PER_SCRIPT :: int where "MAX_OPS_PER_SCRIPT = 201"
definition MAX_PUBKEYS_PER_MULTISIG :: int where "MAX_PUBKEYS_PER_MULTISIG = 20"
definition MAX_SCRIPT_SIZE :: nat where "MAX_SCRIPT_SIZE = 10000"

datatype ScriptError =
    SCRIPT_ERR_UNKNOWN_ERROR | SCRIPT_ERR_EVAL_FALSE | SCRIPT_ERR_OP_RETURN
  | SCRIPT_ERR_SCRIPT_SIZE | SCRIPT_ERR_PUSH_SIZE | SCRIPT_ERR_OP_COUNT | SCRIPT_ERR_STACK_SIZE
  | SCRIPT_ERR_SIG_COUNT | SCRIPT_ERR_PUBKEY_COUNT
  | SCRIPT_ERR_VERIFY | SCRIPT_ERR_EQUALVERIFY | SCRIPT_ERR_CHECKMULTISIGVERIFY
  | SCRIPT_ERR_CHECKSIGVERIFY | SCRIPT_ERR_NUMEQUALVERIFY
  | SCRIPT_ERR_BAD_OPCODE | SCRIPT_ERR_DISABLED_OPCODE | SCRIPT_ERR_INVALID_STACK_OPERATION
  | SCRIPT_ERR_INVALID_ALTSTACK_OPERATION | SCRIPT_ERR_UNBALANCED_CONDITIONAL
  | SCRIPT_ERR_NEGATIVE_LOCKTIME | SCRIPT_ERR_UNSATISFIED_LOCKTIME
  | SCRIPT_ERR_SIG_HASHTYPE | SCRIPT_ERR_SIG_DER | SCRIPT_ERR_MINIMALDATA | SCRIPT_ERR_SIG_PUSHONLY
  | SCRIPT_ERR_SIG_HIGH_S | SCRIPT_ERR_SIG_NULLDUMMY | SCRIPT_ERR_PUBKEYTYPE | SCRIPT_ERR_CLEANSTACK
  | SCRIPT_ERR_MINIMALIF | SCRIPT_ERR_SIG_NULLFAIL
  | SCRIPT_ERR_DISCOURAGE_UPGRADABLE_NOPS | SCRIPT_ERR_DISCOURAGE_UPGRADABLE_WITNESS_PROGRAM
  | SCRIPT_ERR_WITNESS_PROGRAM_WRONG_LENGTH | SCRIPT_ERR_WITNESS_PROGRAM_WITNESS_EMPTY
  | SCRIPT_ERR_WITNESS_PROGRAM_MISMATCH | SCRIPT_ERR_WITNESS_MALLEATED | SCRIPT_ERR_WITNESS_MALLEATED_P2SH
  | SCRIPT_ERR_WITNESS_UNEXPECTED | SCRIPT_ERR_WITNESS_PUBKEYTYPE

type_synonym 'a res = "ScriptError + 'a"

subsection \<open>Instructions\<close>

text \<open>The size of the immediate operand and the bytes after its length field.\<close>

definition push_size :: "opcodetype \<Rightarrow> bytes \<Rightarrow> (nat \<times> bytes) option" where
  "push_size opcode pc =
     (if opcode < OP_PUSHDATA1 then Some (opcode, pc)
      else if opcode = OP_PUSHDATA1 then (if length pc < 1 then None else Some (unat (hd pc), tl pc))
      else if opcode = OP_PUSHDATA2 then (if length pc < 2 then None else Some (unat (ReadLE16 pc), drop 2 pc))
      else (if length pc < 4 then None else Some (unat (ReadLE32 pc), drop 4 pc)))"

fun GetOp2 :: "bytes \<Rightarrow> (opcodetype \<times> bytes \<times> bytes) option" where
  "GetOp2 [] = None"
| "GetOp2 (op # pc) =
     (if unat op \<le> OP_PUSHDATA4
      then (case push_size (unat op) pc of
              None \<Rightarrow> None
            | Some (nSize, pc) \<Rightarrow> if length pc < nSize then None else Some (unat op, take nSize pc, drop nSize pc))
      else Some (unat op, [], pc))"

definition push_bytes :: "bytes \<Rightarrow> CScript" where
  "push_bytes b =
     (if length b < OP_PUSHDATA1 then [of_nat (length b)]
      else if length b \<le> 0xff then [of_nat OP_PUSHDATA1, of_nat (length b)]
      else if length b \<le> 0xffff then of_nat OP_PUSHDATA2 # WriteLE16 (of_nat (length b))
      else of_nat OP_PUSHDATA4 # WriteLE32 (of_nat (length b))) @ b"

lemma push_size_shrinks: "push_size op pc = Some (n, rest) \<Longrightarrow> length rest \<le> length pc"
  by (auto simp: push_size_def split: if_splits)

lemma GetOp2_shrinks: "GetOp2 pc = Some (op, data, rest) \<Longrightarrow> length rest < length pc"
  by (cases pc) (auto split: if_splits option.splits dest!: push_size_shrinks)

definition DecodeOP_N :: "opcodetype \<Rightarrow> nat option" where
  "DecodeOP_N opcode = (if opcode = OP_0 then Some 0 else if opcode \<ge> OP_1 \<and> opcode \<le> OP_16 then Some (opcode - (OP_1 - 1)) else None)"

definition EncodeOP_N :: "int \<Rightarrow> opcodetype option" where
  "EncodeOP_N n = (if n < 0 \<or> n > 16 then None else if n = 0 then Some OP_0 else Some (OP_1 + nat n - 1))"

subsection \<open>Numbers\<close>

fun le_digits :: "nat \<Rightarrow> bytes" where
  "le_digits absvalue = (if absvalue = 0 then [] else of_nat (absvalue mod 256) # le_digits (absvalue div 256))"

declare le_digits.simps [simp del]

definition ScriptNum_serialize :: "int \<Rightarrow> bytes" where
  "ScriptNum_serialize value =
     (if value = 0 then []
      else let neg = value < 0; result = le_digits (nat \<bar>value\<bar>)
           in if last result AND 0x80 \<noteq> 0 then result @ [if neg then 0x80 else 0]
              else if neg then butlast result @ [last result OR 0x80] else result)"

fun le_int :: "bytes \<Rightarrow> int" where
  "le_int [] = 0"
| "le_int (b # bs) = uint b + 256 * le_int bs"

definition set_vch :: "bytes \<Rightarrow> int" where
  "set_vch vch =
     (if vch = [] then 0
      else if last vch AND 0x80 \<noteq> 0 then - (le_int vch AND NOT (push_bit (8 * (length vch - 1)) 0x80))
      else le_int vch)"

definition CScriptNum :: "bytes \<Rightarrow> bool \<Rightarrow> nat \<Rightarrow> int res" where
  "CScriptNum vch fRequireMinimal nMaxNumSize =
     (if length vch > nMaxNumSize then Inl SCRIPT_ERR_UNKNOWN_ERROR
      else if fRequireMinimal \<and> length vch > 0 \<and> last vch AND 0x7f = 0
              \<and> (length vch \<le> 1 \<or> vch ! (length vch - 2) AND 0x80 = 0)
           then Inl SCRIPT_ERR_UNKNOWN_ERROR
      else Inr (set_vch vch))"

definition getint :: "int \<Rightarrow> int" where
  "getint m_value = (if m_value > 2 ^ 31 - 1 then 2 ^ 31 - 1 else if m_value < - (2 ^ 31) then - (2 ^ 31) else m_value)"

definition push_int64 :: "int \<Rightarrow> CScript" where
  "push_int64 n =
     (if n = - 1 \<or> (n \<ge> 1 \<and> n \<le> 16) then [of_int (n + (int OP_1 - 1))]
      else if n = 0 then [of_nat OP_0] else push_bytes (ScriptNum_serialize n))"

subsection \<open>Scans\<close>

function strip_prefix :: "bytes \<Rightarrow> bytes \<Rightarrow> nat \<Rightarrow> bytes \<times> nat" where
  "strip_prefix b pc nFound =
     (if b \<noteq> [] \<and> length pc \<ge> length b \<and> take (length b) pc = b then strip_prefix b (drop (length b) pc) (nFound + 1)
      else (pc, nFound))"
  by pat_completeness auto
termination
proof (relation "measure (\<lambda>(b, pc, n). length pc)")
  fix b pc :: bytes and n :: nat
  assume "b \<noteq> [] \<and> length pc \<ge> length b \<and> take (length b) pc = b"
  then have "0 < length b" "length b \<le> length pc" by auto
  then have "length pc - length b < length pc" by linarith
  then show "((b, drop (length b) pc, n + 1), (b, pc, n)) \<in> measure (\<lambda>(b, pc, n). length pc)" by simp
qed simp

declare strip_prefix.simps [simp del]

lemma strip_prefix_shrinks: "length (fst (strip_prefix b pc n)) \<le> length pc"
  by (induction b pc n rule: strip_prefix.induct) (subst strip_prefix.simps, auto intro: le_trans)

function find_loop :: "bytes \<Rightarrow> bytes \<Rightarrow> bytes \<Rightarrow> nat \<Rightarrow> bytes \<times> nat" where
  "find_loop b pc result nFound =
     (let (pc2, nFound) = strip_prefix b pc nFound
      in case GetOp2 pc2 of
           None \<Rightarrow> (result @ pc2, nFound)
         | Some (_, _, rest) \<Rightarrow> find_loop b rest (result @ take (length pc2 - length rest) pc2) nFound)"
  by pat_completeness auto
termination
  by (relation "measure (\<lambda>(b, pc, r, n). length pc)")
    (auto dest!: GetOp2_shrinks intro: less_le_trans, metis fst_conv less_le_trans strip_prefix_shrinks)

declare find_loop.simps [simp del]

definition FindAndDelete :: "CScript \<Rightarrow> CScript \<Rightarrow> CScript \<times> nat" where
  "FindAndDelete this b =
     (if b = [] then (this, 0)
      else let (result, nFound) = find_loop b this [] 0 in if nFound > 0 then (result, nFound) else (this, 0))"

function IsPushOnly :: "CScript \<Rightarrow> bool" where
  "IsPushOnly pc =
     (if pc = [] then True
      else case GetOp2 pc of None \<Rightarrow> False
           | Some (opcode, _, rest) \<Rightarrow> if opcode > OP_16 then False else IsPushOnly rest)"
  by pat_completeness auto
termination
  by (relation "measure length") (auto dest: GetOp2_shrinks)

declare IsPushOnly.simps [simp del]

function sigop_loop :: "bool \<Rightarrow> bytes \<Rightarrow> opcodetype \<Rightarrow> nat \<Rightarrow> nat" where
  "sigop_loop fAccurate pc lastOpcode n =
     (case GetOp2 pc of
        None \<Rightarrow> n
      | Some (opcode, _, rest) \<Rightarrow>
          sigop_loop fAccurate rest opcode
            (if opcode = OP_CHECKSIG \<or> opcode = OP_CHECKSIGVERIFY then n + 1
             else if opcode = OP_CHECKMULTISIG \<or> opcode = OP_CHECKMULTISIGVERIFY
             then (if fAccurate \<and> lastOpcode \<ge> OP_1 \<and> lastOpcode \<le> OP_16 then n + the (DecodeOP_N lastOpcode)
                   else n + nat MAX_PUBKEYS_PER_MULTISIG)
             else n))"
  by pat_completeness auto
termination
  by (relation "measure (\<lambda>(f, pc, l, n). length pc)") (auto dest: GetOp2_shrinks)

declare sigop_loop.simps [simp del]

definition GetSigOpCount :: "CScript \<Rightarrow> bool \<Rightarrow> nat" where
  "GetSigOpCount script fAccurate = sigop_loop fAccurate script OP_INVALIDOPCODE 0"

definition op_at :: "CScript \<Rightarrow> nat \<Rightarrow> nat" where
  "op_at script i = unat (script ! i)"

definition IsPayToPublicKeyHash :: "CScript \<Rightarrow> bool" where
  "IsPayToPublicKeyHash s \<longleftrightarrow> length s = 25 \<and> op_at s 0 = OP_DUP \<and> op_at s 1 = OP_HASH160 \<and> op_at s 2 = 0x14
     \<and> op_at s 23 = OP_EQUALVERIFY \<and> op_at s 24 = OP_CHECKSIG"

definition IsPayToScriptHash :: "CScript \<Rightarrow> bool" where
  "IsPayToScriptHash s \<longleftrightarrow> length s = 23 \<and> op_at s 0 = OP_HASH160 \<and> op_at s 1 = 0x14 \<and> op_at s 22 = OP_EQUAL"

definition IsPayToWitnessScriptHash :: "CScript \<Rightarrow> bool" where
  "IsPayToWitnessScriptHash s \<longleftrightarrow> length s = 34 \<and> op_at s 0 = OP_0 \<and> op_at s 1 = 0x20"

definition IsWitnessProgram :: "CScript \<Rightarrow> (nat \<times> bytes) option" where
  "IsWitnessProgram s =
     (if length s < 4 \<or> length s > 42 then None
      else if op_at s 0 \<noteq> OP_0 \<and> (op_at s 0 < OP_1 \<or> op_at s 0 > OP_16) then None
      else if op_at s 1 + 2 = length s then map_option (\<lambda>v. (v, drop 2 s)) (DecodeOP_N (op_at s 0))
      else None)"

definition IsZerocoinMint :: "CScript \<Rightarrow> bool" where
  "IsZerocoinMint s \<longleftrightarrow> length s > 0 \<and> op_at s 0 = OP_ZEROCOINMINT"

definition IsZerocoinSpend :: "CScript \<Rightarrow> bool" where
  "IsZerocoinSpend s \<longleftrightarrow> length s > 0 \<and> op_at s 0 = OP_ZEROCOINSPEND"

definition IsSigmaMint :: "CScript \<Rightarrow> bool" where
  "IsSigmaMint s \<longleftrightarrow> length s > 0 \<and> op_at s 0 = OP_SIGMAMINT"

definition IsSigmaSpend :: "CScript \<Rightarrow> bool" where
  "IsSigmaSpend s \<longleftrightarrow> length s > 0 \<and> op_at s 0 = OP_SIGMASPEND"

function HasCanonicalPushes :: "CScript \<Rightarrow> bool" where
  "HasCanonicalPushes pc =
     (if pc = [] then True
      else case GetOp2 pc of None \<Rightarrow> False
           | Some (opcode, data, rest) \<Rightarrow>
             if opcode > OP_16 then HasCanonicalPushes rest
             else if opcode < OP_PUSHDATA1 \<and> opcode > OP_0 \<and> length data = 1 \<and> unat (hd data) \<le> 16 then False
             else if opcode = OP_PUSHDATA1 \<and> length data < OP_PUSHDATA1 then False
             else if opcode = OP_PUSHDATA2 \<and> length data \<le> 0xff then False
             else if opcode = OP_PUSHDATA4 \<and> length data \<le> 0xffff then False
             else HasCanonicalPushes rest)"
  by pat_completeness auto
termination
  by (relation "measure length") (auto dest: GetOp2_shrinks)

declare HasCanonicalPushes.simps [simp del]

end
