(* ===== verification/Script_Number.thy ===== *)
theory Script_Number
  imports Script
begin

text \<open>
  The number encoding of the stack machine: \<open>CScriptNum\<close> and its byte form are inverse, the minimal form
  is the only one that is accepted when minimal data is required, and sizes bound values.
\<close>

unbundle bit_operations_syntax

lemma le_int_bounds: "0 \<le> le_int bs" "le_int bs < 256 ^ length bs"
proof (induction bs)
  case (Cons b bs)
  have "uint b < 256" "0 \<le> uint b" using uint_bounded [of b] by simp_all
  then show "0 \<le> le_int (b # bs)" using Cons by simp
  have "le_int bs + 1 \<le> 256 ^ length bs" using Cons by simp
  then have "256 * le_int bs + 256 \<le> 256 * 256 ^ length bs" by simp
  then show "le_int (b # bs) < 256 ^ length (b # bs)" using \<open>uint b < 256\<close> by simp
qed simp_all

lemma le_int_append: "le_int (xs @ ys) = le_int xs + 256 ^ length xs * le_int ys"
  by (induction xs) (simp_all add: algebra_simps)

lemma le_digits_0 [simp]: "le_digits 0 = []"
  by (simp add: le_digits.simps)

lemma le_int_digits: "le_int (le_digits n) = int n"
proof (induction n rule: less_induct)
  case (less n)
  show ?case
  proof (cases "n = 0")
    case True
    then show ?thesis by (simp add: le_digits.simps)
  next
    case False
    have "uint (of_nat (n mod 256) :: u8) = int (n mod 256)" by (simp add: uint_nat unat_of_nat)
    moreover have "le_int (le_digits (n div 256)) = int (n div 256)" using False by (intro less) simp
    moreover have "int (n mod 256) + 256 * int (n div 256) = int n" by (simp add: zmod_int zdiv_int)
    ultimately show ?thesis using False by (subst le_digits.simps) simp
  qed
qed

lemma le_digits_last: "0 < n \<Longrightarrow> le_digits n \<noteq> [] \<and> last (le_digits n) \<noteq> 0"
proof (induction n rule: less_induct)
  case (less n)
  show ?case
  proof (cases "n div 256 = 0")
    case True
    then have n: "n < 256" by (simp add: div_eq_0_iff)
    then have "unat (of_nat n :: u8) = n" by (simp add: unat_of_nat)
    then have "(of_nat n :: u8) \<noteq> 0" using less.prems by auto
    then show ?thesis using less.prems n True by (subst (1 2) le_digits.simps) (simp add: le_digits.simps)
  next
    case False
    then have "le_digits (n div 256) \<noteq> [] \<and> last (le_digits (n div 256)) \<noteq> 0" using less.prems by (intro less.IH) auto
    then show ?thesis using less.prems by (subst (1 2) le_digits.simps) simp
  qed
qed

lemma le_digits_of_int: "bs = [] \<or> last bs \<noteq> 0 \<Longrightarrow> le_digits (nat (le_int bs)) = bs"
proof (induction bs)
  case Nil
  then show ?case by (simp add: le_digits.simps)
next
  case (Cons b bs)
  have b: "0 \<le> uint b" "uint b < 256" using uint_bounded [of b] by simp_all
  have pos: "0 < uint b + 256 * le_int bs"
  proof (cases "bs = []")
    case True
    then have "b \<noteq> 0" using Cons.prems by simp
    then have "uint b \<noteq> 0" by (simp add: uint_0_iff)
    then show ?thesis using b le_int_bounds(1) [of bs] by linarith
  next
    case False
    then have "last bs \<noteq> 0" using Cons.prems by simp
    then have "le_digits (nat (le_int bs)) = bs" by (intro Cons.IH disjI2)
    then have "le_int bs \<noteq> 0" using False by (metis le_digits_0 nat_0)
    then show ?thesis using b le_int_bounds(1) [of bs] by linarith
  qed
  define N where "N = nat (le_int (b # bs))"
  have N: "N = unat b + 256 * nat (le_int bs)"
  proof -
    have u: "uint b = int (unat b)" by (rule uint_nat)
    obtain L where L: "le_int bs = int L" using le_int_bounds(1) [of bs] nonneg_int_cases by blast
    have "int (unat b) + 256 * int L = int (unat b + 256 * L)" by (simp only: of_nat_add of_nat_mult of_nat_numeral)
    then show ?thesis unfolding N_def le_int.simps u L by (simp only: nat_int)
  qed
  have "unat b < 256" by (rule unat_u8_lt)
  then have m: "N mod 256 = unat b" "N div 256 = nat (le_int bs)" unfolding N by simp_all
  have "N \<noteq> 0" unfolding N_def using pos by simp
  have "bs = [] \<or> last bs \<noteq> 0" using Cons.prems by (cases "bs = []") simp_all
  then have "le_digits (nat (le_int bs)) = bs" by (rule Cons.IH)
  moreover have "le_digits N = of_nat (N mod 256) # le_digits (N div 256)" using \<open>N \<noteq> 0\<close> le_digits.simps [of N] by metis
  ultimately show ?case unfolding N_def [symmetric] m by simp
qed

lemma length_le_digits: "n < 256 ^ k \<Longrightarrow> length (le_digits n) \<le> k"
proof (induction k arbitrary: n)
  case 0
  then show ?case by (simp add: le_digits.simps)
next
  case (Suc k)
  then have "n div 256 < 256 ^ k" by (simp add: less_mult_imp_div_less mult.commute)
  then show ?case using Suc.IH [of "n div 256"] by (subst le_digits.simps) simp
qed

lemma byte_bit7: "(b :: u8) AND 0x80 = 0 \<longleftrightarrow> \<not> bit b 7"
  using and_exp_eq_0_iff_not_bit [of b 7] by simp

lemma odd_div_128: "0 \<le> x \<Longrightarrow> x < 256 \<Longrightarrow> odd (x div 128) \<longleftrightarrow> 128 \<le> (x::int)"
  by presburger

lemma byte_high: "(b :: u8) AND 0x80 \<noteq> 0 \<longleftrightarrow> 128 \<le> uint b"
proof -
  have "uint b < 256" "0 \<le> uint b" using uint_bounded [of b] by simp_all
  then have "bit (uint b) 7 \<longleftrightarrow> 128 \<le> uint b" unfolding bit_iff_odd using odd_div_128 [of "uint b"] by simp
  then show ?thesis unfolding byte_bit7 by (simp add: bit_uint_iff)
qed

lemma byte_set_high: "(b :: u8) AND 0x80 = 0 \<Longrightarrow> b OR 0x80 = b + 0x80 \<and> uint (b OR 0x80) = uint b + 128"
proof -
  assume b: "b AND 0x80 = 0"
  have "\<not> bit b j \<or> \<not> bit (0x80 :: u8) j" for j
  proof (cases "j = 7")
    case False
    have "(0x80 :: u8) = 2 ^ 7" by simp
    then show ?thesis using False by (simp only: bit_exp_iff) simp
  qed (use b byte_bit7 in simp)
  then have e: "b OR 0x80 = b + 0x80" by (rule disjunctive_add [symmetric])
  have "uint b < 128" using byte_high b by force
  then have "uint (b + 0x80) = uint b + 128" using uint_bounded [of b] by (simp add: uint_word_ariths)
  then show ?thesis using e by simp
qed

lemma byte_low: "uint ((b :: u8) AND 0x7f) = uint b mod 128"
proof -
  have "(0x7f :: u8) = mask 7" by (simp add: mask_eq_exp_minus_1)
  then have "b AND 0x7f = take_bit 7 b" by (simp add: take_bit_eq_mask)
  then have "uint (b AND 0x7f) = take_bit 7 (uint b)" by (simp only: unsigned_take_bit_eq)
  then show ?thesis by (simp add: take_bit_eq_mod)
qed

lemma and_not_bit:
  fixes a :: int
  assumes "0 \<le> a" "a < 2 ^ k"
  shows "(a + 2 ^ k) AND NOT (2 ^ k) = a"
proof -
  have "\<not> bit a j" if "k \<le> j" for j
  proof -
    have "a < 2 ^ j" using assms(2) that by (meson less_le_trans one_le_numeral power_increasing)
    then have "a div 2 ^ j = 0" using assms(1) by simp
    then show ?thesis by (simp add: bit_iff_odd)
  qed
  then have hk: "\<not> bit a k" by blast
  have "\<not> bit a j \<or> \<not> bit (2 ^ k :: int) j" for j using hk by (cases "j = k") (simp_all add: bit_exp_iff)
  then have e: "a + 2 ^ k = a OR 2 ^ k" by (rule disjunctive_add)
  show ?thesis
    unfolding e by (rule bit_eqI) (use hk in \<open>auto simp: bit_and_iff bit_or_iff bit_not_iff bit_exp_iff\<close>)
qed

lemma serialize_cases:
  fixes n :: int
  assumes "n \<noteq> 0"
  defines "D \<equiv> le_digits (nat \<bar>n\<bar>)"
  shows "D \<noteq> []" "last D \<noteq> 0" "le_int D = \<bar>n\<bar>"
    "ScriptNum_serialize n = (if last D AND 0x80 \<noteq> 0 then D @ [if n < 0 then 0x80 else 0]
       else if n < 0 then butlast D @ [last D OR 0x80] else D)"
  using le_digits_last [of "nat \<bar>n\<bar>"] assms(1) le_int_digits [of "nat \<bar>n\<bar>"]
  by (simp_all add: D_def ScriptNum_serialize_def Let_def)

lemma set_vch_high:
  assumes "last (xs @ [b]) AND 0x80 \<noteq> 0"
  shows "set_vch (xs @ [b]) = - (le_int xs + 256 ^ length xs * (uint b - 128))"
proof -
  have b: "128 \<le> uint b" "uint b < 256" using assms byte_high [of b] uint_bounded [of b] by simp_all
  have p: "push_bit (8 * length xs) (0x80 :: int) = 2 ^ (8 * length xs + 7)"
    by (simp add: push_bit_eq_mult power_add)
  have e: "(256::int) ^ length xs = 2 ^ (8 * length xs)" by (simp add: power_mult)
  define a where "a = le_int xs + 256 ^ length xs * (uint b - 128)"
  have "le_int (xs @ [b]) = a + 2 ^ (8 * length xs + 7)"
    unfolding a_def le_int_append by (simp add: e power_add algebra_simps)
  moreover have "0 \<le> a" using b le_int_bounds(1) [of xs] by (simp add: a_def)
  moreover have "a < 2 ^ (8 * length xs + 7)"
  proof -
    define P :: int where "P = 256 ^ length xs"
    have "uint b - 128 \<le> 127" "0 < P" using b by (simp_all add: P_def)
    then have "P * (uint b - 128) \<le> P * 127" by (intro mult_left_mono) simp_all
    moreover have "le_int xs < P" unfolding P_def by (rule le_int_bounds)
    ultimately have "a < P * 128" unfolding a_def P_def [symmetric] by linarith
    then show ?thesis by (simp add: P_def e power_add)
  qed
  ultimately have "le_int (xs @ [b]) AND NOT (push_bit (8 * length xs) 0x80) = a"
    unfolding p using and_not_bit by metis
  then show ?thesis using assms by (simp add: set_vch_def a_def)
qed

lemma set_vch_serialize: "set_vch (ScriptNum_serialize n) = n"
proof (cases "n = 0")
  case True
  then show ?thesis by (simp add: ScriptNum_serialize_def set_vch_def)
next
  case False
  define D where "D = le_digits (nat \<bar>n\<bar>)"
  note D = serialize_cases [OF False, folded D_def]
  have last: "D = butlast D @ [last D]" using D(1) by simp
  consider (long) "last D AND 0x80 \<noteq> 0" | (neg) "last D AND 0x80 = 0" "n < 0" | (pos) "last D AND 0x80 = 0" "n \<ge> 0"
    by fastforce
  then show ?thesis
  proof cases
    case long
    then show ?thesis
      using D set_vch_high [of D "0x80"] by (cases "n < 0") (simp_all add: set_vch_def le_int_append)
  next
    case neg
    have "le_int D = le_int (butlast D) + 256 ^ length (butlast D) * uint (last D)"
      by (subst last) (simp only: le_int_append le_int.simps, simp)
    moreover have h: "uint (last D OR 0x80) = uint (last D) + 128" using byte_set_high [OF neg(1)] by blast
    then have "last (butlast D @ [last D OR 0x80]) AND 0x80 \<noteq> 0" using byte_high [of "last D OR 0x80"] by simp
    then have "set_vch (butlast D @ [last D OR 0x80]) = - (le_int (butlast D) + 256 ^ length (butlast D) * (uint (last D OR 0x80) - 128))"
      by (rule set_vch_high)
    ultimately have "set_vch (butlast D @ [last D OR 0x80]) = - le_int D" unfolding h by simp
    then show ?thesis using D neg by simp
  next
    case pos
    then show ?thesis using D by (simp add: set_vch_def)
  qed
qed

lemma byte_low_zero: "(b :: u8) AND 0x7f = 0 \<longleftrightarrow> uint b = 0 \<or> uint b = 128"
proof -
  have "b AND 0x7f = 0 \<longleftrightarrow> uint b mod 128 = 0" unfolding byte_low [symmetric] by (simp only: uint_0_iff)
  moreover have "0 \<le> uint b" "uint b < 256" using uint_bounded [of b] by simp_all
  then have "uint b mod 128 = 0 \<longleftrightarrow> uint b = 0 \<or> uint b = 128" by presburger
  ultimately show ?thesis by simp
qed

definition minimal_num :: "bytes \<Rightarrow> bool" where
  "minimal_num vch \<longleftrightarrow> \<not> (length vch > 0 \<and> last vch AND 0x7f = 0 \<and> (length vch \<le> 1 \<or> vch ! (length vch - 2) AND 0x80 = 0))"

lemma minimal_num_snoc:
  "minimal_num (xs @ [b]) \<longleftrightarrow> b AND 0x7f \<noteq> 0 \<or> (xs \<noteq> [] \<and> last xs AND 0x80 \<noteq> 0)"
proof -
  have "(xs @ [b]) ! (length (xs @ [b]) - 2) = last xs" if "xs \<noteq> []"
    using that by (simp add: nth_append last_conv_nth numeral_2_eq_2)
  then show ?thesis by (cases "xs = []") (auto simp: minimal_num_def)
qed

lemma minimal_serialize: "minimal_num (ScriptNum_serialize n)"
proof (cases "n = 0")
  case True
  then show ?thesis by (simp add: ScriptNum_serialize_def minimal_num_def)
next
  case False
  define D where "D = le_digits (nat \<bar>n\<bar>)"
  note D = serialize_cases [OF False, folded D_def]
  have last: "D = butlast D @ [last D]" using D(1) by simp
  have u: "0 < uint (last D)" using D(2) uint_bounded [of "last D"] by (metis uint_0_iff order_le_less uint_ge_0)
  show ?thesis
  proof (cases "last D AND 0x80 = 0")
    case True
    then have "uint (last D) < 128" using byte_high by force
    then have "last D AND 0x7f \<noteq> 0" "(last D OR 0x80) AND 0x7f \<noteq> 0"
      using u byte_low_zero [of "last D"] byte_low_zero [of "last D OR 0x80"] byte_set_high [OF True] by auto
    moreover have "minimal_num D \<longleftrightarrow> minimal_num (butlast D @ [last D])" using last by simp
    ultimately show ?thesis using D(4) True by (auto simp: minimal_num_snoc)
  next
    case False
    then show ?thesis using D by (simp add: minimal_num_snoc)
  qed
qed

lemma length_serialize: "\<bar>n\<bar> < 128 * 256 ^ k \<Longrightarrow> length (ScriptNum_serialize n) \<le> Suc k"
proof (cases "n = 0")
  case False
  assume n: "\<bar>n\<bar> < 128 * 256 ^ k"
  define D where "D = le_digits (nat \<bar>n\<bar>)"
  note D = serialize_cases [OF False, folded D_def]
  have "\<bar>n\<bar> < 256 ^ Suc k" using n by simp
  then have "nat \<bar>n\<bar> < 256 ^ Suc k" by (simp add: nat_less_iff)
  then have len: "length D \<le> Suc k" unfolding D_def by (rule length_le_digits)
  have "length D \<le> k" if "last D AND 0x80 \<noteq> 0"
  proof (rule ccontr)
    assume "\<not> length D \<le> k"
    then have l: "length (butlast D) = k" using len by simp
    have "D = butlast D @ [last D]" using D(1) by simp
    then have "le_int D = le_int (butlast D) + 256 ^ k * uint (last D)" using l by (metis le_int_append le_int.simps mult_zero_right add.right_neutral)
    moreover have "(256::int) ^ k * 128 \<le> 256 ^ k * uint (last D)" using that byte_high by (intro mult_left_mono) auto
    ultimately have "256 ^ k * 128 \<le> \<bar>n\<bar>" using le_int_bounds(1) [of "butlast D"] D(3) by linarith
    then show False using n by simp
  qed
  then show ?thesis using D len by auto
qed (simp add: ScriptNum_serialize_def)

lemma serialize_of_digits:
  assumes "xs \<noteq> []" "last xs \<noteq> 0" "\<bar>n\<bar> = le_int xs"
  shows "n \<noteq> 0" "ScriptNum_serialize n = (if last xs AND 0x80 \<noteq> 0 then xs @ [if n < 0 then 0x80 else 0]
       else if n < 0 then butlast xs @ [last xs OR 0x80] else xs)"
proof -
  have d: "le_digits (nat \<bar>n\<bar>) = xs" unfolding assms(3) using assms(2) by (intro le_digits_of_int disjI2)
  show "n \<noteq> 0" using d assms(1) by auto
  then show "ScriptNum_serialize n = (if last xs AND 0x80 \<noteq> 0 then xs @ [if n < 0 then 0x80 else 0]
       else if n < 0 then butlast xs @ [last xs OR 0x80] else xs)"
    using serialize_cases(4) [of n] unfolding d by blast
qed

lemma le_int_pos: "xs \<noteq> [] \<Longrightarrow> last xs \<noteq> 0 \<Longrightarrow> 0 < le_int xs"
  using le_digits_of_int [of xs] le_int_bounds(1) [of xs] by (cases "le_int xs = 0") auto

lemma mod_128_high: "128 \<le> x \<Longrightarrow> x < 256 \<Longrightarrow> x mod 128 = x - (128::int)"
  by presburger

lemma serialize_set_vch_short:
  assumes "uint b \<noteq> 0" "uint b \<noteq> 128"
  shows "ScriptNum_serialize (set_vch (xs @ [b])) = xs @ [b]"
proof (cases "b AND 0x80 = 0")
  case True
  have "b \<noteq> 0" using assms by auto
  then show ?thesis
    using serialize_of_digits(2) [of "xs @ [b]" "le_int (xs @ [b])"] le_int_pos [of "xs @ [b]"] True by (simp add: set_vch_def)
next
  case False
  then have hb: "128 \<le> uint b" using byte_high by blast
  define c where "c = b AND 0x7f"
  have c: "uint c = uint b - 128"
    unfolding c_def byte_low using hb uint_bounded [of b] by (intro mod_128_high) simp_all
  then have c0: "c \<noteq> 0" using assms by auto
  have "c AND 0x80 = 0" using byte_high [of c] c uint_bounded [of b] by force
  then have again: "c OR 0x80 = b" using byte_set_high [of c] c by (simp add: word_uint_eq_iff)
  have v: "set_vch (xs @ [b]) = - le_int (xs @ [c])"
    using set_vch_high [of xs b] False by (simp add: c le_int_append)
  then have "set_vch (xs @ [b]) < 0" using le_int_pos [of "xs @ [c]"] c0 by simp
  then show ?thesis
    using serialize_of_digits(2) [of "xs @ [c]" "set_vch (xs @ [b])"] v c0 \<open>c AND 0x80 = 0\<close> again le_int_bounds(1) [of "xs @ [c]"] by simp
qed

lemma serialize_set_vch: "minimal_num vch \<Longrightarrow> ScriptNum_serialize (set_vch vch) = vch"
proof (cases vch rule: rev_cases)
  case Nil
  then show ?thesis by (simp add: set_vch_def ScriptNum_serialize_def)
next
  case (snoc xs b)
  assume "minimal_num vch"
  show ?thesis
  proof (cases "uint b = 0 \<or> uint b = 128")
    case False
    then show ?thesis using serialize_set_vch_short [of b xs] snoc by blast
  next
    case True
    then have xs: "xs \<noteq> []" "last xs AND 0x80 \<noteq> 0"
      using \<open>minimal_num vch\<close> snoc byte_low_zero [of b] by (auto simp: minimal_num_snoc)
    then have l0: "last xs \<noteq> 0" by auto
    consider "b = 0" | "b = 0x80" using True by (auto simp: word_uint_eq_iff)
    then show ?thesis
    proof cases
      case 1
      then show ?thesis
        using serialize_of_digits(2) [OF xs(1) l0, of "le_int xs"] le_int_pos [OF xs(1) l0] xs snoc by (simp add: set_vch_def le_int_append)
    next
      case 2
      then have "set_vch (xs @ [b]) = - le_int xs" using set_vch_high [of xs b] by simp
      then show ?thesis
        using serialize_of_digits(2) [OF xs(1) l0, of "- le_int xs"] le_int_pos [OF xs(1) l0] xs snoc 2 by simp
    qed
  qed
qed

subsection \<open>Property\<close>

text \<open>Script numbers round-trip: a value below 2^31 is written in at most four bytes that are read back to it
  even when minimal encoding is required, and then the minimal form is the only accepted one: what is
  accepted is what the value is written as.\<close>

theorem CScriptNum_roundtrip:
  "(\<bar>n\<bar> < 2 ^ 31 \<longrightarrow> CScriptNum (ScriptNum_serialize n) True 4 = Inr n)
   \<and> (CScriptNum vch True nMax = Inr k \<longrightarrow> ScriptNum_serialize k = vch \<and> length vch \<le> nMax)"
proof -
  have c: "CScriptNum v True m = (if length v \<le> m \<and> minimal_num v then Inr (set_vch v) else Inl SCRIPT_ERR_UNKNOWN_ERROR)" for v m
    by (auto simp: CScriptNum_def minimal_num_def)
  have "\<bar>n\<bar> < 2 ^ 31 \<Longrightarrow> CScriptNum (ScriptNum_serialize n) True 4 = Inr n"
    using length_serialize [of n 3] by (simp add: c minimal_serialize set_vch_serialize)
  moreover have "CScriptNum vch True nMax = Inr k \<Longrightarrow> ScriptNum_serialize k = vch \<and> length vch \<le> nMax"
    by (auto simp: c serialize_set_vch split: if_splits)
  ultimately show ?thesis by blast
qed

theorem CScriptNum_roundtrip_witness:
  "CScriptNum (ScriptNum_serialize (- 255)) True 4 = Inr (- 255) \<and> ScriptNum_serialize (- 255) = [0xff, 0x80]"
proof -
  have "CScriptNum [0xff, 0x80] True 4 = Inr (- 255)" by (simp add: CScriptNum_def set_vch_def)
  then show ?thesis using CScriptNum_roundtrip [of "- 255" "[0xff, 0x80]" 4 "- 255"] by simp
qed

end
