(* ===== verification/Interpreter.thy ===== *)
theory Interpreter
  imports Script
begin

text \<open>
  The script interpreter, \<open>src/src/script/interpreter.cpp\<close>: \<open>EvalScript\<close> with every opcode, the encoding
  checks, and \<open>VerifyScript\<close>.  The stacks are lists with their top first (\<open>stacktop(-1)\<close> is the head), as
  is \<open>vfExec\<close>.  The signature checker is an argument, because it is a virtual interface over the
  transaction and the secp256k1 library; so is \<open>CPubKey::CheckLowS\<close>.  A failing evaluation is Inl of
  the script error; an exception inside the evaluation is \<open>SCRIPT_ERR_UNKNOWN_ERROR\<close>, as in the code's catch.
  The asserts of the number arithmetic cannot fail because operands have at most four bytes.
\<close>

unbundle bit_operations_syntax

type_synonym valtype = bytes

datatype SigVersion = SIGVERSION_BASE | SIGVERSION_WITNESS_V0

record BaseSignatureChecker =
  CheckSig :: "bytes \<Rightarrow> bytes \<Rightarrow> CScript \<Rightarrow> SigVersion \<Rightarrow> bool"
  CheckLockTime :: "int \<Rightarrow> bool"
  CheckSequence :: "int \<Rightarrow> bool"
  CheckLowS :: "bytes \<Rightarrow> bool"

abbreviation SCRIPT_VERIFY_P2SH :: u32 where "SCRIPT_VERIFY_P2SH \<equiv> 0x1"
abbreviation SCRIPT_VERIFY_STRICTENC :: u32 where "SCRIPT_VERIFY_STRICTENC \<equiv> 0x2"
abbreviation SCRIPT_VERIFY_DERSIG :: u32 where "SCRIPT_VERIFY_DERSIG \<equiv> 0x4"
abbreviation SCRIPT_VERIFY_LOW_S :: u32 where "SCRIPT_VERIFY_LOW_S \<equiv> 0x8"
abbreviation SCRIPT_VERIFY_NULLDUMMY :: u32 where "SCRIPT_VERIFY_NULLDUMMY \<equiv> 0x10"
abbreviation SCRIPT_VERIFY_SIGPUSHONLY :: u32 where "SCRIPT_VERIFY_SIGPUSHONLY \<equiv> 0x20"
abbreviation SCRIPT_VERIFY_MINIMALDATA :: u32 where "SCRIPT_VERIFY_MINIMALDATA \<equiv> 0x40"
abbreviation SCRIPT_VERIFY_DISCOURAGE_UPGRADABLE_NOPS :: u32 where "SCRIPT_VERIFY_DISCOURAGE_UPGRADABLE_NOPS \<equiv> 0x80"
abbreviation SCRIPT_VERIFY_CLEANSTACK :: u32 where "SCRIPT_VERIFY_CLEANSTACK \<equiv> 0x100"
abbreviation SCRIPT_VERIFY_CHECKLOCKTIMEVERIFY :: u32 where "SCRIPT_VERIFY_CHECKLOCKTIMEVERIFY \<equiv> 0x200"
abbreviation SCRIPT_VERIFY_CHECKSEQUENCEVERIFY :: u32 where "SCRIPT_VERIFY_CHECKSEQUENCEVERIFY \<equiv> 0x400"
abbreviation SCRIPT_VERIFY_WITNESS :: u32 where "SCRIPT_VERIFY_WITNESS \<equiv> 0x800"
abbreviation SCRIPT_VERIFY_DISCOURAGE_UPGRADABLE_WITNESS_PROGRAM :: u32 where
  "SCRIPT_VERIFY_DISCOURAGE_UPGRADABLE_WITNESS_PROGRAM \<equiv> 0x1000"
abbreviation SCRIPT_VERIFY_MINIMALIF :: u32 where "SCRIPT_VERIFY_MINIMALIF \<equiv> 0x2000"
abbreviation SCRIPT_VERIFY_NULLFAIL :: u32 where "SCRIPT_VERIFY_NULLFAIL \<equiv> 0x4000"
abbreviation SCRIPT_VERIFY_WITNESS_PUBKEYTYPE :: u32 where "SCRIPT_VERIFY_WITNESS_PUBKEYTYPE \<equiv> 0x8000"

definition flag :: "u32 \<Rightarrow> u32 \<Rightarrow> bool" where
  "flag flags f \<longleftrightarrow> flags AND f \<noteq> 0"

definition bind_res :: "'a res \<Rightarrow> ('a \<Rightarrow> 'b res) \<Rightarrow> 'b res" where
  "bind_res r f = (case r of Inl e \<Rightarrow> Inl e | Inr x \<Rightarrow> f x)"

subsection \<open>Encodings\<close>

fun CastToBool :: "valtype \<Rightarrow> bool" where
  "CastToBool [] = False"
| "CastToBool (b # bs) = (if b \<noteq> 0 then \<not> (bs = [] \<and> b = 0x80) else CastToBool bs)"

definition IsCompressedOrUncompressedPubKey :: "bytes \<Rightarrow> bool" where
  "IsCompressedOrUncompressedPubKey k =
     (if length k < 33 then False
      else if k ! 0 = 0x04 then length k = 65
      else if k ! 0 = 0x02 \<or> k ! 0 = 0x03 then length k = 33
      else False)"

definition IsCompressedPubKey :: "bytes \<Rightarrow> bool" where
  "IsCompressedPubKey k = (if length k \<noteq> 33 then False else if k ! 0 \<noteq> 0x02 \<and> k ! 0 \<noteq> 0x03 then False else True)"

definition IsValidSignatureEncoding :: "bytes \<Rightarrow> bool" where
  "IsValidSignatureEncoding sig =
     (if length sig < 9 then False
      else if length sig > 73 then False
      else if sig ! 0 \<noteq> 0x30 then False
      else if unat (sig ! 1) \<noteq> length sig - 3 then False
      else let lenR = unat (sig ! 3)
      in if 5 + lenR \<ge> length sig then False
      else let lenS = unat (sig ! (5 + lenR))
      in if lenR + lenS + 7 \<noteq> length sig then False
      else if sig ! 2 \<noteq> 0x02 then False
      else if lenR = 0 then False
      else if sig ! 4 AND 0x80 \<noteq> 0 then False
      else if lenR > 1 \<and> sig ! 4 = 0 \<and> sig ! 5 AND 0x80 = 0 then False
      else if sig ! (lenR + 4) \<noteq> 0x02 then False
      else if lenS = 0 then False
      else if sig ! (lenR + 6) AND 0x80 \<noteq> 0 then False
      else if lenS > 1 \<and> sig ! (lenR + 6) = 0 \<and> sig ! (lenR + 7) AND 0x80 = 0 then False
      else True)"

definition IsLowDERSignature :: "BaseSignatureChecker \<Rightarrow> bytes \<Rightarrow> unit res" where
  "IsLowDERSignature checker vchSig =
     (if \<not> IsValidSignatureEncoding vchSig then Inl SCRIPT_ERR_SIG_DER
      else if \<not> CheckLowS checker (butlast vchSig) then Inl SCRIPT_ERR_SIG_HIGH_S
      else Inr ())"

definition IsDefinedHashtypeSignature :: "bytes \<Rightarrow> bool" where
  "IsDefinedHashtypeSignature vchSig =
     (if length vchSig = 0 then False
      else let nHashType = last vchSig AND NOT 0x80 in \<not> (nHashType < 1 \<or> nHashType > 3))"

definition CheckSignatureEncoding :: "BaseSignatureChecker \<Rightarrow> bytes \<Rightarrow> u32 \<Rightarrow> unit res" where
  "CheckSignatureEncoding checker vchSig flags =
     (if length vchSig = 0 then Inr ()
      else if flag flags (SCRIPT_VERIFY_DERSIG OR SCRIPT_VERIFY_LOW_S OR SCRIPT_VERIFY_STRICTENC) \<and> \<not> IsValidSignatureEncoding vchSig
      then Inl SCRIPT_ERR_SIG_DER
      else if flag flags SCRIPT_VERIFY_LOW_S \<and> IsLowDERSignature checker vchSig \<noteq> Inr () then IsLowDERSignature checker vchSig
      else if flag flags SCRIPT_VERIFY_STRICTENC \<and> \<not> IsDefinedHashtypeSignature vchSig then Inl SCRIPT_ERR_SIG_HASHTYPE
      else Inr ())"

definition CheckPubKeyEncoding :: "bytes \<Rightarrow> u32 \<Rightarrow> SigVersion \<Rightarrow> unit res" where
  "CheckPubKeyEncoding vchPubKey flags sigversion =
     (if flag flags SCRIPT_VERIFY_STRICTENC \<and> \<not> IsCompressedOrUncompressedPubKey vchPubKey then Inl SCRIPT_ERR_PUBKEYTYPE
      else if flag flags SCRIPT_VERIFY_WITNESS_PUBKEYTYPE \<and> sigversion = SIGVERSION_WITNESS_V0 \<and> \<not> IsCompressedPubKey vchPubKey
      then Inl SCRIPT_ERR_WITNESS_PUBKEYTYPE
      else Inr ())"

definition CheckMinimalPush :: "bytes \<Rightarrow> opcodetype \<Rightarrow> bool" where
  "CheckMinimalPush data opcode =
     (if length data = 0 then opcode = OP_0
      else if length data = 1 \<and> unat (hd data) \<ge> 1 \<and> unat (hd data) \<le> 16 then opcode = OP_1 + (unat (hd data) - 1)
      else if length data = 1 \<and> hd data = 0x81 then opcode = OP_1NEGATE
      else if length data \<le> 75 then opcode = length data
      else if length data \<le> 255 then opcode = OP_PUSHDATA1
      else if length data \<le> 65535 then opcode = OP_PUSHDATA2
      else True)"

subsection \<open>The machine\<close>

record estate =
  e_stack :: "valtype list"
  e_alt :: "valtype list"
  vfExec :: "bool list"
  nOpCount :: int
  codehash :: bytes

definition vchFalse :: valtype where "vchFalse = []"
definition vchTrue :: valtype where "vchTrue = [1]"

definition vch_bool :: "bool \<Rightarrow> valtype" where
  "vch_bool b = (if b then vchTrue else vchFalse)"

definition num_bool :: "bool \<Rightarrow> int" where
  "num_bool b = (if b then 1 else 0)"

text \<open>\<open>OP_CHECKLOCKTIMEVERIFY\<close> and \<open>OP_CHECKSEQUENCEVERIFY\<close>.\<close>

definition op_locktime :: "BaseSignatureChecker \<Rightarrow> u32 \<Rightarrow> opcodetype \<Rightarrow> estate \<Rightarrow> estate res" where
  "op_locktime checker flags opcode st =
     (let enabled = flag flags (if opcode = OP_CHECKLOCKTIMEVERIFY then SCRIPT_VERIFY_CHECKLOCKTIMEVERIFY else SCRIPT_VERIFY_CHECKSEQUENCEVERIFY)
      in if \<not> enabled
         then (if flag flags SCRIPT_VERIFY_DISCOURAGE_UPGRADABLE_NOPS then Inl SCRIPT_ERR_DISCOURAGE_UPGRADABLE_NOPS else Inr st)
         else case e_stack st of
           [] \<Rightarrow> Inl SCRIPT_ERR_INVALID_STACK_OPERATION
         | vch # _ \<Rightarrow>
             bind_res (CScriptNum vch (flag flags SCRIPT_VERIFY_MINIMALDATA) 5) (\<lambda>n.
               if n < 0 then Inl SCRIPT_ERR_NEGATIVE_LOCKTIME
               else if opcode = OP_CHECKLOCKTIMEVERIFY
               then (if \<not> CheckLockTime checker n then Inl SCRIPT_ERR_UNSATISFIED_LOCKTIME else Inr st)
               else if n AND 2 ^ 31 \<noteq> 0 then Inr st
               else if \<not> CheckSequence checker n then Inl SCRIPT_ERR_UNSATISFIED_LOCKTIME
               else Inr st))"

text \<open>\<open>OP_IF\<close> to \<open>OP_RETURN\<close>.\<close>

definition op_control :: "u32 \<Rightarrow> SigVersion \<Rightarrow> bool \<Rightarrow> opcodetype \<Rightarrow> estate \<Rightarrow> estate res" where
  "op_control flags sigversion fExec opcode st =
     (if opcode = OP_IF \<or> opcode = OP_NOTIF
      then (if \<not> fExec then Inr (st\<lparr>vfExec := False # vfExec st\<rparr>)
            else case e_stack st of
                [] \<Rightarrow> Inl SCRIPT_ERR_UNBALANCED_CONDITIONAL
              | vch # s \<Rightarrow>
                  if sigversion = SIGVERSION_WITNESS_V0 \<and> flag flags SCRIPT_VERIFY_MINIMALIF
                     \<and> (length vch > 1 \<or> length vch = 1 \<and> vch ! 0 \<noteq> 1)
                  then Inl SCRIPT_ERR_MINIMALIF
                  else Inr (st\<lparr>vfExec := (if opcode = OP_NOTIF then \<not> CastToBool vch else CastToBool vch) # vfExec st, e_stack := s\<rparr>))
      else if opcode = OP_ELSE
      then (case vfExec st of [] \<Rightarrow> Inl SCRIPT_ERR_UNBALANCED_CONDITIONAL | f # fs \<Rightarrow> Inr (st\<lparr>vfExec := (\<not> f) # fs\<rparr>))
      else if opcode = OP_ENDIF
      then (case vfExec st of [] \<Rightarrow> Inl SCRIPT_ERR_UNBALANCED_CONDITIONAL | f # fs \<Rightarrow> Inr (st\<lparr>vfExec := fs\<rparr>))
      else if opcode = OP_VERIFY
      then (case e_stack st of
              [] \<Rightarrow> Inl SCRIPT_ERR_INVALID_STACK_OPERATION
            | vch # s \<Rightarrow> if CastToBool vch then Inr (st\<lparr>e_stack := s\<rparr>) else Inl SCRIPT_ERR_VERIFY)
      else Inl SCRIPT_ERR_OP_RETURN)"

text \<open>The stack operations whose effect is a rearrangement: None when the stack is too short.\<close>

definition rearrange :: "opcodetype \<Rightarrow> valtype list \<Rightarrow> valtype list option" where
  "rearrange opcode s =
     (if opcode = OP_2DROP then (case s of x2 # x1 # r \<Rightarrow> Some r | _ \<Rightarrow> None)
      else if opcode = OP_2DUP then (case s of x2 # x1 # r \<Rightarrow> Some (x2 # x1 # x2 # x1 # r) | _ \<Rightarrow> None)
      else if opcode = OP_3DUP then (case s of x3 # x2 # x1 # r \<Rightarrow> Some (x3 # x2 # x1 # x3 # x2 # x1 # r) | _ \<Rightarrow> None)
      else if opcode = OP_2OVER then (case s of x4 # x3 # x2 # x1 # r \<Rightarrow> Some (x2 # x1 # x4 # x3 # x2 # x1 # r) | _ \<Rightarrow> None)
      else if opcode = OP_2ROT then (case s of x6 # x5 # x4 # x3 # x2 # x1 # r \<Rightarrow> Some (x2 # x1 # x6 # x5 # x4 # x3 # r) | _ \<Rightarrow> None)
      else if opcode = OP_2SWAP then (case s of x4 # x3 # x2 # x1 # r \<Rightarrow> Some (x2 # x1 # x4 # x3 # r) | _ \<Rightarrow> None)
      else if opcode = OP_IFDUP then (case s of x # r \<Rightarrow> Some (if CastToBool x then x # x # r else x # r) | _ \<Rightarrow> None)
      else if opcode = OP_DEPTH then Some (ScriptNum_serialize (int (length s)) # s)
      else if opcode = OP_DROP then (case s of x # r \<Rightarrow> Some r | _ \<Rightarrow> None)
      else if opcode = OP_DUP then (case s of x # r \<Rightarrow> Some (x # x # r) | _ \<Rightarrow> None)
      else if opcode = OP_NIP then (case s of x2 # x1 # r \<Rightarrow> Some (x2 # r) | _ \<Rightarrow> None)
      else if opcode = OP_OVER then (case s of x2 # x1 # r \<Rightarrow> Some (x1 # x2 # x1 # r) | _ \<Rightarrow> None)
      else if opcode = OP_ROT then (case s of x3 # x2 # x1 # r \<Rightarrow> Some (x1 # x3 # x2 # r) | _ \<Rightarrow> None)
      else if opcode = OP_SWAP then (case s of x2 # x1 # r \<Rightarrow> Some (x1 # x2 # r) | _ \<Rightarrow> None)
      else if opcode = OP_TUCK then (case s of x2 # x1 # r \<Rightarrow> Some (x2 # x1 # x2 # r) | _ \<Rightarrow> None)
      else (case s of x # r \<Rightarrow> Some (ScriptNum_serialize (int (length x)) # x # r) | _ \<Rightarrow> None))"

definition op_stack :: "opcodetype \<Rightarrow> bool \<Rightarrow> estate \<Rightarrow> estate res" where
  "op_stack opcode fRequireMinimal st =
     (if opcode = OP_TOALTSTACK
      then (case e_stack st of [] \<Rightarrow> Inl SCRIPT_ERR_INVALID_STACK_OPERATION
            | x # s \<Rightarrow> Inr (st\<lparr>e_alt := x # e_alt st, e_stack := s\<rparr>))
      else if opcode = OP_FROMALTSTACK
      then (case e_alt st of [] \<Rightarrow> Inl SCRIPT_ERR_INVALID_ALTSTACK_OPERATION
            | x # a \<Rightarrow> Inr (st\<lparr>e_stack := x # e_stack st, e_alt := a\<rparr>))
      else if opcode = OP_PICK \<or> opcode = OP_ROLL
      then (if length (e_stack st) < 2 then Inl SCRIPT_ERR_INVALID_STACK_OPERATION
            else bind_res (CScriptNum (hd (e_stack st)) fRequireMinimal 4) (\<lambda>bn.
              let n = getint bn; s = tl (e_stack st)
              in if n < 0 \<or> n \<ge> int (length s) then Inl SCRIPT_ERR_INVALID_STACK_OPERATION
                 else let vch = s ! nat n
                 in Inr (st\<lparr>e_stack := vch # (if opcode = OP_ROLL then take (nat n) s @ drop (nat n + 1) s else s)\<rparr>)))
      else (case rearrange opcode (e_stack st) of None \<Rightarrow> Inl SCRIPT_ERR_INVALID_STACK_OPERATION
            | Some s \<Rightarrow> Inr (st\<lparr>e_stack := s\<rparr>)))"

definition op_equal :: "opcodetype \<Rightarrow> estate \<Rightarrow> estate res" where
  "op_equal opcode st =
     (case e_stack st of
        vch2 # vch1 # s \<Rightarrow>
          let fEqual = (vch1 = vch2)
          in if opcode = OP_EQUALVERIFY
             then (if fEqual then Inr (st\<lparr>e_stack := s\<rparr>) else Inl SCRIPT_ERR_EQUALVERIFY)
             else Inr (st\<lparr>e_stack := vch_bool fEqual # s\<rparr>)
      | _ \<Rightarrow> Inl SCRIPT_ERR_INVALID_STACK_OPERATION)"

definition unary_num :: "opcodetype \<Rightarrow> int \<Rightarrow> int" where
  "unary_num opcode bn =
     (if opcode = OP_1ADD then bn + 1
      else if opcode = OP_1SUB then bn - 1
      else if opcode = OP_NEGATE then - bn
      else if opcode = OP_ABS then (if bn < 0 then - bn else bn)
      else if opcode = OP_NOT then num_bool (bn = 0)
      else num_bool (bn \<noteq> 0))"

definition op_unary :: "opcodetype \<Rightarrow> bool \<Rightarrow> estate \<Rightarrow> estate res" where
  "op_unary opcode fRequireMinimal st =
     (case e_stack st of
        [] \<Rightarrow> Inl SCRIPT_ERR_INVALID_STACK_OPERATION
      | x # s \<Rightarrow> bind_res (CScriptNum x fRequireMinimal 4) (\<lambda>bn.
          Inr (st\<lparr>e_stack := ScriptNum_serialize (unary_num opcode bn) # s\<rparr>)))"

definition binary_num :: "opcodetype \<Rightarrow> int \<Rightarrow> int \<Rightarrow> int" where
  "binary_num opcode bn1 bn2 =
     (if opcode = OP_ADD then bn1 + bn2
      else if opcode = OP_SUB then bn1 - bn2
      else if opcode = OP_BOOLAND then num_bool (bn1 \<noteq> 0 \<and> bn2 \<noteq> 0)
      else if opcode = OP_BOOLOR then num_bool (bn1 \<noteq> 0 \<or> bn2 \<noteq> 0)
      else if opcode = OP_NUMEQUAL then num_bool (bn1 = bn2)
      else if opcode = OP_NUMEQUALVERIFY then num_bool (bn1 = bn2)
      else if opcode = OP_NUMNOTEQUAL then num_bool (bn1 \<noteq> bn2)
      else if opcode = OP_LESSTHAN then num_bool (bn1 < bn2)
      else if opcode = OP_GREATERTHAN then num_bool (bn1 > bn2)
      else if opcode = OP_LESSTHANOREQUAL then num_bool (bn1 \<le> bn2)
      else if opcode = OP_GREATERTHANOREQUAL then num_bool (bn1 \<ge> bn2)
      else if opcode = OP_MIN then (if bn1 < bn2 then bn1 else bn2)
      else (if bn1 > bn2 then bn1 else bn2))"

definition op_binary :: "opcodetype \<Rightarrow> bool \<Rightarrow> estate \<Rightarrow> estate res" where
  "op_binary opcode fRequireMinimal st =
     (case e_stack st of
        x2 # x1 # s \<Rightarrow>
          bind_res (CScriptNum x1 fRequireMinimal 4) (\<lambda>bn1.
          bind_res (CScriptNum x2 fRequireMinimal 4) (\<lambda>bn2.
            let res = ScriptNum_serialize (binary_num opcode bn1 bn2)
            in if opcode = OP_NUMEQUALVERIFY
               then (if CastToBool res then Inr (st\<lparr>e_stack := s\<rparr>) else Inl SCRIPT_ERR_NUMEQUALVERIFY)
               else Inr (st\<lparr>e_stack := res # s\<rparr>)))
      | _ \<Rightarrow> Inl SCRIPT_ERR_INVALID_STACK_OPERATION)"

definition op_within :: "bool \<Rightarrow> estate \<Rightarrow> estate res" where
  "op_within fRequireMinimal st =
     (case e_stack st of
        x3 # x2 # x1 # s \<Rightarrow>
          bind_res (CScriptNum x1 fRequireMinimal 4) (\<lambda>bn1.
          bind_res (CScriptNum x2 fRequireMinimal 4) (\<lambda>bn2.
          bind_res (CScriptNum x3 fRequireMinimal 4) (\<lambda>bn3.
            Inr (st\<lparr>e_stack := vch_bool (bn2 \<le> bn1 \<and> bn1 < bn3) # s\<rparr>))))
      | _ \<Rightarrow> Inl SCRIPT_ERR_INVALID_STACK_OPERATION)"

definition op_hash :: "opcodetype \<Rightarrow> estate \<Rightarrow> estate res" where
  "op_hash opcode st =
     (case e_stack st of
        [] \<Rightarrow> Inl SCRIPT_ERR_INVALID_STACK_OPERATION
      | vch # s \<Rightarrow>
          let vchHash = (if opcode = OP_RIPEMD160 then fst (CRIPEMD160_Finalize (CRIPEMD160_Write vch CRIPEMD160))
                         else if opcode = OP_SHA1 then fst (CSHA1_Finalize (CSHA1_Write vch CSHA1))
                         else if opcode = OP_SHA256 then fst (CSHA256_Finalize (CSHA256_Write vch CSHA256))
                         else if opcode = OP_HASH160 then fst (CHash160_Finalize (CSHA256_Write vch CSHA256))
                         else fst (CHash256_Finalize (CSHA256_Write vch CSHA256)))
          in Inr (st\<lparr>e_stack := vchHash # s\<rparr>))"

subsection \<open>Signatures\<close>

definition drop_sig :: "SigVersion \<Rightarrow> bytes \<Rightarrow> CScript \<Rightarrow> CScript" where
  "drop_sig sigversion vchSig scriptCode =
     (if sigversion = SIGVERSION_BASE then fst (FindAndDelete scriptCode (push_bytes vchSig)) else scriptCode)"

definition check_encodings :: "BaseSignatureChecker \<Rightarrow> u32 \<Rightarrow> SigVersion \<Rightarrow> bytes \<Rightarrow> bytes \<Rightarrow> unit res" where
  "check_encodings checker flags sigversion vchSig vchPubKey =
     bind_res (CheckSignatureEncoding checker vchSig flags) (\<lambda>_. CheckPubKeyEncoding vchPubKey flags sigversion)"

definition op_checksig :: "BaseSignatureChecker \<Rightarrow> u32 \<Rightarrow> SigVersion \<Rightarrow> opcodetype \<Rightarrow> estate \<Rightarrow> estate res" where
  "op_checksig checker flags sigversion opcode st =
     (case e_stack st of
        vchPubKey # vchSig # s \<Rightarrow>
          let scriptCode = drop_sig sigversion vchSig (codehash st)
          in bind_res (check_encodings checker flags sigversion vchSig vchPubKey) (\<lambda>_.
             let fSuccess = CheckSig checker vchSig vchPubKey scriptCode sigversion
             in if \<not> fSuccess \<and> flag flags SCRIPT_VERIFY_NULLFAIL \<and> length vchSig > 0 then Inl SCRIPT_ERR_SIG_NULLFAIL
                else if opcode = OP_CHECKSIGVERIFY
                then (if fSuccess then Inr (st\<lparr>e_stack := s\<rparr>) else Inl SCRIPT_ERR_CHECKSIGVERIFY)
                else Inr (st\<lparr>e_stack := vch_bool fSuccess # s\<rparr>))
      | _ \<Rightarrow> Inl SCRIPT_ERR_INVALID_STACK_OPERATION)"

text \<open>The matching loop: signatures and keys still to go.  The case of signatures without keys is excluded by
  the caller's count check and by the early exit.\<close>

fun multisig_loop :: "BaseSignatureChecker \<Rightarrow> u32 \<Rightarrow> SigVersion \<Rightarrow> CScript \<Rightarrow> bytes list \<Rightarrow> bytes list \<Rightarrow> bool res" where
  "multisig_loop checker flags sigversion scriptCode [] keys = Inr True"
| "multisig_loop checker flags sigversion scriptCode (vchSig # sigs) [] = Inr False"
| "multisig_loop checker flags sigversion scriptCode (vchSig # sigs) (vchPubKey # keys) =
     bind_res (check_encodings checker flags sigversion vchSig vchPubKey) (\<lambda>_.
       let fOk = CheckSig checker vchSig vchPubKey scriptCode sigversion;
           rest = (if fOk then sigs else vchSig # sigs)
       in if length rest > length keys then Inr False else multisig_loop checker flags sigversion scriptCode rest keys)"

fun multisig_cleanup :: "bool \<Rightarrow> nat \<Rightarrow> nat \<Rightarrow> valtype list \<Rightarrow> valtype list res" where
  "multisig_cleanup nullfail 0 ikey2 s = Inr s"
| "multisig_cleanup nullfail (Suc i) ikey2 [] = Inl SCRIPT_ERR_UNKNOWN_ERROR"
| "multisig_cleanup nullfail (Suc i) ikey2 (x # s) =
     (if nullfail \<and> ikey2 = 0 \<and> length x > 0 then Inl SCRIPT_ERR_SIG_NULLFAIL else multisig_cleanup nullfail i (ikey2 - 1) s)"

definition multisig_finish :: "u32 \<Rightarrow> opcodetype \<Rightarrow> bool \<Rightarrow> estate \<Rightarrow> valtype list \<Rightarrow> estate res" where
  "multisig_finish flags opcode fSuccess st s =
     (case s of
        [] \<Rightarrow> Inl SCRIPT_ERR_INVALID_STACK_OPERATION
      | dummy # s \<Rightarrow>
          if flag flags SCRIPT_VERIFY_NULLDUMMY \<and> length dummy > 0 then Inl SCRIPT_ERR_SIG_NULLDUMMY
          else if opcode = OP_CHECKMULTISIGVERIFY
          then (if fSuccess then Inr (st\<lparr>e_stack := s\<rparr>) else Inl SCRIPT_ERR_CHECKMULTISIGVERIFY)
          else Inr (st\<lparr>e_stack := vch_bool fSuccess # s\<rparr>))"

definition op_checkmultisig :: "BaseSignatureChecker \<Rightarrow> u32 \<Rightarrow> SigVersion \<Rightarrow> opcodetype \<Rightarrow> estate \<Rightarrow> estate res" where
  "op_checkmultisig checker flags sigversion opcode st =
     (let s = e_stack st; fRequireMinimal = flag flags SCRIPT_VERIFY_MINIMALDATA
      in if length s < 1 then Inl SCRIPT_ERR_INVALID_STACK_OPERATION
      else bind_res (CScriptNum (s ! 0) fRequireMinimal 4) (\<lambda>bn.
        let nKeysCount = getint bn
        in if nKeysCount < 0 \<or> nKeysCount > MAX_PUBKEYS_PER_MULTISIG then Inl SCRIPT_ERR_PUBKEY_COUNT
        else let st = st\<lparr>nOpCount := nOpCount st + nKeysCount\<rparr>; nk = nat nKeysCount
        in if nOpCount st > MAX_OPS_PER_SCRIPT then Inl SCRIPT_ERR_OP_COUNT
        else if length s < nk + 2 then Inl SCRIPT_ERR_INVALID_STACK_OPERATION
        else bind_res (CScriptNum (s ! (nk + 1)) fRequireMinimal 4) (\<lambda>bn.
          let nSigsCount = getint bn
          in if nSigsCount < 0 \<or> nSigsCount > nKeysCount then Inl SCRIPT_ERR_SIG_COUNT
          else let ns = nat nSigsCount
          in if length s < nk + 3 + ns then Inl SCRIPT_ERR_INVALID_STACK_OPERATION
          else let keys = take nk (drop 1 s); sigs = take ns (drop (nk + 2) s);
                   scriptCode = fold (drop_sig sigversion) sigs (codehash st)
          in bind_res (multisig_loop checker flags sigversion scriptCode sigs keys) (\<lambda>fSuccess.
             bind_res (multisig_cleanup (\<not> fSuccess \<and> flag flags SCRIPT_VERIFY_NULLFAIL) (nk + ns + 2) (nk + 2) s)
               (multisig_finish flags opcode fSuccess st)))))"

subsection \<open>The interpreter loop\<close>

definition disabled_opcodes :: "opcodetype list" where
  "disabled_opcodes = [OP_CAT, OP_SUBSTR, OP_LEFT, OP_RIGHT, OP_INVERT, OP_AND, OP_OR, OP_XOR, OP_2MUL, OP_2DIV,
     OP_MUL, OP_DIV, OP_MOD, OP_LSHIFT, OP_RSHIFT]"

definition eval_op :: "BaseSignatureChecker \<Rightarrow> u32 \<Rightarrow> SigVersion \<Rightarrow> bool \<Rightarrow> bytes \<Rightarrow> opcodetype \<Rightarrow> estate \<Rightarrow> estate res" where
  "eval_op checker flags sigversion fExec pc opcode st =
     (let fRequireMinimal = flag flags SCRIPT_VERIFY_MINIMALDATA
      in if opcode = OP_1NEGATE \<or> OP_1 \<le> opcode \<and> opcode \<le> OP_16
         then Inr (st\<lparr>e_stack := ScriptNum_serialize (int opcode - (int OP_1 - 1)) # e_stack st\<rparr>)
      else if opcode = OP_NOP then Inr st
      else if opcode = OP_CHECKLOCKTIMEVERIFY \<or> opcode = OP_CHECKSEQUENCEVERIFY then op_locktime checker flags opcode st
      else if opcode = OP_NOP1 \<or> OP_NOP4 \<le> opcode \<and> opcode \<le> OP_NOP10
         then (if flag flags SCRIPT_VERIFY_DISCOURAGE_UPGRADABLE_NOPS then Inl SCRIPT_ERR_DISCOURAGE_UPGRADABLE_NOPS else Inr st)
      else if opcode \<in> {OP_IF, OP_NOTIF, OP_ELSE, OP_ENDIF, OP_VERIFY, OP_RETURN} then op_control flags sigversion fExec opcode st
      else if OP_TOALTSTACK \<le> opcode \<and> opcode \<le> OP_TUCK \<or> opcode = OP_SIZE then op_stack opcode fRequireMinimal st
      else if opcode = OP_EQUAL \<or> opcode = OP_EQUALVERIFY then op_equal opcode st
      else if opcode \<in> {OP_1ADD, OP_1SUB, OP_NEGATE, OP_ABS, OP_NOT, OP_0NOTEQUAL} then op_unary opcode fRequireMinimal st
      else if opcode = OP_ADD \<or> opcode = OP_SUB \<or> OP_BOOLAND \<le> opcode \<and> opcode \<le> OP_MAX then op_binary opcode fRequireMinimal st
      else if opcode = OP_WITHIN then op_within fRequireMinimal st
      else if OP_RIPEMD160 \<le> opcode \<and> opcode \<le> OP_HASH256 then op_hash opcode st
      else if opcode = OP_CODESEPARATOR then Inr (st\<lparr>codehash := pc\<rparr>)
      else if opcode = OP_CHECKSIG \<or> opcode = OP_CHECKSIGVERIFY then op_checksig checker flags sigversion opcode st
      else if opcode = OP_CHECKMULTISIG \<or> opcode = OP_CHECKMULTISIGVERIFY then op_checkmultisig checker flags sigversion opcode st
      else Inl SCRIPT_ERR_BAD_OPCODE)"

definition eval_instr :: "BaseSignatureChecker \<Rightarrow> u32 \<Rightarrow> SigVersion \<Rightarrow> opcodetype \<Rightarrow> bytes \<Rightarrow> bytes \<Rightarrow> estate \<Rightarrow> estate res" where
  "eval_instr checker flags sigversion opcode vchPushValue pc st =
     (let fExec = (False \<notin> set (vfExec st))
      in if length vchPushValue > MAX_SCRIPT_ELEMENT_SIZE then Inl SCRIPT_ERR_PUSH_SIZE
      else let st = (if opcode > OP_16 then st\<lparr>nOpCount := nOpCount st + 1\<rparr> else st)
      in if opcode > OP_16 \<and> nOpCount st > MAX_OPS_PER_SCRIPT then Inl SCRIPT_ERR_OP_COUNT
      else if opcode \<in> set disabled_opcodes then Inl SCRIPT_ERR_DISABLED_OPCODE
      else bind_res
        (if fExec \<and> opcode \<le> OP_PUSHDATA4
         then (if flag flags SCRIPT_VERIFY_MINIMALDATA \<and> \<not> CheckMinimalPush vchPushValue opcode then Inl SCRIPT_ERR_MINIMALDATA
               else Inr (st\<lparr>e_stack := vchPushValue # e_stack st\<rparr>))
         else if fExec \<or> OP_IF \<le> opcode \<and> opcode \<le> OP_ENDIF then eval_op checker flags sigversion fExec pc opcode st
         else Inr st)
        (\<lambda>st. if length (e_stack st) + length (e_alt st) > 1000 then Inl SCRIPT_ERR_STACK_SIZE else Inr st))"

function eval_loop :: "BaseSignatureChecker \<Rightarrow> u32 \<Rightarrow> SigVersion \<Rightarrow> bytes \<Rightarrow> estate \<Rightarrow> estate res" where
  "eval_loop checker flags sigversion pc st =
     (if pc = [] then Inr st
      else case GetOp2 pc of
             None \<Rightarrow> Inl SCRIPT_ERR_BAD_OPCODE
           | Some (opcode, vchPushValue, rest) \<Rightarrow>
               (case eval_instr checker flags sigversion opcode vchPushValue rest st of
                  Inl e \<Rightarrow> Inl e
                | Inr st \<Rightarrow> eval_loop checker flags sigversion rest st))"
  by pat_completeness auto
termination
  by (relation "measure (\<lambda>(c, f, v, pc, st). length pc)") (auto dest: GetOp2_shrinks)

declare eval_loop.simps [simp del]

definition EvalScript :: "valtype list \<Rightarrow> CScript \<Rightarrow> u32 \<Rightarrow> BaseSignatureChecker \<Rightarrow> SigVersion \<Rightarrow> valtype list res" where
  "EvalScript stack script flags checker sigversion =
     (if length script > MAX_SCRIPT_SIZE then Inl SCRIPT_ERR_SCRIPT_SIZE
      else bind_res (eval_loop checker flags sigversion script
               \<lparr>e_stack = stack, e_alt = [], vfExec = [], nOpCount = 0, codehash = script\<rparr>)
             (\<lambda>st. if vfExec st \<noteq> [] then Inl SCRIPT_ERR_UNBALANCED_CONDITIONAL else Inr (e_stack st)))"

subsection \<open>Verification of an input\<close>

definition VerifyWitnessProgram :: "bytes list \<Rightarrow> nat \<Rightarrow> bytes \<Rightarrow> u32 \<Rightarrow> BaseSignatureChecker \<Rightarrow> unit res" where
  "VerifyWitnessProgram witness witversion program flags checker =
     (if witversion = 0
      then bind_res
        (if length program = 32
         then (if witness = [] then Inl SCRIPT_ERR_WITNESS_PROGRAM_WITNESS_EMPTY
               else let scriptPubKey = last witness
                    in if fst (CSHA256_Finalize (CSHA256_Write scriptPubKey CSHA256)) \<noteq> program then Inl SCRIPT_ERR_WITNESS_PROGRAM_MISMATCH
                       else Inr (scriptPubKey, butlast witness))
         else if length program = 20
         then (if length witness \<noteq> 2 then Inl SCRIPT_ERR_WITNESS_PROGRAM_MISMATCH
               else Inr ([of_nat OP_DUP, of_nat OP_HASH160] @ push_bytes program @ [of_nat OP_EQUALVERIFY, of_nat OP_CHECKSIG], witness))
         else Inl SCRIPT_ERR_WITNESS_PROGRAM_WRONG_LENGTH)
        (\<lambda>(scriptPubKey, stack).
           if list_ex (\<lambda>x. length x > MAX_SCRIPT_ELEMENT_SIZE) stack then Inl SCRIPT_ERR_PUSH_SIZE
           else bind_res (EvalScript (rev stack) scriptPubKey flags checker SIGVERSION_WITNESS_V0) (\<lambda>stack.
             if length stack \<noteq> 1 then Inl SCRIPT_ERR_EVAL_FALSE
             else if \<not> CastToBool (hd stack) then Inl SCRIPT_ERR_EVAL_FALSE
             else Inr ()))
      else if flag flags SCRIPT_VERIFY_DISCOURAGE_UPGRADABLE_WITNESS_PROGRAM then Inl SCRIPT_ERR_DISCOURAGE_UPGRADABLE_WITNESS_PROGRAM
      else Inr ())"

text \<open>An evaluation that must leave true on top, and the witness stage after it; \<open>stack.resize(1)\<close> keeps the
  bottom element.\<close>

definition eval_true :: "valtype list \<Rightarrow> CScript \<Rightarrow> u32 \<Rightarrow> BaseSignatureChecker \<Rightarrow> valtype list res" where
  "eval_true stack script flags checker =
     bind_res (EvalScript stack script flags checker SIGVERSION_BASE) (\<lambda>stack.
       if stack = [] then Inl SCRIPT_ERR_EVAL_FALSE
       else if \<not> CastToBool (hd stack) then Inl SCRIPT_ERR_EVAL_FALSE
       else Inr stack)"

definition witness_stage :: "bool \<Rightarrow> ScriptError \<Rightarrow> CScript \<Rightarrow> bytes list \<Rightarrow> u32 \<Rightarrow> BaseSignatureChecker \<Rightarrow>
    bool \<times> valtype list \<Rightarrow> (bool \<times> valtype list) res" where
  "witness_stage exact err script witness flags checker st =
     (if flag flags SCRIPT_VERIFY_WITNESS
      then case IsWitnessProgram script of
             None \<Rightarrow> Inr st
           | Some (version, program) \<Rightarrow>
               if \<not> exact then Inl err
               else bind_res (VerifyWitnessProgram witness version program flags checker) (\<lambda>_. Inr (True, [last (snd st)]))
      else Inr st)"

definition p2sh_stage :: "CScript \<Rightarrow> CScript \<Rightarrow> bytes list \<Rightarrow> u32 \<Rightarrow> BaseSignatureChecker \<Rightarrow> valtype list \<Rightarrow>
    bool \<times> valtype list \<Rightarrow> (bool \<times> valtype list) res option" where
  "p2sh_stage scriptSig scriptPubKey witness flags checker stackCopy st =
     (if flag flags SCRIPT_VERIFY_P2SH \<and> IsPayToScriptHash scriptPubKey
      then if \<not> IsPushOnly scriptSig then Some (Inl SCRIPT_ERR_SIG_PUSHONLY)
           else (case stackCopy of
                   [] \<Rightarrow> None
                 | pubKey2 # stack \<Rightarrow>
                     Some (bind_res (eval_true stack pubKey2 flags checker) (\<lambda>stack.
                       witness_stage (scriptSig = push_bytes pubKey2) SCRIPT_ERR_WITNESS_MALLEATED_P2SH pubKey2 witness flags checker (fst st, stack))))
      else Some (Inr st))"

text \<open>None is a failed assert.\<close>

definition VerifyScript :: "CScript \<Rightarrow> CScript \<Rightarrow> bytes list \<Rightarrow> u32 \<Rightarrow> BaseSignatureChecker \<Rightarrow> unit res option" where
  "VerifyScript scriptSig scriptPubKey witness flags checker =
     (if flag flags SCRIPT_VERIFY_SIGPUSHONLY \<and> \<not> IsPushOnly scriptSig then Some (Inl SCRIPT_ERR_SIG_PUSHONLY)
      else case EvalScript [] scriptSig flags checker SIGVERSION_BASE of
             Inl e \<Rightarrow> Some (Inl e)
           | Inr stackCopy \<Rightarrow>
        (case bind_res (eval_true stackCopy scriptPubKey flags checker) (\<lambda>stack.
                witness_stage (scriptSig = []) SCRIPT_ERR_WITNESS_MALLEATED scriptPubKey witness flags checker (False, stack)) of
             Inl e \<Rightarrow> Some (Inl e)
           | Inr st \<Rightarrow>
        (case p2sh_stage scriptSig scriptPubKey witness flags checker stackCopy st of
             None \<Rightarrow> None
           | Some (Inl e) \<Rightarrow> Some (Inl e)
           | Some (Inr (hadWitness, stack)) \<Rightarrow>
               if flag flags SCRIPT_VERIFY_CLEANSTACK \<and> \<not> (flag flags SCRIPT_VERIFY_P2SH \<and> flag flags SCRIPT_VERIFY_WITNESS) then None
               else if flag flags SCRIPT_VERIFY_CLEANSTACK \<and> length stack \<noteq> 1 then Some (Inl SCRIPT_ERR_CLEANSTACK)
               else if flag flags SCRIPT_VERIFY_WITNESS \<and> \<not> flag flags SCRIPT_VERIFY_P2SH then None
               else if flag flags SCRIPT_VERIFY_WITNESS \<and> \<not> hadWitness \<and> witness \<noteq> [] then Some (Inl SCRIPT_ERR_WITNESS_UNEXPECTED)
               else Some (Inr ()))))"

definition WitnessSigOps :: "nat \<Rightarrow> bytes \<Rightarrow> bytes list \<Rightarrow> nat" where
  "WitnessSigOps witversion witprogram witness =
     (if witversion = 0
      then if length witprogram = 20 then 1
           else if length witprogram = 32 \<and> length witness > 0 then GetSigOpCount (last witness) True
           else 0
      else 0)"

function last_push :: "bytes \<Rightarrow> bytes \<Rightarrow> bytes" where
  "last_push pc data = (case GetOp2 pc of None \<Rightarrow> data | Some (_, data, rest) \<Rightarrow> last_push rest data)"
  by pat_completeness auto
termination
  by (relation "measure (\<lambda>(pc, d). length pc)") (auto dest: GetOp2_shrinks)

declare last_push.simps [simp del]

definition CountWitnessSigOps :: "CScript \<Rightarrow> CScript \<Rightarrow> bytes list \<Rightarrow> u32 \<Rightarrow> nat option" where
  "CountWitnessSigOps scriptSig scriptPubKey witness flags =
     (if \<not> flag flags SCRIPT_VERIFY_WITNESS then Some 0
      else if \<not> flag flags SCRIPT_VERIFY_P2SH then None
      else case IsWitnessProgram scriptPubKey of
             Some (version, program) \<Rightarrow> Some (WitnessSigOps version program witness)
           | None \<Rightarrow>
               if IsPayToScriptHash scriptPubKey \<and> IsPushOnly scriptSig
               then (case IsWitnessProgram (last_push scriptSig []) of
                       Some (version, program) \<Rightarrow> Some (WitnessSigOps version program witness)
                     | None \<Rightarrow> Some 0)
               else Some 0)"

end
