(* ===== verification/Interpreter_Correct.thy ===== *)
theory Interpreter_Correct
  imports Interpreter "HOL-Library.Sublist"
begin

text \<open>
  What a successful evaluation implies (the consensus limits hold for every instruction, executed or
  not), and the matching that \<open>OP_CHECKMULTISIG\<close> decides.
\<close>

unbundle bit_operations_syntax

named_theorems op_defs

lemma bind_res_Inr: "bind_res r f = Inr y \<longleftrightarrow> (\<exists>x. r = Inr x \<and> f x = Inr y)"
  by (cases r) (auto simp: bind_res_def)

declare op_locktime_def [op_defs] op_control_def [op_defs] op_stack_def [op_defs] op_equal_def [op_defs]
  op_unary_def [op_defs] op_binary_def [op_defs] op_within_def [op_defs] op_hash_def [op_defs] op_checksig_def [op_defs]

text \<open>Only \<open>OP_CHECKMULTISIG\<close> counts further operations.\<close>

lemma op_count_kept:
  shows "op_locktime c f op st = Inr st' \<Longrightarrow> nOpCount st' = nOpCount st"
    "op_control f v e op st = Inr st' \<Longrightarrow> nOpCount st' = nOpCount st"
    "op_stack op m st = Inr st' \<Longrightarrow> nOpCount st' = nOpCount st"
    "op_equal op st = Inr st' \<Longrightarrow> nOpCount st' = nOpCount st"
    "op_unary op m st = Inr st' \<Longrightarrow> nOpCount st' = nOpCount st"
    "op_binary op m st = Inr st' \<Longrightarrow> nOpCount st' = nOpCount st"
    "op_within m st = Inr st' \<Longrightarrow> nOpCount st' = nOpCount st"
    "op_hash op st = Inr st' \<Longrightarrow> nOpCount st' = nOpCount st"
    "op_checksig c f v op st = Inr st' \<Longrightarrow> nOpCount st' = nOpCount st"
  by (auto simp: op_defs Let_def bind_res_Inr split: if_splits list.splits option.splits)

lemma multisig_finish_count: "multisig_finish f op ok st s = Inr st' \<Longrightarrow> nOpCount st' = nOpCount st"
  by (auto simp: multisig_finish_def split: if_splits list.splits)

lemma op_checkmultisig_count:
  "op_checkmultisig c f v op st = Inr st' \<Longrightarrow> nOpCount st \<le> nOpCount st' \<and> nOpCount st' \<le> MAX_OPS_PER_SCRIPT"
  by (auto simp: op_checkmultisig_def Let_def bind_res_Inr split: if_splits dest!: multisig_finish_count)

definition counted :: "int \<Rightarrow> estate res \<Rightarrow> bool" where
  "counted n r \<longleftrightarrow> (\<forall>st'. r = Inr st' \<longrightarrow> n \<le> nOpCount st' \<and> nOpCount st' \<le> MAX_OPS_PER_SCRIPT)"

lemma counted_if: "counted n a \<Longrightarrow> counted n b \<Longrightarrow> counted n (if c then a else b)"
  by simp

lemma counted_kept: "(\<And>st'. r = Inr st' \<Longrightarrow> nOpCount st' = n) \<Longrightarrow> n \<le> MAX_OPS_PER_SCRIPT \<Longrightarrow> counted n r"
  by (auto simp: counted_def)

lemma eval_op_counted:
  assumes "nOpCount st \<le> MAX_OPS_PER_SCRIPT"
  shows "counted (nOpCount st) (eval_op c f v e pc op st)"
  unfolding eval_op_def Let_def
proof (intro counted_if)
  show "counted (nOpCount st) (op_checkmultisig c f v op st)"
    using op_checkmultisig_count by (auto simp: counted_def)
qed (rule counted_kept [OF _ assms]; auto dest: op_count_kept)+

lemma eval_op_count:
  assumes "eval_op c f v e pc op st = Inr st'" "nOpCount st \<le> MAX_OPS_PER_SCRIPT"
  shows "nOpCount st \<le> nOpCount st' \<and> nOpCount st' \<le> MAX_OPS_PER_SCRIPT"
  using eval_op_counted [OF assms(2)] assms(1) by (simp add: counted_def)

lemma eval_instr_limits:
  assumes "eval_instr c f v op d pc st = Inr st'"
  shows "length d \<le> MAX_SCRIPT_ELEMENT_SIZE" "op \<notin> set disabled_opcodes" "length (e_stack st') + length (e_alt st') \<le> 1000"
    "nOpCount st \<le> MAX_OPS_PER_SCRIPT \<Longrightarrow> nOpCount st + (if op > OP_16 then 1 else 0) \<le> nOpCount st' \<and> nOpCount st' \<le> MAX_OPS_PER_SCRIPT"
  using assms by (auto simp: eval_instr_def Let_def bind_res_Inr split: if_splits dest!: eval_op_count)

text \<open>The instructions of a script, as the reader sees them.\<close>

function script_ops :: "CScript \<Rightarrow> (opcodetype \<times> bytes) list option" where
  "script_ops pc =
     (if pc = [] then Some []
      else case GetOp2 pc of None \<Rightarrow> None
           | Some (op, d, rest) \<Rightarrow> map_option (Cons (op, d)) (script_ops rest))"
  by pat_completeness auto
termination
  by (relation "measure length") (auto dest: GetOp2_shrinks)

declare script_ops.simps [simp del]

definition counted_ops :: "(opcodetype \<times> bytes) list \<Rightarrow> int" where
  "counted_ops ops = int (length (filter (\<lambda>(op, d). op > OP_16) ops))"

lemma eval_loop_limits:
  assumes "eval_loop c f v pc st = Inr st'" "nOpCount st \<le> MAX_OPS_PER_SCRIPT"
  shows "\<exists>ops. script_ops pc = Some ops
     \<and> list_all (\<lambda>(op, d). op \<notin> set disabled_opcodes \<and> length d \<le> MAX_SCRIPT_ELEMENT_SIZE) ops
     \<and> nOpCount st + counted_ops ops \<le> nOpCount st' \<and> nOpCount st' \<le> MAX_OPS_PER_SCRIPT
     \<and> (pc \<noteq> [] \<longrightarrow> length (e_stack st') + length (e_alt st') \<le> 1000)"
  using assms
proof (induction c f v pc st rule: eval_loop.induct)
  case (1 c f v pc st)
  show ?case
  proof (cases "pc = []")
    case True
    then show ?thesis using "1.prems" by (simp add: eval_loop.simps script_ops.simps counted_ops_def)
  next
    case False
    obtain op d rest st1 where step: "GetOp2 pc = Some (op, d, rest)" "eval_instr c f v op d rest st = Inr st1"
      "eval_loop c f v rest st1 = Inr st'"
      using "1.prems"(1) False by (subst (asm) eval_loop.simps) (auto split: option.splits sum.splits prod.splits)
    note lim = eval_instr_limits [OF step(2)]
    obtain ops where ops: "script_ops rest = Some ops"
      "list_all (\<lambda>(op, d). op \<notin> set disabled_opcodes \<and> length d \<le> MAX_SCRIPT_ELEMENT_SIZE) ops"
      "nOpCount st1 + counted_ops ops \<le> nOpCount st'" "nOpCount st' \<le> MAX_OPS_PER_SCRIPT"
      "rest \<noteq> [] \<longrightarrow> length (e_stack st') + length (e_alt st') \<le> 1000"
      using "1.IH" [OF False step(1) refl refl step(2,3)] lim(4) "1.prems"(2) by blast
    have "st' = st1" if "rest = []" using step(3) that by (simp add: eval_loop.simps)
    moreover have "script_ops pc = Some ((op, d) # ops)" using False step(1) ops(1) by (subst script_ops.simps) simp
    moreover have "nOpCount st + counted_ops ((op, d) # ops) \<le> nOpCount st'"
      using ops(3) lim(4) "1.prems"(2) by (auto simp: counted_ops_def split: if_splits)
    ultimately show ?thesis using ops lim by (cases "rest = []") auto
  qed
qed

subsection \<open>Multiple signatures\<close>

text \<open>The greedy loop decides whether the signatures can be assigned to keys in order.\<close>

lemma multisig_loop_embedding:
  assumes "\<And>s k. s \<in> set sigs \<Longrightarrow> k \<in> set keys \<Longrightarrow> check_encodings c f v s k = Inr ()" "length sigs \<le> length keys"
  shows "multisig_loop c f v code sigs keys = Inr (list_emb (\<lambda>s k. CheckSig c s k code v) sigs keys)"
  using assms
proof (induction keys arbitrary: sigs)
  case Nil
  then show ?case by simp
next
  case (Cons k keys)
  show ?case
  proof (cases sigs)
    case Nil
    then show ?thesis by simp
  next
    case (Cons s rest)
    let ?P = "\<lambda>s k. CheckSig c s k code v"
    have enc: "check_encodings c f v s k = Inr ()" using Cons.prems(1) \<open>sigs = s # rest\<close> by simp
    define left where "left = (if ?P s k then rest else s # rest)"
    have emb: "list_emb ?P sigs (k # keys) \<longleftrightarrow> list_emb ?P left keys"
      using \<open>sigs = s # rest\<close> by (simp add: left_def)
    have step: "multisig_loop c f v code sigs (k # keys)
       = (if length left > length keys then Inr False else multisig_loop c f v code left keys)"
      using \<open>sigs = s # rest\<close> enc by (simp add: bind_res_def left_def Let_def)
    show ?thesis
    proof (cases "length left > length keys")
      case True
      then have "\<not> list_emb ?P left keys" using list_emb_length [of ?P left keys] by auto
      then show ?thesis using step emb True by simp
    next
      case False
      have "multisig_loop c f v code left keys = Inr (list_emb ?P left keys)"
        using Cons.prems(1) \<open>sigs = s # rest\<close> False by (intro Cons.IH) (auto simp: left_def split: if_splits)
      then show ?thesis using step emb False by simp
    qed
  qed
qed

lemma emb_as_subseq: "list_emb P xs ys \<longleftrightarrow> (\<exists>zs. subseq zs ys \<and> list_all2 P xs zs)"
proof
  show "list_emb P xs ys \<Longrightarrow> \<exists>zs. subseq zs ys \<and> list_all2 P xs zs"
  proof (induction rule: list_emb.induct)
    case (list_emb_Nil ys)
    then show ?case by (intro exI [of _ "[]"]) simp
  next
    case (list_emb_Cons xs ys y)
    then show ?case by (meson list_emb.list_emb_Cons)
  next
    case (list_emb_Cons2 x y xs ys)
    then obtain zs where "subseq zs ys" "list_all2 P xs zs" by blast
    then show ?case using list_emb_Cons2 by (intro exI [of _ "y # zs"]) simp
  qed
  assume "\<exists>zs. subseq zs ys \<and> list_all2 P xs zs"
  then obtain zs where z: "list_emb (=) zs ys" "list_all2 P xs zs" by blast
  from z show "list_emb P xs ys"
    by (induction zs ys arbitrary: xs rule: list_emb.induct) (auto simp: list_all2_Cons2 intro: list_emb.intros)
qed

subsection \<open>Properties\<close>

text \<open>C7: Every script that evaluates successfully keeps the consensus limits, in executed and skipped branches
  alike: at most 10000 bytes, every instruction readable, no disabled opcode, no push above 520 bytes,
  at most 201 counted operations, and a final stack of at most 1000 elements.\<close>

theorem EvalScript_limits:
  assumes "EvalScript stack script flags checker sigversion = Inr stack'"
  shows "length script \<le> 10000 \<and> (\<exists>ops. script_ops script = Some ops
     \<and> list_all (\<lambda>(op, d). op \<notin> set disabled_opcodes \<and> length d \<le> 520) ops
     \<and> length (filter (\<lambda>(op, d). op > OP_16) ops) \<le> 201)
     \<and> (if script = [] then stack' = stack else length stack' \<le> 1000)"
proof -
  let ?st = "\<lparr>e_stack = stack, e_alt = [], vfExec = [], nOpCount = 0, codehash = script\<rparr>"
  obtain st' where st': "eval_loop checker flags sigversion script ?st = Inr st'" "stack' = e_stack st'" "length script \<le> 10000"
    using assms by (auto simp: EvalScript_def bind_res_Inr MAX_SCRIPT_SIZE_def split: if_splits)
  have "stack' = stack" if "script = []" using st' that by (auto simp: eval_loop.simps)
  then show ?thesis
    using eval_loop_limits [OF st'(1)] st'(2,3)
    by (auto simp: MAX_SCRIPT_ELEMENT_SIZE_def MAX_OPS_PER_SCRIPT_def counted_ops_def)
qed

theorem EvalScript_limits_witness:
  "\<exists>stack'. EvalScript [[1]] [0x76] 0 \<lparr>CheckSig = \<lambda>_ _ _ _. False, CheckLockTime = \<lambda>_. False, CheckSequence = \<lambda>_. False, CheckLowS = \<lambda>_. False\<rparr>
       SIGVERSION_BASE = Inr stack' \<and> length stack' \<le> 1000"
proof -
  let ?c = "\<lparr>CheckSig = \<lambda>_ _ _ _. False, CheckLockTime = \<lambda>_. False, CheckSequence = \<lambda>_. False, CheckLowS = \<lambda>_. False\<rparr>"
  have "EvalScript [[1]] [0x76] 0 ?c SIGVERSION_BASE = Inr [[1], [1]]"
    by (simp add: EvalScript_def MAX_SCRIPT_SIZE_def eval_loop.simps eval_instr_def disabled_opcodes_def eval_op_def op_stack_def
        rearrange_def MAX_SCRIPT_ELEMENT_SIZE_def MAX_OPS_PER_SCRIPT_def bind_res_def flag_def Let_def)
  with EvalScript_limits [OF this] show ?thesis by auto
qed

text \<open>C23: When no encoding flag rejects a signature or key, the loop of \<open>OP_CHECKMULTISIG\<close> succeeds exactly
  when the signatures can be assigned, in order, to distinct keys that accept them.\<close>

theorem multisig_matches_in_order:
  assumes "list_all (\<lambda>s. list_all (\<lambda>k. check_encodings checker flags sigversion s k = Inr ()) keys) sigs" "length sigs \<le> length keys"
  shows "multisig_loop checker flags sigversion scriptCode sigs keys
     = Inr (\<exists>ks. subseq ks keys \<and> list_all2 (\<lambda>s k. CheckSig checker s k scriptCode sigversion) sigs ks)"
proof -
  have "multisig_loop checker flags sigversion scriptCode sigs keys = Inr (list_emb (\<lambda>s k. CheckSig checker s k scriptCode sigversion) sigs keys)"
    using assms by (intro multisig_loop_embedding) (auto simp: list_all_iff)
  also have "list_emb (\<lambda>s k. CheckSig checker s k scriptCode sigversion) sigs keys
     \<longleftrightarrow> (\<exists>ks. subseq ks keys \<and> list_all2 (\<lambda>s k. CheckSig checker s k scriptCode sigversion) sigs ks)"
    by (rule emb_as_subseq)
  finally show ?thesis .
qed

theorem multisig_matches_in_order_witness:
  "multisig_loop \<lparr>CheckSig = \<lambda>s k _ _. s = k, CheckLockTime = \<lambda>_. False, CheckSequence = \<lambda>_. False, CheckLowS = \<lambda>_. False\<rparr>
     0 SIGVERSION_BASE [] [[2], [1]] [[1], [2], [3]]
     = Inr (\<exists>ks. subseq ks [[1], [2], [3]] \<and> list_all2 (\<lambda>s k. s = k) [[2], [1 :: u8]] ks)"
  by (subst multisig_matches_in_order)
    (simp_all add: check_encodings_def CheckSignatureEncoding_def CheckPubKeyEncoding_def flag_def bind_res_def)

end
