(* ===== verification/Payment.thy ===== *)
theory Payment
  imports Interpreter
begin

text \<open>
  The standard payment: what \<open>VerifyScript\<close> decides for a pay-to-pubkey-hash output
  (\<open>script/interpreter.cpp\<close>, \<open>VerifyScript\<close>), by running the two scripts instruction by instruction.
\<close>

unbundle bit_operations_syntax

definition p2pkh :: "bytes \<Rightarrow> CScript" where
  "p2pkh h = [of_nat OP_DUP, of_nat OP_HASH160] @ push_bytes h @ [of_nat OP_EQUALVERIFY, of_nat OP_CHECKSIG]"

lemma GetOp2_push: "length d < 76 \<Longrightarrow> GetOp2 (push_bytes d @ rest) = Some (length d, d, rest)"
  by (simp add: push_bytes_def push_size_def unat_of_nat)

lemma eval_push:
  assumes "length d < 76" "vfExec st = []" "\<not> flag f SCRIPT_VERIFY_MINIMALDATA" "length (e_stack st) + length (e_alt st) < 1000"
  shows "eval_loop c f v (push_bytes d @ rest) st = eval_loop c f v rest (st\<lparr>e_stack := d # e_stack st\<rparr>)"
proof -
  have "length d \<notin> set disabled_opcodes" using assms(1) by (auto simp: disabled_opcodes_def)
  then have "eval_instr c f v (length d) d rest st = Inr (st\<lparr>e_stack := d # e_stack st\<rparr>)"
    using assms by (simp add: eval_instr_def Let_def MAX_SCRIPT_ELEMENT_SIZE_def bind_res_def)
  moreover have "push_bytes d \<noteq> []" by (simp add: push_bytes_def push_size_def)
  ultimately show ?thesis using GetOp2_push [OF assms(1), of rest] by (subst eval_loop.simps) simp
qed

lemma eval_loop_Nil: "eval_loop c f v [] st = Inr st"
  by (subst eval_loop.simps) simp

lemma eval_byte:
  assumes "unat b > OP_PUSHDATA4"
  shows "eval_loop c f v (b # rest) st = (case eval_instr c f v (unat b) [] rest st of Inl e \<Rightarrow> Inl e | Inr st \<Rightarrow> eval_loop c f v rest st)"
  using assms by (subst eval_loop.simps) simp

lemma run_scriptSig:
  assumes "length sig < 76" "length pub < 76" "\<not> flag f SCRIPT_VERIFY_MINIMALDATA"
  shows "EvalScript [] (push_bytes sig @ push_bytes pub) f c SIGVERSION_BASE = Inr [pub, sig]"
proof -
  have len: "length (push_bytes sig @ push_bytes pub) \<le> 10000" using assms by (simp add: push_bytes_def)
  have "eval_loop c f SIGVERSION_BASE (push_bytes sig @ push_bytes pub @ []) st = Inr (st\<lparr>e_stack := pub # sig # e_stack st\<rparr>)"
    if "vfExec st = []" "length (e_stack st) + length (e_alt st) = 0" for st
    using that assms by (simp add: eval_push eval_loop_Nil del: append_Nil2)
  then show ?thesis using len by (simp add: EvalScript_def MAX_SCRIPT_SIZE_def bind_res_def)
qed

lemma run_p2pkh:
  assumes "length h = 20" "f = 0 \<or> f = SCRIPT_VERIFY_P2SH"
  shows "EvalScript [pub, sig] (p2pkh h) f c SIGVERSION_BASE =
    (if Hash160 pub = h then Inr [vch_bool (CheckSig c sig pub (fst (FindAndDelete (p2pkh h) (push_bytes sig))) SIGVERSION_BASE)]
     else Inl SCRIPT_ERR_EQUALVERIFY)"
proof -
  have flags: "\<not> flag f SCRIPT_VERIFY_MINIMALDATA" "\<not> flag f SCRIPT_VERIFY_NULLFAIL" "\<not> flag f SCRIPT_VERIFY_STRICTENC"
    "\<not> flag f SCRIPT_VERIFY_LOW_S" "\<not> flag f SCRIPT_VERIFY_WITNESS_PUBKEYTYPE"
    "\<not> flag f (SCRIPT_VERIFY_DERSIG OR SCRIPT_VERIFY_LOW_S OR SCRIPT_VERIFY_STRICTENC)"
    using assms(2) by (auto simp: flag_def)
  have enc: "check_encodings c f v s k = Inr ()" for v s k
    using flags by (simp add: check_encodings_def CheckSignatureEncoding_def CheckPubKeyEncoding_def bind_res_def)
  have h160: "fst (CHash160_Finalize (CSHA256_Write pub CSHA256)) = Hash160 pub" by (simp add: Hash160_def)
  define scr where "scr = p2pkh h"
  let ?st = "\<lambda>s n. \<lparr>e_stack = s, e_alt = [], vfExec = [], nOpCount = n, codehash = scr\<rparr>"
  have dup: "eval_loop c f v (of_nat OP_DUP # rest) (?st (a # s) n) = eval_loop c f v rest (?st (a # a # s) (n + 1))"
    if "n < 100" "length s < 100" for v rest a s n
    using that by (subst eval_byte) (simp_all add: eval_instr_def Let_def MAX_SCRIPT_ELEMENT_SIZE_def MAX_OPS_PER_SCRIPT_def
        disabled_opcodes_def bind_res_def eval_op_def op_stack_def rearrange_def)
  have hash: "eval_loop c f v (of_nat OP_HASH160 # rest) (?st (pub # s) n) = eval_loop c f v rest (?st (Hash160 pub # s) (n + 1))"
    if "n < 100" "length s < 100" for v rest s n
    using that by (subst eval_byte) (simp_all add: eval_instr_def Let_def MAX_SCRIPT_ELEMENT_SIZE_def MAX_OPS_PER_SCRIPT_def
        disabled_opcodes_def bind_res_def eval_op_def op_hash_def h160)
  have eqv: "eval_loop c f v (of_nat OP_EQUALVERIFY # rest) (?st (a # b # s) n)
      = (if b = a then eval_loop c f v rest (?st s (n + 1)) else Inl SCRIPT_ERR_EQUALVERIFY)"
    if "n < 100" "length s < 100" for v rest a b s n
    using that by (subst eval_byte) (simp_all add: eval_instr_def Let_def MAX_SCRIPT_ELEMENT_SIZE_def MAX_OPS_PER_SCRIPT_def
        disabled_opcodes_def bind_res_def eval_op_def op_equal_def)
  have chk: "eval_loop c f SIGVERSION_BASE [of_nat OP_CHECKSIG] (?st [pub, sig] n)
      = Inr (?st [vch_bool (CheckSig c sig pub (fst (FindAndDelete scr (push_bytes sig))) SIGVERSION_BASE)] (n + 1))"
    if "n < 100" for n
    using that flags by (subst eval_byte) (simp_all add: eval_instr_def Let_def MAX_SCRIPT_ELEMENT_SIZE_def MAX_OPS_PER_SCRIPT_def
        disabled_opcodes_def bind_res_def eval_op_def op_checksig_def enc drop_sig_def eval_loop.simps)
  have len: "length scr \<le> 10000" using assms(1) by (simp add: scr_def p2pkh_def push_bytes_def)
  have "eval_loop c f SIGVERSION_BASE scr (?st [pub, sig] 0) =
     (if Hash160 pub = h then Inr (?st [vch_bool (CheckSig c sig pub (fst (FindAndDelete scr (push_bytes sig))) SIGVERSION_BASE)] 4)
      else Inl SCRIPT_ERR_EQUALVERIFY)"
    using assms(1) flags(1)
    by (subst scr_def, unfold p2pkh_def) (simp add: dup hash eqv chk eval_push del: of_nat_numeral)
  then show ?thesis using len unfolding scr_def [symmetric] by (simp add: EvalScript_def MAX_SCRIPT_SIZE_def bind_res_def)
qed

lemma CastToBool_vch_bool: "CastToBool (vch_bool b) = b"
  by (simp add: vch_bool_def vchTrue_def vchFalse_def)

text \<open>C14: Spending a pay-to-pubkey-hash output with a signature and a key: the verdict of \<open>VerifyScript\<close> and its
  error code, for every signature and key of less than 76 bytes (one-byte pushes), without a witness and with no flag set or
  \<open>SCRIPT_VERIFY_P2SH\<close> alone; the flags that add encoding rules for signatures and keys are not covered.  It accepts exactly when the key hashes to the committed hash and the signature
  check accepts; a wrong key is \<open>SCRIPT_ERR_EQUALVERIFY\<close> and a wrong signature \<open>SCRIPT_ERR_EVAL_FALSE\<close>.\<close>

theorem p2pkh_verdict:
  assumes "length sig < 76" "length pub < 76" "length h = 20" "flags = 0 \<or> flags = SCRIPT_VERIFY_P2SH"
  shows "VerifyScript (push_bytes sig @ push_bytes pub) (p2pkh h) [] flags checker =
    Some (if Hash160 pub \<noteq> h then Inl SCRIPT_ERR_EQUALVERIFY
          else if CheckSig checker sig pub (fst (FindAndDelete (p2pkh h) (push_bytes sig))) SIGVERSION_BASE then Inr ()
          else Inl SCRIPT_ERR_EVAL_FALSE)"
proof -
  have flags: "\<not> flag flags SCRIPT_VERIFY_MINIMALDATA" "\<not> flag flags SCRIPT_VERIFY_SIGPUSHONLY"
    "\<not> flag flags SCRIPT_VERIFY_CLEANSTACK" "\<not> flag flags SCRIPT_VERIFY_WITNESS"
    using assms(4) by (auto simp: flag_def)
  have "\<not> IsPayToScriptHash (p2pkh h)"
    using assms(3) by (simp add: IsPayToScriptHash_def p2pkh_def push_bytes_def push_size_def)
  then show ?thesis
    using flags by (simp add: VerifyScript_def run_scriptSig [OF assms(1,2) flags(1)] eval_true_def run_p2pkh [OF assms(3,4)]
        bind_res_def CastToBool_vch_bool witness_stage_def p2sh_stage_def)
qed

theorem p2pkh_verdict_witness:
  "VerifyScript (push_bytes [1] @ push_bytes [2]) (p2pkh (Hash160 [2])) [] SCRIPT_VERIFY_P2SH
     \<lparr>CheckSig = \<lambda>s k _ _. s = [1], CheckLockTime = \<lambda>_. False, CheckSequence = \<lambda>_. False, CheckLowS = \<lambda>_. False\<rparr> = Some (Inr ())"
  by (subst p2pkh_verdict) (simp_all add: length_Hash160)

end
