(* ===== verification/Versionbits.thy ===== *)
theory Versionbits
  imports Chain "HOL-Library.Multiset"
begin

text \<open>
  Soft-fork deployment by version bits: \<open>src/src/versionbits.h\<close> and \<open>src/src/versionbits.cpp\<close>.  The virtual
  methods of \<open>AbstractThresholdConditionChecker\<close> are the fields of a record; the cache is a map from the
  pointer to the last block of a period (None for the null pointer).  As in the theory of the block index a
  result of None is a crash.  Heights are never negative, so \<open>%\<close> is \<open>mod\<close> for the positive period of
  the consensus parameters; a period of zero is a division by zero.

  The reference \<open>BIP9_state\<close> follows \<open>pprev\<close> only, has no cache and no early exit; the cached computation
  is shown to return it.  The early exit rests on the median time never decreasing along a chain,
  which is proved from the rule that a block is later than the median time of its parent.
\<close>

unbundle bit_operations_syntax

datatype ThresholdState = THRESHOLD_DEFINED | THRESHOLD_STARTED | THRESHOLD_LOCKED_IN | THRESHOLD_ACTIVE | THRESHOLD_FAILED

type_synonym ThresholdConditionCache = "ptr \<Rightarrow> ThresholdState option"

record ThresholdConditionChecker =
  Condition :: "CBlockIndex \<Rightarrow> bool"
  BeginTime :: int
  EndTime :: int
  Period :: int
  Threshold :: int

subsection \<open>The cached computation\<close>

partial_function (option) walk_back :: "BlockMap \<Rightarrow> ThresholdConditionChecker \<Rightarrow> ThresholdConditionCache \<Rightarrow> ptr \<Rightarrow> uint256 list \<Rightarrow>
    (ThresholdConditionCache \<times> ptr \<times> uint256 list) option" where
  "walk_back idx c cache pindexPrev vToCompute =
     (if cache pindexPrev \<noteq> None then Some (cache, pindexPrev, vToCompute)
      else case pindexPrev of
             None \<Rightarrow> Some (cache(None \<mapsto> THRESHOLD_DEFINED), None, vToCompute)
           | Some p \<Rightarrow> Option.bind (GetMedianTimePast idx p) (\<lambda>t.
               if t < BeginTime c then Some (cache(Some p \<mapsto> THRESHOLD_DEFINED), Some p, vToCompute)
               else Option.bind (idx p) (\<lambda>b.
                    Option.bind (GetAncestor idx p (nHeight b - Period c)) (\<lambda>q.
                    walk_back idx c cache q (p # vToCompute)))))"

text \<open>The counting loop; a null pointer is dereferenced by \<open>Condition\<close>.\<close>

fun count_signals :: "BlockMap \<Rightarrow> ThresholdConditionChecker \<Rightarrow> nat \<Rightarrow> ptr \<Rightarrow> int option" where
  "count_signals idx c 0 pindexCount = Some 0"
| "count_signals idx c (Suc i) None = None"
| "count_signals idx c (Suc i) (Some p) =
     Option.bind (idx p) (\<lambda>b. map_option (\<lambda>n. n + (if Condition c b then 1 else 0)) (count_signals idx c i (pprev b)))"

definition state_next :: "BlockMap \<Rightarrow> ThresholdConditionChecker \<Rightarrow> uint256 \<Rightarrow> ThresholdState \<Rightarrow> ThresholdState option" where
  "state_next idx c p state =
     (case state of
        THRESHOLD_DEFINED \<Rightarrow> map_option (\<lambda>t. if t \<ge> EndTime c then THRESHOLD_FAILED
                                            else if t \<ge> BeginTime c then THRESHOLD_STARTED else state) (GetMedianTimePast idx p)
      | THRESHOLD_STARTED \<Rightarrow> Option.bind (GetMedianTimePast idx p) (\<lambda>t.
           if t \<ge> EndTime c then Some THRESHOLD_FAILED
           else map_option (\<lambda>count. if count \<ge> Threshold c then THRESHOLD_LOCKED_IN else state)
                  (count_signals idx c (nat (Period c)) (Some p)))
      | THRESHOLD_LOCKED_IN \<Rightarrow> Some THRESHOLD_ACTIVE
      | THRESHOLD_FAILED \<Rightarrow> Some state
      | THRESHOLD_ACTIVE \<Rightarrow> Some state)"

fun walk_forward :: "BlockMap \<Rightarrow> ThresholdConditionChecker \<Rightarrow> ThresholdConditionCache \<Rightarrow> ThresholdState \<Rightarrow> uint256 list \<Rightarrow>
    (ThresholdConditionCache \<times> ThresholdState) option" where
  "walk_forward idx c cache state [] = Some (cache, state)"
| "walk_forward idx c cache state (p # vToCompute) =
     Option.bind (state_next idx c p state) (\<lambda>s. walk_forward idx c (cache(Some p \<mapsto> s)) s vToCompute)"

definition period_start :: "BlockMap \<Rightarrow> ThresholdConditionChecker \<Rightarrow> ptr \<Rightarrow> ptr option" where
  "period_start idx c pindexPrev =
     (case pindexPrev of
        None \<Rightarrow> Some None
      | Some p \<Rightarrow> Option.bind (idx p) (\<lambda>b.
          if Period c = 0 then None else GetAncestor idx p (nHeight b - (nHeight b + 1) mod Period c)))"

definition GetStateFor :: "BlockMap \<Rightarrow> ThresholdConditionChecker \<Rightarrow> ThresholdConditionCache \<Rightarrow> ptr \<Rightarrow>
    (ThresholdConditionCache \<times> ThresholdState) option" where
  "GetStateFor idx c cache pindexPrev =
     Option.bind (period_start idx c pindexPrev) (\<lambda>pindexPrev.
     Option.bind (walk_back idx c cache pindexPrev []) (\<lambda>(cache, pindexPrev, vToCompute).
     Option.bind (cache pindexPrev) (\<lambda>state. walk_forward idx c cache state vToCompute)))"

subsection \<open>The version-bits condition\<close>

record BIP9Deployment =
  bit_pos :: nat
  nStartTime :: int
  nTimeout :: int

record vb_params =
  nRuleChangeActivationThreshold :: u32
  nMinerConfirmationWindow :: u32
  vDeployments :: "BIP9Deployment list"

definition VERSIONBITS_TOP_BITS :: u32 where "VERSIONBITS_TOP_BITS = 0x20000000"
definition VERSIONBITS_TOP_MASK :: u32 where "VERSIONBITS_TOP_MASK = 0xE0000000"

definition VersionBitsMask :: "vb_params \<Rightarrow> nat \<Rightarrow> u32" where
  "VersionBitsMask params pos = push_bit (bit_pos (vDeployments params ! pos)) 1"

definition vb_condition :: "vb_params \<Rightarrow> nat \<Rightarrow> CBlockIndex \<Rightarrow> bool" where
  "vb_condition params pos b \<longleftrightarrow>
     (word_of_int (nVersion b) AND VERSIONBITS_TOP_MASK = VERSIONBITS_TOP_BITS)
     \<and> word_of_int (nVersion b) AND VersionBitsMask params pos \<noteq> 0"

definition VersionBitsConditionChecker :: "vb_params \<Rightarrow> nat \<Rightarrow> ThresholdConditionChecker" where
  "VersionBitsConditionChecker params pos =
     \<lparr>Condition = vb_condition params pos,
      BeginTime = nStartTime (vDeployments params ! pos),
      EndTime = nTimeout (vDeployments params ! pos),
      Period = sint (nMinerConfirmationWindow params),
      Threshold = sint (nRuleChangeActivationThreshold params)\<rparr>"

definition VersionBitsState :: "BlockMap \<Rightarrow> ptr \<Rightarrow> vb_params \<Rightarrow> nat \<Rightarrow> ThresholdConditionCache list \<Rightarrow>
    (ThresholdConditionCache list \<times> ThresholdState) option" where
  "VersionBitsState idx pindexPrev params pos caches =
     (if pos \<ge> length caches \<or> pos \<ge> length (vDeployments params) then None
      else map_option (\<lambda>(cache, state). (caches[pos := cache], state))
             (GetStateFor idx (VersionBitsConditionChecker params pos) (caches ! pos) pindexPrev))"

fun block_version_loop :: "BlockMap \<Rightarrow> ptr \<Rightarrow> vb_params \<Rightarrow> nat list \<Rightarrow> ThresholdConditionCache list \<Rightarrow> u32 \<Rightarrow>
    (ThresholdConditionCache list \<times> u32) option" where
  "block_version_loop idx pindexPrev params [] caches version = Some (caches, version)"
| "block_version_loop idx pindexPrev params (i # is) caches version =
     Option.bind (VersionBitsState idx pindexPrev params i caches) (\<lambda>(caches, state).
       block_version_loop idx pindexPrev params is caches
         (if state = THRESHOLD_LOCKED_IN \<or> state = THRESHOLD_STARTED then version OR VersionBitsMask params i else version))"

definition MAX_VERSION_BITS_DEPLOYMENTS :: nat where "MAX_VERSION_BITS_DEPLOYMENTS = 3"

definition ComputeBlockVersion :: "BlockMap \<Rightarrow> ptr \<Rightarrow> vb_params \<Rightarrow> ThresholdConditionCache list \<Rightarrow> (ThresholdConditionCache list \<times> u32) option" where
  "ComputeBlockVersion idx pindexPrev params versionbitscache =
     block_version_loop idx pindexPrev params [0..<MAX_VERSION_BITS_DEPLOYMENTS] versionbitscache VERSIONBITS_TOP_BITS"

definition VersionBitsCache_Clear :: "ThresholdConditionCache list \<Rightarrow> ThresholdConditionCache list" where
  "VersionBitsCache_Clear caches = map (\<lambda>_. Map.empty) caches"

subsection \<open>Median time never decreases\<close>

lemma below_nth_sort:
  fixes ts :: "int list"
  assumes "k < length ts"
  shows "length (filter (\<lambda>x. x < m) ts) \<le> k \<longleftrightarrow> m \<le> sort ts ! k"
proof -
  let ?s = "sort ts"
  have "length (filter (\<lambda>x. x < m) ts) = length (filter (\<lambda>x. x < m) ?s)"
    by (metis mset_filter mset_sort size_mset)
  also have "\<dots> = card {i. i < length ts \<and> ?s ! i < m}" by (simp add: length_filter_conv_card)
  finally have eq: "length (filter (\<lambda>x. x < m) ts) = card {i. i < length ts \<and> ?s ! i < m}" .
  have mono: "i \<le> j \<Longrightarrow> j < length ts \<Longrightarrow> ?s ! i \<le> ?s ! j" for i j by (simp add: sorted_nth_mono)
  show ?thesis
  proof
    assume "m \<le> ?s ! k"
    then have "{i. i < length ts \<and> ?s ! i < m} \<subseteq> {..<k}" using mono by (force simp: not_le [symmetric])
    then have "card {i. i < length ts \<and> ?s ! i < m} \<le> card {..<k}" by (intro card_mono) auto
    then show "length (filter (\<lambda>x. x < m) ts) \<le> k" using eq by simp
  next
    assume le: "length (filter (\<lambda>x. x < m) ts) \<le> k"
    show "m \<le> ?s ! k"
    proof (rule ccontr)
      assume "\<not> m \<le> ?s ! k"
      then have "{..k} \<subseteq> {i. i < length ts \<and> ?s ! i < m}" using mono assms by fastforce
      then have "card {..k} \<le> card {i. i < length ts \<and> ?s ! i < m}" by (intro card_mono) auto
      then show False using eq le by simp
    qed
  qed
qed

lemma median_grows:
  fixes ts :: "int list"
  assumes "ts \<noteq> []" "sort ts ! (length ts div 2) < t" "length (take k ts) + 1 \<ge> length ts"
  shows "sort ts ! (length ts div 2) \<le> sort (t # take k ts) ! (length (t # take k ts) div 2)"
proof -
  let ?m = "sort ts ! (length ts div 2)"
  have "length (filter (\<lambda>x. x < ?m) ts) \<le> length ts div 2"
    using below_nth_sort [of "length ts div 2" ts ?m] assms(1) by simp
  moreover have "length (filter (\<lambda>x. x < ?m) (take k ts)) \<le> length (filter (\<lambda>x. x < ?m) ts)"
    by (metis append_take_drop_id filter_append le_add1 length_append)
  ultimately have "length (filter (\<lambda>x. x < ?m) (t # take k ts)) \<le> length (t # take k ts) div 2"
    using assms(2,3) by simp
  then show ?thesis by (subst (asm) below_nth_sort) simp_all
qed

lemma past_times_take: "past_times idx n p = Some ts \<Longrightarrow> m \<le> n \<Longrightarrow> past_times idx m p = Some (take m ts)"
proof (induction idx n p arbitrary: m ts rule: past_times.induct)
  case (3 idx i p)
  then show ?case by (cases m) (auto split: option.splits)
next
  case (2 idx i)
  then show ?case by (cases m) auto
qed simp

lemma past_times_length: "past_times idx n p = Some ts \<Longrightarrow> length ts \<le> n \<and> (0 < n \<longrightarrow> p \<noteq> None \<longrightarrow> ts \<noteq> [])"
  by (induction idx n p arbitrary: ts rule: past_times.induct) (auto split: option.splits)

lemma past_times_total: "index_ok idx \<Longrightarrow> p = None \<or> (\<exists>q b. p = Some q \<and> idx q = Some b) \<Longrightarrow> \<exists>ts. past_times idx n p = Some ts"
proof (induction idx n p rule: past_times.induct)
  case (3 idx i p)
  then obtain b where b: "idx p = Some b" by auto
  then have "pprev b = None \<or> (\<exists>q c. pprev b = Some q \<and> idx q = Some c)"
    using index_okD [OF 3(2) b] by (cases "pprev b") (auto simp: block_ok_def)
  then show ?case using 3 b by auto
qed auto

lemma median_total: "index_ok idx \<Longrightarrow> idx p = Some b \<Longrightarrow> \<exists>t. GetMedianTimePast idx p = Some t"
  using past_times_total [of idx "Some p" nMedianTimeSpan] by (auto simp: GetMedianTimePast_def)

definition times_ok :: "BlockMap \<Rightarrow> bool" where
  "times_ok idx \<longleftrightarrow> (\<forall>p b q m. idx p = Some b \<and> pprev b = Some q \<and> GetMedianTimePast idx q = Some m \<longrightarrow> m < uint (nTime b))"

lemma median_parent:
  assumes "idx p = Some b" "pprev b = Some q" "GetMedianTimePast idx q = Some m" "m < uint (nTime b)"
  shows "\<exists>m'. GetMedianTimePast idx p = Some m' \<and> m \<le> m'"
proof -
  obtain ts where ts: "past_times idx 11 (Some q) = Some ts" "m = sort ts ! (length ts div 2)"
    using assms(3) by (auto simp: GetMedianTimePast_def nMedianTimeSpan_def)
  have len: "ts \<noteq> []" "length ts \<le> 11" using past_times_length [OF ts(1)] by auto
  have "past_times idx (Suc 10) (Some p) = Some (uint (nTime b) # take 10 ts)"
    using past_times_take [OF ts(1), of 10] assms(1,2) by (simp only: past_times.simps) simp
  then have "GetMedianTimePast idx p = Some (sort (uint (nTime b) # take 10 ts) ! (length (uint (nTime b) # take 10 ts) div 2))"
    unfolding GetMedianTimePast_def nMedianTimeSpan_def by (simp add: numeral_eq_Suc del: past_times.simps)
  moreover have "m \<le> sort (uint (nTime b) # take 10 ts) ! (length (uint (nTime b) # take 10 ts) div 2)"
    unfolding ts(2) by (rule median_grows) (use len ts assms(4) in auto)
  ultimately show ?thesis by blast
qed

lemma median_ancestor:
  assumes "index_ok idx" "times_ok idx"
  shows "idx p = Some b \<Longrightarrow> prev_n idx k p = Some q \<Longrightarrow> GetMedianTimePast idx p = Some t \<Longrightarrow> \<exists>t'. GetMedianTimePast idx q = Some t' \<and> t' \<le> t"
proof (induction k arbitrary: p b t)
  case (Suc k)
  then obtain r where r: "pprev b = Some r" "prev_n idx k r = Some q" by (auto split: option.splits)
  then obtain c where c: "idx r = Some c" using index_okD [OF assms(1) Suc.prems(1)] by (auto simp: block_ok_def)
  obtain m where m: "GetMedianTimePast idx r = Some m" using median_total [OF assms(1) c] by blast
  then have "m < uint (nTime b)" using assms(2) Suc.prems(1) r(1) unfolding times_ok_def by blast
  then have "m \<le> t" using median_parent [OF Suc.prems(1) r(1) m] Suc.prems(3) by auto
  then show ?case using Suc.IH [OF c r(2) m] by fastforce
qed simp

subsection \<open>The reference\<close>

fun period_state :: "BlockMap \<Rightarrow> ThresholdConditionChecker \<Rightarrow> nat \<Rightarrow> uint256 \<Rightarrow> ThresholdState option" where
  "period_state idx c 0 p = state_next idx c p THRESHOLD_DEFINED"
| "period_state idx c (Suc k) p =
     Option.bind (prev_n idx (nat (Period c)) p) (\<lambda>q. Option.bind (period_state idx c k q) (state_next idx c p))"

definition BIP9_state :: "BlockMap \<Rightarrow> ThresholdConditionChecker \<Rightarrow> ptr \<Rightarrow> ThresholdState option" where
  "BIP9_state idx c pindexPrev =
     (case pindexPrev of None \<Rightarrow> Some THRESHOLD_DEFINED
      | Some p \<Rightarrow> Option.bind (idx p) (\<lambda>b.
          let n = nat ((nHeight b + 1) div Period c)
          in if n = 0 then Some THRESHOLD_DEFINED
             else Option.bind (prev_n idx (nat ((nHeight b + 1) mod Period c)) p) (period_state idx c (n - 1))))"

definition cache_ok :: "BlockMap \<Rightarrow> ThresholdConditionChecker \<Rightarrow> ThresholdConditionCache \<Rightarrow> bool" where
  "cache_ok idx c cache \<longleftrightarrow> (\<forall>p s. cache p = Some s \<longrightarrow> BIP9_state idx c p = Some s)"

lemma cache_ok_upd: "cache_ok idx c cache \<Longrightarrow> BIP9_state idx c p = Some s \<Longrightarrow> cache_ok idx c (cache(p \<mapsto> s))"
  by (simp add: cache_ok_def)

text \<open>The last block of period \<open>k\<close>.\<close>

definition last_of :: "BlockMap \<Rightarrow> ThresholdConditionChecker \<Rightarrow> nat \<Rightarrow> uint256 \<Rightarrow> bool" where
  "last_of idx c k p \<longleftrightarrow> (\<exists>b. idx p = Some b \<and> nHeight b = int (Suc k) * Period c - 1)"

lemma periods_ge: "0 < (P :: int) \<Longrightarrow> P \<le> int (Suc k) * P" "int (Suc (Suc k)) * P = int (Suc k) * P + P"
  by (simp_all add: algebra_simps)

lemma BIP9_state_last:
  assumes "last_of idx c k p" "0 < Period c"
  shows "BIP9_state idx c (Some p) = period_state idx c k p"
proof -
  obtain b where b: "idx p = Some b" "nHeight b + 1 = int (Suc k) * Period c" using assms(1) by (auto simp: last_of_def)
  have "(nHeight b + 1) div Period c = int (Suc k)" "(nHeight b + 1) mod Period c = 0"
    unfolding b(2) using assms(2) by simp_all
  then show ?thesis using b(1) by (simp add: BIP9_state_def nat_add_distrib del: of_nat_Suc)
qed

lemma last_of_prev:
  assumes "index_ok idx" "last_of idx c (Suc k) p" "0 < Period c"
  shows "\<exists>q. prev_n idx (nat (Period c)) p = Some q \<and> last_of idx c k q"
proof -
  obtain b where b: "idx p = Some b" "nHeight b = int (Suc (Suc k)) * Period c - 1" using assms(2) by (auto simp: last_of_def)
  have "int (nat (Period c)) \<le> nHeight b" using assms(3) b(2) periods_ge [where P = "Period c" and k = k] by linarith
  then obtain q d where "prev_n idx (nat (Period c)) p = Some q" "idx q = Some d" "nHeight d = nHeight b - int (nat (Period c))"
    using prev_n_block [OF assms(1) b(1)] by blast
  then show ?thesis using b(2) assms(3) periods_ge(2) [of k "Period c"] unfolding last_of_def by auto
qed

lemma count_signals_total:
  assumes "index_ok idx"
  shows "idx p = Some b \<Longrightarrow> int n \<le> nHeight b + 1 \<Longrightarrow> \<exists>m. count_signals idx c n (Some p) = Some m"
proof (induction n arbitrary: p b)
  case (Suc n)
  show ?case
  proof (cases n)
    case 0
    then show ?thesis using Suc.prems by simp
  next
    case (Suc m)
    then have "0 < nHeight b" using Suc.prems by simp
    then obtain q d where "pprev b = Some q" "idx q = Some d" "nHeight b = nHeight d + 1"
      using prev_block [OF assms Suc.prems(1)] by blast
    then show ?thesis using Suc.IH [of q d] Suc.prems by auto
  qed
qed simp

lemma state_next_total:
  assumes "index_ok idx" "last_of idx c k p" "0 < Period c"
  shows "\<exists>s'. state_next idx c p s = Some s'"
proof -
  obtain b where b: "idx p = Some b" "nHeight b = int (Suc k) * Period c - 1" using assms(2) by (auto simp: last_of_def)
  obtain t where t: "GetMedianTimePast idx p = Some t" using median_total [OF assms(1) b(1)] by blast
  have "int (nat (Period c)) \<le> nHeight b + 1" using assms(3) b(2) periods_ge(1) [of "Period c" k] by linarith
  then obtain m where "count_signals idx c (nat (Period c)) (Some p) = Some m"
    using count_signals_total [OF assms(1) b(1)] by blast
  then show ?thesis using t by (cases s) (auto simp: state_next_def)
qed

lemma before_start:
  assumes "index_ok idx" "times_ok idx" "0 < Period c" "BeginTime c \<le> EndTime c"
  shows "last_of idx c k p \<Longrightarrow> GetMedianTimePast idx p = Some t \<Longrightarrow> t < BeginTime c \<Longrightarrow> period_state idx c k p = Some THRESHOLD_DEFINED"
proof (induction k arbitrary: p t)
  case 0
  then show ?case using assms(4) by (simp add: state_next_def)
next
  case (Suc k)
  obtain q where q: "prev_n idx (nat (Period c)) p = Some q" "last_of idx c k q"
    using last_of_prev [OF assms(1) Suc.prems(1) assms(3)] by blast
  obtain b where "idx p = Some b" using Suc.prems(1) by (auto simp: last_of_def)
  then obtain t' where "GetMedianTimePast idx q = Some t'" "t' \<le> t"
    using median_ancestor [OF assms(1,2) _ q(1) Suc.prems(2)] by blast
  then have "period_state idx c k q = Some THRESHOLD_DEFINED" using Suc.IH q(2) Suc.prems(3) by simp
  then show ?case using q Suc.prems assms(4) by (simp add: state_next_def)
qed

subsection \<open>The cached computation returns the reference\<close>

text \<open>The walk back stops at a pointer with a known state, and the walk forward from there reaches the
  state of the pointer the walk started at with the blocks still to compute unchanged.\<close>

definition resumes :: "BlockMap \<Rightarrow> ThresholdConditionChecker \<Rightarrow> ThresholdConditionCache \<Rightarrow> ptr \<Rightarrow> uint256 list \<Rightarrow> bool" where
  "resumes idx c cache p vs \<longleftrightarrow>
     (\<exists>cache' q vs' s0 s. walk_back idx c cache p vs = Some (cache', q, vs') \<and> cache_ok idx c cache' \<and> cache' q = Some s0
        \<and> BIP9_state idx c p = Some s
        \<and> (\<forall>c2. cache_ok idx c c2 \<longrightarrow> (\<exists>c3. walk_forward idx c c2 s0 vs' = walk_forward idx c c3 s vs \<and> cache_ok idx c c3)))"

lemma resumes_known: "cache_ok idx c cache \<Longrightarrow> cache p = Some s \<Longrightarrow> resumes idx c cache p vs"
  unfolding resumes_def by (subst walk_back.simps) (auto simp: cache_ok_def)

lemma resumes_null: "cache_ok idx c cache \<Longrightarrow> resumes idx c cache None vs"
proof (cases "cache None")
  case None
  assume "cache_ok idx c cache"
  then have "cache_ok idx c (cache(None \<mapsto> THRESHOLD_DEFINED))" by (rule cache_ok_upd) (simp add: BIP9_state_def)
  then show ?thesis using None unfolding resumes_def by (subst walk_back.simps) (auto simp: BIP9_state_def)
qed (rule resumes_known)

lemma resumes_step:
  assumes "index_ok idx" "last_of idx c k p" "0 < Period c" "cache (Some p) = None"
    "GetMedianTimePast idx p = Some t" "\<not> t < BeginTime c" "idx p = Some b" "GetAncestor idx p (nHeight b - Period c) = Some q"
    "BIP9_state idx c (Some p) = Option.bind (BIP9_state idx c q) (state_next idx c p)" "resumes idx c cache q (p # vs)"
  shows "resumes idx c cache (Some p) vs"
proof -
  obtain cache' r vs' s0 s where r: "walk_back idx c cache q (p # vs) = Some (cache', r, vs')" "cache_ok idx c cache'"
    "cache' r = Some s0" "BIP9_state idx c q = Some s"
    "\<And>c2. cache_ok idx c c2 \<Longrightarrow> \<exists>c3. walk_forward idx c c2 s0 vs' = walk_forward idx c c3 s (p # vs) \<and> cache_ok idx c c3"
    using assms(10) unfolding resumes_def by blast
  obtain s' where s': "state_next idx c p s = Some s'" using state_next_total [OF assms(1-3)] by blast
  have wb: "walk_back idx c cache (Some p) vs = Some (cache', r, vs')"
    using assms(4-8) r(1) by (subst walk_back.simps) simp
  have st: "BIP9_state idx c (Some p) = Some s'" using assms(9) r(4) s' by simp
  have "\<exists>c3. walk_forward idx c c2 s0 vs' = walk_forward idx c c3 s' vs \<and> cache_ok idx c c3" if c2: "cache_ok idx c c2" for c2
  proof -
    obtain c3 where "walk_forward idx c c2 s0 vs' = walk_forward idx c c3 s (p # vs)" "cache_ok idx c c3" using r(5) [OF c2] by blast
    then show ?thesis using s' st by (intro exI [of _ "c3(Some p \<mapsto> s')"]) (simp add: cache_ok_upd)
  qed
  then show ?thesis unfolding resumes_def using wb r(2,3) st by blast
qed

lemma resumes_or_stops:
  assumes "index_ok idx" "times_ok idx" "0 < Period c" "BeginTime c \<le> EndTime c" "cache_ok idx c cache" "last_of idx c k p" "idx p = Some b"
    "GetAncestor idx p (nHeight b - Period c) = Some q" "BIP9_state idx c (Some p) = Option.bind (BIP9_state idx c q) (state_next idx c p)"
    "resumes idx c cache q (p # vs)"
  shows "resumes idx c cache (Some p) vs"
proof (cases "cache (Some p)")
  case None
  obtain t where t: "GetMedianTimePast idx p = Some t" using median_total [OF assms(1,7)] by blast
  show ?thesis
  proof (cases "t < BeginTime c")
    case True
    have st: "BIP9_state idx c (Some p) = Some THRESHOLD_DEFINED"
      using before_start [OF assms(1-4,6) t True] BIP9_state_last [OF assms(6,3)] by simp
    then have "cache_ok idx c (cache(Some p \<mapsto> THRESHOLD_DEFINED))" using assms(5) by (intro cache_ok_upd)
    then show ?thesis using None t True st unfolding resumes_def by (subst walk_back.simps) auto
  next
    case False
    then show ?thesis using resumes_step [OF assms(1,6,3) None t False assms(7-10)] by blast
  qed
qed (rule resumes_known [OF assms(5)])

lemma resumes_last:
  assumes "index_ok idx" "times_ok idx" "0 < Period c" "BeginTime c \<le> EndTime c" "cache_ok idx c cache"
  shows "last_of idx c k p \<Longrightarrow> resumes idx c cache (Some p) vs"
proof (induction k arbitrary: p vs)
  case (0 p vs)
  obtain b where b: "idx p = Some b" "nHeight b = Period c - 1" using 0 by (auto simp: last_of_def)
  have "GetAncestor idx p (nHeight b - Period c) = Some None" using GetAncestor_back [OF assms(1) b(1)] b(2) by simp
  moreover have "BIP9_state idx c (Some p) = Option.bind (BIP9_state idx c None) (state_next idx c p)"
    using BIP9_state_last [OF 0 assms(3)] by (simp add: BIP9_state_def)
  ultimately show ?case using resumes_or_stops [OF assms 0 b(1)] resumes_null [OF assms(5)] by blast
next
  case (Suc k p vs)
  obtain q where q: "prev_n idx (nat (Period c)) p = Some q" "last_of idx c k q"
    using last_of_prev [OF assms(1) Suc.prems assms(3)] by blast
  obtain b where b: "idx p = Some b" "nHeight b = int (Suc (Suc k)) * Period c - 1" using Suc.prems by (auto simp: last_of_def)
  have "0 \<le> nHeight b - Period c" using b(2) assms(3) periods_ge [where P = "Period c" and k = k] by linarith
  then have "GetAncestor idx p (nHeight b - Period c) = Some (Some q)"
    using GetAncestor_back [OF assms(1) b(1), of "nHeight b - Period c"] assms(3) q(1) by simp
  moreover have "BIP9_state idx c (Some p) = Option.bind (BIP9_state idx c (Some q)) (state_next idx c p)"
    using BIP9_state_last [OF Suc.prems assms(3)] BIP9_state_last [OF q(2) assms(3)] q(1) by simp
  ultimately show ?case using resumes_or_stops [OF assms Suc.prems b(1)] Suc.IH [OF q(2)] by blast
qed

lemma period_start_last:
  assumes "index_ok idx" "0 < Period c" "idx p = Some b"
  shows "\<exists>r. period_start idx c (Some p) = Some r \<and> BIP9_state idx c (Some p) = BIP9_state idx c r
     \<and> (r = None \<or> (\<exists>q k. r = Some q \<and> last_of idx c k q))"
proof -
  let ?H = "nHeight b + 1" and ?P = "Period c"
  have nn: "0 \<le> nHeight b" using height_nonneg [OF assms(1,3)] .
  have m: "0 \<le> ?H mod ?P" "?H mod ?P < ?P" using assms(2) by simp_all
  have dec: "?H = ?P * (?H div ?P) + ?H mod ?P" by simp
  show ?thesis
  proof (cases "?H div ?P = 0")
    case True
    then have "?H mod ?P = ?H" using dec by simp
    then have "period_start idx c (Some p) = Some None"
      using GetAncestor_back [OF assms(1,3)] assms(2,3) by (simp add: period_start_def)
    then show ?thesis using True assms(3) by (simp add: BIP9_state_def)
  next
    case False
    define k where "k = nat (?H div ?P) - 1"
    have "0 < ?H div ?P" using False nn assms(2) by (metis add_nonneg_nonneg order_le_less pos_imp_zdiv_nonneg_iff zero_le_one)
    then have k: "?H div ?P = int (Suc k)" by (simp add: k_def)
    then have H: "?H = int (Suc k) * ?P + ?H mod ?P" using dec by (simp add: mult.commute)
    moreover have "?P \<le> int (Suc k) * ?P" using assms(2) by (rule periods_ge)
    ultimately have le: "?H mod ?P \<le> nHeight b" using assms(2) by linarith
    then obtain q d where q: "prev_n idx (nat (?H mod ?P)) p = Some q" "idx q = Some d" "nHeight d = nHeight b - ?H mod ?P"
      using prev_n_block [OF assms(1,3), of "nat (?H mod ?P)"] m by auto
    have last: "last_of idx c k q" using q H by (auto simp: last_of_def)
    have "period_start idx c (Some p) = Some (Some q)"
      using GetAncestor_back [OF assms(1,3), of "nHeight b - ?H mod ?P"] assms(2,3) q(1) le m by (simp add: period_start_def)
    moreover have "BIP9_state idx c (Some p) = period_state idx c k q"
      using k q(1) assms(3) by (simp add: BIP9_state_def Let_def nat_add_distrib)
    ultimately show ?thesis using BIP9_state_last [OF last assms(2)] last by auto
  qed
qed

lemma period_start_known:
  assumes "index_ok idx" "0 < Period c" "case p of None \<Rightarrow> True | Some h \<Rightarrow> idx h \<noteq> None"
  shows "\<exists>r. period_start idx c p = Some r \<and> BIP9_state idx c p = BIP9_state idx c r
     \<and> (r = None \<or> (\<exists>q k. r = Some q \<and> last_of idx c k q))"
proof (cases p)
  case None
  then show ?thesis by (simp add: period_start_def)
next
  case (Some h)
  then obtain b where "idx h = Some b" using assms(3) by auto
  from period_start_last [OF assms(1,2) this] show ?thesis unfolding Some .
qed

lemma period_state_active:
  assumes "index_ok idx" "0 < Period c" "last_of idx c k q" "period_state idx c k q = Some THRESHOLD_LOCKED_IN"
  shows "prev_n idx (j * nat (Period c)) p = Some q \<Longrightarrow> idx p = Some b \<Longrightarrow>
     last_of idx c (k + j) p \<and> period_state idx c (k + j) p = Some (if j = 0 then THRESHOLD_LOCKED_IN else THRESHOLD_ACTIVE)"
proof (induction j arbitrary: p b)
  case 0
  then show ?case using assms by simp
next
  case (Suc j)
  have "prev_n idx (nat (Period c) + j * nat (Period c)) p = Some q" using Suc.prems(1) by simp
  then obtain r where r: "prev_n idx (nat (Period c)) p = Some r" "prev_n idx (j * nat (Period c)) r = Some q"
    unfolding prev_n_add by (auto split: option.splits)
  obtain d where d: "idx r = Some d" "nHeight d = nHeight b - int (nat (Period c))"
    using prev_n_height [OF assms(1) Suc.prems(2) r(1)] by blast
  have IH: "last_of idx c (k + j) r" "period_state idx c (k + j) r = Some (if j = 0 then THRESHOLD_LOCKED_IN else THRESHOLD_ACTIVE)"
    using Suc.IH [OF r(2) d(1)] by simp_all
  have "last_of idx c (Suc (k + j)) p"
    using IH(1) d Suc.prems(2) assms(2) periods_ge(2) [of "k + j" "Period c"] unfolding last_of_def by auto
  then show ?case using IH(2) r(1) by (simp add: state_next_def)
qed

subsection \<open>An example deployment\<close>

definition vb_block :: "ptr \<Rightarrow> int \<Rightarrow> u32 \<Rightarrow> CBlockIndex" where
  "vb_block prv h t = \<lparr>pprev = prv, pskip = None, nHeight = h, nChainWork = uint_zero, nStatus = 2, nVersion = 2, nTime = t, nBits = 0x1d00ffff\<rparr>"

definition vb_idx :: BlockMap where
  "vb_idx = [[0] \<mapsto> vb_block None 0 1, [1] \<mapsto> vb_block (Some [0]) 1 2, [2] \<mapsto> vb_block (Some [1]) 2 3]"

definition vb_checker :: ThresholdConditionChecker where
  "vb_checker = \<lparr>Condition = \<lambda>b. nVersion b = 2, BeginTime = 1, EndTime = 100, Period = 1, Threshold = 1\<rparr>"

lemma vb_index_ok: "index_ok vb_idx"
  by (auto simp: index_ok_def block_ok_def vb_idx_def vb_block_def split: if_splits)

lemma vb_medians: "GetMedianTimePast vb_idx [0] = Some 1" "GetMedianTimePast vb_idx [1] = Some 2" "GetMedianTimePast vb_idx [2] = Some 2"
proof -
  have "past_times vb_idx (Suc (Suc (Suc (Suc n)))) (Some [0]) = Some [1]" "past_times vb_idx (Suc (Suc (Suc (Suc n)))) (Some [1]) = Some [2, 1]"
    "past_times vb_idx (Suc (Suc (Suc (Suc n)))) (Some [2]) = Some [3, 2, 1]" for n by (simp_all add: vb_idx_def vb_block_def)
  from this [of 7] show "GetMedianTimePast vb_idx [0] = Some 1" "GetMedianTimePast vb_idx [1] = Some 2" "GetMedianTimePast vb_idx [2] = Some 2"
    by (simp_all add: GetMedianTimePast_def nMedianTimeSpan_def)
qed

lemma vb_times_ok: "times_ok vb_idx"
  using vb_medians by (auto simp: times_ok_def vb_idx_def vb_block_def split: if_splits)

lemma vb_states: "period_state vb_idx vb_checker 0 [0] = Some THRESHOLD_STARTED" "period_state vb_idx vb_checker 1 [1] = Some THRESHOLD_LOCKED_IN"
    "period_state vb_idx vb_checker 2 [2] = Some THRESHOLD_ACTIVE"
proof -
  have prev: "prev_n vb_idx (Suc 0) [1] = Some [0]" "prev_n vb_idx (Suc 0) [2] = Some [1]" by (simp_all add: vb_idx_def vb_block_def)
  have count: "count_signals vb_idx vb_checker (Suc 0) (Some [1]) = Some 1" by (simp add: vb_idx_def vb_block_def vb_checker_def)
  have par: "BeginTime vb_checker = 1" "EndTime vb_checker = 100" "Period vb_checker = 1" "Threshold vb_checker = 1"
    by (simp_all add: vb_checker_def)
  show s0: "period_state vb_idx vb_checker 0 [0] = Some THRESHOLD_STARTED" by (simp add: state_next_def vb_medians par)
  show s1: "period_state vb_idx vb_checker 1 [1] = Some THRESHOLD_LOCKED_IN"
    using s0 prev count by (simp add: state_next_def vb_medians par del: prev_n.simps count_signals.simps)
  show "period_state vb_idx vb_checker 2 [2] = Some THRESHOLD_ACTIVE"
    using prev count by (simp add: numeral_2_eq_2 state_next_def vb_medians par del: prev_n.simps count_signals.simps)
qed

lemma vb_last: "last_of vb_idx vb_checker 0 [0]" "last_of vb_idx vb_checker 1 [1]" "last_of vb_idx vb_checker 2 [2]"
  by (simp_all add: last_of_def vb_idx_def vb_block_def vb_checker_def)

subsection \<open>Properties\<close>

text \<open>C26: The cached computation of a deployment's state returns the state that the definition by periods
  gives, whatever correct entries the cache holds, and leaves a correct cache; in particular both loops end.
  The deployment must not time out before it starts.\<close>

theorem GetStateFor_is_BIP9:
  assumes "index_ok idx" "times_ok idx" "0 < Period c" "BeginTime c \<le> EndTime c" "cache_ok idx c cache"
    "case p of None \<Rightarrow> True | Some h \<Rightarrow> idx h \<noteq> None"
  shows "\<exists>cache' s. GetStateFor idx c cache p = Some (cache', s) \<and> BIP9_state idx c p = Some s \<and> cache_ok idx c cache'"
proof -
  obtain r where r: "period_start idx c p = Some r" "BIP9_state idx c p = BIP9_state idx c r" "r = None \<or> (\<exists>q k. r = Some q \<and> last_of idx c k q)"
    using period_start_known [OF assms(1,3,6)] by blast
  have "resumes idx c cache r []" using r(3) resumes_null [OF assms(5)] resumes_last [OF assms(1-5)] by blast
  then obtain cache' q vs' s0 s where w: "walk_back idx c cache r [] = Some (cache', q, vs')" "cache_ok idx c cache'" "cache' q = Some s0"
    "BIP9_state idx c r = Some s"
    "\<And>c2. cache_ok idx c c2 \<Longrightarrow> \<exists>c3. walk_forward idx c c2 s0 vs' = walk_forward idx c c3 s [] \<and> cache_ok idx c c3"
    unfolding resumes_def by blast
  obtain c3 where "walk_forward idx c cache' s0 vs' = Some (c3, s)" "cache_ok idx c c3" using w(5) [OF w(2)] by auto
  then show ?thesis using r(1,2) w(1,3,4) by (intro exI [of _ c3] exI [of _ s]) (simp add: GetStateFor_def)
qed

theorem GetStateFor_is_BIP9_witness:
  "\<exists>cache'. GetStateFor vb_idx vb_checker Map.empty (Some [2]) = Some (cache', THRESHOLD_ACTIVE)"
proof -
  have "BIP9_state vb_idx vb_checker (Some [2]) = Some THRESHOLD_ACTIVE"
    using BIP9_state_last [OF vb_last(3)] vb_states(3) by (simp add: vb_checker_def)
  moreover have "cache_ok vb_idx vb_checker Map.empty" by (simp add: cache_ok_def)
  ultimately show ?thesis
    using GetStateFor_is_BIP9 [OF vb_index_ok vb_times_ok, of vb_checker Map.empty "Some [2]"]
    by (fastforce simp: vb_checker_def vb_idx_def)
qed

text \<open>When every block is later than the median time of its parent, the median time past never decreases
  along a chain: every ancestor's is at most the block's.\<close>

theorem GetMedianTimePast_monotone:
  assumes "index_ok idx" "times_ok idx" "idx p = Some b" "prev_n idx k p = Some q"
  shows "\<exists>t t'. GetMedianTimePast idx p = Some t \<and> GetMedianTimePast idx q = Some t' \<and> t' \<le> t"
  using median_total [OF assms(1,3)] median_ancestor [OF assms(1-4)] by blast

theorem GetMedianTimePast_monotone_witness:
  "\<exists>t t'. GetMedianTimePast vb_idx [2] = Some t \<and> GetMedianTimePast vb_idx [0] = Some t' \<and> t' \<le> t"
  by (rule GetMedianTimePast_monotone [OF vb_index_ok vb_times_ok, of _ "vb_block (Some [1]) 2 3" 2])
    (simp_all add: vb_idx_def vb_block_def numeral_eq_Suc)

text \<open>A deployment that is locked in at the end of a period is active at the end of every later period,
  whatever the later blocks signal and however late they are.\<close>

theorem locked_in_becomes_active:
  assumes "index_ok idx" "0 < Period c" "last_of idx c k q" "BIP9_state idx c (Some q) = Some THRESHOLD_LOCKED_IN"
    "idx p = Some b" "prev_n idx (Suc j * nat (Period c)) p = Some q"
  shows "BIP9_state idx c (Some p) = Some THRESHOLD_ACTIVE"
proof -
  have "period_state idx c k q = Some THRESHOLD_LOCKED_IN" using assms(4) BIP9_state_last [OF assms(3,2)] by simp
  from period_state_active [OF assms(1-3) this assms(6,5)] show ?thesis using BIP9_state_last assms(2) by fastforce
qed

theorem locked_in_becomes_active_witness: "BIP9_state vb_idx vb_checker (Some [2]) = Some THRESHOLD_ACTIVE"
proof -
  have "BIP9_state vb_idx vb_checker (Some [1]) = Some THRESHOLD_LOCKED_IN"
    using BIP9_state_last [OF vb_last(2)] vb_states(2) by (simp add: vb_checker_def)
  then show ?thesis
    using locked_in_becomes_active [OF vb_index_ok _ vb_last(2), of "[2]" "vb_block (Some [1]) 2 3" 0]
    by (simp add: vb_checker_def vb_idx_def vb_block_def)
qed

end
