(* ===== verification/Serialize.thy ===== *)
theory Serialize
  imports Bytes_Common
begin

text \<open>
  The byte-level serialisers of \<open>src/src/serialize.h\<close>: little-endian integers, compact sizes and
  variable-length integers.  A stream is the list of the bytes still to be read, writing returns the
  bytes appended to the stream, and an \<open>ios_base::failure\<close> or a failed assert is a value of \<open>ser_error\<close>.  The variable-length
  integers are generic in the width of the word, like the template; the write into the local
  array \<open>tmp\<close> outside its bounds is None.
\<close>

unbundle bit_operations_syntax

datatype ser_error = END_OF_DATA | NON_CANONICAL | SIZE_TOO_LARGE | SUPERFLUOUS_WITNESS | UNKNOWN_OPTIONAL_DATA | ASSERTION_FAILED

type_synonym 'a reading = "ser_error + 'a \<times> bytes"

definition bind_read :: "'a reading \<Rightarrow> ('a \<Rightarrow> bytes \<Rightarrow> 'b reading) \<Rightarrow> 'b reading" where
  "bind_read m f = (case m of Inl e \<Rightarrow> Inl e | Inr (a, s) \<Rightarrow> f a s)"

lemma bind_read_Inr: "bind_read m f = Inr y \<longleftrightarrow> (\<exists>a s. m = Inr (a, s) \<and> f a s = Inr y)"
  by (auto simp: bind_read_def split: sum.splits)

lemma bind_read_simps [simp]: "bind_read (Inr (a, s)) f = f a s" "bind_read (Inl e) f = Inl e"
  by (simp_all add: bind_read_def)

text \<open>\<open>read(pch, n)\<close> of the stream.\<close>

definition read_bytes :: "nat \<Rightarrow> bytes \<Rightarrow> bytes reading" where
  "read_bytes n s = (if length s < n then Inl END_OF_DATA else Inr (take n s, drop n s))"

definition ser_readdata8 :: "bytes \<Rightarrow> u8 reading" where
  "ser_readdata8 s = bind_read (read_bytes 1 s) (\<lambda>obj s. Inr (hd obj, s))"

definition ser_readdata16 :: "bytes \<Rightarrow> u16 reading" where
  "ser_readdata16 s = bind_read (read_bytes 2 s) (\<lambda>obj s. Inr (ReadLE16 obj, s))"

definition ser_readdata32 :: "bytes \<Rightarrow> u32 reading" where
  "ser_readdata32 s = bind_read (read_bytes 4 s) (\<lambda>obj s. Inr (ReadLE32 obj, s))"

definition ser_readdata64 :: "bytes \<Rightarrow> u64 reading" where
  "ser_readdata64 s = bind_read (read_bytes 8 s) (\<lambda>obj s. Inr (ReadLE64 obj, s))"

definition ser_writedata8 :: "u8 \<Rightarrow> bytes" where "ser_writedata8 obj = [obj]"
definition ser_writedata16 :: "u16 \<Rightarrow> bytes" where "ser_writedata16 obj = WriteLE16 obj"
definition ser_writedata32 :: "u32 \<Rightarrow> bytes" where "ser_writedata32 obj = WriteLE32 obj"
definition ser_writedata64 :: "u64 \<Rightarrow> bytes" where "ser_writedata64 obj = WriteLE64 obj"

subsection \<open>Compact size\<close>

definition MAX_SIZE :: u64 where "MAX_SIZE = 0x02000000"

definition GetSizeOfCompactSize :: "u64 \<Rightarrow> nat" where
  "GetSizeOfCompactSize nSize =
     (if nSize < 253 then 1 else if nSize \<le> 0xFFFF then 1 + 2 else if nSize \<le> 0xFFFFFFFF then 1 + 4 else 1 + 8)"

definition WriteCompactSize :: "u64 \<Rightarrow> bytes" where
  "WriteCompactSize nSize =
     (if nSize < 253 then ser_writedata8 (ucast nSize)
      else if nSize \<le> 0xFFFF then ser_writedata8 253 @ ser_writedata16 (ucast nSize)
      else if nSize \<le> 0xFFFFFFFF then ser_writedata8 254 @ ser_writedata32 (ucast nSize)
      else ser_writedata8 255 @ ser_writedata64 nSize)"

definition ReadCompactSize :: "bytes \<Rightarrow> u64 reading" where
  "ReadCompactSize is =
     bind_read (ser_readdata8 is) (\<lambda>chSize is.
     bind_read
       (if chSize < 253 then Inr (ucast chSize, is)
        else if chSize = 253
        then bind_read (ser_readdata16 is) (\<lambda>v is. if (ucast v :: u64) < 253 then Inl NON_CANONICAL else Inr (ucast v, is))
        else if chSize = 254
        then bind_read (ser_readdata32 is) (\<lambda>v is. if (ucast v :: u64) < 0x10000 then Inl NON_CANONICAL else Inr (ucast v, is))
        else bind_read (ser_readdata64 is) (\<lambda>v is. if v < 0x100000000 then Inl NON_CANONICAL else Inr (v, is)))
       (\<lambda>nSizeRet is. if nSizeRet > MAX_SIZE then Inl SIZE_TOO_LARGE else Inr (nSizeRet, is)))"

subsection \<open>Variable-length integers\<close>

lemma varint_more:
  fixes n :: "'a::len word"
  assumes "\<not> n \<le> 0x7F"
  shows "7 < LENGTH('a)" "128 \<le> unat n" "unat (drop_bit 7 n - 1) = unat n div 128 - 1"
proof -
  have n: "unat n < 2 ^ LENGTH('a)" by (rule unsigned_less)
  have m: "unat (0x7F :: 'a word) = take_bit LENGTH('a) 127" by simp
  show w: "7 < LENGTH('a)"
  proof (rule ccontr)
    assume "\<not> 7 < LENGTH('a)"
    then have "take_bit LENGTH('a) (mask 7) = (mask LENGTH('a) :: nat)" by (simp add: take_bit_of_mask min_def)
    then have "take_bit LENGTH('a) 127 = (2 :: nat) ^ LENGTH('a) - 1" by (simp add: mask_eq_exp_minus_1)
    moreover have "unat n \<le> 2 ^ LENGTH('a) - 1" using n by linarith
    ultimately show False using assms m by (simp add: word_le_nat_alt)
  qed
  have "take_bit LENGTH('a) (127 :: nat) = 127"
    using w power_strict_increasing [of 7 "LENGTH('a)" "2 :: nat"] by (intro take_bit_nat_eq_self) simp
  then show g: "128 \<le> unat n" using assms m by (simp add: word_le_nat_alt)
  have d: "unat (drop_bit 7 n) = unat n div 128" by (simp add: unat_drop_bit)
  have "1 \<le> unat n div 128" using g by (simp add: div_le_mono [of 128, simplified])
  then have "(1 :: 'a word) \<le> drop_bit 7 n" using d by (simp add: word_le_nat_alt)
  then show "unat (drop_bit 7 n - 1) = unat n div 128 - 1" using d by (simp add: unat_sub)
qed

text \<open>\<open>tmp\<close> holds the bytes written so far, the last one first, which is the order in which they go to
  the stream.\<close>

function varint_tmp :: "'a::len word \<Rightarrow> bytes \<Rightarrow> bytes option" where
  "varint_tmp n tmp =
     (if length tmp \<ge> (LENGTH('a) + 6) div 7 then None
      else let tmp' = (ucast (n AND 0x7F) OR (if tmp \<noteq> [] then 0x80 else 0)) # tmp
           in if n \<le> 0x7F then Some tmp' else varint_tmp (drop_bit 7 n - 1) tmp')"
  by pat_completeness auto
termination
  by (relation "measure (\<lambda>(n, tmp). (LENGTH('a) + 6) div 7 - length tmp)") auto

declare varint_tmp.simps [simp del]

definition WriteVarInt :: "'a::len word \<Rightarrow> bytes option" where
  "WriteVarInt n = varint_tmp n []"

function GetSizeOfVarInt :: "'a::len word \<Rightarrow> nat" where
  "GetSizeOfVarInt n = (if n \<le> 0x7F then 1 else 1 + GetSizeOfVarInt (drop_bit 7 n - 1))"
  by pat_completeness auto
termination
proof (relation "measure unat")
  fix n :: "'a word"
  assume "\<not> n \<le> 0x7F"
  from varint_more(2,3) [OF this] show "(drop_bit 7 n - 1, n) \<in> measure unat" by simp
qed simp

declare GetSizeOfVarInt.simps [simp del]

fun varint_read :: "'a::len word \<Rightarrow> bytes \<Rightarrow> 'a word reading" where
  "varint_read n [] = Inl END_OF_DATA"
| "varint_read n (chData # is) =
     (let n = push_bit 7 n OR ucast (chData AND 0x7F)
      in if chData AND 0x80 \<noteq> 0 then varint_read (n + 1) is else Inr (n, is))"

definition ReadVarInt :: "bytes \<Rightarrow> 'a::len word reading" where
  "ReadVarInt is = varint_read 0 is"

subsection \<open>Vectors\<close>

text \<open>Vectors of bytes are read in blocks of at most five million; the other vectors element by element (their
  outer loop only bounds how much is allocated ahead of the reads).\<close>

definition Serialize_blob :: "bytes \<Rightarrow> bytes" where
  "Serialize_blob v = WriteCompactSize (of_nat (length v)) @ v"

function blob_loop :: "nat \<Rightarrow> nat \<Rightarrow> bytes \<Rightarrow> bytes \<Rightarrow> bytes reading" where
  "blob_loop nSize i v is =
     (if i < nSize
      then let blk = min (nSize - i) (1 + 4999999)
           in bind_read (read_bytes blk is) (\<lambda>p is. blob_loop nSize (i + blk) (v @ p) is)
      else Inr (v, is))"
  by pat_completeness auto
termination
  by (relation "measure (\<lambda>(nSize, i, v, is). nSize - i)") auto

declare blob_loop.simps [simp del]

definition Unserialize_blob :: "bytes \<Rightarrow> bytes reading" where
  "Unserialize_blob is = bind_read (ReadCompactSize is) (\<lambda>nSize is. blob_loop (unat nSize) 0 [] is)"

definition Serialize_vector :: "('a \<Rightarrow> bytes) \<Rightarrow> 'a list \<Rightarrow> bytes" where
  "Serialize_vector ser v = WriteCompactSize (of_nat (length v)) @ concat (map ser v)"

fun read_elements :: "(bytes \<Rightarrow> 'a reading) \<Rightarrow> nat \<Rightarrow> bytes \<Rightarrow> 'a list reading" where
  "read_elements unser 0 is = Inr ([], is)"
| "read_elements unser (Suc n) is =
     bind_read (unser is) (\<lambda>x is. bind_read (read_elements unser n is) (\<lambda>xs is. Inr (x # xs, is)))"

definition Unserialize_vector :: "(bytes \<Rightarrow> 'a reading) \<Rightarrow> bytes \<Rightarrow> 'a list reading" where
  "Unserialize_vector unser is = bind_read (ReadCompactSize is) (\<lambda>nSize is. read_elements unser (unat nSize) is)"

subsection \<open>Fixed-width integers round-trip\<close>

lemma list_2: "length p = 2 \<Longrightarrow> p = [p ! 0, p ! 1]"
  by (cases p; cases "tl p") auto

lemma WriteLE16_Read: "length p = 2 \<Longrightarrow> WriteLE16 (ReadLE16 p) = p"
proof -
  assume "length p = 2"
  then obtain a b where "p = [a, b]" by (metis list_2)
  moreover have "WriteLE16 (ReadLE16 [a, b]) = [a, b]"
    unfolding WriteLE16_def list.inject
    by (intro conjI bit_word_eqI)
      (auto simp: ReadLE16_def bit_or_iff bit_push_bit_iff bit_ucast_iff bit_drop_bit_eq dest: bit_imp_le_length)
  ultimately show ?thesis by simp
qed

lemma ReadLE64_halves: "ucast (ReadLE64 p) = ReadLE32 p" "ucast (drop_bit 32 (ReadLE64 p)) = ReadLE32 (drop 4 p)"
  by (rule bit_word_eqI,
      auto simp: ReadLE64_def bit_or_iff bit_push_bit_iff bit_ucast_iff bit_drop_bit_eq dest: bit_imp_le_length)+

lemma WriteLE64_Read: "length p = 8 \<Longrightarrow> WriteLE64 (ReadLE64 p) = p"
proof -
  assume len: "length p = 8"
  have "WriteLE32 (ReadLE32 p) = take 4 p"
    using WriteLE32_Read [of "take 4 p"] len by (simp add: ReadLE32_take)
  moreover have "WriteLE32 (ReadLE32 (drop 4 p)) = drop 4 p" using len by (intro WriteLE32_Read) simp
  ultimately show ?thesis by (simp add: WriteLE64_def ReadLE64_halves)
qed

lemma read_bytes_iff: "read_bytes n s = Inr (p, r) \<longleftrightarrow> s = p @ r \<and> length p = n"
  by (auto simp: read_bytes_def)

lemma ser_readdata_iff:
  "ser_readdata8 s = Inr (b, r) \<longleftrightarrow> s = ser_writedata8 b @ r"
  "ser_readdata16 s = Inr (x, r) \<longleftrightarrow> s = ser_writedata16 x @ r"
  "ser_readdata32 s = Inr (y, r) \<longleftrightarrow> s = ser_writedata32 y @ r"
  "ser_readdata64 s = Inr (z, r) \<longleftrightarrow> s = ser_writedata64 z @ r"
proof -
  show "ser_readdata8 s = Inr (b, r) \<longleftrightarrow> s = ser_writedata8 b @ r"
    by (cases s) (auto simp: ser_readdata8_def ser_writedata8_def read_bytes_def)
  show "ser_readdata16 s = Inr (x, r) \<longleftrightarrow> s = ser_writedata16 x @ r"
    using WriteLE16_Read ReadLE16_Write [of x "[]"]
    by (auto simp: ser_readdata16_def ser_writedata16_def bind_read_Inr read_bytes_iff)
  show "ser_readdata32 s = Inr (y, r) \<longleftrightarrow> s = ser_writedata32 y @ r"
    using WriteLE32_Read ReadLE32_Write [of y "[]"]
    by (auto simp: ser_readdata32_def ser_writedata32_def bind_read_Inr read_bytes_iff)
  show "ser_readdata64 s = Inr (z, r) \<longleftrightarrow> s = ser_writedata64 z @ r"
    using WriteLE64_Read ReadLE64_Write [of z "[]"]
    by (auto simp: ser_readdata64_def ser_writedata64_def bind_read_Inr read_bytes_iff)
qed

lemma ser_readdata_write [simp]:
  "ser_readdata8 (ser_writedata8 b @ r) = Inr (b, r)"
  "ser_readdata16 (ser_writedata16 x @ r) = Inr (x, r)"
  "ser_readdata32 (ser_writedata32 y @ r) = Inr (y, r)"
  "ser_readdata64 (ser_writedata64 z @ r) = Inr (z, r)"
  by (simp_all add: ser_readdata_iff)

subsection \<open>Compact sizes\<close>

lemma ucast_back:
  fixes n :: u64
  shows "n < 0x100 \<Longrightarrow> ucast (ucast n :: u8) = n" "n < 0x10000 \<Longrightarrow> ucast (ucast n :: u16) = n"
    "n < 0x100000000 \<Longrightarrow> ucast (ucast n :: u32) = n"
  by (simp_all add: word_unat_eq_iff word_less_nat_alt unsigned_ucast_eq unsigned_take_bit_eq take_bit_nat_eq_self)

lemma ucast_small:
  "ucast (v :: u8) < (253 :: u64) \<longleftrightarrow> v < 253" "ucast (x :: u16) < (0x10000 :: u64)" "ucast (y :: u32) < (0x100000000 :: u64)"
  using unat_lt_exp [of v] unat_lt_exp [of x] unat_lt_exp [of y]
  by (simp_all add: word_less_nat_alt unsigned_ucast_eq take_bit_nat_eq_self)

lemma ucast_up_down [simp]:
  "ucast (ucast v :: u64) = (v :: u8)" "ucast (ucast x :: u64) = (x :: u16)" "ucast (ucast y :: u64) = (y :: u32)"
  by (rule bit_word_eqI, auto simp: bit_simps)+

lemma ReadCompactSize_sound:
  assumes "ReadCompactSize s = Inr (n, r)"
  shows "s = WriteCompactSize n @ r \<and> n \<le> MAX_SIZE"
proof -
  obtain ch s' where ch: "s = ser_writedata8 ch @ s'"
    using assms by (auto simp: ReadCompactSize_def bind_read_Inr ser_readdata_iff)
  have big: "ch = 255" if "\<not> ch < 253" "ch \<noteq> 253" "ch \<noteq> 254"
    using that unat_lt_exp [of ch] by (simp add: word_less_nat_alt word_unat_eq_iff)
  show ?thesis
  proof (cases "ch < 253")
    case True
    then have "n = ucast ch" "r = s'" "n \<le> MAX_SIZE"
      using assms ch by (auto simp: ReadCompactSize_def split: if_splits)
    then show ?thesis using ch True ucast_small(1) [of ch] by (simp add: WriteCompactSize_def)
  next
    case False
    then consider "ch = 253" | "ch = 254" | "ch = 255" using big by blast
    then show ?thesis
    proof cases
      case 1
      then obtain v where "s' = ser_writedata16 v @ r" "n = ucast v" "\<not> ucast v < (253 :: u64)" "n \<le> MAX_SIZE"
        using assms ch by (auto simp: ReadCompactSize_def bind_read_Inr ser_readdata_iff split: if_splits)
      then show ?thesis using ch 1 ucast_small(2) [of v] by (simp add: WriteCompactSize_def word_less_nat_alt word_le_nat_alt)
    next
      case 2
      then obtain v where "s' = ser_writedata32 v @ r" "n = ucast v" "\<not> ucast v < (0x10000 :: u64)" "n \<le> MAX_SIZE"
        using assms ch by (auto simp: ReadCompactSize_def bind_read_Inr ser_readdata_iff split: if_splits)
      then show ?thesis using ch 2 ucast_small(3) [of v] by (simp add: WriteCompactSize_def word_less_nat_alt word_le_nat_alt)
    next
      case 3
      then have "s' = ser_writedata64 n @ r" "\<not> n < (0x100000000 :: u64)" "n \<le> MAX_SIZE"
        using assms ch by (auto simp: ReadCompactSize_def bind_read_Inr ser_readdata_iff split: if_splits)
      then show ?thesis by (simp add: MAX_SIZE_def word_less_nat_alt word_le_nat_alt)
    qed
  qed
qed

lemma ReadCompactSize_complete: "ReadCompactSize (WriteCompactSize n @ r) = (if n \<le> MAX_SIZE then Inr (n, r) else Inl SIZE_TOO_LARGE)"
proof -
  consider "n < 253" | "\<not> n < 253" "n \<le> 0xFFFF" | "\<not> n \<le> 0xFFFF" "n \<le> 0xFFFFFFFF" | "\<not> n \<le> 0xFFFFFFFF" by blast
  then show ?thesis
  proof cases
    case 1
    then have "n < 0x100" by (simp add: word_less_nat_alt)
    then have "ucast (ucast n :: u8) = n" by (rule ucast_back)
    moreover from this have "(ucast n :: u8) < 253" using 1 ucast_small(1) [of "ucast n"] by simp
    ultimately show ?thesis using 1 by (auto simp: WriteCompactSize_def ReadCompactSize_def)
  next
    case 2
    then have "n < 0x10000" by (simp add: word_less_nat_alt word_le_nat_alt)
    then have "ucast (ucast n :: u16) = n" by (rule ucast_back)
    then show ?thesis using 2 by (auto simp: WriteCompactSize_def ReadCompactSize_def)
  next
    case 3
    then have "n < 0x100000000" "\<not> n < 0x10000" "\<not> n < 253" by (simp_all add: word_less_nat_alt word_le_nat_alt)
    moreover from this have "ucast (ucast n :: u32) = n" by (intro ucast_back)
    ultimately show ?thesis using 3 by (auto simp: WriteCompactSize_def ReadCompactSize_def)
  next
    case 4
    then have "\<not> n < 0x100000000" "\<not> n \<le> 0xFFFF" "\<not> n < 253" by (simp_all add: word_less_nat_alt word_le_nat_alt)
    then show ?thesis using 4 by (auto simp: WriteCompactSize_def ReadCompactSize_def)
  qed
qed

subsection \<open>Variable-length integers\<close>

lemma varint_tmp_bound:
  fixes n :: "'a::len word"
  shows "unat n < 2 ^ (LENGTH('a) - 7 * length tmp) \<Longrightarrow> 7 * length tmp < LENGTH('a) \<Longrightarrow> \<exists>out. varint_tmp n tmp = Some out"
proof (induction n tmp rule: varint_tmp.induct)
  case (1 n tmp)
  have room: "\<not> length tmp \<ge> (LENGTH('a) + 6) div 7" using 1(3) by linarith
  show ?case
  proof (cases "n \<le> 0x7F")
    case True
    then show ?thesis using room by (subst varint_tmp.simps) (simp add: Let_def)
  next
    case False
    note more = varint_more [OF False]
    have "7 < LENGTH('a) - 7 * length tmp"
    proof (rule ccontr)
      assume "\<not> 7 < LENGTH('a) - 7 * length tmp"
      then have "2 ^ (LENGTH('a) - 7 * length tmp) \<le> (2 :: nat) ^ 7" by (intro power_increasing) simp_all
      then show False using 1(2) more(2) by simp
    qed
    moreover from this have "(2 :: nat) ^ (LENGTH('a) - 7 * length tmp) = 2 ^ (LENGTH('a) - 7 * Suc (length tmp)) * 128"
      using power_add [of "2 :: nat" "LENGTH('a) - 7 * Suc (length tmp)" 7] by simp
    ultimately have "unat (drop_bit 7 n - 1) < 2 ^ (LENGTH('a) - 7 * Suc (length tmp))" "7 * Suc (length tmp) < LENGTH('a)"
      using 1(2) less_mult_imp_div_less [of "unat n" "2 ^ (LENGTH('a) - 7 * Suc (length tmp))" 128] more(3) by (simp_all add: less_imp_diff_less)
    then show ?thesis using 1(1) [OF room refl False] False room
      by (subst varint_tmp.simps) (simp only: Let_def if_False list.size add_0_right add_Suc_right)
  qed
qed

lemma varint_digit:
  fixes n :: "'a::len word" and c :: u8
  assumes "c = 0 \<or> c = 0x80"
  shows "push_bit 7 (drop_bit 7 n) OR ucast ((ucast (n AND 0x7F) OR c) AND 0x7F) = n"
proof -
  have 8: "(0x7F :: u8) = mask 7" and a: "(0x7F :: 'a word) = mask 7" by (simp_all add: mask_eq_exp_minus_1)
  have c: "\<not> bit c i" if "i < 7" for i using assms that by (auto simp: bit_numeral_rec less_Suc_eq_0_disj numeral_eq_Suc)
  show ?thesis
    unfolding 8 a
  proof (rule bit_word_eqI)
    fix i
    show "bit (push_bit 7 (drop_bit 7 n) OR ucast ((ucast (n AND mask 7) OR c) AND mask 7)) i \<longleftrightarrow> bit n i" if "i < LENGTH('a)"
      using that c by (cases "i < 7") (simp_all add: bit_simps)
  qed
qed

lemma varint_flag: "((ucast (n AND 0x7F :: 'a::len word) OR (if b then 0x80 else 0)) AND (0x80 :: u8) = 0) \<longleftrightarrow> \<not> b"
proof -
  have a: "(0x7F :: 'a word) = mask 7" by (simp add: mask_eq_exp_minus_1)
  have "(ucast (n AND mask 7) :: u8) AND 0x80 = 0" by (rule bit_word_eqI) (auto simp: bit_simps less_Suc_eq numeral_eq_Suc)
  then show ?thesis unfolding a by (simp add: bit.conj_disj_distrib2)
qed

lemma varint_last: "n \<le> 0x7F \<Longrightarrow> drop_bit 7 n = (0 :: 'a::len word)"
proof -
  assume "n \<le> 0x7F"
  then have "unat n \<le> take_bit LENGTH('a) 127" by (simp add: word_le_nat_alt)
  also have "\<dots> \<le> 127" by (rule take_bit_nat_less_eq_self)
  finally have "unat (drop_bit 7 n) = 0" unfolding unat_drop_bit by simp
  then show ?thesis by (simp only: unat_eq_0)
qed

lemma varint_read_tmp:
  fixes n :: "'a::len word"
  shows "varint_tmp n tmp = Some out \<Longrightarrow>
    varint_read 0 (out @ r) = (if tmp = [] then Inr (n, r) else varint_read (n + 1) (tmp @ r))"
proof (induction n tmp rule: varint_tmp.induct)
  case (1 n tmp)
  have out: "if n \<le> 0x7F then out = (ucast (n AND 0x7F) OR (if tmp \<noteq> [] then 0x80 else 0)) # tmp
      else varint_tmp (drop_bit 7 n - 1) ((ucast (n AND 0x7F) OR (if tmp \<noteq> [] then 0x80 else 0)) # tmp) = Some out"
    and room: "\<not> (LENGTH('a) + 6) div 7 \<le> length tmp"
    using 1(2) varint_tmp.simps [of n tmp] by (simp_all only: Let_def split: if_splits) simp_all
  let ?b = "ucast (n AND 0x7F) OR (if tmp \<noteq> [] then 0x80 else 0) :: u8"
  show ?case
  proof (cases "n \<le> 0x7F")
    case True
    then have "drop_bit 7 n = 0" by (rule varint_last)
    then have "push_bit 7 0 OR ucast (?b AND 0x7F) = n" using varint_digit [of "if tmp \<noteq> [] then 0x80 else 0" n] by simp
    then show ?thesis using out True varint_flag [of n "tmp \<noteq> []"] by (simp add: Let_def)
  next
    case False
    then have "varint_read 0 (out @ r) = varint_read (drop_bit 7 n) (?b # tmp @ r)"
      using 1(1) [OF room refl False] out by simp
    then show ?thesis using varint_digit [of "if tmp \<noteq> [] then 0x80 else 0" n] varint_flag [of n "tmp \<noteq> []"] by (simp add: Let_def)
  qed
qed

lemma varint_tmp_size: "varint_tmp n tmp = Some out \<Longrightarrow> length out = length tmp + GetSizeOfVarInt n"
proof (induction n tmp rule: varint_tmp.induct)
  case (1 n tmp)
  then show ?case
    using varint_tmp.simps [of n tmp] GetSizeOfVarInt.simps [of n] by (simp add: Let_def split: if_splits) auto
qed

subsection \<open>Codecs\<close>

text \<open>What every pair of \<open>Serialize\<close> and \<open>Unserialize\<close> promises its users: reading what was written for an admissible value
  gives the value back and consumes exactly what was written.  Vectors inherit it from their elements.\<close>

locale codec =
  fixes ok :: "'a \<Rightarrow> bool" and ser :: "'a \<Rightarrow> bytes" and unser :: "bytes \<Rightarrow> 'a reading"
  assumes read_written: "ok x \<Longrightarrow> unser (ser x @ r) = Inr (x, r)"
begin

lemma ser_prefix_free: "ok x \<Longrightarrow> ok y \<Longrightarrow> ser x @ r = ser y @ r' \<Longrightarrow> x = y \<and> r = r'"
  by (metis Pair_inject read_written sum.inject(2))

lemma read_elements_written: "list_all ok v \<Longrightarrow> read_elements unser (length v) (concat (map ser v) @ r) = Inr (v, r)"
  by (induction v) (simp_all add: read_written)

lemma vector_read_written:
  assumes "list_all ok v" "length v \<le> unat MAX_SIZE"
  shows "Unserialize_vector unser (Serialize_vector ser v @ r) = Inr (v, r)"
proof -
  have len: "unat (of_nat (length v) :: u64) = length v"
    using assms(2) by (simp add: MAX_SIZE_def unat_of_nat take_bit_nat_eq_self)
  then have "(of_nat (length v) :: u64) \<le> MAX_SIZE" using assms(2) by (simp add: word_le_nat_alt)
  then show ?thesis
    using len read_elements_written [OF assms(1)]
    by (simp add: Unserialize_vector_def Serialize_vector_def ReadCompactSize_complete)
qed

end

lemma blob_loop_reads: "blob_loop (i + length p) i v (p @ r) = Inr (v @ p, r)"
proof (induction "length p" arbitrary: i v p rule: less_induct)
  case less
  show ?case
  proof (cases "p = []")
    case True
    then show ?thesis by (subst blob_loop.simps) simp
  next
    case False
    define b where "b = min (length p) 5000000"
    have "blob_loop (i + b + length (drop b p)) (i + b) (v @ take b p) (drop b p @ r) = Inr ((v @ take b p) @ drop b p, r)"
      using False by (intro less.hyps) (simp add: b_def)
    moreover have "i + b + length (drop b p) = i + length p" by (simp add: b_def)
    moreover have "read_bytes b (p @ r) = Inr (take b p, drop b p @ r)" by (simp add: read_bytes_def b_def)
    ultimately show ?thesis using False by (subst blob_loop.simps) (simp add: Let_def b_def [symmetric])
  qed
qed

lemma blob_read_written: "length v \<le> unat MAX_SIZE \<Longrightarrow> Unserialize_blob (Serialize_blob v @ r) = Inr (v, r)"
proof -
  assume "length v \<le> unat MAX_SIZE"
  moreover from this have len: "unat (of_nat (length v) :: u64) = length v"
    by (simp add: MAX_SIZE_def unat_of_nat take_bit_nat_eq_self)
  ultimately have "(of_nat (length v) :: u64) \<le> MAX_SIZE" by (simp add: word_le_nat_alt)
  then show ?thesis using len blob_loop_reads [of 0 v "[]" r]
    by (simp add: Unserialize_blob_def Serialize_blob_def ReadCompactSize_complete)
qed

interpretation u32_codec: codec "\<lambda>_. True" ser_writedata32 ser_readdata32
  by unfold_locales simp

interpretation u64_codec: codec "\<lambda>_. True" ser_writedata64 ser_readdata64
  by unfold_locales simp

interpretation blob_codec: codec "\<lambda>v. length v \<le> unat MAX_SIZE" Serialize_blob Unserialize_blob
  by unfold_locales (rule blob_read_written)

text \<open>\<open>WriteVarInt\<close> stays within its local array, writes as many bytes as \<open>GetSizeOfVarInt\<close> says, and is read back.\<close>

lemma varint_written:
  fixes n :: "'a::len word"
  shows "\<exists>out. WriteVarInt n = Some out \<and> length out = GetSizeOfVarInt n \<and> ReadVarInt (out @ r) = Inr (n, r)"
proof -
  obtain out where out: "varint_tmp n [] = Some out" using varint_tmp_bound [of n "[]"] unat_lt_exp [of n] by auto
  then show ?thesis using varint_tmp_size [OF out] varint_read_tmp [OF out, of r] by (simp add: WriteVarInt_def ReadVarInt_def)
qed

subsection \<open>Properties\<close>

text \<open>A compact size is read exactly when the stream starts with the bytes \<open>WriteCompactSize\<close> writes for it and
  it does not exceed \<open>MAX_SIZE\<close>: every longer form, oversized value and truncated stream is rejected.\<close>

theorem ReadCompactSize_canonical:
  "ReadCompactSize s = Inr (n, r) \<longleftrightarrow> s = WriteCompactSize n @ r \<and> n \<le> MAX_SIZE"
  using ReadCompactSize_sound ReadCompactSize_complete by fastforce

text \<open>\<open>ReadVarInt\<close> does not check for overflow: two encodings of one integer.\<close>

lemma ReadVarInt_wraps:
  "ReadVarInt [0x8E, 0xFE, 0xFE, 0xFF, 0x00] = (Inr (0, []) :: u32 reading)" "ReadVarInt [0x00] = (Inr (0, []) :: u32 reading)"
  by (simp_all add: ReadVarInt_def Let_def)

end
