(* ===== verification/Transaction.thy ===== *)
theory Transaction
  imports Serialize Script Uint256 Hash
begin

text \<open>
  Transactions: \<open>src/src/primitives/transaction.h\<close> and \<open>src/src/primitives/transaction.cpp\<close>, with the amounts of
  \<open>src/src/amount.h\<close>.  The fields a transaction keeps in memory only for the mixing code (\<open>nRounds\<close>,
  \<open>prevPubKey\<close> and the per-input copy of the witness) are left out; the cached \<open>hash\<close> is a field, set by
  \<open>UpdateHash\<close>.  Amounts and versions are integers of the range of their C++ type.  The flag
  \<open>SERIALIZE_TRANSACTION_NO_WITNESS\<close> of the stream version is the Boolean argument \<open>noWitness\<close>.
\<close>

unbundle bit_operations_syntax

subsection \<open>Amounts\<close>

type_synonym CAmount = int

definition COIN :: CAmount where "COIN = 100000000"
definition CENT :: CAmount where "CENT = 1000000"
definition MAX_MONEY :: CAmount where "MAX_MONEY = 21625000 * COIN"

definition MoneyRange :: "CAmount \<Rightarrow> bool" where
  "MoneyRange nValue \<longleftrightarrow> nValue \<ge> 0 \<and> nValue \<le> MAX_MONEY"

subsection \<open>Data\<close>

record COutPoint =
  out_hash :: uint256
  out_n :: u32

record CTxIn =
  prevout :: COutPoint
  scriptSig :: CScript
  nSequence :: u32

record CTxOut =
  nValue :: CAmount
  scriptPubKey :: CScript

record CTransaction =
  tx_hash :: uint256
  tx_nVersion :: int
  vin :: "CTxIn list"
  vout :: "CTxOut list"
  vtxinwit :: "bytes list list"
  nLockTime :: u32

definition COutPoint_null :: COutPoint where
  "COutPoint_null = \<lparr>out_hash = blob_zero 32, out_n = - 1\<rparr>"

definition OutPoint_IsNull :: "COutPoint \<Rightarrow> bool" where
  "OutPoint_IsNull p \<longleftrightarrow> blob_IsNull (out_hash p) \<and> out_n p = - 1"

definition IsSigmaMintGroup :: "COutPoint \<Rightarrow> bool" where
  "IsSigmaMintGroup p \<longleftrightarrow> blob_IsNull (out_hash p) \<and> out_n p \<ge> 1"

definition OutPoint_less :: "COutPoint \<Rightarrow> COutPoint \<Rightarrow> bool" where
  "OutPoint_less a b \<longleftrightarrow> (let cmp = blob_Compare (out_hash a) (out_hash b) in cmp < 0 \<or> cmp = 0 \<and> out_n a < out_n b)"

definition SEQUENCE_FINAL :: u32 where "SEQUENCE_FINAL = 0xffffffff"
definition SEQUENCE_LOCKTIME_DISABLE_FLAG :: u32 where "SEQUENCE_LOCKTIME_DISABLE_FLAG = push_bit 31 1"
definition SEQUENCE_LOCKTIME_TYPE_FLAG :: u32 where "SEQUENCE_LOCKTIME_TYPE_FLAG = push_bit 22 1"
definition SEQUENCE_LOCKTIME_MASK :: u32 where "SEQUENCE_LOCKTIME_MASK = 0x0000ffff"
definition SEQUENCE_LOCKTIME_GRANULARITY :: nat where "SEQUENCE_LOCKTIME_GRANULARITY = 9"

definition TxIn_IsZerocoinSpend :: "CTxIn \<Rightarrow> bool" where
  "TxIn_IsZerocoinSpend i \<longleftrightarrow> OutPoint_IsNull (prevout i) \<and> length (scriptSig i) > 0 \<and> op_at (scriptSig i) 0 = OP_ZEROCOINSPEND"

definition TxIn_IsSigmaSpend :: "CTxIn \<Rightarrow> bool" where
  "TxIn_IsSigmaSpend i \<longleftrightarrow> IsSigmaMintGroup (prevout i) \<and> length (scriptSig i) > 0 \<and> op_at (scriptSig i) 0 = OP_SIGMASPEND"

definition TxOut_null :: CTxOut where "TxOut_null = \<lparr>nValue = - 1, scriptPubKey = []\<rparr>"
definition TxOut_IsNull :: "CTxOut \<Rightarrow> bool" where "TxOut_IsNull t \<longleftrightarrow> nValue t = - 1"
definition TxOut_IsEmpty :: "CTxOut \<Rightarrow> bool" where "TxOut_IsEmpty t \<longleftrightarrow> nValue t = 0 \<and> scriptPubKey t = []"

definition TxOut_IsUnspendable :: "CTxOut \<Rightarrow> bool" where
  "TxOut_IsUnspendable t \<longleftrightarrow> TxOut_IsEmpty t \<or> (length (scriptPubKey t) > 0 \<and> op_at (scriptPubKey t) 0 = OP_RETURN)"

definition IsUnspendable :: "CScript \<Rightarrow> bool" where
  "IsUnspendable s \<longleftrightarrow> (length s > 0 \<and> op_at s 0 = OP_RETURN) \<or> length s > MAX_SCRIPT_SIZE"

subsection \<open>Serialisation\<close>

definition Unserialize_uint256 :: "bytes \<Rightarrow> uint256 reading" where
  "Unserialize_uint256 s = read_bytes 32 s"

definition Serialize_OutPoint :: "COutPoint \<Rightarrow> bytes" where
  "Serialize_OutPoint p = out_hash p @ ser_writedata32 (out_n p)"

definition Unserialize_OutPoint :: "bytes \<Rightarrow> COutPoint reading" where
  "Unserialize_OutPoint s =
     bind_read (Unserialize_uint256 s) (\<lambda>h s. bind_read (ser_readdata32 s) (\<lambda>n s. Inr (\<lparr>out_hash = h, out_n = n\<rparr>, s)))"

definition Serialize_TxIn :: "CTxIn \<Rightarrow> bytes" where
  "Serialize_TxIn i = Serialize_OutPoint (prevout i) @ Serialize_blob (scriptSig i) @ ser_writedata32 (nSequence i)"

definition Unserialize_TxIn :: "bytes \<Rightarrow> CTxIn reading" where
  "Unserialize_TxIn s =
     bind_read (Unserialize_OutPoint s) (\<lambda>p s.
     bind_read (Unserialize_blob s) (\<lambda>sig s.
     bind_read (ser_readdata32 s) (\<lambda>q s. Inr (\<lparr>prevout = p, scriptSig = sig, nSequence = q\<rparr>, s))))"

definition Serialize_TxOut :: "CTxOut \<Rightarrow> bytes" where
  "Serialize_TxOut t = ser_writedata64 (word_of_int (nValue t)) @ Serialize_blob (scriptPubKey t)"

definition Unserialize_TxOut :: "bytes \<Rightarrow> CTxOut reading" where
  "Unserialize_TxOut s =
     bind_read (ser_readdata64 s) (\<lambda>v s.
     bind_read (Unserialize_blob s) (\<lambda>k s. Inr (\<lparr>nValue = sint v, scriptPubKey = k\<rparr>, s)))"

definition Witness_IsNull :: "bytes list list \<Rightarrow> bool" where
  "Witness_IsNull wit \<longleftrightarrow> list_all (\<lambda>stack. stack = []) wit"

definition Serialize_stack :: "bytes list \<Rightarrow> bytes" where
  "Serialize_stack stack = Serialize_vector Serialize_blob stack"

definition Unserialize_stack :: "bytes \<Rightarrow> bytes list reading" where
  "Unserialize_stack s = Unserialize_vector Unserialize_blob s"

text \<open>\<open>CTxWitness\<close>: the number of entries is set by the caller, not stored.\<close>

definition Unserialize_wit :: "nat \<Rightarrow> bytes \<Rightarrow> bytes list list reading" where
  "Unserialize_wit n s =
     bind_read (read_elements Unserialize_stack n s) (\<lambda>wit s. if Witness_IsNull wit then Inl SUPERFLUOUS_WITNESS else Inr (wit, s))"

definition wit_resize :: "nat \<Rightarrow> bytes list list \<Rightarrow> bytes list list" where
  "wit_resize n wit = take n wit @ replicate (n - length wit) []"

definition SerializeTransaction :: "CTransaction \<Rightarrow> bool \<Rightarrow> bytes option" where
  "SerializeTransaction tx noWitness =
     (if length (vtxinwit tx) > length (vin tx) then None
      else let flags = (if \<not> noWitness \<and> \<not> Witness_IsNull (vtxinwit tx) then 1 else 0 :: u8)
           in Some (ser_writedata32 (word_of_int (tx_nVersion tx))
                @ (if flags \<noteq> 0 then Serialize_vector Serialize_TxIn [] @ ser_writedata8 flags else [])
                @ Serialize_vector Serialize_TxIn (vin tx) @ Serialize_vector Serialize_TxOut (vout tx)
                @ (if flags AND 1 \<noteq> 0 then concat (map Serialize_stack (wit_resize (length (vin tx)) (vtxinwit tx))) else [])
                @ ser_writedata32 (nLockTime tx)))"

definition UpdateHash :: "CTransaction \<Rightarrow> CTransaction option" where
  "UpdateHash tx = map_option (\<lambda>s. tx\<lparr>tx_hash := Hash s\<rparr>) (SerializeTransaction tx True)"

definition GetWitnessHash :: "CTransaction \<Rightarrow> uint256 option" where
  "GetWitnessHash tx = map_option Hash (SerializeTransaction tx False)"

definition read_ins_outs :: "bool \<Rightarrow> bytes \<Rightarrow> (CTxIn list \<times> CTxOut list \<times> u8) reading" where
  "read_ins_outs noWitness s =
     bind_read (Unserialize_vector Unserialize_TxIn s) (\<lambda>ins s.
       if length ins = 0 \<and> \<not> noWitness
       then bind_read (ser_readdata8 s) (\<lambda>flags s.
              if flags \<noteq> 0
              then bind_read (Unserialize_vector Unserialize_TxIn s) (\<lambda>ins s.
                   bind_read (Unserialize_vector Unserialize_TxOut s) (\<lambda>outs s. Inr ((ins, outs, flags), s)))
              else Inr ((ins, [], flags), s))
       else bind_read (Unserialize_vector Unserialize_TxOut s) (\<lambda>outs s. Inr ((ins, outs, 0), s)))"

definition UnserializeTransaction :: "bool \<Rightarrow> bytes \<Rightarrow> CTransaction reading" where
  "UnserializeTransaction noWitness s =
     bind_read (ser_readdata32 s) (\<lambda>ver s.
     bind_read (read_ins_outs noWitness s) (\<lambda>(ins, outs, flags) s.
     bind_read (if flags AND 1 \<noteq> 0 \<and> \<not> noWitness
                then bind_read (Unserialize_wit (length ins) s) (\<lambda>wit s. Inr ((wit, flags XOR 1), s))
                else Inr (([], flags), s)) (\<lambda>(wit, flags) s.
     if flags \<noteq> 0 then Inl UNKNOWN_OPTIONAL_DATA
     else bind_read (ser_readdata32 s) (\<lambda>lock s.
       case UpdateHash \<lparr>tx_hash = blob_zero 32, tx_nVersion = sint ver, vin = ins, vout = outs, vtxinwit = wit, nLockTime = lock\<rparr> of
         None \<Rightarrow> Inl ASSERTION_FAILED
       | Some tx \<Rightarrow> Inr (tx, s)))))"

subsection \<open>Values, sizes and kinds\<close>

fun value_out_loop :: "CTxOut list \<Rightarrow> CAmount \<Rightarrow> CAmount option" where
  "value_out_loop [] nValueOut = Some nValueOut"
| "value_out_loop (t # ts) nValueOut =
     (let nValueOut = wrap_i64 (nValueOut + nValue t)
      in if \<not> MoneyRange (nValue t) \<or> \<not> MoneyRange nValueOut then None else value_out_loop ts nValueOut)"

text \<open>None is the thrown \<open>runtime_error\<close>.\<close>

definition GetValueOut :: "CTransaction \<Rightarrow> CAmount option" where
  "GetValueOut tx = value_out_loop (vout tx) 0"

definition IsCoinBase :: "CTransaction \<Rightarrow> bool" where
  "IsCoinBase tx \<longleftrightarrow> length (vin tx) = 1 \<and> OutPoint_IsNull (prevout (vin tx ! 0))
     \<and> (length (scriptSig (vin tx ! 0)) = 0 \<or> op_at (scriptSig (vin tx ! 0)) 0 \<noteq> OP_ZEROCOINSPEND)"

definition IsCoinStake :: "CTransaction \<Rightarrow> bool" where
  "IsCoinStake tx \<longleftrightarrow> length (vin tx) > 0 \<and> \<not> OutPoint_IsNull (prevout (vin tx ! 0)) \<and> length (vout tx) \<ge> 2 \<and> TxOut_IsEmpty (vout tx ! 0)"

definition tx_IsZerocoinSpend :: "CTransaction \<Rightarrow> bool" where "tx_IsZerocoinSpend tx \<longleftrightarrow> list_ex TxIn_IsZerocoinSpend (vin tx)"
definition tx_IsSigmaSpend :: "CTransaction \<Rightarrow> bool" where "tx_IsSigmaSpend tx \<longleftrightarrow> list_ex TxIn_IsSigmaSpend (vin tx)"
definition tx_IsZerocoinMint :: "CTransaction \<Rightarrow> bool" where
  "tx_IsZerocoinMint tx \<longleftrightarrow> list_ex (\<lambda>t. IsZerocoinMint (scriptPubKey t)) (vout tx)"
definition tx_IsSigmaMint :: "CTransaction \<Rightarrow> bool" where
  "tx_IsSigmaMint tx \<longleftrightarrow> list_ex (\<lambda>t. IsSigmaMint (scriptPubKey t)) (vout tx)"
definition IsZerocoinTransaction :: "CTransaction \<Rightarrow> bool" where
  "IsZerocoinTransaction tx \<longleftrightarrow> tx_IsZerocoinSpend tx \<or> tx_IsZerocoinMint tx"
definition IsZerocoinV3SigmaTransaction :: "CTransaction \<Rightarrow> bool" where
  "IsZerocoinV3SigmaTransaction tx \<longleftrightarrow> tx_IsSigmaSpend tx \<or> tx_IsSigmaMint tx"

definition WITNESS_SCALE_FACTOR :: nat where "WITNESS_SCALE_FACTOR = 4"

definition tx_GetSerializeSize :: "CTransaction \<Rightarrow> bool \<Rightarrow> nat option" where
  "tx_GetSerializeSize tx noWitness = map_option length (SerializeTransaction tx noWitness)"

definition GetTransactionWeight :: "CTransaction \<Rightarrow> nat option" where
  "GetTransactionWeight tx =
     Option.bind (tx_GetSerializeSize tx True) (\<lambda>base.
     map_option (\<lambda>total. base * (WITNESS_SCALE_FACTOR - 1) + total) (tx_GetSerializeSize tx False))"

definition CalculateModifiedSize :: "CTransaction \<Rightarrow> nat \<Rightarrow> nat option" where
  "CalculateModifiedSize tx nTxSize =
     map_option (\<lambda>nTxSize. fold (\<lambda>i sz. let off = 41 + min 110 (length (scriptSig i)) in if sz > off then sz - off else sz) (vin tx) nTxSize)
       (if nTxSize = 0 then map_option (\<lambda>w. (w + WITNESS_SCALE_FACTOR - 1) div WITNESS_SCALE_FACTOR) (GetTransactionWeight tx) else Some nTxSize)"

subsection \<open>Fees\<close>

definition tdiv :: "int \<Rightarrow> int \<Rightarrow> int" where
  "tdiv a b = sgn a * sgn b * (\<bar>a\<bar> div \<bar>b\<bar>)"

definition CFeeRate :: "CAmount \<Rightarrow> nat \<Rightarrow> CAmount" where
  "CFeeRate nFeePaid nSize = (if nSize > 0 then tdiv (wrap_i64 (nFeePaid * 1000)) (int nSize) else 0)"

definition GetFee :: "CAmount \<Rightarrow> nat \<Rightarrow> CAmount" where
  "GetFee nSatoshisPerK nSize =
     (let nFee = tdiv (wrap_i64 (nSatoshisPerK * int nSize)) 1000
      in if nFee = 0 \<and> nSize \<noteq> 0 then (if nSatoshisPerK > 0 then 1 else if nSatoshisPerK < 0 then - 1 else nFee) else nFee)"

definition nMinTxFee :: CAmount where "nMinTxFee = 1000000"
definition DEFAULT_BLOCK_PRIORITY_SIZE :: u32 where "DEFAULT_BLOCK_PRIORITY_SIZE = 50000"
definition DUST_SOFT_LIMIT :: CAmount where "DUST_SOFT_LIMIT = 100000"
definition MAX_BLOCK_SIZE_GEN :: u32 where "MAX_BLOCK_SIZE_GEN = 2000000 div 4"

datatype GetMinFee_mode = GMF_BLOCK | GMF_RELAY | GMF_SEND

definition GetMinFee :: "CTransaction \<Rightarrow> u32 \<Rightarrow> bool \<Rightarrow> GetMinFee_mode \<Rightarrow> CAmount option" where
  "GetMinFee tx nBlockSize fAllowFree mode =
     map_option (\<lambda>size.
       let nBaseFee = nMinTxFee;
           nBytes = (of_nat size :: u32);
           nNewBlockSize = nBlockSize + nBytes;
           nMinFee = (1 + uint nBytes div 1000) * nBaseFee;
           nMinFee = (if fAllowFree \<and> nBytes < (if mode = GMF_SEND then 5000 else DEFAULT_BLOCK_PRIORITY_SIZE - 1000) then 0 else nMinFee);
           nMinFee = foldl (\<lambda>f t. if nValue t < DUST_SOFT_LIMIT then wrap_i64 (f + nBaseFee) else f) nMinFee (vout tx)
       in if nBlockSize \<noteq> 1 \<and> nNewBlockSize \<ge> MAX_BLOCK_SIZE_GEN div 2 \<and> nNewBlockSize \<ge> MAX_BLOCK_SIZE_GEN then MAX_MONEY
          else let nMinFee = (if nBlockSize \<noteq> 1 \<and> nNewBlockSize \<ge> MAX_BLOCK_SIZE_GEN div 2
                              then wrap_i64 (nMinFee * uint (MAX_BLOCK_SIZE_GEN div (MAX_BLOCK_SIZE_GEN - nNewBlockSize))) else nMinFee)
               in if \<not> MoneyRange nMinFee then MAX_MONEY else nMinFee)
       (tx_GetSerializeSize tx False)"

subsection \<open>Round trips\<close>

definition script_ok :: "bytes \<Rightarrow> bool" where "script_ok s \<longleftrightarrow> length s \<le> unat MAX_SIZE"

definition OutPoint_ok :: "COutPoint \<Rightarrow> bool" where "OutPoint_ok p \<longleftrightarrow> length (out_hash p) = 32"

definition TxIn_ok :: "CTxIn \<Rightarrow> bool" where "TxIn_ok i \<longleftrightarrow> OutPoint_ok (prevout i) \<and> script_ok (scriptSig i)"

definition TxOut_ok :: "CTxOut \<Rightarrow> bool" where
  "TxOut_ok t \<longleftrightarrow> - (2 ^ 63) \<le> nValue t \<and> nValue t < 2 ^ 63 \<and> script_ok (scriptPubKey t)"

definition vec_ok :: "('a \<Rightarrow> bool) \<Rightarrow> 'a list \<Rightarrow> bool" where "vec_ok ok v \<longleftrightarrow> list_all ok v \<and> length v \<le> unat MAX_SIZE"

definition tx_ok :: "CTransaction \<Rightarrow> bool" where
  "tx_ok tx \<longleftrightarrow> - (2 ^ 31) \<le> tx_nVersion tx \<and> tx_nVersion tx < 2 ^ 31 \<and> vec_ok TxIn_ok (vin tx) \<and> vec_ok TxOut_ok (vout tx)
     \<and> list_all (vec_ok script_ok) (vtxinwit tx) \<and> length (vtxinwit tx) \<le> length (vin tx) \<and> UpdateHash tx = Some tx"

interpretation outpoint_codec: codec OutPoint_ok Serialize_OutPoint Unserialize_OutPoint
  by unfold_locales (simp add: OutPoint_ok_def Serialize_OutPoint_def Unserialize_OutPoint_def Unserialize_uint256_def read_bytes_def)

interpretation script_codec: codec script_ok Serialize_blob Unserialize_blob
  by unfold_locales (simp add: script_ok_def blob_read_written)

interpretation txin_codec: codec TxIn_ok Serialize_TxIn Unserialize_TxIn
  by unfold_locales
    (simp add: TxIn_ok_def Serialize_TxIn_def Unserialize_TxIn_def outpoint_codec.read_written script_codec.read_written)

lemma sint_word_of_int: "- (2 ^ 63) \<le> v \<Longrightarrow> v < 2 ^ 63 \<Longrightarrow> sint (word_of_int v :: u64) = v"
  "- (2 ^ 31) \<le> v \<Longrightarrow> v < 2 ^ 31 \<Longrightarrow> sint (word_of_int v :: u32) = v"
  by (simp_all add: sint_sbintrunc' signed_take_bit_int_eq_self)

interpretation txout_codec: codec TxOut_ok Serialize_TxOut Unserialize_TxOut
  by unfold_locales
    (simp add: TxOut_ok_def Serialize_TxOut_def Unserialize_TxOut_def script_codec.read_written sint_word_of_int)

interpretation stack_codec: codec "vec_ok script_ok" Serialize_stack Unserialize_stack
  by unfold_locales (simp add: vec_ok_def Serialize_stack_def Unserialize_stack_def script_codec.vector_read_written)

lemma vins_read: "vec_ok TxIn_ok v \<Longrightarrow> Unserialize_vector Unserialize_TxIn (Serialize_vector Serialize_TxIn v @ r) = Inr (v, r)"
  by (simp add: vec_ok_def txin_codec.vector_read_written)

lemma vouts_read: "vec_ok TxOut_ok v \<Longrightarrow> Unserialize_vector Unserialize_TxOut (Serialize_vector Serialize_TxOut v @ r) = Inr (v, r)"
  by (simp add: vec_ok_def txout_codec.vector_read_written)

text \<open>What reading gives back: the witness is padded to one entry per input, or dropped when it is empty or
  not written.\<close>

definition read_back :: "CTransaction \<Rightarrow> bool \<Rightarrow> CTransaction" where
  "read_back tx noWitness =
     tx\<lparr>vtxinwit := if noWitness \<or> Witness_IsNull (vtxinwit tx) then [] else wit_resize (length (vin tx)) (vtxinwit tx)\<rparr>"

lemma SerializeTransaction_base:
  "SerializeTransaction tx True = (if length (vtxinwit tx) > length (vin tx) then None
     else Some (ser_writedata32 (word_of_int (tx_nVersion tx)) @ Serialize_vector Serialize_TxIn (vin tx)
       @ Serialize_vector Serialize_TxOut (vout tx) @ ser_writedata32 (nLockTime tx)))"
  by (simp add: SerializeTransaction_def Let_def)

lemma Unserialize_wit_written:
  assumes "list_all (vec_ok script_ok) wit" "\<not> Witness_IsNull wit"
  shows "Unserialize_wit (length wit) (concat (map Serialize_stack wit) @ r) = Inr (wit, r)"
  using stack_codec.read_elements_written [OF assms(1)] assms(2) by (simp add: Unserialize_wit_def)

lemma wit_resize_props:
  assumes "length wit \<le> n"
  shows "length (wit_resize n wit) = n" "Witness_IsNull (wit_resize n wit) \<longleftrightarrow> Witness_IsNull wit"
    "list_all (vec_ok script_ok) wit \<Longrightarrow> list_all (vec_ok script_ok) (wit_resize n wit)"
  using assms by (auto simp: wit_resize_def Witness_IsNull_def list_all_iff vec_ok_def)

lemma UpdateHash_back:
  assumes "tx_ok tx" "length w \<le> length (vin tx)"
  shows "UpdateHash \<lparr>tx_hash = h, tx_nVersion = tx_nVersion tx, vin = vin tx, vout = vout tx, vtxinwit = w, nLockTime = nLockTime tx\<rparr>
     = Some (tx\<lparr>vtxinwit := w\<rparr>)"
proof -
  have "UpdateHash tx = Some tx" "length (vtxinwit tx) \<le> length (vin tx)" using assms(1) by (simp_all add: tx_ok_def)
  then have "tx_hash tx = Hash (ser_writedata32 (word_of_int (tx_nVersion tx)) @ Serialize_vector Serialize_TxIn (vin tx)
       @ Serialize_vector Serialize_TxOut (vout tx) @ ser_writedata32 (nLockTime tx))"
    by (cases tx) (simp add: UpdateHash_def SerializeTransaction_base)
  then show ?thesis using assms(2) by (cases tx) (simp add: UpdateHash_def SerializeTransaction_base)
qed

lemma read_plain:
  assumes "tx_ok tx" "noWitness \<or> vin tx \<noteq> []" "noWitness \<or> Witness_IsNull (vtxinwit tx)"
  shows "\<exists>s. SerializeTransaction tx noWitness = Some s \<and> UnserializeTransaction noWitness (s @ r) = Inr (read_back tx noWitness, r)"
proof -
  have ok: "sint (word_of_int (tx_nVersion tx) :: u32) = tx_nVersion tx" "vec_ok TxIn_ok (vin tx)" "vec_ok TxOut_ok (vout tx)"
    "length (vtxinwit tx) \<le> length (vin tx)"
    using assms(1) by (simp_all add: tx_ok_def sint_word_of_int)
  have ser: "SerializeTransaction tx noWitness = Some (ser_writedata32 (word_of_int (tx_nVersion tx)) @ Serialize_vector Serialize_TxIn (vin tx)
       @ Serialize_vector Serialize_TxOut (vout tx) @ ser_writedata32 (nLockTime tx))"
    using ok(4) assms(3) by (auto simp: SerializeTransaction_def Let_def)
  have "read_back tx noWitness = tx\<lparr>vtxinwit := []\<rparr>" using assms(3) by (auto simp: read_back_def)
  then show ?thesis using ok(1-3) assms(2) UpdateHash_back [OF assms(1), of "[]"]
    by (auto simp: ser UnserializeTransaction_def read_ins_outs_def vins_read vouts_read)
qed

lemma read_extended:
  assumes "tx_ok tx" "\<not> Witness_IsNull (vtxinwit tx)"
  shows "\<exists>s. SerializeTransaction tx False = Some s \<and> UnserializeTransaction False (s @ r) = Inr (read_back tx False, r)"
proof -
  define w where "w = wit_resize (length (vin tx)) (vtxinwit tx)"
  have ok: "sint (word_of_int (tx_nVersion tx) :: u32) = tx_nVersion tx" "vec_ok TxIn_ok (vin tx)" "vec_ok TxOut_ok (vout tx)"
    "length (vtxinwit tx) \<le> length (vin tx)" "list_all (vec_ok script_ok) (vtxinwit tx)"
    using assms(1) by (simp_all add: tx_ok_def sint_word_of_int)
  have w: "length w = length (vin tx)" "\<not> Witness_IsNull w" "list_all (vec_ok script_ok) w"
    using wit_resize_props [OF ok(4)] ok(5) assms(2) by (simp_all add: w_def)
  have ser: "SerializeTransaction tx False = Some (ser_writedata32 (word_of_int (tx_nVersion tx)) @ Serialize_vector Serialize_TxIn []
       @ ser_writedata8 1 @ Serialize_vector Serialize_TxIn (vin tx)
       @ Serialize_vector Serialize_TxOut (vout tx) @ concat (map Serialize_stack w) @ ser_writedata32 (nLockTime tx))"
    using ok(4) assms(2) by (simp add: SerializeTransaction_def Let_def w_def)
  have e: "vec_ok TxIn_ok []" by (simp add: vec_ok_def)
  have "read_back tx False = tx\<lparr>vtxinwit := w\<rparr>" using assms(2) by (simp add: read_back_def w_def)
  then show ?thesis using ok(1-3) w UpdateHash_back [OF assms(1), of w] Unserialize_wit_written [OF w(3,2)]
    by (simp add: ser UnserializeTransaction_def read_ins_outs_def vins_read [OF e] vins_read vouts_read)
qed

text \<open>C31: A well-formed transaction is read back from its serialisation, with and without witness, and the rest
  of the stream is untouched.  An input list that is empty cannot be told from the marker of
  the extended format, so it is only covered without witness.\<close>

theorem SerializeTransaction_roundtrip:
  assumes "tx_ok tx" "noWitness \<or> vin tx \<noteq> []"
  shows "\<exists>s. SerializeTransaction tx noWitness = Some s \<and> UnserializeTransaction noWitness (s @ r) = Inr (read_back tx noWitness, r)"
  using read_plain [OF assms] read_extended [OF assms(1)] by (cases noWitness; cases "Witness_IsNull (vtxinwit tx)") auto

definition demo_tx0 :: CTransaction where
  "demo_tx0 = \<lparr>tx_hash = [], tx_nVersion = 2, vin = [\<lparr>prevout = \<lparr>out_hash = replicate 32 7, out_n = 1\<rparr>, scriptSig = [1, 2], nSequence = 5\<rparr>],
     vout = [\<lparr>nValue = 50, scriptPubKey = [3]\<rparr>], vtxinwit = [[[4]]], nLockTime = 9\<rparr>"

definition demo_tx :: CTransaction where "demo_tx = the (UpdateHash demo_tx0)"

lemma demo_tx_eq: "demo_tx = demo_tx0\<lparr>tx_hash := Hash (the (SerializeTransaction demo_tx0 True))\<rparr>"
  by (simp add: demo_tx_def UpdateHash_def SerializeTransaction_base demo_tx0_def)

lemma demo_tx_ok: "tx_ok demo_tx"
  unfolding demo_tx_eq
  by (simp add: tx_ok_def demo_tx0_def vec_ok_def TxIn_ok_def TxOut_ok_def OutPoint_ok_def script_ok_def MAX_SIZE_def
      UpdateHash_def SerializeTransaction_base)

theorem SerializeTransaction_roundtrip_witness:
  "\<exists>s. SerializeTransaction demo_tx False = Some s \<and> UnserializeTransaction False (s @ [8]) = Inr (demo_tx, [8])"
proof -
  have "vin demo_tx \<noteq> []" "read_back demo_tx False = demo_tx"
    by (simp_all add: demo_tx_eq demo_tx0_def read_back_def Witness_IsNull_def wit_resize_def)
  then show ?thesis using SerializeTransaction_roundtrip [OF demo_tx_ok, of False "[8]"] by simp
qed

end
