(* ===== verification/Coins.thy ===== *)
theory Coins
  imports Transaction "HOL-Library.AList"
begin

text \<open>
  Unspent outputs: \<open>src/src/coins.h\<close> and \<open>src/src/coins.cpp\<close>.  \<open>CCoins\<close> holds the unspent outputs of one
  transaction, \<open>CCoinsViewCache\<close> caches a parent view.  The hash table \<open>cacheCoins\<close> is an association list (its
  order stands for the order of iteration), the parent view is the function its \<open>GetCoins\<close> computes, and the
  memory estimate of \<open>memusage.h\<close> is the argument \<open>mem\<close>.  Lookups fill the cache, so they return the
  changed cache as well.  An open \<open>CCoinsModifier\<close> is its key with the old memory usage; its
  destructor is \<open>Modifier_close\<close>.  A failed assert is None.

  A cache is shown to implement the map of the live coins: lookups do not change it, a modification
  changes one entry, and flushing moves the content to the parent unchanged.
\<close>

unbundle bit_operations_syntax

subsection \<open>The unspent outputs of a transaction\<close>

record CCoins =
  fCoinBase :: bool
  c_vout :: "CTxOut list"
  c_nHeight :: int
  c_nVersion :: int

definition CCoins_empty :: CCoins where
  "CCoins_empty = \<lparr>fCoinBase = False, c_vout = [], c_nHeight = 0, c_nVersion = 0\<rparr>"

definition Cleanup :: "CCoins \<Rightarrow> CCoins" where
  "Cleanup c = c\<lparr>c_vout := rev (dropWhile TxOut_IsNull (rev (c_vout c)))\<rparr>"

definition ClearUnspendable :: "CCoins \<Rightarrow> CCoins" where
  "ClearUnspendable c = Cleanup (c\<lparr>c_vout := map (\<lambda>t. if IsUnspendable (scriptPubKey t) then TxOut_null else t) (c_vout c)\<rparr>)"

definition FromTx :: "CTransaction \<Rightarrow> int \<Rightarrow> CCoins" where
  "FromTx tx nHeightIn =
     ClearUnspendable \<lparr>fCoinBase = IsCoinBase tx, c_vout = vout tx, c_nHeight = nHeightIn, c_nVersion = tx_nVersion tx\<rparr>"

definition IsAvailable :: "CCoins \<Rightarrow> u32 \<Rightarrow> bool" where
  "IsAvailable c nPos \<longleftrightarrow> unat nPos < length (c_vout c) \<and> \<not> TxOut_IsNull (c_vout c ! unat nPos)"

definition IsPruned :: "CCoins \<Rightarrow> bool" where
  "IsPruned c \<longleftrightarrow> list_all TxOut_IsNull (c_vout c)"

definition Spend :: "CCoins \<Rightarrow> u32 \<Rightarrow> CCoins \<times> bool" where
  "Spend c nPos =
     (if unat nPos \<ge> length (c_vout c) \<or> TxOut_IsNull (c_vout c ! unat nPos) then (c, False)
      else (Cleanup (c\<lparr>c_vout := (c_vout c)[unat nPos := TxOut_null]\<rparr>), True))"

definition CCoins_eq :: "CCoins \<Rightarrow> CCoins \<Rightarrow> bool" where
  "CCoins_eq a b \<longleftrightarrow> (IsPruned a \<and> IsPruned b) \<or>
     (fCoinBase a = fCoinBase b \<and> c_nHeight a = c_nHeight b \<and> c_nVersion a = c_nVersion b \<and> c_vout a = c_vout b)"

definition mask_byte_used :: "CCoins \<Rightarrow> nat \<Rightarrow> bool" where
  "mask_byte_used c b \<longleftrightarrow> list_ex (\<lambda>i. 2 + b * 8 + i < length (c_vout c) \<and> \<not> TxOut_IsNull (c_vout c ! (2 + b * 8 + i))) [0..<8]"

text \<open>The loop runs over the bytes \<open>b\<close> with \<open>2 + b * 8 < vout.size()\<close>.\<close>

definition CalcMaskSize :: "CCoins \<Rightarrow> nat \<times> nat" where
  "CalcMaskSize c =
     fold (\<lambda>b (nLastUsedByte, nNonzeroBytes). if mask_byte_used c b then (b + 1, nNonzeroBytes + 1) else (nLastUsedByte, nNonzeroBytes))
       [0..<(length (c_vout c) + 5) div 8] (0, 0)"

subsection \<open>The cache\<close>

record CCoinsCacheEntry =
  coins :: CCoins
  flags :: u8

definition DIRTY :: u8 where "DIRTY = 1"
definition FRESH :: u8 where "FRESH = 2"

type_synonym CCoinsMap = "(uint256 \<times> CCoinsCacheEntry) list"
type_synonym coins_fun = "uint256 \<Rightarrow> CCoins option"

record CCoinsViewCache =
  hasModifier :: bool
  hashBlock :: uint256
  cacheCoins :: CCoinsMap
  cachedCoinsUsage :: u64

text \<open>The base class has no coins.\<close>

definition CCoinsView_GetCoins :: coins_fun where
  "CCoinsView_GetCoins txid = None"

definition CCoinsViewCache_init :: CCoinsViewCache where
  "CCoinsViewCache_init = \<lparr>hasModifier = False, hashBlock = blob_zero 32, cacheCoins = [], cachedCoinsUsage = 0\<rparr>"

definition CCoinsCacheEntry_init :: CCoinsCacheEntry where
  "CCoinsCacheEntry_init = \<lparr>coins = CCoins_empty, flags = 0\<rparr>"

definition FetchCoins :: "(CCoins \<Rightarrow> u64) \<Rightarrow> coins_fun \<Rightarrow> CCoinsViewCache \<Rightarrow> uint256 \<Rightarrow> CCoins option \<times> CCoinsViewCache" where
  "FetchCoins mem base c txid =
     (case map_of (cacheCoins c) txid of
        Some e \<Rightarrow> (Some (coins e), c)
      | None \<Rightarrow>
        (case base txid of
           None \<Rightarrow> (None, c)
         | Some tmp \<Rightarrow>
             (Some tmp, c\<lparr>cacheCoins := (txid, \<lparr>coins = tmp, flags = if IsPruned tmp then FRESH else 0\<rparr>) # cacheCoins c,
                          cachedCoinsUsage := cachedCoinsUsage c + mem tmp\<rparr>)))"

definition GetCoins :: "(CCoins \<Rightarrow> u64) \<Rightarrow> coins_fun \<Rightarrow> CCoinsViewCache \<Rightarrow> uint256 \<Rightarrow> CCoins option \<times> CCoinsViewCache" where
  "GetCoins mem base c txid = FetchCoins mem base c txid"

definition AccessCoins :: "(CCoins \<Rightarrow> u64) \<Rightarrow> coins_fun \<Rightarrow> CCoinsViewCache \<Rightarrow> uint256 \<Rightarrow> CCoins option \<times> CCoinsViewCache" where
  "AccessCoins mem base c txid = FetchCoins mem base c txid"

definition HaveCoins :: "(CCoins \<Rightarrow> u64) \<Rightarrow> coins_fun \<Rightarrow> CCoinsViewCache \<Rightarrow> uint256 \<Rightarrow> bool \<times> CCoinsViewCache" where
  "HaveCoins mem base c txid = (case FetchCoins mem base c txid of (r, c) \<Rightarrow> ((case r of None \<Rightarrow> False | Some k \<Rightarrow> c_vout k \<noteq> []), c))"

definition HaveCoinsInCache :: "CCoinsViewCache \<Rightarrow> uint256 \<Rightarrow> bool" where
  "HaveCoinsInCache c txid \<longleftrightarrow> map_of (cacheCoins c) txid \<noteq> None"

record CCoinsModifier =
  m_it :: uint256
  m_usage :: u64

definition CCoinsModifier_open :: "CCoinsViewCache \<Rightarrow> uint256 \<Rightarrow> u64 \<Rightarrow> (CCoinsModifier \<times> CCoinsViewCache) option" where
  "CCoinsModifier_open c it usage = (if hasModifier c then None else Some (\<lparr>m_it = it, m_usage = usage\<rparr>, c\<lparr>hasModifier := True\<rparr>))"

definition ModifyCoins :: "(CCoins \<Rightarrow> u64) \<Rightarrow> coins_fun \<Rightarrow> CCoinsViewCache \<Rightarrow> uint256 \<Rightarrow> (CCoinsModifier \<times> CCoinsViewCache) option" where
  "ModifyCoins mem base c txid =
     (if hasModifier c then None
      else case map_of (cacheCoins c) txid of
             None \<Rightarrow>
               let e = (case base txid of
                          None \<Rightarrow> \<lparr>coins = CCoins_empty, flags = FRESH\<rparr>
                        | Some k \<Rightarrow> \<lparr>coins = k, flags = if IsPruned k then FRESH else 0\<rparr>)
               in CCoinsModifier_open (c\<lparr>cacheCoins := (txid, e\<lparr>flags := flags e OR DIRTY\<rparr>) # cacheCoins c\<rparr>) txid 0
           | Some e \<Rightarrow>
               CCoinsModifier_open (c\<lparr>cacheCoins := AList.update txid (e\<lparr>flags := flags e OR DIRTY\<rparr>) (cacheCoins c)\<rparr>) txid (mem (coins e)))"

definition ModifyNewCoins :: "CCoinsViewCache \<Rightarrow> uint256 \<Rightarrow> bool \<Rightarrow> (CCoinsModifier \<times> CCoinsViewCache) option" where
  "ModifyNewCoins c txid coinbase =
     (if hasModifier c then None
      else let e = (case map_of (cacheCoins c) txid of None \<Rightarrow> CCoinsCacheEntry_init | Some e \<Rightarrow> e);
               e = e\<lparr>coins := CCoins_empty\<rparr>;
               e = (if \<not> coinbase then e\<lparr>flags := FRESH\<rparr> else e)
           in CCoinsModifier_open (c\<lparr>cacheCoins := AList.update txid (e\<lparr>flags := flags e OR DIRTY\<rparr>) (cacheCoins c)\<rparr>) txid 0)"

text \<open>\<open>operator*\<close> and \<open>operator->\<close>: read and replace the coins the modifier points to.\<close>

definition Modifier_get :: "CCoinsViewCache \<Rightarrow> CCoinsModifier \<Rightarrow> CCoins" where
  "Modifier_get c m = (case map_of (cacheCoins c) (m_it m) of None \<Rightarrow> CCoins_empty | Some e \<Rightarrow> coins e)"

definition Modifier_set :: "CCoinsViewCache \<Rightarrow> CCoinsModifier \<Rightarrow> CCoins \<Rightarrow> CCoinsViewCache" where
  "Modifier_set c m k = c\<lparr>cacheCoins := AList.map_entry (m_it m) (\<lambda>e. e\<lparr>coins := k\<rparr>) (cacheCoins c)\<rparr>"

definition Modifier_close :: "(CCoins \<Rightarrow> u64) \<Rightarrow> CCoinsViewCache \<Rightarrow> CCoinsModifier \<Rightarrow> CCoinsViewCache option" where
  "Modifier_close mem c m =
     (if \<not> hasModifier c then None
      else let c = Modifier_set (c\<lparr>hasModifier := False\<rparr>) m (Cleanup (Modifier_get c m));
               c = c\<lparr>cachedCoinsUsage := cachedCoinsUsage c - m_usage m\<rparr>
           in case map_of (cacheCoins c) (m_it m) of
                None \<Rightarrow> None
              | Some e \<Rightarrow>
                  if flags e AND FRESH \<noteq> 0 \<and> IsPruned (coins e) then Some (c\<lparr>cacheCoins := AList.delete (m_it m) (cacheCoins c)\<rparr>)
                  else Some (c\<lparr>cachedCoinsUsage := cachedCoinsUsage c + mem (coins e)\<rparr>))"

definition GetBestBlock :: "uint256 \<Rightarrow> CCoinsViewCache \<Rightarrow> uint256 \<times> CCoinsViewCache" where
  "GetBestBlock base_best c = (let c = (if blob_IsNull (hashBlock c) then c\<lparr>hashBlock := base_best\<rparr> else c) in (hashBlock c, c))"

definition SetBestBlock :: "CCoinsViewCache \<Rightarrow> uint256 \<Rightarrow> CCoinsViewCache" where
  "SetBestBlock c h = c\<lparr>hashBlock := h\<rparr>"

subsection \<open>Flushing\<close>

definition batch_entry :: "(CCoins \<Rightarrow> u64) \<Rightarrow> uint256 \<times> CCoinsCacheEntry \<Rightarrow> CCoinsViewCache \<Rightarrow> CCoinsViewCache" where
  "batch_entry mem it c =
     (if flags (snd it) AND DIRTY \<noteq> 0
      then case map_of (cacheCoins c) (fst it) of
             None \<Rightarrow>
               if \<not> (flags (snd it) AND FRESH \<noteq> 0 \<and> IsPruned (coins (snd it)))
               then c\<lparr>cacheCoins := (fst it, \<lparr>coins = coins (snd it),
                         flags = if flags (snd it) AND FRESH \<noteq> 0 then DIRTY OR FRESH else DIRTY\<rparr>) # cacheCoins c,
                      cachedCoinsUsage := cachedCoinsUsage c + mem (coins (snd it))\<rparr>
               else c
           | Some us \<Rightarrow>
               if flags us AND FRESH \<noteq> 0 \<and> IsPruned (coins (snd it))
               then c\<lparr>cachedCoinsUsage := cachedCoinsUsage c - mem (coins us), cacheCoins := AList.delete (fst it) (cacheCoins c)\<rparr>
               else c\<lparr>cachedCoinsUsage := cachedCoinsUsage c - mem (coins us) + mem (coins (snd it)),
                      cacheCoins := AList.update (fst it) (us\<lparr>coins := coins (snd it), flags := flags us OR DIRTY\<rparr>) (cacheCoins c)\<rparr>
      else c)"

definition BatchWrite :: "(CCoins \<Rightarrow> u64) \<Rightarrow> CCoinsViewCache \<Rightarrow> CCoinsMap \<Rightarrow> uint256 \<Rightarrow> CCoinsViewCache option" where
  "BatchWrite mem c mapCoins hashBlockIn =
     (if hasModifier c then None else Some ((fold (batch_entry mem) mapCoins c)\<lparr>hashBlock := hashBlockIn\<rparr>))"

text \<open>The flush of a cache whose parent is itself a cache: the pair of the parent and the emptied cache.\<close>

definition Flush :: "(CCoins \<Rightarrow> u64) \<Rightarrow> CCoinsViewCache \<Rightarrow> CCoinsViewCache \<Rightarrow> (CCoinsViewCache \<times> CCoinsViewCache) option" where
  "Flush mem parent c =
     map_option (\<lambda>parent. (parent, c\<lparr>cacheCoins := [], cachedCoinsUsage := 0\<rparr>)) (BatchWrite mem parent (cacheCoins c) (hashBlock c))"

definition Uncache :: "(CCoins \<Rightarrow> u64) \<Rightarrow> CCoinsViewCache \<Rightarrow> uint256 \<Rightarrow> CCoinsViewCache" where
  "Uncache mem c h =
     (case map_of (cacheCoins c) h of
        None \<Rightarrow> c
      | Some e \<Rightarrow> if flags e = 0
                  then c\<lparr>cachedCoinsUsage := cachedCoinsUsage c - mem (coins e), cacheCoins := AList.delete h (cacheCoins c)\<rparr> else c)"

definition GetCacheSize :: "CCoinsViewCache \<Rightarrow> nat" where
  "GetCacheSize c = length (cacheCoins c)"

subsection \<open>Transaction inputs\<close>

definition GetOutputFor :: "(CCoins \<Rightarrow> u64) \<Rightarrow> coins_fun \<Rightarrow> CCoinsViewCache \<Rightarrow> CTxIn \<Rightarrow> (CTxOut \<times> CCoinsViewCache) option" where
  "GetOutputFor mem base c i =
     (case AccessCoins mem base c (out_hash (prevout i)) of
        (Some k, c) \<Rightarrow> if IsAvailable k (out_n (prevout i)) then Some (c_vout k ! unat (out_n (prevout i)), c) else None
      | (None, c) \<Rightarrow> None)"

fun value_in_loop :: "(CCoins \<Rightarrow> u64) \<Rightarrow> coins_fun \<Rightarrow> CCoinsViewCache \<Rightarrow> CTxIn list \<Rightarrow> CAmount \<Rightarrow> (CAmount \<times> CCoinsViewCache) option" where
  "value_in_loop mem base c [] nResult = Some (nResult, c)"
| "value_in_loop mem base c (i # is) nResult =
     Option.bind (GetOutputFor mem base c i) (\<lambda>(t, c). value_in_loop mem base c is (wrap_i64 (nResult + nValue t)))"

definition has_no_coin_inputs :: "CTransaction \<Rightarrow> bool" where
  "has_no_coin_inputs tx \<longleftrightarrow> IsCoinBase tx \<or> tx_IsZerocoinSpend tx \<or> tx_IsSigmaSpend tx"

definition GetValueIn :: "(CCoins \<Rightarrow> u64) \<Rightarrow> coins_fun \<Rightarrow> CCoinsViewCache \<Rightarrow> CTransaction \<Rightarrow> (CAmount \<times> CCoinsViewCache) option" where
  "GetValueIn mem base c tx = (if has_no_coin_inputs tx then Some (0, c) else value_in_loop mem base c (vin tx) 0)"

fun have_inputs_loop :: "(CCoins \<Rightarrow> u64) \<Rightarrow> coins_fun \<Rightarrow> CCoinsViewCache \<Rightarrow> CTxIn list \<Rightarrow> bool \<times> CCoinsViewCache" where
  "have_inputs_loop mem base c [] = (True, c)"
| "have_inputs_loop mem base c (i # is) =
     (case AccessCoins mem base c (out_hash (prevout i)) of
        (Some k, c) \<Rightarrow> if IsAvailable k (out_n (prevout i)) then have_inputs_loop mem base c is else (False, c)
      | (None, c) \<Rightarrow> (False, c))"

definition HaveInputs :: "(CCoins \<Rightarrow> u64) \<Rightarrow> coins_fun \<Rightarrow> CCoinsViewCache \<Rightarrow> CTransaction \<Rightarrow> bool \<times> CCoinsViewCache" where
  "HaveInputs mem base c tx = (if has_no_coin_inputs tx then (True, c) else have_inputs_loop mem base c (vin tx))"

subsection \<open>The map of the live coins\<close>

definition live :: "CCoins option \<Rightarrow> CCoins option" where
  "live r = (case r of None \<Rightarrow> None | Some k \<Rightarrow> if IsPruned k then None else Some k)"

definition view_of :: "coins_fun \<Rightarrow> CCoinsViewCache \<Rightarrow> coins_fun" where
  "view_of base c txid = (case map_of (cacheCoins c) txid of None \<Rightarrow> base txid | Some e \<Rightarrow> Some (coins e))"

definition utxo :: "coins_fun \<Rightarrow> CCoinsViewCache \<Rightarrow> coins_fun" where
  "utxo base c txid = live (view_of base c txid)"

definition entry_ok :: "coins_fun \<Rightarrow> uint256 \<Rightarrow> CCoinsCacheEntry \<Rightarrow> bool" where
  "entry_ok base txid e \<longleftrightarrow> Cleanup (coins e) = coins e \<and> (flags e AND FRESH \<noteq> 0 \<longrightarrow> live (base txid) = None)
     \<and> (flags e AND DIRTY = 0 \<longrightarrow> live (base txid) = live (Some (coins e)))"

text \<open>The invariant of a cache over its parent: keys are unique, a fresh entry is unknown to the parent or pruned
  there, and an entry that is not dirty agrees with the parent.\<close>

definition coins_ok :: "coins_fun \<Rightarrow> CCoinsViewCache \<Rightarrow> bool" where
  "coins_ok base c \<longleftrightarrow> distinct (map fst (cacheCoins c)) \<and> (\<forall>txid e. map_of (cacheCoins c) txid = Some e \<longrightarrow> entry_ok base txid e)"

lemma flag_or [simp]: "((a OR b) AND m \<noteq> (0 :: u8)) \<longleftrightarrow> (a AND m \<noteq> 0 \<or> b AND m \<noteq> 0)"
  by (simp add: bit.conj_disj_distrib2 or_eq_0_iff)

lemma flag_bits [simp]: "DIRTY \<noteq> 0" "FRESH \<noteq> 0" "DIRTY AND FRESH = 0" "FRESH AND DIRTY = 0"
  by (simp_all add: DIRTY_def FRESH_def)

lemma Cleanup_idem [simp]: "Cleanup (Cleanup c) = Cleanup c"
  by (simp add: Cleanup_def dropWhile_idem)

lemma IsPruned_Cleanup [simp]: "IsPruned (Cleanup c) = IsPruned c"
proof -
  have "list_all P v = list_all P (rev (dropWhile P (rev v)))" for P and v :: "CTxOut list"
    using takeWhile_dropWhile_id [of P "rev v"] by (metis list_all_append list_all_rev list_all_iff set_takeWhileD)
  then show ?thesis by (simp add: IsPruned_def Cleanup_def)
qed

lemma Cleanup_empty [simp]: "Cleanup CCoins_empty = CCoins_empty" "IsPruned CCoins_empty"
  by (simp_all add: Cleanup_def CCoins_empty_def IsPruned_def)

lemma map_of_update [simp]: "map_of (AList.update k v al) = (map_of al)(k \<mapsto> v)"
  by (rule update_conv')

lemma map_of_delete [simp]: "map_of (AList.delete k al) = (map_of al)(k := None)"
  by (rule delete_conv')

lemma live_None [simp]: "live None = None"
  by (simp add: live_def)

lemma live_Some: "live (Some k) = (if IsPruned k then None else Some k)"
  by (simp add: live_def)

locale coins_parent =
  fixes base :: coins_fun
  assumes parent_clean: "base txid = Some k \<Longrightarrow> Cleanup k = k"
begin

lemma fetch_ok:
  assumes "coins_ok base c"
  shows "fst (FetchCoins mem base c txid) = view_of base c txid" "view_of base (snd (FetchCoins mem base c txid)) = view_of base c"
    "coins_ok base (snd (FetchCoins mem base c txid))" "hasModifier (snd (FetchCoins mem base c txid)) = hasModifier c"
  using assms parent_clean
  by (auto simp: FetchCoins_def view_of_def coins_ok_def entry_ok_def live_Some map_of_eq_None_iff [symmetric] dom_map_of_conv_image_fst
      split: option.splits)

text \<open>A cache with a modifier open on \<open>txid\<close>: the entry is dirty and, when fresh, unknown to the parent.\<close>

definition opened :: "CCoinsViewCache \<Rightarrow> uint256 \<Rightarrow> CCoins \<Rightarrow> CCoinsModifier \<Rightarrow> CCoinsViewCache \<Rightarrow> bool" where
  "opened c txid k m c1 \<longleftrightarrow> m_it m = txid \<and> hasModifier c1 \<and> hashBlock c1 = hashBlock c \<and> distinct (map fst (cacheCoins c1))
     \<and> (\<exists>e. map_of (cacheCoins c1) = (map_of (cacheCoins c))(txid \<mapsto> e) \<and> coins e = k \<and> flags e AND DIRTY \<noteq> 0
            \<and> (flags e AND FRESH \<noteq> 0 \<longrightarrow> live (base txid) = None))"

lemma openedI:
  assumes "\<not> hasModifier c" "map_of (cacheCoins c') = (map_of (cacheCoins c))(txid \<mapsto> e)" "distinct (map fst (cacheCoins c'))"
    "hashBlock c' = hashBlock c" "\<not> hasModifier c'" "coins e = k" "flags e AND DIRTY \<noteq> 0"
    "flags e AND FRESH \<noteq> 0 \<Longrightarrow> live (base txid) = None"
  shows "\<exists>m c1. CCoinsModifier_open c' txid u = Some (m, c1) \<and> opened c txid k m c1"
  using assms by (auto simp: CCoinsModifier_open_def opened_def intro!: exI [of _ e])

lemma modify_opened:
  assumes "coins_ok base c" "\<not> hasModifier c"
  shows "\<exists>m c1. ModifyCoins mem base c txid = Some (m, c1) \<and> opened c txid (case view_of base c txid of None \<Rightarrow> CCoins_empty | Some k \<Rightarrow> k) m c1"
proof (cases "map_of (cacheCoins c) txid")
  case None
  define e where "e = (case base txid of None \<Rightarrow> \<lparr>coins = CCoins_empty, flags = FRESH\<rparr> | Some k \<Rightarrow> \<lparr>coins = k, flags = if IsPruned k then FRESH else 0\<rparr>)"
  have "txid \<notin> fst ` set (cacheCoins c)" using None by (simp add: map_of_eq_None_iff)
  moreover have "coins e = (case view_of base c txid of None \<Rightarrow> CCoins_empty | Some k \<Rightarrow> k)" "flags e AND FRESH \<noteq> 0 \<Longrightarrow> live (base txid) = None"
    using None by (auto simp: e_def view_of_def live_Some split: option.splits if_splits)
  moreover have "ModifyCoins mem base c txid = CCoinsModifier_open (c\<lparr>cacheCoins := (txid, e\<lparr>flags := flags e OR DIRTY\<rparr>) # cacheCoins c\<rparr>) txid 0"
    using None assms(2) by (simp add: ModifyCoins_def Let_def e_def)
  ultimately show ?thesis using assms
    by (simp only:) (rule openedI [where e = "e\<lparr>flags := flags e OR DIRTY\<rparr>"], auto simp: coins_ok_def)
next
  case (Some e)
  then have e: "entry_ok base txid e" using assms(1) by (simp add: coins_ok_def)
  have "ModifyCoins mem base c txid
      = CCoinsModifier_open (c\<lparr>cacheCoins := AList.update txid (e\<lparr>flags := flags e OR DIRTY\<rparr>) (cacheCoins c)\<rparr>) txid (mem (coins e))"
    using Some assms(2) by (simp add: ModifyCoins_def)
  then show ?thesis using assms e Some
    by (simp only:) (rule openedI [where e = "e\<lparr>flags := flags e OR DIRTY\<rparr>"], auto simp: coins_ok_def entry_ok_def view_of_def distinct_update)
qed

lemma modify_new_opened:
  assumes "coins_ok base c" "\<not> hasModifier c" "live (base txid) = None"
  shows "\<exists>m c1. ModifyNewCoins c txid coinbase = Some (m, c1) \<and> opened c txid CCoins_empty m c1"
proof -
  define e0 where "e0 = (case map_of (cacheCoins c) txid of None \<Rightarrow> CCoinsCacheEntry_init | Some e \<Rightarrow> e)"
  define fl where "fl = (if coinbase then flags e0 else FRESH)"
  have "ModifyNewCoins c txid coinbase
      = CCoinsModifier_open (c\<lparr>cacheCoins := AList.update txid \<lparr>coins = CCoins_empty, flags = fl OR DIRTY\<rparr> (cacheCoins c)\<rparr>) txid 0"
    using assms(2) by (cases e0) (simp add: ModifyNewCoins_def Let_def fl_def flip: e0_def)
  then show ?thesis using assms
    by (simp only:) (rule openedI [where e = "\<lparr>coins = CCoins_empty, flags = fl OR DIRTY\<rparr>"], auto simp: coins_ok_def distinct_update)
qed

lemma opened_get: "opened c txid k m c1 \<Longrightarrow> Modifier_get c1 m = k"
  by (auto simp: opened_def Modifier_get_def)

lemma opened_set:
  assumes "opened c txid k m c1"
  shows "opened c txid k' m (Modifier_set c1 m k')"
proof -
  obtain e where e: "map_of (cacheCoins c1) = (map_of (cacheCoins c))(txid \<mapsto> e)" "flags e AND DIRTY \<noteq> 0"
    "flags e AND FRESH \<noteq> 0 \<longrightarrow> live (base txid) = None" and m: "m_it m = txid" "hasModifier c1" "hashBlock c1 = hashBlock c" "distinct (map fst (cacheCoins c1))"
    using assms by (auto simp: opened_def)
  have "map_of (AList.map_entry txid (\<lambda>e. e\<lparr>coins := k'\<rparr>) (cacheCoins c1)) = (map_of (cacheCoins c))(txid \<mapsto> e\<lparr>coins := k'\<rparr>)"
    using e(1) by (simp add: map_of_map_entry)
  then show ?thesis using e m unfolding opened_def by (auto simp: Modifier_set_def distinct_map_entry intro!: exI [of _ "e\<lparr>coins := k'\<rparr>"])
qed

lemma put_ok:
  assumes "coins_ok base c" "map_of (cacheCoins c2) = (map_of (cacheCoins c))(txid \<mapsto> e)" "distinct (map fst (cacheCoins c2))"
    "entry_ok base txid e"
  shows "coins_ok base c2" "view_of base c2 = (view_of base c)(txid := Some (coins e))"
  using assms by (auto simp: coins_ok_def view_of_def fun_eq_iff)

lemma drop_ok:
  assumes "coins_ok base c" "map_of (cacheCoins c2) = (map_of (cacheCoins c))(txid := None)" "distinct (map fst (cacheCoins c2))"
  shows "coins_ok base c2" "view_of base c2 = (view_of base c)(txid := base txid)"
  using assms by (auto simp: coins_ok_def view_of_def fun_eq_iff)

lemma close_ok:
  assumes "coins_ok base c" "opened c txid k m c1"
  shows "\<exists>c2. Modifier_close mem c1 m = Some c2 \<and> coins_ok base c2 \<and> \<not> hasModifier c2 \<and> hashBlock c2 = hashBlock c
     \<and> utxo base c2 = (utxo base c)(txid := live (Some (Cleanup k)))"
proof -
  have "opened c txid (Cleanup k) m (Modifier_set c1 m (Cleanup k))" using assms(2) by (rule opened_set)
  then obtain e where e: "map_of (cacheCoins (Modifier_set c1 m (Cleanup k))) = (map_of (cacheCoins c))(txid \<mapsto> e)" "coins e = Cleanup k"
    "flags e AND DIRTY \<noteq> 0" "flags e AND FRESH \<noteq> 0 \<longrightarrow> live (base txid) = None"
    and d: "distinct (map fst (cacheCoins (Modifier_set c1 m (Cleanup k))))" "hashBlock (Modifier_set c1 m (Cleanup k)) = hashBlock c"
    unfolding opened_def by blast
  have m: "m_it m = txid" "hasModifier c1" "Modifier_get c1 m = k" using assms(2) opened_get [OF assms(2)] by (simp_all add: opened_def)
  have set: "Modifier_set (c1\<lparr>hasModifier := False\<rparr>) m (Cleanup k) = (Modifier_set c1 m (Cleanup k))\<lparr>hasModifier := False\<rparr>"
    by (simp add: Modifier_set_def)
  let ?c = "(Modifier_set c1 m (Cleanup k))\<lparr>hasModifier := False, cachedCoinsUsage := cachedCoinsUsage (Modifier_set c1 m (Cleanup k)) - m_usage m\<rparr>"
  show ?thesis
  proof (cases "flags e AND FRESH \<noteq> 0 \<and> IsPruned (coins e)")
    case True
    let ?c2 = "?c\<lparr>cacheCoins := AList.delete txid (cacheCoins ?c)\<rparr>"
    have "Modifier_close mem c1 m = Some ?c2" using True m e(1) by (simp add: Modifier_close_def Let_def set)
    moreover have "coins_ok base ?c2" "view_of base ?c2 = (view_of base c)(txid := base txid)"
      using drop_ok [OF assms(1), of ?c2 txid] e(1) d(1) by (simp_all add: distinct_delete)
    ultimately show ?thesis using True e d(2) by (auto simp: utxo_def fun_eq_iff live_Some)
  next
    case False
    let ?c2 = "?c\<lparr>cachedCoinsUsage := cachedCoinsUsage ?c + mem (coins e)\<rparr>"
    have "Modifier_close mem c1 m = Some ?c2" using False m e(1) by (auto simp: Modifier_close_def Let_def set)
    moreover have "coins_ok base ?c2" "view_of base ?c2 = (view_of base c)(txid := Some (coins e))"
      using put_ok [OF assms(1), of ?c2 txid e] e d(1) by (simp_all add: entry_ok_def)
    ultimately show ?thesis using e(2) d(2) by (auto simp: utxo_def fun_eq_iff)
  qed
qed

text \<open>Opening a modifier, replacing the coins and closing it.\<close>

lemma modify_close:
  assumes "coins_ok base c" "\<not> hasModifier c"
  shows "\<exists>m c1. ModifyCoins mem base c txid = Some (m, c1) \<and> Modifier_get c1 m = (case view_of base c txid of None \<Rightarrow> CCoins_empty | Some k \<Rightarrow> k)
     \<and> (\<forall>k. \<exists>c2. Modifier_close mem (Modifier_set c1 m k) m = Some c2 \<and> coins_ok base c2 \<and> \<not> hasModifier c2 \<and> hashBlock c2 = hashBlock c
            \<and> utxo base c2 = (utxo base c)(txid := live (Some (Cleanup k))))"
  using modify_opened [OF assms, of mem txid] opened_get opened_set close_ok [OF assms(1)] by metis

lemma modify_new_close:
  assumes "coins_ok base c" "\<not> hasModifier c" "live (base txid) = None"
  shows "\<exists>m c1 c2. ModifyNewCoins c txid coinbase = Some (m, c1) \<and> Modifier_close mem (Modifier_set c1 m k) m = Some c2
     \<and> coins_ok base c2 \<and> \<not> hasModifier c2 \<and> hashBlock c2 = hashBlock c \<and> utxo base c2 = (utxo base c)(txid := live (Some (Cleanup k)))"
  using modify_new_opened [OF assms, of coinbase] opened_set close_ok [OF assms(1)] by metis

lemma uncache_ok:
  assumes "coins_ok base c"
  shows "coins_ok base (Uncache mem c txid) \<and> utxo base (Uncache mem c txid) = utxo base c"
proof (cases "map_of (cacheCoins c) txid")
  case None
  then show ?thesis using assms by (simp add: Uncache_def)
next
  case (Some e)
  then have "entry_ok base txid e" using assms by (simp add: coins_ok_def)
  moreover have d: "distinct (map fst (cacheCoins c))" using assms by (simp add: coins_ok_def)
  ultimately show ?thesis using assms Some drop_ok [OF assms, of "Uncache mem c txid" txid]
    by (auto simp: Uncache_def distinct_delete utxo_def fun_eq_iff entry_ok_def view_of_def)
qed

lemma batch_entry_ok:
  assumes "coins_ok base p" "entry_ok (view_of base p) (fst it) (snd it)"
  shows "coins_ok base (batch_entry mem it p) \<and> hasModifier (batch_entry mem it p) = hasModifier p
    \<and> utxo base (batch_entry mem it p) = (if flags (snd it) AND DIRTY \<noteq> 0 then (utxo base p)(fst it := live (Some (coins (snd it)))) else utxo base p)"
proof -
  obtain t e where it: "it = (t, e)" by (cases it)
  have d: "distinct (map fst (cacheCoins p))" using assms(1) by (simp add: coins_ok_def)
  have e: "Cleanup (coins e) = coins e" "flags e AND FRESH \<noteq> 0 \<Longrightarrow> utxo base p t = None" using assms(2) it by (simp_all add: entry_ok_def utxo_def)
  show ?thesis
  proof (cases "flags e AND DIRTY = 0")
    case True
    then show ?thesis using assms(1) it by (simp add: batch_entry_def)
  next
    case dirty: False
    show ?thesis
    proof (cases "map_of (cacheCoins p) t")
      case None
      then have base: "utxo base p t = live (base t)" by (simp add: utxo_def view_of_def)
      have t: "t \<notin> fst ` set (cacheCoins p)" using None by (simp add: map_of_eq_None_iff)
      show ?thesis
      proof (cases "flags e AND FRESH \<noteq> 0 \<and> IsPruned (coins e)")
        case True
        then show ?thesis using assms(1) dirty None it e(2) by (auto simp: batch_entry_def live_Some fun_eq_iff)
      next
        case False
        then show ?thesis using assms(1) dirty None it e t d base
          put_ok [OF assms(1), of "batch_entry mem it p" t "\<lparr>coins = coins e, flags = if flags e AND FRESH \<noteq> 0 then DIRTY OR FRESH else DIRTY\<rparr>"]
          by (auto simp: batch_entry_def entry_ok_def utxo_def fun_eq_iff)
      qed
    next
      case (Some us)
      then have us: "entry_ok base t us" using assms(1) by (simp add: coins_ok_def)
      show ?thesis
      proof (cases "flags us AND FRESH \<noteq> 0 \<and> IsPruned (coins e)")
        case True
        then show ?thesis using dirty Some it us d drop_ok [OF assms(1), of "batch_entry mem it p" t]
          by (auto simp: batch_entry_def entry_ok_def utxo_def fun_eq_iff live_Some distinct_delete)
      next
        case False
        then show ?thesis using dirty Some it us d e(1)
          put_ok [OF assms(1), of "batch_entry mem it p" t "us\<lparr>coins := coins e, flags := flags us OR DIRTY\<rparr>"]
          by (auto simp: batch_entry_def entry_ok_def utxo_def fun_eq_iff distinct_update)
      qed
    qed
  qed
qed

lemma batch_fold_ok:
  assumes "distinct (map fst l)" "\<And>t e. map_of l t = Some e \<Longrightarrow> entry_ok (view_of base p) t e" "coins_ok base p"
  shows "coins_ok base (fold (batch_entry mem) l p) \<and> hasModifier (fold (batch_entry mem) l p) = hasModifier p
    \<and> utxo base (fold (batch_entry mem) l p) =
        (\<lambda>t. case map_of l t of None \<Rightarrow> utxo base p t | Some e \<Rightarrow> if flags e AND DIRTY \<noteq> 0 then live (Some (coins e)) else utxo base p t)"
  using assms
proof (induction l arbitrary: p)
  case Nil
  then show ?case by simp
next
  case (Cons it l)
  obtain t e where it: "it = (t, e)" by (cases it)
  let ?p = "batch_entry mem it p"
  have new: "t \<notin> fst ` set l" "map_of l t = None" using Cons.prems(1) it by (auto simp: map_of_eq_None_iff)
  have "entry_ok (view_of base p) (fst it) (snd it)" using Cons.prems(2) [of t e] it by simp
  note step = batch_entry_ok [OF Cons.prems(3) this, of mem]
  have "entry_ok (view_of base ?p) t' e'" if l: "map_of l t' = Some e'" for t' e'
  proof -
    have "t' \<noteq> t" using l new by auto
    then have "utxo base ?p t' = utxo base p t'" "entry_ok (view_of base p) t' e'" using step Cons.prems(2) [of t' e'] l it by auto
    then show ?thesis by (simp add: entry_ok_def utxo_def)
  qed
  then have "coins_ok base (fold (batch_entry mem) l ?p) \<and> hasModifier (fold (batch_entry mem) l ?p) = hasModifier ?p
    \<and> utxo base (fold (batch_entry mem) l ?p) =
        (\<lambda>t. case map_of l t of None \<Rightarrow> utxo base ?p t | Some e \<Rightarrow> if flags e AND DIRTY \<noteq> 0 then live (Some (coins e)) else utxo base ?p t)"
    using Cons.prems(1) step by (intro Cons.IH) simp_all
  then show ?case using step it new by (auto simp: fun_eq_iff split: option.splits)
qed

lemma flush_ok:
  assumes "coins_ok base p" "\<not> hasModifier p" "coins_ok (view_of base p) c"
  shows "\<exists>p' c'. Flush mem p c = Some (p', c') \<and> coins_ok base p' \<and> \<not> hasModifier p' \<and> hashBlock p' = hashBlock c \<and> cacheCoins c' = []
     \<and> utxo base p' = utxo (view_of base p) c"
proof -
  let ?p = "fold (batch_entry mem) (cacheCoins c) p"
  have f: "coins_ok base ?p \<and> hasModifier ?p = hasModifier p \<and> utxo base ?p =
        (\<lambda>t. case map_of (cacheCoins c) t of None \<Rightarrow> utxo base p t | Some e \<Rightarrow> if flags e AND DIRTY \<noteq> 0 then live (Some (coins e)) else utxo base p t)"
    using assms by (intro batch_fold_ok) (auto simp: coins_ok_def)
  have "utxo base ?p t = utxo (view_of base p) c t" for t
  proof (cases "map_of (cacheCoins c) t")
    case None
    then show ?thesis using f by (simp add: utxo_def view_of_def)
  next
    case (Some e)
    then have "entry_ok (view_of base p) t e" using assms(3) by (simp add: coins_ok_def)
    then show ?thesis using f Some by (simp add: utxo_def view_of_def entry_ok_def)
  qed
  then have u: "utxo base ?p = utxo (view_of base p) c" by blast
  have r: "coins_ok base (q\<lparr>hashBlock := h\<rparr>) = coins_ok base q" "utxo base (q\<lparr>hashBlock := h\<rparr>) = utxo base q" for q h
    by (simp_all add: coins_ok_def utxo_def view_of_def fun_eq_iff)
  show ?thesis using f u assms(2) by (simp add: Flush_def BatchWrite_def r)
qed

end

lemma coins_ok_parent:
  assumes "coins_parent base" "coins_ok base c"
  shows "coins_parent (view_of base c)"
  using assms by (auto simp: coins_parent_def coins_ok_def entry_ok_def view_of_def split: option.splits)

text \<open>The base class \<open>CCoinsView\<close> knows no coins.\<close>

interpretation no_coins: coins_parent CCoinsView_GetCoins
  by unfold_locales (simp add: CCoinsView_GetCoins_def)

lemma coins_ok_init: "coins_ok base CCoinsViewCache_init"
  by (simp add: coins_ok_def CCoinsViewCache_init_def)

subsection \<open>An example\<close>

definition demo_coins :: CCoins where
  "demo_coins = \<lparr>fCoinBase = False, c_vout = [\<lparr>nValue = 5, scriptPubKey = [1]\<rparr>], c_nHeight = 7, c_nVersion = 1\<rparr>"

definition demo_base :: coins_fun where "demo_base = [[1] \<mapsto> demo_coins]"

definition demo_cache :: CCoinsViewCache where
  "demo_cache = CCoinsViewCache_init\<lparr>cacheCoins := [([2], \<lparr>coins = demo_coins, flags = 3\<rparr>)]\<rparr>"

lemma demo_coins_clean: "Cleanup demo_coins = demo_coins" "\<not> IsPruned demo_coins"
  by (simp_all add: Cleanup_def demo_coins_def IsPruned_def TxOut_IsNull_def)

interpretation demo: coins_parent demo_base
  by unfold_locales (auto simp: demo_base_def demo_coins_clean split: if_splits)

subsection \<open>Properties\<close>

text \<open>C6: A coins cache implements the map of the live coins.  Over a parent with clean entries, from a cache in
  the invariant: looking a transaction up returns the cached or parent coins and changes nothing;
  modifying it replaces exactly its entry by the cleaned-up new coins, a new entry that is unknown to the
  parent likewise; forgetting an unmodified entry changes nothing.  All keep the invariant.\<close>

theorem CCoinsViewCache_refines:
  assumes "coins_parent base" "coins_ok base c" "\<not> hasModifier c"
  shows "(case GetCoins mem base c txid of (r, c') \<Rightarrow> live r = utxo base c txid \<and> coins_ok base c' \<and> utxo base c' = utxo base c)
    \<and> (\<exists>m c1. ModifyCoins mem base c txid = Some (m, c1) \<and> live (Some (Modifier_get c1 m)) = utxo base c txid
        \<and> (\<exists>c2. Modifier_close mem (Modifier_set c1 m k) m = Some c2 \<and> coins_ok base c2 \<and> utxo base c2 = (utxo base c)(txid := live (Some (Cleanup k)))))
    \<and> (live (base txid) = None \<longrightarrow> (\<exists>m c1 c2. ModifyNewCoins c txid coinbase = Some (m, c1)
        \<and> Modifier_close mem (Modifier_set c1 m k) m = Some c2 \<and> coins_ok base c2 \<and> utxo base c2 = (utxo base c)(txid := live (Some (Cleanup k)))))
    \<and> coins_ok base (Uncache mem c txid) \<and> utxo base (Uncache mem c txid) = utxo base c"
proof -
  note P = assms(1)
  have e: "live (Some (case r of None \<Rightarrow> CCoins_empty | Some k \<Rightarrow> k)) = live r" for r by (cases r) (simp_all add: live_Some)
  have "live (fst (GetCoins mem base c txid)) = utxo base c txid" "coins_ok base (snd (GetCoins mem base c txid))"
    "utxo base (snd (GetCoins mem base c txid)) = utxo base c"
    using coins_parent.fetch_ok [OF P assms(2), of mem txid] by (simp_all add: GetCoins_def utxo_def fun_eq_iff)
  moreover obtain m c1 where "ModifyCoins mem base c txid = Some (m, c1)" "live (Some (Modifier_get c1 m)) = utxo base c txid"
    "\<exists>c2. Modifier_close mem (Modifier_set c1 m k) m = Some c2 \<and> coins_ok base c2 \<and> utxo base c2 = (utxo base c)(txid := live (Some (Cleanup k)))"
    using coins_parent.modify_close [OF P assms(2,3), of mem txid] e by (metis utxo_def)
  moreover have "live (base txid) = None \<longrightarrow> (\<exists>m c1 c2. ModifyNewCoins c txid coinbase = Some (m, c1)
        \<and> Modifier_close mem (Modifier_set c1 m k) m = Some c2 \<and> coins_ok base c2 \<and> utxo base c2 = (utxo base c)(txid := live (Some (Cleanup k))))"
    using coins_parent.modify_new_close [OF P assms(2,3), of txid coinbase mem k] by blast
  ultimately show ?thesis using coins_parent.uncache_ok [OF P assms(2), of mem txid] by (simp add: case_prod_beta)
qed

theorem CCoinsViewCache_refines_witness:
  "\<exists>m c1 c2. ModifyCoins (\<lambda>_. 0) demo_base CCoinsViewCache_init [1] = Some (m, c1)
     \<and> Modifier_close (\<lambda>_. 0) (Modifier_set c1 m CCoins_empty) m = Some c2 \<and> utxo demo_base c2 [1] = None"
proof -
  have "\<not> hasModifier CCoinsViewCache_init" by (simp add: CCoinsViewCache_init_def)
  from CCoinsViewCache_refines [OF demo.coins_parent_axioms coins_ok_init this, where mem = "\<lambda>_. 0" and txid = "[1]" and k = CCoins_empty and coinbase = False]
  show ?thesis by (auto simp: live_Some)
qed

text \<open>C12: Flushing a cache into its parent cache keeps the content: the live coins seen through the parent
  afterwards are those seen through the cache before, with the cache's best block, and the parent's own
  invariant towards its parent is kept.\<close>

theorem Flush_moves_coins:
  assumes "coins_parent base" "coins_ok base p" "\<not> hasModifier p" "coins_ok (view_of base p) c"
  shows "\<exists>p' c'. Flush mem p c = Some (p', c') \<and> coins_ok base p' \<and> utxo base p' = utxo (view_of base p) c \<and> hashBlock p' = hashBlock c
     \<and> coins_ok (view_of base p') c' \<and> utxo (view_of base p') c' = utxo (view_of base p) c"
proof -
  note P = assms(1)
  obtain p' c' where f: "Flush mem p c = Some (p', c')" "coins_ok base p'" "hashBlock p' = hashBlock c" "cacheCoins c' = []"
    "utxo base p' = utxo (view_of base p) c"
    using coins_parent.flush_ok [OF P assms(2-4), of mem] by blast
  have "coins_ok (view_of base p') c'" "utxo (view_of base p') c' = utxo base p'" using f(4) by (simp_all add: coins_ok_def utxo_def view_of_def fun_eq_iff)
  then show ?thesis using f by auto
qed

theorem Flush_moves_coins_witness:
  "\<exists>p' c'. Flush (\<lambda>_. 0) CCoinsViewCache_init demo_cache = Some (p', c') \<and> utxo demo_base p' [2] = Some demo_coins"
proof -
  have "\<not> hasModifier CCoinsViewCache_init" "coins_ok (view_of demo_base CCoinsViewCache_init) demo_cache"
    "utxo (view_of demo_base CCoinsViewCache_init) demo_cache [2] = Some demo_coins"
    by (simp_all add: coins_ok_def entry_ok_def demo_cache_def CCoinsViewCache_init_def demo_coins_clean view_of_def demo_base_def utxo_def
        live_Some DIRTY_def FRESH_def)
  then show ?thesis using Flush_moves_coins [OF demo.coins_parent_axioms coins_ok_init, of demo_cache "\<lambda>_. 0"] by auto
qed

end
