(* ===== verification/Chainstate.thy ===== *)
theory Chainstate
  imports Coins
begin

text \<open>
  Connecting and disconnecting blocks on the coins view: \<open>UpdateCoins\<close>, \<open>ApplyTxInUndo\<close>,
  \<open>DisconnectBlock\<close> and the coins part of \<open>ConnectBlock\<close> (\<open>src/src/main.cpp\<close>), with the undo records of
  \<open>src/src/undo.h\<close>.  The optional address and spent indexes are kept in a separate database and
  are left out, as is reading the undo data from disk: it is an argument.  A failed assert or an access outside a
  vector is None.
\<close>

unbundle bit_operations_syntax

subsection \<open>Spending and adding\<close>

record CTxInUndo =
  u_txout :: CTxOut
  u_fCoinBase :: bool
  u_nHeight :: u32
  u_nVersion :: int

type_synonym CTxUndo = "CTxInUndo list"

definition spend_input :: "(CCoins \<Rightarrow> u64) \<Rightarrow> coins_fun \<Rightarrow> CCoinsViewCache \<Rightarrow> CTxIn \<Rightarrow> (CTxInUndo \<times> CCoinsViewCache) option" where
  "spend_input mem base inputs txin =
     Option.bind (ModifyCoins mem base inputs (out_hash (prevout txin))) (\<lambda>(m, inputs).
       let k = Modifier_get inputs m; nPos = out_n (prevout txin)
       in if unat nPos \<ge> length (c_vout k) \<or> TxOut_IsNull (c_vout k ! unat nPos) then None
          else let undo = \<lparr>u_txout = c_vout k ! unat nPos, u_fCoinBase = False, u_nHeight = 0, u_nVersion = 0\<rparr>;
                   k = fst (Spend k nPos);
                   undo = (if length (c_vout k) = 0
                           then undo\<lparr>u_nHeight := word_of_int (c_nHeight k), u_fCoinBase := fCoinBase k, u_nVersion := c_nVersion k\<rparr> else undo)
               in map_option (\<lambda>inputs. (undo, inputs)) (Modifier_close mem (Modifier_set inputs m k) m))"

fun spend_inputs :: "(CCoins \<Rightarrow> u64) \<Rightarrow> coins_fun \<Rightarrow> CCoinsViewCache \<Rightarrow> CTxIn list \<Rightarrow> (CTxUndo \<times> CCoinsViewCache) option" where
  "spend_inputs mem base inputs [] = Some ([], inputs)"
| "spend_inputs mem base inputs (txin # txins) =
     Option.bind (spend_input mem base inputs txin) (\<lambda>(undo, inputs).
       map_option (\<lambda>(undos, inputs). (undo # undos, inputs)) (spend_inputs mem base inputs txins))"

definition UpdateCoins :: "(CCoins \<Rightarrow> u64) \<Rightarrow> coins_fun \<Rightarrow> CTransaction \<Rightarrow> CCoinsViewCache \<Rightarrow> int \<Rightarrow> (CTxUndo \<times> CCoinsViewCache) option" where
  "UpdateCoins mem base tx inputs nHeight =
     Option.bind (if \<not> has_no_coin_inputs tx then spend_inputs mem base inputs (vin tx) else Some ([], inputs)) (\<lambda>(txundo, inputs).
     Option.bind (ModifyNewCoins inputs (tx_hash tx) (IsCoinBase tx)) (\<lambda>(m, inputs).
       map_option (\<lambda>inputs. (txundo, inputs)) (Modifier_close mem (Modifier_set inputs m (FromTx tx nHeight)) m)))"

text \<open>The loop of \<open>ConnectBlock\<close> over the transactions: the undo data of the first one goes to a dummy.\<close>

fun connect_txs :: "(CCoins \<Rightarrow> u64) \<Rightarrow> coins_fun \<Rightarrow> nat \<Rightarrow> CTransaction list \<Rightarrow> CCoinsViewCache \<Rightarrow> int \<Rightarrow> (CTxUndo list \<times> CCoinsViewCache) option" where
  "connect_txs mem base i [] view nHeight = Some ([], view)"
| "connect_txs mem base i (tx # txs) view nHeight =
     Option.bind (UpdateCoins mem base tx view nHeight) (\<lambda>(undo, view).
       map_option (\<lambda>(undos, view). (if i > 0 then undo # undos else undos, view)) (connect_txs mem base (i + 1) txs view nHeight))"

definition connect_coins :: "(CCoins \<Rightarrow> u64) \<Rightarrow> coins_fun \<Rightarrow> CTransaction list \<Rightarrow> CCoinsViewCache \<Rightarrow> int \<Rightarrow> uint256 \<Rightarrow>
    (CTxUndo list \<times> CCoinsViewCache) option" where
  "connect_coins mem base vtx view nHeight blockHash =
     map_option (\<lambda>(vtxundo, view). (vtxundo, SetBestBlock view blockHash)) (connect_txs mem base 0 vtx view nHeight)"

subsection \<open>Undoing\<close>

definition vout_resize :: "nat \<Rightarrow> CTxOut list \<Rightarrow> CTxOut list" where
  "vout_resize n v = v @ replicate (n - length v) TxOut_null"

definition ApplyTxInUndo :: "(CCoins \<Rightarrow> u64) \<Rightarrow> coins_fun \<Rightarrow> CTxInUndo \<Rightarrow> CCoinsViewCache \<Rightarrow> COutPoint \<Rightarrow> (bool \<times> CCoinsViewCache) option" where
  "ApplyTxInUndo mem base undo view out =
     Option.bind (ModifyCoins mem base view (out_hash out)) (\<lambda>(m, view).
       let k = Modifier_get view m;
           fClean = (if u_nHeight undo \<noteq> 0 then IsPruned k else \<not> IsPruned k);
           k = (if u_nHeight undo \<noteq> 0
                then CCoins_empty\<lparr>fCoinBase := u_fCoinBase undo, c_nHeight := sint (u_nHeight undo), c_nVersion := u_nVersion undo\<rparr> else k);
           fClean = (fClean \<and> \<not> IsAvailable k (out_n out));
           k = (if length (c_vout k) < unat (out_n out + 1) then k\<lparr>c_vout := vout_resize (unat (out_n out + 1)) (c_vout k)\<rparr> else k)
       in if unat (out_n out) \<ge> length (c_vout k) then None
          else map_option (\<lambda>view. (fClean, view))
                 (Modifier_close mem (Modifier_set view m (k\<lparr>c_vout := (c_vout k)[unat (out_n out) := u_txout undo]\<rparr>)) m))"

text \<open>The inputs are restored from the last to the first: the arguments are the reversed lists.\<close>

fun restore_inputs :: "(CCoins \<Rightarrow> u64) \<Rightarrow> coins_fun \<Rightarrow> (CTxIn \<times> CTxInUndo) list \<Rightarrow> bool \<Rightarrow> CCoinsViewCache \<Rightarrow> (bool \<times> CCoinsViewCache) option" where
  "restore_inputs mem base [] fClean view = Some (fClean, view)"
| "restore_inputs mem base ((txin, undo) # rest) fClean view =
     Option.bind (ApplyTxInUndo mem base undo view (prevout txin)) (\<lambda>(ok, view). restore_inputs mem base rest (fClean \<and> ok) view)"

definition remove_outputs :: "(CCoins \<Rightarrow> u64) \<Rightarrow> coins_fun \<Rightarrow> CTransaction \<Rightarrow> int \<Rightarrow> CCoinsViewCache \<Rightarrow> (bool \<times> CCoinsViewCache) option" where
  "remove_outputs mem base tx nHeight view =
     Option.bind (ModifyCoins mem base view (tx_hash tx)) (\<lambda>(m, view).
       let outs = ClearUnspendable (Modifier_get view m);
           outsBlock = FromTx tx nHeight;
           outs = (if c_nVersion outsBlock < 0 then outs\<lparr>c_nVersion := c_nVersion outsBlock\<rparr> else outs)
       in map_option (\<lambda>view. (CCoins_eq outs outsBlock, view)) (Modifier_close mem (Modifier_set view m CCoins_empty) m))"

text \<open>The result: whether the undo data was consistent, and if so whether the view was clean.\<close>

datatype disconnect_result = DISCONNECT_ERROR | DISCONNECTED bool

fun disconnect_txs :: "(CCoins \<Rightarrow> u64) \<Rightarrow> coins_fun \<Rightarrow> (nat \<times> CTransaction) list \<Rightarrow> CTxUndo list \<Rightarrow> int \<Rightarrow> bool \<Rightarrow> CCoinsViewCache \<Rightarrow>
    (disconnect_result \<times> CCoinsViewCache) option" where
  "disconnect_txs mem base [] vtxundo nHeight fClean view = Some (DISCONNECTED fClean, view)"
| "disconnect_txs mem base ((i, tx) # txs) vtxundo nHeight fClean view =
     Option.bind (remove_outputs mem base tx nHeight view) (\<lambda>(same, view).
       if has_no_coin_inputs tx then disconnect_txs mem base txs vtxundo nHeight (fClean \<and> same) view
       else if i = 0 \<or> i - 1 \<ge> length vtxundo then None
       else let txundo = vtxundo ! (i - 1)
            in if length txundo \<noteq> length (vin tx) then Some (DISCONNECT_ERROR, view)
               else Option.bind (restore_inputs mem base (rev (zip (vin tx) txundo)) (fClean \<and> same) view) (\<lambda>(fClean, view).
                    disconnect_txs mem base txs vtxundo nHeight fClean view))"

definition DisconnectBlock :: "(CCoins \<Rightarrow> u64) \<Rightarrow> coins_fun \<Rightarrow> uint256 \<Rightarrow> CTransaction list \<Rightarrow> CTxUndo list \<Rightarrow> uint256 \<Rightarrow> uint256 \<Rightarrow> int \<Rightarrow>
    CCoinsViewCache \<Rightarrow> (disconnect_result \<times> CCoinsViewCache) option" where
  "DisconnectBlock mem base base_best vtx vtxundo blockHash prevHash nHeight view =
     (case GetBestBlock base_best view of (best, view) \<Rightarrow>
        if blockHash \<noteq> best then None
        else if length vtxundo + 1 \<noteq> length vtx then Some (DISCONNECT_ERROR, view)
        else map_option (\<lambda>(r, view). (r, case r of DISCONNECT_ERROR \<Rightarrow> view | DISCONNECTED _ \<Rightarrow> SetBestBlock view prevHash))
               (disconnect_txs mem base (rev (enumerate 0 vtx)) vtxundo nHeight True view))"

subsection \<open>Undoing one spend\<close>

definition strip :: "CTxOut list \<Rightarrow> CTxOut list" where
  "strip v = rev (dropWhile TxOut_IsNull (rev v))"

lemma Cleanup_strip: "Cleanup c = c\<lparr>c_vout := strip (c_vout c)\<rparr>"
  by (simp add: Cleanup_def strip_def)

lemma strip_take: "\<exists>m \<le> length w. strip w = take m w \<and> (\<forall>i. m \<le> i \<longrightarrow> i < length w \<longrightarrow> TxOut_IsNull (w ! i))"
proof -
  let ?z = "rev (takeWhile TxOut_IsNull (rev w))"
  have w: "w = strip w @ ?z" unfolding strip_def using takeWhile_dropWhile_id [of TxOut_IsNull "rev w"]
    by (metis rev_append rev_rev_ident)
  have "TxOut_IsNull t" if "t \<in> set ?z" for t using that by (auto dest: set_takeWhileD)
  moreover have "w ! i \<in> set ?z" if "length (strip w) \<le> i" "i < length w" for i
    using that w by (metis add_diff_cancel_left' diff_less_mono length_append nth_append nth_mem not_less)
  moreover have "strip w = take (length (strip w)) w" "length (strip w) \<le> length w"
    using w by (metis append_eq_conv_conj, metis le_add1 length_append)
  ultimately show ?thesis by blast
qed

lemma strip_last: "strip v = v \<Longrightarrow> v \<noteq> [] \<Longrightarrow> \<not> TxOut_IsNull (last v)"
proof (cases v rule: rev_cases)
  case (snoc ys y)
  assume "strip v = v"
  then have "TxOut_IsNull y \<Longrightarrow> length (dropWhile TxOut_IsNull (rev ys)) = Suc (length ys)"
    using snoc by (simp add: strip_def) (metis length_append_singleton length_rev)
  then show ?thesis using snoc length_dropWhile_le [of TxOut_IsNull "rev ys"] by auto
qed simp

text \<open>Spent outputs are stored as the canonical null output.\<close>

definition nulls_ok :: "CTxOut list \<Rightarrow> bool" where
  "nulls_ok v \<longleftrightarrow> list_all (\<lambda>t. TxOut_IsNull t \<longrightarrow> t = TxOut_null) v"

lemma TxOut_null_IsNull [simp]: "TxOut_IsNull TxOut_null"
  by (simp add: TxOut_IsNull_def TxOut_null_def)

lemma unspend_vout:
  assumes "strip v = v" "nulls_ok v" "n < length v" "\<not> TxOut_IsNull (v ! n)"
  defines "v' \<equiv> strip (v[n := TxOut_null])"
  shows "(if length v' < Suc n then vout_resize (Suc n) v' else v')[n := v ! n] = v"
proof -
  let ?w = "v[n := TxOut_null]"
  obtain m where m: "m \<le> length v" "v' = take m ?w" "\<And>i. m \<le> i \<Longrightarrow> i < length v \<Longrightarrow> TxOut_IsNull (?w ! i)"
    using strip_take [of ?w] unfolding v'_def by auto
  have lv: "length v' = m" and l: "length v - 1 < length v" using m assms(3) by simp_all
  have last: "\<not> TxOut_IsNull (v ! (length v - 1))" using strip_last [OF assms(1)] assms(3) by (cases "v = []") (simp_all add: last_conv_nth)
  have null: "?w ! i = TxOut_null" if "m \<le> i" "i < length v" for i
    using m(3) [OF that] that assms(2) by (cases "i = n") (auto simp: nulls_ok_def list_all_length)
  show ?thesis
  proof (cases "m \<le> n")
    case True
    have len: "length v = Suc n"
    proof (rule ccontr)
      assume "length v \<noteq> Suc n"
      then have "n < length v - 1" using assms(3) by simp
      then show False using last m(3) [of "length v - 1"] True l by simp
    qed
    have "vout_resize (Suc n) v' = ?w"
      using True m(1,2) lv len null by (intro nth_equalityI) (auto simp: vout_resize_def nth_append)
    then show ?thesis using True lv assms(3) by simp
  next
    case False
    have "m = length v"
    proof (rule ccontr)
      assume "m \<noteq> length v"
      then have "m \<le> length v - 1" "n < length v - 1" using m(1) False by simp_all
      then show False using last m(3) [of "length v - 1"] l by simp
    qed
    then show ?thesis using m(2) assms(3) by simp
  qed
qed

lemma strip_empty: "strip v = [] \<longleftrightarrow> list_all TxOut_IsNull v"
  by (simp add: strip_def list_all_iff)

lemma nulls_ok_strip: "nulls_ok v \<Longrightarrow> nulls_ok (strip v)" "nulls_ok v \<Longrightarrow> nulls_ok (v[n := TxOut_null])"
proof -
  assume v: "nulls_ok v"
  obtain m where "strip v = take m v" using strip_take [of v] by blast
  then show "nulls_ok (strip v)" using v by (auto simp: nulls_ok_def list_all_iff dest!: in_set_takeD)
  show "nulls_ok (v[n := TxOut_null])" using v set_update_subset_insert [of v n TxOut_null] by (auto simp: nulls_ok_def list_all_iff)
qed

subsection \<open>The abstract coins map\<close>

definition coin_wf :: "CCoins \<Rightarrow> bool" where
  "coin_wf k \<longleftrightarrow> strip (c_vout k) = c_vout k \<and> nulls_ok (c_vout k) \<and> length (c_vout k) < 2 ^ 32 \<and> 0 < c_nHeight k \<and> c_nHeight k < 2 ^ 31"

definition utxo_wf :: "coins_fun \<Rightarrow> bool" where
  "utxo_wf U \<longleftrightarrow> (\<forall>h k. U h = Some k \<longrightarrow> coin_wf k \<and> \<not> IsPruned k)"

definition spent :: "CCoins \<Rightarrow> u32 \<Rightarrow> CCoins" where
  "spent k n = k\<lparr>c_vout := strip ((c_vout k)[unat n := TxOut_null])\<rparr>"

definition undo_of :: "CCoins \<Rightarrow> u32 \<Rightarrow> CTxInUndo" where
  "undo_of k n = (if c_vout (spent k n) = []
     then \<lparr>u_txout = c_vout k ! unat n, u_fCoinBase = fCoinBase k, u_nHeight = word_of_int (c_nHeight k), u_nVersion = c_nVersion k\<rparr>
     else \<lparr>u_txout = c_vout k ! unat n, u_fCoinBase = False, u_nHeight = 0, u_nVersion = 0\<rparr>)"

text \<open>Spending an output removes it from its entry and leaves the undo record.\<close>

definition spend_spec :: "coins_fun \<Rightarrow> CTxIn \<Rightarrow> (CTxInUndo \<times> coins_fun) option" where
  "spend_spec U i =
     (case U (out_hash (prevout i)) of
        None \<Rightarrow> None
      | Some k \<Rightarrow> if IsAvailable k (out_n (prevout i))
                  then Some (undo_of k (out_n (prevout i)), U(out_hash (prevout i) := live (Some (spent k (out_n (prevout i)))))) else None)"

fun spends_spec :: "coins_fun \<Rightarrow> CTxIn list \<Rightarrow> (CTxUndo \<times> coins_fun) option" where
  "spends_spec U [] = Some ([], U)"
| "spends_spec U (i # ins) = Option.bind (spend_spec U i) (\<lambda>(u, U). map_option (\<lambda>(us, U). (u # us, U)) (spends_spec U ins))"

definition tx_inputs :: "CTransaction \<Rightarrow> CTxIn list" where
  "tx_inputs tx = (if has_no_coin_inputs tx then [] else vin tx)"

definition tx_spec :: "coins_fun \<Rightarrow> CTransaction \<Rightarrow> int \<Rightarrow> (CTxUndo \<times> coins_fun) option" where
  "tx_spec U tx nHeight =
     map_option (\<lambda>(us, U). (us, U(tx_hash tx := live (Some (FromTx tx nHeight))))) (spends_spec U (tx_inputs tx))"

lemma IsPruned_strip: "IsPruned k \<longleftrightarrow> strip (c_vout k) = []"
  by (simp add: IsPruned_def strip_empty)

lemma strip_idem [simp]: "strip (strip v) = strip v"
  by (simp add: strip_def dropWhile_idem)

lemma spent_clean [simp]: "Cleanup (spent k n) = spent k n"
  by (simp add: Cleanup_strip spent_def)

lemma sint_of_height:
  assumes "0 < h" "h < 2 ^ 31"
  shows "sint (word_of_int h :: u32) = h" "(word_of_int h :: u32) \<noteq> 0"
proof -
  show "sint (word_of_int h :: u32) = h" using assms by (simp add: sint_sbintrunc' signed_take_bit_int_eq_self)
  then show "(word_of_int h :: u32) \<noteq> 0" using assms by (metis sint_0 less_irrefl)
qed

lemma length_vout_resize [simp]: "length (vout_resize n v) = max n (length v)"
  by (simp add: vout_resize_def)

lemma c_vout_empty [simp]: "c_vout CCoins_empty = []"
  by (simp add: CCoins_empty_def)

lemma CCoins_refill:
  "CCoins_empty\<lparr>fCoinBase := fCoinBase k, c_nHeight := c_nHeight k, c_nVersion := c_nVersion k, c_vout := c_vout k\<rparr> = k"
  by (cases k) (simp add: CCoins_empty_def)

lemma IsPruned_empty [simp]: "IsPruned CCoins_empty"
  by (simp add: IsPruned_def CCoins_empty_def)

lemma coin_wf_spent: "coin_wf k \<Longrightarrow> coin_wf (spent k n)"
proof -
  assume k: "coin_wf k"
  obtain m where "m \<le> length (c_vout k)" "strip ((c_vout k)[unat n := TxOut_null]) = take m ((c_vout k)[unat n := TxOut_null])"
    using strip_take [of "(c_vout k)[unat n := TxOut_null]"] by auto
  then have "length (strip ((c_vout k)[unat n := TxOut_null])) \<le> length (c_vout k)" by simp
  then show ?thesis using k by (simp add: coin_wf_def spent_def nulls_ok_strip)
qed

lemma spend_spec_SomeE:
  assumes "spend_spec U i = Some (u, U')"
  obtains k where "U (out_hash (prevout i)) = Some k" "IsAvailable k (out_n (prevout i))" "u = undo_of k (out_n (prevout i))"
    "U' = U(out_hash (prevout i) := live (Some (spent k (out_n (prevout i)))))"
  using assms by (auto simp: spend_spec_def split: option.splits if_splits)

lemma spend_spec_wf: "spend_spec U i = Some (u, U') \<Longrightarrow> utxo_wf U \<Longrightarrow> utxo_wf U'"
  by (erule spend_spec_SomeE) (auto simp: utxo_wf_def live_Some coin_wf_spent split: if_splits)

lemma spend_spec_dom: "spend_spec U i = Some (u, U') \<Longrightarrow> U h = None \<Longrightarrow> U' h = None"
  by (erule spend_spec_SomeE) auto

lemma spends_spec_keeps:
  "spends_spec U ins = Some (us, U') \<Longrightarrow> (utxo_wf U \<longrightarrow> utxo_wf U') \<and> (U h = None \<longrightarrow> U' h = None) \<and> length us = length ins"
proof (induction ins arbitrary: U us)
  case (Cons i ins)
  then show ?case using spend_spec_wf spend_spec_dom by (auto simp: bind_eq_Some_conv)
qed auto

lemma FromTx_clean [simp]: "Cleanup (FromTx tx h) = FromTx tx h" "ClearUnspendable (FromTx tx h) = FromTx tx h" "c_nVersion (FromTx tx h) = tx_nVersion tx"
proof -
  let ?f = "\<lambda>t. if IsUnspendable (scriptPubKey t) then TxOut_null else t"
  obtain m where m: "strip (map ?f (vout tx)) = take m (map ?f (vout tx))" using strip_take by blast
  have "\<not> IsUnspendable (scriptPubKey TxOut_null)" by (simp add: TxOut_null_def IsUnspendable_def MAX_SCRIPT_SIZE_def)
  then have "map ?f (map ?f (vout tx)) = map ?f (vout tx)" by simp
  then have "map ?f (strip (map ?f (vout tx))) = strip (map ?f (vout tx))" unfolding m take_map [symmetric] by (rule arg_cong)
  then show "ClearUnspendable (FromTx tx h) = FromTx tx h" by (simp add: FromTx_def ClearUnspendable_def Cleanup_strip)
qed (simp_all add: FromTx_def ClearUnspendable_def Cleanup_strip)

text \<open>Transactions whose outputs fit: amounts are not negative and there are fewer than \<open>2 ^ 32\<close> of them.\<close>

definition tx_fit :: "CTransaction \<Rightarrow> bool" where
  "tx_fit tx \<longleftrightarrow> list_all (\<lambda>t. 0 \<le> nValue t) (vout tx) \<and> length (vout tx) < 2 ^ 32"

lemma coin_wf_FromTx:
  assumes "tx_fit tx" "0 < h" "h < 2 ^ 31"
  shows "coin_wf (FromTx tx h)"
proof -
  let ?w = "map (\<lambda>t. if IsUnspendable (scriptPubKey t) then TxOut_null else t) (vout tx)"
  obtain m where "m \<le> length (vout tx)" "strip ?w = take m ?w" using strip_take [of ?w] by auto
  then have "length (strip ?w) < 2 ^ 32" using assms(1) by (simp add: tx_fit_def)
  moreover have "nulls_ok ?w" using assms(1) by (auto simp: nulls_ok_def tx_fit_def list_all_iff TxOut_IsNull_def)
  ultimately show ?thesis using assms(2,3) by (simp add: coin_wf_def FromTx_def ClearUnspendable_def Cleanup_strip nulls_ok_strip)
qed

lemma tx_spec_keeps:
  assumes "tx_spec U tx nHeight = Some (us, U')"
  shows "utxo_wf U \<Longrightarrow> tx_fit tx \<Longrightarrow> 0 < nHeight \<Longrightarrow> nHeight < 2 ^ 31 \<Longrightarrow> utxo_wf U'"
    "U h = None \<Longrightarrow> h \<noteq> tx_hash tx \<Longrightarrow> U' h = None" "length us = length (tx_inputs tx)"
proof -
  obtain V where V: "spends_spec U (tx_inputs tx) = Some (us, V)" "U' = V(tx_hash tx := live (Some (FromTx tx nHeight)))"
    using assms by (auto simp: tx_spec_def)
  show "utxo_wf U \<Longrightarrow> tx_fit tx \<Longrightarrow> 0 < nHeight \<Longrightarrow> nHeight < 2 ^ 31 \<Longrightarrow> utxo_wf U'"
    using V spends_spec_keeps [OF V(1)] coin_wf_FromTx [of tx nHeight] by (auto simp: utxo_wf_def live_Some split: if_splits)
  show "U h = None \<Longrightarrow> h \<noteq> tx_hash tx \<Longrightarrow> U' h = None" "length us = length (tx_inputs tx)"
    using V spends_spec_keeps [OF V(1)] by auto
qed

lemma IsPruned_ClearUnspendable: "IsPruned k \<Longrightarrow> IsPruned (ClearUnspendable k)"
  by (auto simp: ClearUnspendable_def IsPruned_def Cleanup_def list_all_iff dest!: set_dropWhileD)

context coins_parent
begin

lemma spend_input_spec:
  assumes "coins_ok base c" "\<not> hasModifier c"
  shows "case spend_spec (utxo base c) i of None \<Rightarrow> spend_input mem base c i = None
    | Some (u, U) \<Rightarrow> \<exists>c'. spend_input mem base c i = Some (u, c') \<and> coins_ok base c' \<and> \<not> hasModifier c' \<and> utxo base c' = U"
proof -
  let ?h = "out_hash (prevout i)" and ?n = "out_n (prevout i)"
  obtain m c1 where m: "ModifyCoins mem base c ?h = Some (m, c1)" "Modifier_get c1 m = (case view_of base c ?h of None \<Rightarrow> CCoins_empty | Some k \<Rightarrow> k)"
    "\<And>k. \<exists>c2. Modifier_close mem (Modifier_set c1 m k) m = Some c2 \<and> coins_ok base c2 \<and> \<not> hasModifier c2
       \<and> utxo base c2 = (utxo base c)(?h := live (Some (Cleanup k)))"
    using modify_close [OF assms, of mem ?h] by metis
  define k where "k = Modifier_get c1 m"
  show ?thesis
  proof (cases "IsAvailable k ?n")
    case False
    then have "spend_input mem base c i = None" using m(1) k_def by (auto simp: spend_input_def IsAvailable_def Let_def)
    moreover have "spend_spec (utxo base c) i = None"
      using False m(2) by (auto simp: spend_spec_def utxo_def live_def k_def split: option.splits)
    ultimately show ?thesis by simp
  next
    case True
    then have np: "\<not> IsPruned k" by (auto simp: IsAvailable_def IsPruned_def list_all_length)
    then have "view_of base c ?h = Some k" using m(2) k_def by (auto split: option.splits)
    then have u: "utxo base c ?h = Some k" using np by (simp add: utxo_def live_Some)
    have sp: "fst (Spend k ?n) = spent k ?n" using True by (simp add: Spend_def IsAvailable_def spent_def Cleanup_strip)
    obtain c2 where c2: "Modifier_close mem (Modifier_set c1 m (spent k ?n)) m = Some c2" "coins_ok base c2" "\<not> hasModifier c2"
      "utxo base c2 = (utxo base c)(?h := live (Some (spent k ?n)))"
      using m(3) [of "spent k ?n"] by auto
    have "spend_input mem base c i = Some (undo_of k ?n, c2)"
      using m(1) True k_def [symmetric] c2(1) sp by (auto simp: spend_input_def IsAvailable_def Let_def undo_of_def) (simp_all add: spent_def)
    then show ?thesis using u True c2 by (simp add: spend_spec_def)
  qed
qed

text \<open>The undo record of a spend restores the entry.\<close>

lemma undo_restores:
  assumes "coins_ok base c" "\<not> hasModifier c" "utxo base c = U(h := live (Some (spent k n)))" "U h = Some k" "coin_wf k" "IsAvailable k n" "h = out_hash p" "n = out_n p"
  shows "\<exists>c'. ApplyTxInUndo mem base (undo_of k n) c p = Some (True, c') \<and> coins_ok base c' \<and> \<not> hasModifier c' \<and> utxo base c' = U"
proof -
  obtain m c1 where m: "ModifyCoins mem base c h = Some (m, c1)" "Modifier_get c1 m = (case view_of base c h of None \<Rightarrow> CCoins_empty | Some k \<Rightarrow> k)"
    "\<And>k. \<exists>c2. Modifier_close mem (Modifier_set c1 m k) m = Some c2 \<and> coins_ok base c2 \<and> \<not> hasModifier c2
       \<and> utxo base c2 = (utxo base c)(h := live (Some (Cleanup k)))"
    using modify_close [OF assms(1,2), of mem h] by metis
  have wf: "strip (c_vout k) = c_vout k" "nulls_ok (c_vout k)" "unat n < length (c_vout k)" "\<not> TxOut_IsNull (c_vout k ! unat n)"
    "length (c_vout k) < 2 ^ 32" "0 < c_nHeight k" "c_nHeight k < 2 ^ 31"
    using assms(5,6) by (simp_all add: coin_wf_def IsAvailable_def)
  have n1: "unat (n + 1) = Suc (unat n)" using wf(3,5) by (simp add: unat_word_ariths)
  let ?v = "strip ((c_vout k)[unat n := TxOut_null])"
  have restored: "(if length ?v < Suc (unat n) then vout_resize (Suc (unat n)) ?v else ?v)[unat n := c_vout k ! unat n] = c_vout k"
    by (rule unspend_vout [OF wf(1-4)])
  have np: "\<not> IsPruned k" using wf(3,4) by (auto simp: IsPruned_def list_all_length)
  have k: "Cleanup k = k" using wf(1) by (simp add: Cleanup_strip)
  obtain c2 where c2: "Modifier_close mem (Modifier_set c1 m k) m = Some c2" "coins_ok base c2" "\<not> hasModifier c2" "utxo base c2 = U"
  proof -
    obtain c2 where "Modifier_close mem (Modifier_set c1 m k) m = Some c2" "coins_ok base c2" "\<not> hasModifier c2"
      "utxo base c2 = (utxo base c)(h := live (Some (Cleanup k)))" using m(3) [of k] by blast
    moreover have "(utxo base c)(h := live (Some (Cleanup k))) = U" using assms(3,4) np k by (auto simp: live_Some fun_eq_iff)
    ultimately show thesis using that by simp
  qed
  have "ApplyTxInUndo mem base (undo_of k n) c p = Some (True, c2)"
  proof (cases "?v = []")
    case True
    have u: "undo_of k n = \<lparr>u_txout = c_vout k ! unat n, u_fCoinBase = fCoinBase k, u_nHeight = word_of_int (c_nHeight k), u_nVersion = c_nVersion k\<rparr>"
      using True by (simp add: undo_of_def spent_def)
    have h: "sint (word_of_int (c_nHeight k) :: u32) = c_nHeight k" "(word_of_int (c_nHeight k) :: u32) \<noteq> 0"
      using wf(6,7) sint_of_height by auto
    have "IsPruned (spent k n)" using True by (simp add: IsPruned_strip spent_def strip_def)
    then have "IsPruned (Modifier_get c1 m)" using m(2) assms(3) by (auto simp: utxo_def live_def fun_eq_iff IsPruned_empty split: option.splits if_splits)
    then show ?thesis using m(1) u h n1 True restored c2(1) assms(7,8)
      by (simp add: ApplyTxInUndo_def Let_def IsAvailable_def CCoins_refill)
  next
    case False
    have u: "undo_of k n = \<lparr>u_txout = c_vout k ! unat n, u_fCoinBase = False, u_nHeight = 0, u_nVersion = 0\<rparr>"
      using False by (simp add: undo_of_def spent_def)
    have ps: "\<not> IsPruned (spent k n)" using False by (simp add: IsPruned_strip spent_def)
    then have g: "Modifier_get c1 m = spent k n" using m(2) assms(3) by (auto simp: utxo_def live_def fun_eq_iff split: option.splits if_splits)
    obtain j where "?v = take j ((c_vout k)[unat n := TxOut_null])" using strip_take by blast
    then have av: "\<not> IsAvailable (spent k n) n" using wf(3) by (simp add: IsAvailable_def spent_def)
    have "(spent k n)\<lparr>c_vout := c_vout k\<rparr> = k" by (simp add: spent_def)
    then show ?thesis using m(1) u g n1 ps av restored c2(1) assms(7,8)
      by (cases "length ?v < Suc (unat n)") (simp_all add: ApplyTxInUndo_def Let_def spent_def)
  qed
  then show ?thesis using c2 by blast
qed

lemma spend_inputs_spec:
  assumes "coins_ok base c" "\<not> hasModifier c"
  shows "case spends_spec (utxo base c) ins of None \<Rightarrow> spend_inputs mem base c ins = None
    | Some (us, U) \<Rightarrow> \<exists>c'. spend_inputs mem base c ins = Some (us, c') \<and> coins_ok base c' \<and> \<not> hasModifier c' \<and> utxo base c' = U"
  using assms
proof (induction ins arbitrary: c)
  case (Cons i ins)
  show ?case
  proof (cases "spend_spec (utxo base c) i")
    case None
    then show ?thesis using spend_input_spec [OF Cons.prems, where i = i and mem = mem] by simp
  next
    case (Some r)
    then obtain u c1 where c1: "r = (u, utxo base c1)" "spend_input mem base c i = Some (u, c1)" "coins_ok base c1" "\<not> hasModifier c1"
      using spend_input_spec [OF Cons.prems, where i = i and mem = mem] by (cases r) auto
    then show ?thesis using Cons.IH [OF c1(3,4)] Some by (cases "spends_spec (utxo base c1) ins") auto
  qed
qed simp

lemma update_spec:
  assumes "coins_ok base c" "\<not> hasModifier c" "live (base (tx_hash tx)) = None"
  shows "case tx_spec (utxo base c) tx nHeight of None \<Rightarrow> UpdateCoins mem base tx c nHeight = None
    | Some (us, U) \<Rightarrow> \<exists>c'. UpdateCoins mem base tx c nHeight = Some (us, c') \<and> coins_ok base c' \<and> \<not> hasModifier c' \<and> utxo base c' = U"
proof -
  let ?r = "if \<not> has_no_coin_inputs tx then spend_inputs mem base c (vin tx) else Some ([], c)"
  have s: "?r = spend_inputs mem base c (tx_inputs tx)" by (simp add: tx_inputs_def)
  show ?thesis
  proof (cases "spends_spec (utxo base c) (tx_inputs tx)")
    case None
    then show ?thesis using s spend_inputs_spec [OF assms(1,2), where mem = mem and ins = "tx_inputs tx"] by (simp add: UpdateCoins_def tx_spec_def)
  next
    case (Some r)
    then obtain us c1 where c1: "r = (us, utxo base c1)" "?r = Some (us, c1)" "coins_ok base c1" "\<not> hasModifier c1"
      using s spend_inputs_spec [OF assms(1,2), where mem = mem and ins = "tx_inputs tx"] by (cases r) auto
    then show ?thesis using Some modify_new_close [OF c1(3,4) assms(3), of "IsCoinBase tx" mem "FromTx tx nHeight"]
      by (auto simp: UpdateCoins_def tx_spec_def)
  qed
qed

lemma restore_append: "restore_inputs mem base (xs @ ys) cl c = Option.bind (restore_inputs mem base xs cl c) (\<lambda>(cl, c). restore_inputs mem base ys cl c)"
proof (induction xs arbitrary: cl c)
  case (Cons x xs)
  then show ?case by (cases x; cases "ApplyTxInUndo mem base (snd x) c (prevout (fst x))") auto
qed simp

lemma restore_spec:
  assumes "spends_spec U ins = Some (us, U')" "utxo_wf U" "coins_ok base c" "\<not> hasModifier c" "utxo base c = U'"
  shows "\<exists>c'. restore_inputs mem base (rev (zip ins us)) cl c = Some (cl, c') \<and> coins_ok base c' \<and> \<not> hasModifier c' \<and> utxo base c' = U"
  using assms
proof (induction ins arbitrary: U us)
  case (Cons i ins)
  obtain u V vs where V: "spend_spec U i = Some (u, V)" "spends_spec V ins = Some (vs, U')" "us = u # vs"
    using Cons.prems(1) by (auto simp: bind_eq_Some_conv)
  obtain c1 where c1: "restore_inputs mem base (rev (zip ins vs)) cl c = Some (cl, c1)" "coins_ok base c1" "\<not> hasModifier c1" "utxo base c1 = V"
    using Cons.IH [OF V(2) spend_spec_wf [OF V(1) Cons.prems(2)] Cons.prems(3-5)] by blast
  obtain k where k: "U (out_hash (prevout i)) = Some k" "IsAvailable k (out_n (prevout i))" "u = undo_of k (out_n (prevout i))"
    "V = U(out_hash (prevout i) := live (Some (spent k (out_n (prevout i)))))"
    using V(1) by (rule spend_spec_SomeE)
  have "coin_wf k" using Cons.prems(2) k(1) by (simp add: utxo_wf_def)
  then obtain c2 where "ApplyTxInUndo mem base u c1 (prevout i) = Some (True, c2)" "coins_ok base c2" "\<not> hasModifier c2" "utxo base c2 = U"
    using undo_restores [OF c1(2,3) c1(4) [unfolded k(4)] k(1) _ k(2) refl refl] k(3) by blast
  then show ?case using c1(1) V(3) by (simp add: restore_append)
qed simp

lemma remove_outputs_spec:
  assumes "coins_ok base c" "\<not> hasModifier c" "utxo base c (tx_hash tx) = live (Some (FromTx tx nHeight))"
  shows "\<exists>c'. remove_outputs mem base tx nHeight c = Some (True, c') \<and> coins_ok base c' \<and> \<not> hasModifier c' \<and> utxo base c' = (utxo base c)(tx_hash tx := None)"
proof -
  let ?h = "tx_hash tx" and ?K = "FromTx tx nHeight"
  obtain m c1 c2 where m: "ModifyCoins mem base c ?h = Some (m, c1)" "Modifier_get c1 m = (case view_of base c ?h of None \<Rightarrow> CCoins_empty | Some k \<Rightarrow> k)"
    "Modifier_close mem (Modifier_set c1 m CCoins_empty) m = Some c2" "coins_ok base c2" "\<not> hasModifier c2"
    "utxo base c2 = (utxo base c)(?h := live (Some (Cleanup CCoins_empty)))"
    using modify_close [OF assms(1,2), of mem ?h] by metis
  let ?g = "Modifier_get c1 m"
  have "(if IsPruned ?K then IsPruned ?g else ?g = ?K)"
    using m(2) assms(3) by (auto simp: utxo_def live_def split: option.splits if_splits)
  then have "CCoins_eq (if tx_nVersion tx < 0 then (ClearUnspendable ?g)\<lparr>c_nVersion := tx_nVersion tx\<rparr> else ClearUnspendable ?g) ?K"
    using IsPruned_ClearUnspendable [of ?g] by (cases "IsPruned ?K") (auto simp: CCoins_eq_def IsPruned_def)
  then show ?thesis using m(1,3-6) by (cases "tx_nVersion tx < 0") (simp_all add: remove_outputs_def Let_def live_Some)
qed

lemma disconnect_append:
  "disconnect_txs mem base (xs @ ys) vu h cl c = Option.bind (disconnect_txs mem base xs vu h cl c) (\<lambda>(r, c). case r of
      DISCONNECT_ERROR \<Rightarrow> Some (DISCONNECT_ERROR, c) | DISCONNECTED cl \<Rightarrow> disconnect_txs mem base ys vu h cl c)"
proof (induction xs arbitrary: cl c)
  case (Cons x xs)
  then show ?case by (cases x) (auto simp: Let_def case_prod_beta split: Option.bind_splits)
qed simp

lemma disconnect_tx:
  assumes "tx_spec U tx h = Some (us, U')" "utxo_wf U" "U (tx_hash tx) = None" "coins_ok base c" "\<not> hasModifier c" "utxo base c = U'"
    "if i = 0 then has_no_coin_inputs tx else i - 1 < length vu \<and> vu ! (i - 1) = us"
  shows "\<exists>c'. disconnect_txs mem base [(i, tx)] vu h cl c = Some (DISCONNECTED cl, c') \<and> coins_ok base c' \<and> \<not> hasModifier c' \<and> utxo base c' = U"
proof -
  obtain V where V: "spends_spec U (tx_inputs tx) = Some (us, V)" "U' = V(tx_hash tx := live (Some (FromTx tx h)))"
    using assms(1) by (auto simp: tx_spec_def)
  have Vn: "V (tx_hash tx) = None" "length us = length (tx_inputs tx)" using spends_spec_keeps [OF V(1)] assms(3) by auto
  obtain c1 where c1: "remove_outputs mem base tx h c = Some (True, c1)" "coins_ok base c1" "\<not> hasModifier c1" "utxo base c1 = V"
    using remove_outputs_spec [OF assms(4,5), where mem = mem and tx = tx and nHeight = h] V(2) Vn(1) assms(6) by (auto simp: fun_upd_idem)
  obtain c2 where c2: "restore_inputs mem base (rev (zip (tx_inputs tx) us)) cl c1 = Some (cl, c2)" "coins_ok base c2" "\<not> hasModifier c2" "utxo base c2 = U"
    using restore_spec [OF V(1) assms(2) c1(2-4), where mem = mem and cl = cl] by blast
  show ?thesis using c1(1) c2 assms(7) Vn(2) by (auto simp: tx_inputs_def Let_def split: if_splits)
qed

lemma connect_disconnect:
  assumes "connect_txs mem base i txs v h = Some (undos, v')" "coins_ok base v" "\<not> hasModifier v" "utxo_wf (utxo base v)" "0 < h" "h < 2 ^ 31"
    "list_all tx_fit txs" "distinct (map tx_hash txs)" "list_all (\<lambda>tx. live (base (tx_hash tx)) = None \<and> utxo base v (tx_hash tx) = None) txs"
    "i = 0 \<longrightarrow> txs = [] \<or> has_no_coin_inputs (hd txs)" "length pre = i - 1"
  shows "coins_ok base v' \<and> \<not> hasModifier v' \<and> (\<forall>c cl. coins_ok base c \<longrightarrow> \<not> hasModifier c \<longrightarrow> utxo base c = utxo base v' \<longrightarrow>
      (\<exists>c'. disconnect_txs mem base (rev (enumerate i txs)) (pre @ undos) h cl c = Some (DISCONNECTED cl, c') \<and> coins_ok base c' \<and> \<not> hasModifier c'
          \<and> utxo base c' = utxo base v))"
  using assms
proof (induction txs arbitrary: i v undos pre)
  case (Cons tx txs)
  obtain us v1 undos1 where v1: "UpdateCoins mem base tx v h = Some (us, v1)" "connect_txs mem base (i + 1) txs v1 h = Some (undos1, v')"
    "undos = (if i > 0 then us # undos1 else undos1)"
    using Cons.prems(1) by (auto simp: bind_eq_Some_conv split: if_splits)
  obtain ok: "tx_spec (utxo base v) tx h = Some (us, utxo base v1)" "coins_ok base v1" "\<not> hasModifier v1"
    using update_spec [OF Cons.prems(2,3), where tx = tx and nHeight = h and mem = mem] Cons.prems(9) v1(1) by (auto split: option.splits)
  let ?pre = "if i > 0 then pre @ [us] else pre"
  have pre: "?pre @ undos1 = pre @ undos" "length ?pre = i + 1 - 1" using v1(3) Cons.prems(11) by auto
  have fresh: "list_all (\<lambda>t. live (base (tx_hash t)) = None \<and> utxo base v1 (tx_hash t) = None) txs"
    using Cons.prems(8,9) tx_spec_keeps(2) [OF ok(1)] by (auto simp: list_all_iff image_iff)
  have IH: "coins_ok base v' \<and> \<not> hasModifier v' \<and> (\<forall>c cl. coins_ok base c \<longrightarrow> \<not> hasModifier c \<longrightarrow> utxo base c = utxo base v' \<longrightarrow>
      (\<exists>c'. disconnect_txs mem base (rev (enumerate (i + 1) txs)) (?pre @ undos1) h cl c = Some (DISCONNECTED cl, c') \<and> coins_ok base c' \<and> \<not> hasModifier c'
          \<and> utxo base c' = utxo base v1))"
    using tx_spec_keeps(1) [OF ok(1) Cons.prems(4) _ Cons.prems(5,6)] Cons.prems(5-8) fresh pre(2)
    by (intro Cons.IH [OF v1(2) ok(2,3)]) auto
  have at: "if i = 0 then has_no_coin_inputs tx else i - 1 < length (pre @ undos) \<and> (pre @ undos) ! (i - 1) = us"
    using Cons.prems(10,11) v1(3) by (auto simp: nth_append)
  show ?case
  proof (intro conjI allI impI)
    fix c cl assume c: "coins_ok base c" "\<not> hasModifier c" "utxo base c = utxo base v'"
    obtain c1 where c1: "disconnect_txs mem base (rev (enumerate (i + 1) txs)) (pre @ undos) h cl c = Some (DISCONNECTED cl, c1)" "coins_ok base c1"
      "\<not> hasModifier c1" "utxo base c1 = utxo base v1" using IH c unfolding pre(1) by blast
    obtain c2 where "disconnect_txs mem base [(i, tx)] (pre @ undos) h cl c1 = Some (DISCONNECTED cl, c2)" "coins_ok base c2" "\<not> hasModifier c2"
      "utxo base c2 = utxo base v"
      using disconnect_tx [OF ok(1) Cons.prems(4) _ c1(2-4) at, where mem = mem and cl = cl] Cons.prems(9) by auto
    then show "\<exists>c'. disconnect_txs mem base (rev (enumerate i (tx # txs))) (pre @ undos) h cl c = Some (DISCONNECTED cl, c') \<and> coins_ok base c' \<and> \<not> hasModifier c'
          \<and> utxo base c' = utxo base v" using c1(1) by (simp add: disconnect_append del: disconnect_txs.simps)
  qed (use IH in auto)
qed simp

end

lemma connect_txs_undos:
  "connect_txs mem base i txs v h = Some (us, v') \<Longrightarrow> length us = (if i = 0 then length txs - 1 else length txs)"
proof (induction txs arbitrary: i v us)
  case (Cons tx txs)
  then show ?case by (auto simp: bind_eq_Some_conv split: if_splits)
qed auto

lemma SetBestBlock_simps [simp]:
  "utxo base (SetBestBlock v h) = utxo base v" "coins_ok base (SetBestBlock v h) = coins_ok base v"
  "hasModifier (SetBestBlock v h) = hasModifier v" "hashBlock (SetBestBlock v h) = h"
  by (simp_all add: SetBestBlock_def utxo_def view_of_def coins_ok_def fun_eq_iff)

subsection \<open>An example\<close>

definition block_tx :: "nat \<Rightarrow> CTxIn \<Rightarrow> CTransaction" where
  "block_tx n i = \<lparr>tx_hash = [word_of_nat n], tx_nVersion = 1, vin = [i], vout = [\<lparr>nValue = 5, scriptPubKey = [0x51]\<rparr>], vtxinwit = [], nLockTime = 0\<rparr>"

definition demo_block :: "CTransaction list" where
  "demo_block = [block_tx 5 \<lparr>prevout = \<lparr>out_hash = replicate 32 0, out_n = 0xffffffff\<rparr>, scriptSig = [1, 1], nSequence = 0xffffffff\<rparr>,
     block_tx 6 \<lparr>prevout = \<lparr>out_hash = [1], out_n = 0\<rparr>, scriptSig = [], nSequence = 0xffffffff\<rparr>,
     block_tx 7 \<lparr>prevout = \<lparr>out_hash = [6], out_n = 0\<rparr>, scriptSig = [], nSequence = 0xffffffff\<rparr>]"

lemma demo_block_connects: "case connect_coins (\<lambda>_. 0) demo_base demo_block CCoinsViewCache_init 10 [9] of None \<Rightarrow> False | Some _ \<Rightarrow> True"
  by code_simp

lemma utxo_wf_demo: "utxo_wf (utxo demo_base CCoinsViewCache_init)"
  by (auto simp: utxo_wf_def utxo_def view_of_def CCoinsViewCache_init_def demo_base_def demo_coins_def live_Some coin_wf_def strip_def nulls_ok_def
      TxOut_IsNull_def split: if_splits)

subsection \<open>Properties\<close>

text \<open>C1: Disconnecting a block undoes connecting it.  If the coins part of \<open>ConnectBlock\<close> succeeds on a view with
  well-formed coins, for a block that starts with a transaction without coin inputs, whose transaction ids are
  distinct and neither in the view nor in its parent, then \<open>DisconnectBlock\<close> with the undo data it produced
  succeeds, reports a clean view, restores every coin and moves the best block to the previous one.\<close>

theorem DisconnectBlock_undoes_connect:
  assumes "coins_parent base" "coins_ok base view" "\<not> hasModifier view" "utxo_wf (utxo base view)" "0 < nHeight" "nHeight < 2 ^ 31"
    "vtx \<noteq> []" "has_no_coin_inputs (hd vtx)" "list_all tx_fit vtx" "distinct (map tx_hash vtx)"
    "list_all (\<lambda>tx. live (base (tx_hash tx)) = None \<and> utxo base view (tx_hash tx) = None) vtx" "\<not> blob_IsNull blockHash"
    "connect_coins mem base vtx view nHeight blockHash = Some (vtxundo, view')"
  shows "\<exists>view''. DisconnectBlock mem base best vtx vtxundo blockHash prevHash nHeight view' = Some (DISCONNECTED True, view'')
    \<and> coins_ok base view'' \<and> \<not> hasModifier view'' \<and> utxo base view'' = utxo base view \<and> hashBlock view'' = prevHash"
proof -
  obtain v1 where v1: "connect_txs mem base 0 vtx view nHeight = Some (vtxundo, v1)" "view' = SetBestBlock v1 blockHash"
    using assms(13) by (auto simp: connect_coins_def)
  note C = coins_parent.connect_disconnect [OF assms(1) v1(1) assms(2-6,9-11), where pre = "[]"]
  have b: "GetBestBlock best view' = (blockHash, view')" "length vtxundo + 1 = length vtx"
    using v1 assms(7,12) connect_txs_undos [OF v1(1)] by (cases vtx; simp add: GetBestBlock_def)+
  obtain v2 where "disconnect_txs mem base (rev (enumerate 0 vtx)) vtxundo nHeight True view' = Some (DISCONNECTED True, v2)"
    "coins_ok base v2" "\<not> hasModifier v2" "utxo base v2 = utxo base view"
    using C assms(7,8) v1(2) by (auto dest!: spec [of _ view'] spec [of _ True])
  then show ?thesis using b by (simp add: DisconnectBlock_def)
qed

theorem DisconnectBlock_undoes_connect_witness:
  "\<exists>vtxundo view' view''. connect_coins (\<lambda>_. 0) demo_base demo_block CCoinsViewCache_init 10 [9] = Some (vtxundo, view')
     \<and> DisconnectBlock (\<lambda>_. 0) demo_base [] demo_block vtxundo [9] [8] 10 view' = Some (DISCONNECTED True, view'')
     \<and> utxo demo_base view'' = utxo demo_base CCoinsViewCache_init"
proof -
  obtain vtxundo view' where c: "connect_coins (\<lambda>_. 0) demo_base demo_block CCoinsViewCache_init 10 [9] = Some (vtxundo, view')"
    using demo_block_connects by (auto split: option.splits)
  have "\<not> hasModifier CCoinsViewCache_init" "has_no_coin_inputs (hd demo_block)" "distinct (map tx_hash demo_block)"
    "list_all (\<lambda>tx. live (demo_base (tx_hash tx)) = None \<and> utxo demo_base CCoinsViewCache_init (tx_hash tx) = None) demo_block" "demo_block \<noteq> []" "\<not> blob_IsNull [9]"
    by code_simp+
  moreover have "list_all tx_fit demo_block" by (simp add: tx_fit_def demo_block_def block_tx_def)
  ultimately show ?thesis
    using DisconnectBlock_undoes_connect [OF demo.coins_parent_axioms coins_ok_init _ utxo_wf_demo, where nHeight = 10 and vtx = demo_block and blockHash = "[9]"
        and mem = "\<lambda>_. 0" and vtxundo = vtxundo and view' = view' and best = "[]" and prevHash = "[8]"] c by auto
qed

end
