(* ===== verification/Tx_Verify.thy ===== *)
theory Tx_Verify
  imports Chainstate Interpreter Chain
begin

text \<open>
  The checks of a transaction in \<open>src/src/main.cpp\<close>: \<open>CheckTransaction\<close>, \<open>Consensus::CheckTxInputs\<close>, \<open>IsFinalTx\<close>, the relative lock
  times of BIP 68 and the counting of signature operations.  A rejection is the ban score with the reject
  reason of the \<open>CValidationState\<close>; None is a failed assert, an exception or an access outside a vector.
  The verdicts of \<open>CheckSigmaTransaction\<close> and \<open>CheckZerocoinTransaction\<close>, which verify zero-knowledge proofs, are arguments.
\<close>

unbundle bit_operations_syntax

subsection \<open>Checks without context\<close>

type_synonym reject = "nat \<times> string"

definition MAX_BLOCK_BASE_SIZE :: nat where "MAX_BLOCK_BASE_SIZE = 2000000"
definition COINBASE_MATURITY :: int where "COINBASE_MATURITY = 100"

fun check_outs_loop :: "CTransaction \<Rightarrow> CTxOut list \<Rightarrow> CAmount \<Rightarrow> reject option" where
  "check_outs_loop tx [] nValueOut = None"
| "check_outs_loop tx (txout # txouts) nValueOut =
     (if TxOut_IsEmpty txout \<and> \<not> IsCoinBase tx \<and> \<not> IsCoinStake tx then Some (100, '''')
      else if nValue txout < 0 then Some (100, ''bad-txns-vout-negative'')
      else if nValue txout > MAX_MONEY then Some (100, ''bad-txns-vout-toolarge'')
      else let nValueOut = wrap_i64 (nValueOut + nValue txout)
           in if \<not> MoneyRange nValueOut then Some (100, ''bad-txns-txouttotal-toolarge'')
              else check_outs_loop tx txouts nValueOut)"

fun check_dups_loop :: "CTransaction \<Rightarrow> CTxIn list \<Rightarrow> COutPoint list \<Rightarrow> CScript list \<Rightarrow> CScript list \<Rightarrow> reject option" where
  "check_dups_loop tx [] vInOutPoints spendScripts spendV3Scripts = None"
| "check_dups_loop tx (txin # txins) vInOutPoints spendScripts spendV3Scripts =
     (if tx_IsZerocoinSpend tx
      then if scriptSig txin \<in> set spendScripts then Some (100, ''bad-txns-spend-inputs-duplicate'')
           else check_dups_loop tx txins vInOutPoints (scriptSig txin # spendScripts) spendV3Scripts
      else if tx_IsSigmaSpend tx
      then if scriptSig txin \<in> set spendV3Scripts then Some (100, ''bad-txns-inputs-duplicate'')
           else check_dups_loop tx txins vInOutPoints spendScripts (scriptSig txin # spendV3Scripts)
      else if prevout txin \<in> set vInOutPoints then Some (100, ''bad-txns-inputs-duplicate'')
           else check_dups_loop tx txins (prevout txin # vInOutPoints) spendScripts spendV3Scripts)"

definition check_prevouts :: "CTransaction \<Rightarrow> reject option" where
  "check_prevouts tx =
     (if IsCoinBase tx
      then if length (scriptSig (vin tx ! 0)) < 2 \<or> length (scriptSig (vin tx ! 0)) > 100 then Some (100, ''bad-cb-length'') else None
      else if list_ex (\<lambda>txin. OutPoint_IsNull (prevout txin) \<and> \<not> IsZerocoinSpend (scriptSig txin)) (vin tx)
      then Some (10, ''bad-txns-prevout-null'') else None)"

definition or_else :: "reject option \<Rightarrow> reject option \<Rightarrow> reject option" where
  "or_else a b = (case a of None \<Rightarrow> b | Some r \<Rightarrow> Some r)"

text \<open>The outer None is the failed assert of the serialisation, the inner one acceptance.\<close>

definition CheckTransaction :: "(CTransaction \<Rightarrow> reject option) \<Rightarrow> (CTransaction \<Rightarrow> reject option) \<Rightarrow> CTransaction \<Rightarrow> reject option option" where
  "CheckTransaction check_sigma check_zerocoin tx =
     (if vin tx = [] then Some (Some (10, ''bad-txns-vin-empty''))
      else if vout tx = [] then Some (Some (10, ''bad-txns-vout-empty''))
      else map_option (\<lambda>nSize.
             if nSize > MAX_BLOCK_BASE_SIZE then Some (100, ''bad-txns-oversize'')
             else or_else (check_outs_loop tx (vout tx) 0)
                  (or_else (check_dups_loop tx (vin tx) [] [] [])
                  (or_else (check_prevouts tx)
                  (or_else (if IsZerocoinV3SigmaTransaction tx then check_sigma tx else None)
                  (check_zerocoin tx))))) (tx_GetSerializeSize tx True))"

subsection \<open>Checks against the coins\<close>

fun check_ins_loop :: "(CCoins \<Rightarrow> u64) \<Rightarrow> coins_fun \<Rightarrow> CCoinsViewCache \<Rightarrow> CTxIn list \<Rightarrow> int \<Rightarrow> CAmount \<Rightarrow> ((reject + CAmount) \<times> CCoinsViewCache) option" where
  "check_ins_loop mem base inputs [] nSpendHeight nValueIn = Some (Inr nValueIn, inputs)"
| "check_ins_loop mem base inputs (txin # txins) nSpendHeight nValueIn =
     (case AccessCoins mem base inputs (out_hash (prevout txin)) of
        (None, inputs) \<Rightarrow> None
      | (Some k, inputs) \<Rightarrow>
          if fCoinBase k \<and> nSpendHeight - c_nHeight k < COINBASE_MATURITY
          then Some (Inl (0, ''bad-txns-premature-spend-of-coinbase''), inputs)
          else if unat (out_n (prevout txin)) \<ge> length (c_vout k) then None
          else let value = nValue (c_vout k ! unat (out_n (prevout txin))); nValueIn = wrap_i64 (nValueIn + value)
               in if \<not> MoneyRange value \<or> \<not> MoneyRange nValueIn then Some (Inl (100, ''bad-txns-inputvalues-outofrange''), inputs)
                  else check_ins_loop mem base inputs txins nSpendHeight nValueIn)"

definition check_fee :: "CTransaction \<Rightarrow> CAmount \<Rightarrow> reject option option" where
  "check_fee tx nValueIn =
     (if IsCoinStake tx then Some None
      else map_option (\<lambda>valueOut.
             if nValueIn < valueOut then Some (100, ''bad-txns-in-belowout'')
             else let nTxFee = wrap_i64 (nValueIn - valueOut)
                  in if nTxFee < 0 then Some (100, ''bad-txns-fee-negative'')
                     else if \<not> MoneyRange nTxFee then Some (100, ''bad-txns-fee-outofrange'') else None) (GetValueOut tx))"

definition CheckTxInputs :: "(CCoins \<Rightarrow> u64) \<Rightarrow> coins_fun \<Rightarrow> CTransaction \<Rightarrow> CCoinsViewCache \<Rightarrow> int \<Rightarrow> (reject option \<times> CCoinsViewCache) option" where
  "CheckTxInputs mem base tx inputs nSpendHeight =
     (case HaveInputs mem base inputs tx of (have, inputs) \<Rightarrow>
        if \<not> have then Some (Some (0, ''''), inputs)
        else Option.bind (check_ins_loop mem base inputs (vin tx) nSpendHeight 0) (\<lambda>(r, inputs).
          case r of Inl e \<Rightarrow> Some (Some e, inputs) | Inr nValueIn \<Rightarrow> map_option (\<lambda>e. (e, inputs)) (check_fee tx nValueIn)))"

subsection \<open>Lock times\<close>

definition LOCKTIME_THRESHOLD :: int where "LOCKTIME_THRESHOLD = 500000000"
definition LOCKTIME_VERIFY_SEQUENCE :: u32 where "LOCKTIME_VERIFY_SEQUENCE = 1"

definition IsFinalTx :: "CTransaction \<Rightarrow> int \<Rightarrow> int \<Rightarrow> bool" where
  "IsFinalTx tx nBlockHeight nBlockTime \<longleftrightarrow>
     nLockTime tx = 0
     \<or> uint (nLockTime tx) < (if uint (nLockTime tx) < LOCKTIME_THRESHOLD then nBlockHeight else nBlockTime)
     \<or> list_all (\<lambda>txin. nSequence txin = SEQUENCE_FINAL) (vin tx)"

text \<open>The loop also clears the heights of the inputs without a relative lock.\<close>

fun sequence_locks_loop :: "BlockMap \<Rightarrow> uint256 \<Rightarrow> CTxIn list \<Rightarrow> int list \<Rightarrow> int \<Rightarrow> int \<Rightarrow> ((int \<times> int) \<times> int list) option" where
  "sequence_locks_loop idx block (txin # txins) (nCoinHeight # prevHeights) nMinHeight nMinTime =
     (if nSequence txin AND SEQUENCE_LOCKTIME_DISABLE_FLAG \<noteq> 0
      then map_option (\<lambda>(l, hs). (l, 0 # hs)) (sequence_locks_loop idx block txins prevHeights nMinHeight nMinTime)
      else if nSequence txin AND SEQUENCE_LOCKTIME_TYPE_FLAG \<noteq> 0
      then Option.bind (GetAncestor idx block (max (nCoinHeight - 1) 0)) (\<lambda>a. Option.bind a (\<lambda>a. Option.bind (GetMedianTimePast idx a) (\<lambda>nCoinTime.
             map_option (\<lambda>(l, hs). (l, nCoinHeight # hs)) (sequence_locks_loop idx block txins prevHeights nMinHeight
               (max nMinTime (nCoinTime + uint (push_bit SEQUENCE_LOCKTIME_GRANULARITY (nSequence txin AND SEQUENCE_LOCKTIME_MASK)) - 1))))))
      else map_option (\<lambda>(l, hs). (l, nCoinHeight # hs)) (sequence_locks_loop idx block txins prevHeights
             (max nMinHeight (nCoinHeight + uint (nSequence txin AND SEQUENCE_LOCKTIME_MASK) - 1)) nMinTime))"
| "sequence_locks_loop idx block _ _ nMinHeight nMinTime = Some ((nMinHeight, nMinTime), [])"

definition CalculateSequenceLocks :: "BlockMap \<Rightarrow> CTransaction \<Rightarrow> u32 \<Rightarrow> int list \<Rightarrow> uint256 \<Rightarrow> ((int \<times> int) \<times> int list) option" where
  "CalculateSequenceLocks idx tx nFlags prevHeights block =
     (if length prevHeights \<noteq> length (vin tx) then None
      else if \<not> ((word_of_int (tx_nVersion tx) :: u32) \<ge> 2 \<and> nFlags AND LOCKTIME_VERIFY_SEQUENCE \<noteq> 0) then Some ((- 1, - 1), prevHeights)
      else sequence_locks_loop idx block (vin tx) prevHeights (- 1) (- 1))"

definition EvaluateSequenceLocks :: "BlockMap \<Rightarrow> uint256 \<Rightarrow> int \<times> int \<Rightarrow> bool option" where
  "EvaluateSequenceLocks idx block lockPair =
     Option.bind (idx block) (\<lambda>b. Option.bind (pprev b) (\<lambda>p. map_option (\<lambda>nBlockTime.
       \<not> (fst lockPair \<ge> CBlockIndex.nHeight b \<or> snd lockPair \<ge> nBlockTime)) (GetMedianTimePast idx p)))"

definition SequenceLocks :: "BlockMap \<Rightarrow> CTransaction \<Rightarrow> u32 \<Rightarrow> int list \<Rightarrow> uint256 \<Rightarrow> bool option" where
  "SequenceLocks idx tx nFlags prevHeights block =
     Option.bind (CalculateSequenceLocks idx tx nFlags prevHeights block) (\<lambda>(lockPair, _). EvaluateSequenceLocks idx block lockPair)"

subsection \<open>Signature operations\<close>

definition GetLegacySigOpCount :: "CTransaction \<Rightarrow> u32" where
  "GetLegacySigOpCount tx =
     sum_list (map (\<lambda>i. word_of_nat (GetSigOpCount (scriptSig i) False)) (vin tx))
     + sum_list (map (\<lambda>t. word_of_nat (GetSigOpCount (scriptPubKey t) False)) (vout tx))"

function p2sh_last_push :: "bytes \<Rightarrow> bytes \<Rightarrow> bytes option" where
  "p2sh_last_push pc data =
     (if pc = [] then Some data
      else case GetOp2 pc of None \<Rightarrow> None
           | Some (opcode, data, pc) \<Rightarrow> if opcode > OP_16 then None else p2sh_last_push pc data)"
  by pat_completeness auto
termination
  by (relation "measure (\<lambda>(pc, d). length pc)") (auto dest: GetOp2_shrinks)

declare p2sh_last_push.simps [simp del]

definition GetSigOpCount_P2SH :: "CScript \<Rightarrow> CScript \<Rightarrow> nat" where
  "GetSigOpCount_P2SH script sig =
     (if \<not> IsPayToScriptHash script then GetSigOpCount script True
      else case p2sh_last_push sig [] of None \<Rightarrow> 0 | Some subscript \<Rightarrow> GetSigOpCount subscript True)"

fun p2sh_sigops_loop :: "(CCoins \<Rightarrow> u64) \<Rightarrow> coins_fun \<Rightarrow> CCoinsViewCache \<Rightarrow> CTxIn list \<Rightarrow> u32 \<Rightarrow> (u32 \<times> CCoinsViewCache) option" where
  "p2sh_sigops_loop mem base inputs [] nSigOps = Some (nSigOps, inputs)"
| "p2sh_sigops_loop mem base inputs (txin # txins) nSigOps =
     Option.bind (GetOutputFor mem base inputs txin) (\<lambda>(prev, inputs).
       p2sh_sigops_loop mem base inputs txins
         (if IsPayToScriptHash (scriptPubKey prev) then nSigOps + word_of_nat (GetSigOpCount_P2SH (scriptPubKey prev) (scriptSig txin)) else nSigOps))"

definition GetP2SHSigOpCount :: "(CCoins \<Rightarrow> u64) \<Rightarrow> coins_fun \<Rightarrow> CCoinsViewCache \<Rightarrow> CTransaction \<Rightarrow> (u32 \<times> CCoinsViewCache) option" where
  "GetP2SHSigOpCount mem base inputs tx =
     (if has_no_coin_inputs tx then Some (0, inputs) else p2sh_sigops_loop mem base inputs (vin tx) 0)"

fun witness_sigops_loop :: "(CCoins \<Rightarrow> u64) \<Rightarrow> coins_fun \<Rightarrow> CCoinsViewCache \<Rightarrow> (CTxIn \<times> bytes list) list \<Rightarrow> u32 \<Rightarrow> int \<Rightarrow> (int \<times> CCoinsViewCache) option" where
  "witness_sigops_loop mem base inputs [] nFlags nSigOps = Some (nSigOps, inputs)"
| "witness_sigops_loop mem base inputs ((txin, wit) # txins) nFlags nSigOps =
     Option.bind (GetOutputFor mem base inputs txin) (\<lambda>(prev, inputs).
     Option.bind (CountWitnessSigOps (scriptSig txin) (scriptPubKey prev) wit nFlags) (\<lambda>n.
       witness_sigops_loop mem base inputs txins nFlags (wrap_i64 (nSigOps + int n))))"

text \<open>An input without witness entry counts as one with the empty witness.\<close>

definition GetTransactionSigOpCost :: "(CCoins \<Rightarrow> u64) \<Rightarrow> coins_fun \<Rightarrow> CCoinsViewCache \<Rightarrow> CTransaction \<Rightarrow> u32 \<Rightarrow> (int \<times> CCoinsViewCache) option" where
  "GetTransactionSigOpCost mem base inputs tx nFlags =
     (let nSigOps = uint (GetLegacySigOpCount tx * word_of_nat WITNESS_SCALE_FACTOR)
      in if has_no_coin_inputs tx then Some (nSigOps, inputs)
         else Option.bind (if flag nFlags SCRIPT_VERIFY_P2SH then GetP2SHSigOpCount mem base inputs tx else Some (0, inputs)) (\<lambda>(p2sh, inputs).
              witness_sigops_loop mem base inputs (zip (vin tx) (wit_resize (length (vin tx)) (vtxinwit tx))) nFlags
                (wrap_i64 (nSigOps + uint (p2sh * word_of_nat WITNESS_SCALE_FACTOR)))))"

subsection \<open>What the checks establish\<close>

lemma check_outs_ok:
  "check_outs_loop tx ts v = None \<Longrightarrow> t \<in> set ts \<Longrightarrow> 0 \<le> nValue t"
  by (induction tx ts v rule: check_outs_loop.induct) (auto simp: Let_def split: if_splits)

lemma check_dups_ok:
  "check_dups_loop tx ins ps ss vs = None \<Longrightarrow> \<not> tx_IsZerocoinSpend tx \<Longrightarrow> \<not> tx_IsSigmaSpend tx \<Longrightarrow>
     distinct (map prevout ins) \<and> set (map prevout ins) \<inter> set ps = {}"
  by (induction tx ins ps ss vs rule: check_dups_loop.induct) (auto split: if_splits)

lemma or_else_None [simp]: "or_else a b = None \<longleftrightarrow> a = None \<and> b = None"
  by (cases a) (simp_all add: or_else_def)

lemma vout_le_size: "tx_GetSerializeSize tx nw = Some n \<Longrightarrow> length (vout tx) \<le> n"
proof -
  assume "tx_GetSerializeSize tx nw = Some n"
  then have "length (Serialize_vector Serialize_TxOut (vout tx)) \<le> n"
    by (auto simp: tx_GetSerializeSize_def SerializeTransaction_def Let_def split: if_splits)
  moreover have "length ts \<le> length (concat (map Serialize_TxOut ts))" for ts
    by (induction ts) (auto simp: Serialize_TxOut_def ser_writedata64_def WriteLE64_def)
  ultimately show ?thesis by (simp add: Serialize_vector_def) (meson le_trans trans_le_add2)
qed

lemma CheckTransaction_ok:
  assumes "CheckTransaction cs cz tx = Some None"
  shows "tx_fit tx" "\<not> has_no_coin_inputs tx \<Longrightarrow> distinct (map prevout (vin tx))"
proof -
  obtain n where n: "tx_GetSerializeSize tx True = Some n" "n \<le> MAX_BLOCK_BASE_SIZE"
    and o1: "check_outs_loop tx (vout tx) 0 = None" and d: "check_dups_loop tx (vin tx) [] [] [] = None"
    using assms by (cases "tx_GetSerializeSize tx True") (simp_all add: CheckTransaction_def split: if_splits)
  show "tx_fit tx" using check_outs_ok [OF o1] vout_le_size [OF n(1)] n(2) by (auto simp: tx_fit_def list_all_iff MAX_BLOCK_BASE_SIZE_def)
  show "\<not> has_no_coin_inputs tx \<Longrightarrow> distinct (map prevout (vin tx))" using check_dups_ok [OF d] by (simp add: has_no_coin_inputs_def)
qed

text \<open>A final transaction stays final.\<close>

lemma IsFinalTx_mono: "IsFinalTx tx h t \<Longrightarrow> h \<le> h' \<Longrightarrow> t \<le> t' \<Longrightarrow> IsFinalTx tx h' t'"
  by (auto simp: IsFinalTx_def split: if_splits)

text \<open>The output an input refers to, in the map of the live coins.\<close>

definition out_of :: "coins_fun \<Rightarrow> CTxIn \<Rightarrow> CTxOut option" where
  "out_of U i = Option.bind (U (out_hash (prevout i))) (\<lambda>k.
     if IsAvailable k (out_n (prevout i)) then Some (c_vout k ! unat (out_n (prevout i))) else None)"

lemma IsAvailable_spent:
  assumes "n' \<noteq> n" "IsAvailable k n'"
  shows "IsAvailable (spent k n) n'" "c_vout (spent k n) ! unat n' = c_vout k ! unat n'"
proof -
  let ?w = "(c_vout k)[unat n := TxOut_null]"
  obtain m where m: "m \<le> length ?w" "strip ?w = take m ?w" "\<And>i. m \<le> i \<Longrightarrow> i < length ?w \<Longrightarrow> TxOut_IsNull (?w ! i)"
    using strip_take [of ?w] by blast
  have n: "unat n \<noteq> unat n'" using assms(1) by (simp add: word_unat_eq_iff)
  then have "unat n' < m" using assms(2) m(3) [of "unat n'"] by (force simp: IsAvailable_def)
  then show "IsAvailable (spent k n) n'" "c_vout (spent k n) ! unat n' = c_vout k ! unat n'"
    using assms(2) n m(1,2) by (simp_all add: IsAvailable_def spent_def)
qed

lemma prevout_neq: "prevout i \<noteq> prevout j \<Longrightarrow> out_hash (prevout i) = out_hash (prevout j) \<Longrightarrow> out_n (prevout i) \<noteq> out_n (prevout j)"
  by (cases "prevout i"; cases "prevout j") auto

lemma out_of_spend:
  assumes "spend_spec U i = Some (u, U')" "prevout j \<noteq> prevout i" "out_of U j = Some t"
  shows "out_of U' j = Some t"
  using assms(1)
proof (rule spend_spec_SomeE)
  fix k assume k: "U (out_hash (prevout i)) = Some k" "U' = U(out_hash (prevout i) := live (Some (spent k (out_n (prevout i)))))"
  show ?thesis
  proof (cases "out_hash (prevout j) = out_hash (prevout i)")
    case True
    then have a: "out_n (prevout j) \<noteq> out_n (prevout i)" "IsAvailable k (out_n (prevout j))" "t = c_vout k ! unat (out_n (prevout j))"
      using prevout_neq assms(2,3) k(1) by (auto simp: out_of_def split: if_splits)
    note s = IsAvailable_spent [OF a(1,2)]
    have "\<not> IsPruned (spent k (out_n (prevout i)))" using s(1) by (auto simp: IsPruned_def IsAvailable_def list_all_length)
    then show ?thesis using True k(2) s a(3) by (simp add: out_of_def live_Some)
  qed (use assms(3) k(2) in \<open>simp add: out_of_def\<close>)
qed

lemma spends_succeed:
  "distinct (map prevout ins) \<Longrightarrow> map (out_of U) ins = map Some ts \<Longrightarrow> \<exists>us U'. spends_spec U ins = Some (us, U') \<and> map u_txout us = ts"
proof (induction ins arbitrary: U ts)
  case (Cons i ins)
  obtain t ts' where ts: "ts = t # ts'" "out_of U i = Some t" "map (out_of U) ins = map Some ts'" using Cons.prems(2) by (cases ts) auto
  then obtain k where k: "U (out_hash (prevout i)) = Some k" "IsAvailable k (out_n (prevout i))" "t = c_vout k ! unat (out_n (prevout i))"
    by (auto simp: out_of_def bind_eq_Some_conv split: if_splits)
  then obtain u U1 where u: "spend_spec U i = Some (u, U1)" "u_txout u = t" by (simp add: spend_spec_def undo_of_def)
  have "map (out_of U1) ins = map Some ts'"
  proof (rule nth_equalityI)
    show l: "length (map (out_of U1) ins) = length (map Some ts')" using ts(3) map_eq_imp_length_eq by auto
    fix j assume j: "j < length (map (out_of U1) ins)"
    have "out_of U (ins ! j) = Some (ts' ! j)" using ts(3) j l by (metis length_map nth_map)
    moreover have "prevout (ins ! j) \<noteq> prevout i" using Cons.prems(1) j by (metis distinct.simps(2) imageI length_map list.set_map list.simps(9) nth_mem)
    ultimately show "map (out_of U1) ins ! j = map Some ts' ! j" using out_of_spend [OF u(1)] j l by simp
  qed
  then show ?case using Cons.IH [of U1 ts'] Cons.prems(1) u ts(1) by auto
qed simp

context coins_parent
begin

lemma access_ok:
  assumes "coins_ok base c"
  shows "fst (AccessCoins mem base c h) = view_of base c h" "coins_ok base (snd (AccessCoins mem base c h))"
    "view_of base (snd (AccessCoins mem base c h)) = view_of base c" "hasModifier (snd (AccessCoins mem base c h)) = hasModifier c"
  using fetch_ok [OF assms] by (simp_all add: AccessCoins_def)

lemma have_inputs_ok:
  assumes "have_inputs_loop mem base c ins = (True, c')" "coins_ok base c"
  shows "coins_ok base c' \<and> hasModifier c' = hasModifier c \<and> view_of base c' = view_of base c \<and> (\<exists>ts. map (out_of (utxo base c)) ins = map Some ts)"
  using assms
proof (induction ins arbitrary: c)
  case Nil
  then show ?case by (auto intro: exI [of _ "[]"])
next
  case (Cons i ins)
  let ?h = "out_hash (prevout i)"
  note a = access_ok [OF Cons.prems(2), of mem ?h]
  obtain k c1 where k: "AccessCoins mem base c ?h = (Some k, c1)" "IsAvailable k (out_n (prevout i))" "have_inputs_loop mem base c1 ins = (True, c')"
    using Cons.prems(1) by (auto split: prod.splits option.splits if_splits)
  have v: "view_of base c ?h = Some k" "coins_ok base c1" "view_of base c1 = view_of base c" "hasModifier c1 = hasModifier c" using a k(1) by simp_all
  have "\<not> IsPruned k" using k(2) by (auto simp: IsPruned_def IsAvailable_def list_all_length)
  then have "out_of (utxo base c) i = Some (c_vout k ! unat (out_n (prevout i)))" using v(1) k(2) by (simp add: out_of_def utxo_def live_Some)
  moreover have "utxo base c1 = utxo base c" using v(3) by (simp add: utxo_def fun_eq_iff)
  ultimately show ?case using Cons.IH [OF k(3) v(2)] v(3,4) by (auto simp: Cons_eq_map_conv intro: exI [of _ "_ # _"])
qed

lemma check_ins_ok:
  assumes "check_ins_loop mem base c ins h v = Some (Inr v', c')" "coins_ok base c" "map (out_of (utxo base c)) ins = map Some ts" "MoneyRange v"
  shows "coins_ok base c' \<and> hasModifier c' = hasModifier c \<and> view_of base c' = view_of base c \<and> v' = v + sum_list (map nValue ts) \<and> MoneyRange v'"
  using assms
proof (induction ins arbitrary: c v ts)
  case (Cons i ins)
  let ?h = "out_hash (prevout i)" and ?n = "unat (out_n (prevout i))"
  note a = access_ok [OF Cons.prems(2), of mem ?h]
  obtain t ts' where ts: "ts = t # ts'" "out_of (utxo base c) i = Some t" "map (out_of (utxo base c)) ins = map Some ts'" using Cons.prems(3) by (cases ts) auto
  obtain k c1 where k: "AccessCoins mem base c ?h = (Some k, c1)" "MoneyRange (nValue (c_vout k ! ?n))" "MoneyRange (wrap_i64 (v + nValue (c_vout k ! ?n)))"
    "check_ins_loop mem base c1 ins h (wrap_i64 (v + nValue (c_vout k ! ?n))) = Some (Inr v', c')"
    using Cons.prems(1) by (auto simp: Let_def split: prod.splits option.splits if_splits)
  have u: "view_of base c ?h = Some k" "coins_ok base c1" "view_of base c1 = view_of base c" "hasModifier c1 = hasModifier c" using a k(1) by simp_all
  have t: "t = c_vout k ! ?n" using ts(2) u(1) by (auto simp: out_of_def utxo_def live_Some split: if_splits)
  have "wrap_i64 (v + nValue t) = v + nValue t" using k(2) Cons.prems(4) t by (intro wrap_i64_id) (simp_all add: MoneyRange_def MAX_MONEY_def COIN_def)
  moreover have "utxo base c1 = utxo base c" using u(3) by (simp add: utxo_def fun_eq_iff)
  ultimately show ?case using Cons.IH [OF k(4) u(2) _ k(3), of ts'] ts u(3,4) t by auto
qed auto

lemma value_out_ok: "value_out_loop ts v = Some v' \<Longrightarrow> MoneyRange v \<Longrightarrow> v' = v + sum_list (map nValue ts) \<and> MoneyRange v'"
proof (induction ts v rule: value_out_loop.induct)
  case (2 t ts v)
  have r: "MoneyRange (nValue t)" "MoneyRange (wrap_i64 (v + nValue t))" "value_out_loop ts (wrap_i64 (v + nValue t)) = Some v'"
    using 2(2) by (auto simp: Let_def split: if_splits)
  have "wrap_i64 (v + nValue t) = v + nValue t" using r(1) 2(3) by (intro wrap_i64_id) (simp_all add: MoneyRange_def MAX_MONEY_def COIN_def)
  then show ?case using 2(1) [OF refl _ r(3) r(2)] r by auto
qed auto

end

subsection \<open>An example\<close>

definition spend_tx :: CTransaction where
  "spend_tx = block_tx 6 \<lparr>prevout = \<lparr>out_hash = [1], out_n = 0\<rparr>, scriptSig = [], nSequence = 0xffffffff\<rparr>"

lemma spend_tx_accepted: "CheckTransaction (\<lambda>_. None) (\<lambda>_. None) spend_tx = Some None"
proof -
  have "tx_GetSerializeSize spend_tx True = Some 30" "check_outs_loop spend_tx (vout spend_tx) 0 = None" "check_dups_loop spend_tx (vin spend_tx) [] [] [] = None"
    "check_prevouts spend_tx = None" "vin spend_tx \<noteq> []" "vout spend_tx \<noteq> []"
    by code_simp+
  then show ?thesis by (simp add: CheckTransaction_def MAX_BLOCK_BASE_SIZE_def)
qed

lemma spend_tx_inputs: "case CheckTxInputs (\<lambda>_. 0) demo_base spend_tx CCoinsViewCache_init 10 of Some (None, _) \<Rightarrow> True | _ \<Rightarrow> False"
  by code_simp

subsection \<open>Properties\<close>

text \<open>C2: A transaction with coin inputs that \<open>CheckTransaction\<close> and \<open>CheckTxInputs\<close> accept can be applied: no assert of
  \<open>UpdateCoins\<close> fails, its undo data holds one spent output per input, the value of the spent outputs is in the
  money range, and unless the transaction is a coinstake it creates no money: the sum of its outputs is at most that
  value.\<close>

theorem accepted_tx_applies:
  assumes "coins_parent base" "coins_ok base c" "\<not> hasModifier c" "live (base (tx_hash tx)) = None" "\<not> has_no_coin_inputs tx"
    "CheckTransaction check_sigma check_zerocoin tx = Some None" "CheckTxInputs mem base tx c nSpendHeight = Some (None, c1)"
  shows "\<exists>us c2. UpdateCoins mem base tx c1 height = Some (us, c2) \<and> length us = length (vin tx)
    \<and> MoneyRange (sum_list (map (nValue \<circ> u_txout) us))
    \<and> (\<not> IsCoinStake tx \<longrightarrow> sum_list (map nValue (vout tx)) \<le> sum_list (map (nValue \<circ> u_txout) us))"
proof -
  obtain c0 r c' where r: "have_inputs_loop mem base c (vin tx) = (True, c0)" "check_ins_loop mem base c0 (vin tx) nSpendHeight 0 = Some (r, c')"
    "(case r of Inl e \<Rightarrow> Some (Some e, c') | Inr v \<Rightarrow> map_option (\<lambda>e. (e, c')) (check_fee tx v)) = Some (None, c1)"
    using assms(5,7) by (auto simp: CheckTxInputs_def HaveInputs_def bind_eq_Some_conv split: prod.splits if_splits)
  obtain v where h: "have_inputs_loop mem base c (vin tx) = (True, c0)" "check_ins_loop mem base c0 (vin tx) nSpendHeight 0 = Some (Inr v, c1)"
    "check_fee tx v = Some None" using r by (cases r) auto
  obtain ts where c0: "coins_ok base c0" "\<not> hasModifier c0" "utxo base c0 = utxo base c" "map (out_of (utxo base c)) (vin tx) = map Some ts"
    using coins_parent.have_inputs_ok [OF assms(1) h(1) assms(2)] assms(3) by (auto simp: utxo_def fun_eq_iff)
  have c1: "coins_ok base c1" "\<not> hasModifier c1" "utxo base c1 = utxo base c" "v = sum_list (map nValue ts)" "MoneyRange v"
    using coins_parent.check_ins_ok [OF assms(1) h(2) c0(1), of ts] c0 by (auto simp: MoneyRange_def MAX_MONEY_def COIN_def utxo_def fun_eq_iff)
  obtain us U where us: "spends_spec (utxo base c1) (vin tx) = Some (us, U)" "map u_txout us = ts"
    using spends_succeed [OF CheckTransaction_ok(2) [OF assms(6,5)] c0(4)] c1(3) by auto
  have "tx_spec (utxo base c1) tx height \<noteq> None" "\<And>us' U'. tx_spec (utxo base c1) tx height = Some (us', U') \<Longrightarrow> us' = us"
    using us(1) assms(5) by (auto simp: tx_spec_def tx_inputs_def)
  then obtain c2 where c2: "UpdateCoins mem base tx c1 height = Some (us, c2)"
    using coins_parent.update_spec [OF assms(1) c1(1,2) assms(4), where nHeight = height and mem = mem] by (auto split: option.splits)
  have "length us = length (vin tx)" using us(2) c0(4) by (metis length_map)
  moreover have "sum_list (map (nValue \<circ> u_txout) us) = v" using us(2) c1(4) by (metis map_map)
  moreover have "sum_list (map nValue (vout tx)) \<le> v" if "\<not> IsCoinStake tx"
    using that h(3) coins_parent.value_out_ok [OF assms(1), of "vout tx" 0]
    by (auto simp: check_fee_def GetValueOut_def MoneyRange_def MAX_MONEY_def COIN_def split: if_splits)
  ultimately show ?thesis using c2 c1(5) by auto
qed

theorem accepted_tx_applies_witness:
  "\<exists>us c1 c2. CheckTxInputs (\<lambda>_. 0) demo_base spend_tx CCoinsViewCache_init 10 = Some (None, c1)
     \<and> UpdateCoins (\<lambda>_. 0) demo_base spend_tx c1 11 = Some (us, c2) \<and> length us = 1"
proof -
  obtain c1 where "CheckTxInputs (\<lambda>_. 0) demo_base spend_tx CCoinsViewCache_init 10 = Some (None, c1)"
    using spend_tx_inputs by (auto split: option.splits prod.splits)
  moreover have "\<not> hasModifier CCoinsViewCache_init" "live (demo_base (tx_hash spend_tx)) = None" "\<not> has_no_coin_inputs spend_tx" "length (vin spend_tx) = 1"
    by code_simp+
  ultimately show ?thesis
    using accepted_tx_applies [OF demo.coins_parent_axioms coins_ok_init _ _ _ spend_tx_accepted, where mem = "\<lambda>_. 0" and height = 11 and nSpendHeight = 10 and ?c1.0 = c1]
    by auto
qed

text \<open>C13: Applying an accepted transaction keeps the coins well formed: the output vectors stay trimmed and shorter than
  \<open>2 ^ 32\<close>, spent outputs stay canonical and heights stay in range, so that later undo data is exact; the cache
  invariant is kept too.\<close>

theorem UpdateCoins_keeps_coins_wf:
  assumes "coins_parent base" "coins_ok base c" "\<not> hasModifier c" "live (base (tx_hash tx)) = None" "utxo_wf (utxo base c)"
    "CheckTransaction check_sigma check_zerocoin tx = Some None" "0 < height" "height < 2 ^ 31" "UpdateCoins mem base tx c height = Some (us, c')"
  shows "coins_ok base c' \<and> \<not> hasModifier c' \<and> utxo_wf (utxo base c')"
proof -
  have "tx_spec (utxo base c) tx height = Some (us, utxo base c') \<and> coins_ok base c' \<and> \<not> hasModifier c'"
    using coins_parent.update_spec [OF assms(1-4), where nHeight = height and mem = mem] assms(9) by (auto split: option.splits)
  then show ?thesis using tx_spec_keeps(1) [OF _ assms(5) CheckTransaction_ok(1) [OF assms(6)] assms(7,8)] by blast
qed

theorem UpdateCoins_keeps_coins_wf_witness:
  "\<exists>us c'. UpdateCoins (\<lambda>_. 0) demo_base spend_tx CCoinsViewCache_init 11 = Some (us, c') \<and> utxo_wf (utxo demo_base c')"
proof -
  have "case UpdateCoins (\<lambda>_. 0) demo_base spend_tx CCoinsViewCache_init 11 of None \<Rightarrow> False | Some _ \<Rightarrow> True" by code_simp
  then obtain us c' where "UpdateCoins (\<lambda>_. 0) demo_base spend_tx CCoinsViewCache_init 11 = Some (us, c')" by (auto split: option.splits)
  moreover have "\<not> hasModifier CCoinsViewCache_init" "live (demo_base (tx_hash spend_tx)) = None" by code_simp+
  ultimately show ?thesis
    using UpdateCoins_keeps_coins_wf [OF demo.coins_parent_axioms coins_ok_init _ _ utxo_wf_demo spend_tx_accepted, where mem = "\<lambda>_. 0" and height = 11] by auto
qed

end
