(* ===== verification/Compressor.thy ===== *)
theory Compressor
  imports Chainstate
begin

text \<open>
  The compact disk formats: amounts and scripts (\<open>src/src/compressor.h\<close>, \<open>compressor.cpp\<close>), the coins of a transaction
  (\<open>CCoins::Serialize\<close> and \<open>Unserialize\<close> of \<open>src/src/coins.h\<close>) and the undo record of an input (\<open>src/src/undo.h\<close>).  Whether a
  public key is valid and its decompression are calls of secp256k1 and are arguments; \<open>decompress_inverts\<close> states what the
  format relies on.
\<close>

unbundle bit_operations_syntax

subsection \<open>Amounts\<close>

function compress_loop :: "u64 \<Rightarrow> nat \<Rightarrow> u64 \<times> nat" where
  "compress_loop n e = (if n mod 10 = 0 \<and> e < 9 then compress_loop (n div 10) (e + 1) else (n, e))"
  by pat_completeness auto
termination
  by (relation "measure (\<lambda>(n, e). 9 - e)") auto

declare compress_loop.simps [simp del]

definition CompressAmount :: "u64 \<Rightarrow> u64 option" where
  "CompressAmount n =
     (if n = 0 then Some 0
      else case compress_loop n 0 of (n, e) \<Rightarrow>
        if e < 9
        then let d = n mod 10 in if 1 \<le> d \<and> d \<le> 9 then Some (1 + (n div 10 * 9 + d - 1) * 10 + word_of_nat e) else None
        else Some (1 + (n - 1) * 10 + 9))"

fun times10 :: "nat \<Rightarrow> u64 \<Rightarrow> u64" where
  "times10 0 n = n"
| "times10 (Suc e) n = times10 e (n * 10)"

definition DecompressAmount :: "u64 \<Rightarrow> u64" where
  "DecompressAmount x =
     (if x = 0 then 0
      else let x = x - 1; e = unat (x mod 10); x = x div 10;
               n = (if e < 9 then x div 9 * 10 + (x mod 9 + 1) else x + 1)
           in times10 e n)"

subsection \<open>Scripts\<close>

definition nSpecialScripts :: nat where "nSpecialScripts = 6"

definition IsToKeyID :: "CScript \<Rightarrow> bytes option" where
  "IsToKeyID script =
     (if length script = 25 \<and> op_at script 0 = OP_DUP \<and> op_at script 1 = OP_HASH160 \<and> op_at script 2 = 20
         \<and> op_at script 23 = OP_EQUALVERIFY \<and> op_at script 24 = OP_CHECKSIG
      then Some (take 20 (drop 3 script)) else None)"

definition IsToScriptID :: "CScript \<Rightarrow> bytes option" where
  "IsToScriptID script =
     (if length script = 23 \<and> op_at script 0 = OP_HASH160 \<and> op_at script 1 = 20 \<and> op_at script 22 = OP_EQUAL
      then Some (take 20 (drop 2 script)) else None)"

definition IsToPubKey :: "(bytes \<Rightarrow> bool) \<Rightarrow> CScript \<Rightarrow> bytes option" where
  "IsToPubKey fully_valid script =
     (if length script = 35 \<and> op_at script 0 = 33 \<and> op_at script 34 = OP_CHECKSIG \<and> (script ! 1 = 0x02 \<or> script ! 1 = 0x03)
      then Some (take 33 (drop 1 script))
      else if length script = 67 \<and> op_at script 0 = 65 \<and> op_at script 66 = OP_CHECKSIG \<and> script ! 1 = 0x04
      then if fully_valid (take 65 (drop 1 script)) then Some (take 65 (drop 1 script)) else None
      else None)"

definition Compress :: "(bytes \<Rightarrow> bool) \<Rightarrow> CScript \<Rightarrow> bytes option" where
  "Compress fully_valid script =
     (case IsToKeyID script of
        Some keyID \<Rightarrow> Some (0x00 # keyID)
      | None \<Rightarrow>
         (case IsToScriptID script of
            Some scriptID \<Rightarrow> Some (0x01 # scriptID)
          | None \<Rightarrow>
             (case IsToPubKey fully_valid script of
                Some pubkey \<Rightarrow>
                  if pubkey ! 0 = 0x02 \<or> pubkey ! 0 = 0x03 then Some (pubkey ! 0 # take 32 (drop 1 pubkey))
                  else if pubkey ! 0 = 0x04 then Some ((0x04 OR (pubkey ! 64 AND 0x01)) # take 32 (drop 1 pubkey)) else None
              | None \<Rightarrow> None)))"

definition GetSpecialSize :: "nat \<Rightarrow> nat" where
  "GetSpecialSize nSize = (if nSize = 0 \<or> nSize = 1 then 20 else if nSize = 2 \<or> nSize = 3 \<or> nSize = 4 \<or> nSize = 5 then 32 else 0)"

text \<open>The script after the call; it is unchanged where the code returns false, and None is the failed assert.\<close>

definition Decompress :: "(bytes \<Rightarrow> bytes option) \<Rightarrow> nat \<Rightarrow> bytes \<Rightarrow> CScript \<Rightarrow> CScript option" where
  "Decompress decompress nSize inp script =
     (if nSize = 0 then Some ([word_of_nat OP_DUP, word_of_nat OP_HASH160, 20] @ take 20 inp @ [word_of_nat OP_EQUALVERIFY, word_of_nat OP_CHECKSIG])
      else if nSize = 1 then Some ([word_of_nat OP_HASH160, 20] @ take 20 inp @ [word_of_nat OP_EQUAL])
      else if nSize = 2 \<or> nSize = 3 then Some ([33, word_of_nat nSize] @ take 32 inp @ [word_of_nat OP_CHECKSIG])
      else if nSize = 4 \<or> nSize = 5
      then (case decompress (word_of_nat (nSize - 2) # take 32 inp) of
              None \<Rightarrow> Some script
            | Some pubkey \<Rightarrow> if length pubkey = 65 then Some ([65] @ pubkey @ [word_of_nat OP_CHECKSIG]) else None)
      else Some script)"

definition Serialize_script :: "(bytes \<Rightarrow> bool) \<Rightarrow> CScript \<Rightarrow> bytes option" where
  "Serialize_script fully_valid script =
     (case Compress fully_valid script of
        Some compr \<Rightarrow> Some compr
      | None \<Rightarrow> map_option (\<lambda>out. out @ script) (WriteVarInt (word_of_nat (length script + nSpecialScripts) :: u32)))"

definition Unserialize_script :: "(bytes \<Rightarrow> bytes option) \<Rightarrow> CScript \<Rightarrow> bytes \<Rightarrow> CScript reading" where
  "Unserialize_script decompress script s =
     bind_read (ReadVarInt s :: u32 reading) (\<lambda>nSize s.
       if unat nSize < nSpecialScripts
       then bind_read (read_bytes (GetSpecialSize (unat nSize)) s) (\<lambda>vch s.
              case Decompress decompress (unat nSize) vch script of None \<Rightarrow> Inl ASSERTION_FAILED | Some script \<Rightarrow> Inr (script, s))
       else let nSize = unat nSize - nSpecialScripts
            in if nSize > MAX_SCRIPT_SIZE then bind_read (read_bytes nSize s) (\<lambda>_ s. Inr (script @ [word_of_nat OP_RETURN], s))
               else read_bytes nSize s)"

subsection \<open>Outputs, coins and undo records\<close>

definition Serialize_txout_compressed :: "(bytes \<Rightarrow> bool) \<Rightarrow> CTxOut \<Rightarrow> bytes option" where
  "Serialize_txout_compressed fully_valid t =
     Option.bind (CompressAmount (word_of_int (nValue t))) (\<lambda>nVal. Option.bind (WriteVarInt nVal) (\<lambda>out.
       map_option (\<lambda>script. out @ script) (Serialize_script fully_valid (scriptPubKey t))))"

definition Unserialize_txout_compressed :: "(bytes \<Rightarrow> bytes option) \<Rightarrow> bytes \<Rightarrow> CTxOut reading" where
  "Unserialize_txout_compressed decompress s =
     bind_read (ReadVarInt s :: u64 reading) (\<lambda>nVal s.
     bind_read (Unserialize_script decompress (scriptPubKey TxOut_null) s) (\<lambda>script s.
       Inr (\<lparr>nValue = sint (DecompressAmount nVal), scriptPubKey = script\<rparr>, s)))"

text \<open>\<open>VARINT\<close> of an \<open>int\<close>: a negative number takes the first exit of the loop.\<close>

definition WriteVarInt_int :: "int \<Rightarrow> bytes option" where
  "WriteVarInt_int n = (if n < 0 then Some [word_of_int n AND 0x7F] else WriteVarInt (word_of_int n :: u32))"

definition ReadVarInt_int :: "bytes \<Rightarrow> int reading" where
  "ReadVarInt_int s = bind_read (ReadVarInt s :: u32 reading) (\<lambda>n s. Inr (sint n, s))"

definition avail_byte :: "CCoins \<Rightarrow> nat \<Rightarrow> u8" where
  "avail_byte c b = horner_sum of_bool 2
     (map (\<lambda>i. 2 + b * 8 + i < length (c_vout c) \<and> \<not> TxOut_IsNull (c_vout c ! (2 + b * 8 + i))) [0..<8])"

fun concat_options :: "bytes option list \<Rightarrow> bytes option" where
  "concat_options [] = Some []"
| "concat_options (x # xs) = Option.bind x (\<lambda>a. map_option (\<lambda>b. a @ b) (concat_options xs))"

definition avail_at :: "CCoins \<Rightarrow> nat \<Rightarrow> bool" where
  "avail_at c i \<longleftrightarrow> i < length (c_vout c) \<and> \<not> TxOut_IsNull (c_vout c ! i)"

definition coins_code :: "CCoins \<Rightarrow> u32" where
  "coins_code c =
     8 * (word_of_nat (snd (CalcMaskSize c)) - (if avail_at c 0 \<or> avail_at c 1 then 0 else 1))
     + (if fCoinBase c then 1 else 0) + (if avail_at c 0 then 2 else 0) + (if avail_at c 1 then 4 else 0)"

definition Serialize_coins :: "(bytes \<Rightarrow> bool) \<Rightarrow> CCoins \<Rightarrow> bytes option" where
  "Serialize_coins fully_valid c =
     (if \<not> (avail_at c 0 \<or> avail_at c 1 \<or> snd (CalcMaskSize c) \<noteq> 0) then None
      else concat_options
        [WriteVarInt_int (c_nVersion c), WriteVarInt (coins_code c), Some (map (avail_byte c) [0..<fst (CalcMaskSize c)]),
         concat_options (map (Serialize_txout_compressed fully_valid) (filter (\<lambda>t. \<not> TxOut_IsNull t) (c_vout c))),
         WriteVarInt_int (c_nHeight c)])"

fun read_mask :: "nat \<Rightarrow> bool list \<Rightarrow> bytes \<Rightarrow> bool list reading" where
  "read_mask 0 vAvail s = Inr (vAvail, s)"
| "read_mask (Suc n) vAvail [] = Inl END_OF_DATA"
| "read_mask (Suc n) vAvail (chAvail # s) =
     read_mask (if chAvail \<noteq> 0 then n else Suc n) (vAvail @ map (\<lambda>p. chAvail AND push_bit p 1 \<noteq> 0) [0..<8]) s"

fun read_outs :: "(bytes \<Rightarrow> bytes option) \<Rightarrow> bool list \<Rightarrow> bytes \<Rightarrow> CTxOut list reading" where
  "read_outs decompress [] s = Inr ([], s)"
| "read_outs decompress (a # as) s =
     bind_read (if a then Unserialize_txout_compressed decompress s else Inr (TxOut_null, s)) (\<lambda>t s.
     bind_read (read_outs decompress as s) (\<lambda>ts s. Inr (t # ts, s)))"

definition Unserialize_coins :: "(bytes \<Rightarrow> bytes option) \<Rightarrow> bytes \<Rightarrow> CCoins reading" where
  "Unserialize_coins decompress s =
     bind_read (ReadVarInt_int s) (\<lambda>version s.
     bind_read (ReadVarInt s :: u32 reading) (\<lambda>nCode s.
     bind_read (read_mask (unat (nCode div 8 + (if nCode AND 6 \<noteq> 0 then 0 else 1))) [nCode AND 2 \<noteq> 0, nCode AND 4 \<noteq> 0] s) (\<lambda>vAvail s.
     bind_read (read_outs decompress vAvail s) (\<lambda>outs s.
     bind_read (ReadVarInt_int s) (\<lambda>height s.
       Inr (Cleanup \<lparr>fCoinBase = nCode AND 1 \<noteq> 0, c_vout = outs, c_nHeight = height, c_nVersion = version\<rparr>, s))))))"

definition Serialize_undo :: "(bytes \<Rightarrow> bool) \<Rightarrow> CTxInUndo \<Rightarrow> bytes option" where
  "Serialize_undo fully_valid u =
     concat_options
       [WriteVarInt (u_nHeight u * 2 + (if u_fCoinBase u then 1 else 0)),
        (if u_nHeight u > 0 then WriteVarInt_int (u_nVersion u) else Some []),
        Serialize_txout_compressed fully_valid (u_txout u)]"

definition Unserialize_undo :: "(bytes \<Rightarrow> bytes option) \<Rightarrow> bytes \<Rightarrow> CTxInUndo reading" where
  "Unserialize_undo decompress s =
     bind_read (ReadVarInt s :: u32 reading) (\<lambda>nCode s.
     bind_read (if nCode div 2 > 0 then ReadVarInt_int s else Inr (0, s)) (\<lambda>version s.
     bind_read (Unserialize_txout_compressed decompress s) (\<lambda>t s.
       Inr (\<lparr>u_txout = t, u_fCoinBase = nCode AND 1 \<noteq> 0, u_nHeight = nCode div 2, u_nVersion = version\<rparr>, s))))"

subsection \<open>Reading amounts back\<close>

lemma unat_numeral_10: "unat (10 :: u64) = 10"
  by simp

lemma unat_plus_u64: "unat a + unat b < 2 ^ 64 \<Longrightarrow> unat (a + b :: u64) = unat a + unat b"
  using unat_add_lem [of a b] by simp

lemma unat_times_u64: "unat a * unat b < 2 ^ 64 \<Longrightarrow> unat (a * b :: u64) = unat a * unat b"
  using unat_mult_lem [of a b] by simp

lemma compress_loop_spec:
  "compress_loop n e = (m, e') \<Longrightarrow> n \<noteq> 0 \<Longrightarrow> e \<le> 9 \<Longrightarrow>
     e \<le> e' \<and> e' \<le> 9 \<and> m \<noteq> 0 \<and> unat n = unat m * 10 ^ (e' - e) \<and> (e' < 9 \<longrightarrow> unat m mod 10 \<noteq> 0)"
proof (induction n e rule: compress_loop.induct)
  case (1 n e)
  show ?case
  proof (cases "n mod 10 = 0 \<and> e < 9")
    case True
    have z: "unat n mod 10 = 0" using True by (metis unat_0 unat_mod_distrib unat_numeral_10)
    have d: "unat (n div 10) = unat n div 10" by (simp add: unat_div_distrib unat_numeral_10)
    have "n div 10 \<noteq> 0" using z d 1(3) by (metis dvd_div_eq_0_iff mod_0_imp_dvd unat_0 unat_eq_zero)
    then have "e + 1 \<le> e' \<and> e' \<le> 9 \<and> m \<noteq> 0 \<and> unat (n div 10) = unat m * 10 ^ (e' - (e + 1)) \<and> (e' < 9 \<longrightarrow> unat m mod 10 \<noteq> 0)"
      using 1(1) [OF True] 1(2) True by (simp add: compress_loop.simps [of n e])
    moreover have "10 ^ (e' - e) = 10 * (10 :: nat) ^ (e' - (e + 1))" if "e + 1 \<le> e'" using that by (metis Suc_diff_Suc Suc_eq_plus1 Suc_le_eq power_Suc)
    ultimately show ?thesis using z d by auto
  next
    case False
    then have "m = n" "e' = e" using 1(2) by (auto simp: compress_loop.simps [of n e] split: if_splits)
    moreover have "unat n mod 10 \<noteq> 0" if "n mod 10 \<noteq> 0" using that by (metis unat_eq_zero unat_mod_distrib unat_numeral_10)
    ultimately show ?thesis using 1(3,4) False by auto
  qed
qed

lemma times10_spec: "unat n * 10 ^ e < 2 ^ 64 \<Longrightarrow> unat (times10 e n) = unat n * 10 ^ e"
proof (induction e arbitrary: n)
  case (Suc e)
  have "unat n * 10 \<le> unat n * 10 * 10 ^ e" by simp
  moreover have p: "unat n * 10 * 10 ^ e < 2 ^ 64" using Suc.prems by (simp only: power_Suc mult.assoc)
  ultimately have "unat n * 10 < 2 ^ 64" by (rule le_less_trans)
  then have "unat (n * 10) = unat n * 10" using unat_times_u64 [of n 10] by (simp add: unat_numeral_10)
  then show ?case using Suc.IH [of "n * 10"] p by (simp add: mult.assoc)
qed simp

lemma decompress_digits:
  assumes "unat x = 1 + (q * 9 + (d - 1)) * 10 + e" "e < 9" "1 \<le> d" "d \<le> 9" "(q * 10 + d) * 10 ^ e < 2 ^ 64"
  shows "unat (DecompressAmount x) = (q * 10 + d) * 10 ^ e"
proof -
  obtain d' where d': "d = Suc d'" using assms(3) by (cases d) auto
  define k where "k = q * 9 + (d - 1)"
  have "x \<noteq> 0" using assms(1) by auto
  then have x1: "unat (x - 1) = (q * 9 + (d - 1)) * 10 + e" "x \<noteq> 0" using assms(1) by (simp_all add: unat_minus_one)
  have e: "unat ((x - 1) mod 10) = e" "unat ((x - 1) div 10) = q * 9 + (d - 1)"
    using assms(2) x1(1) [folded k_def] unfolding k_def [symmetric] by (simp_all add: unat_mod_distrib unat_div_distrib)
  have q: "unat ((x - 1) div 10 div 9) = q" "unat ((x - 1) div 10 mod 9) = d - 1"
    using e(2) assms(4) unfolding d' by (simp_all add: unat_mod_distrib [of _ 9] unat_div_distrib [of _ 9])
  have "q * 10 + d \<le> (q * 10 + d) * 10 ^ e" by simp
  then have b: "q * 10 + d < 2 ^ 64" using assms(5) by (rule le_less_trans)
  have "unat ((x - 1) div 10 div 9 * 10) = q * 10" using b q(1) unat_times_u64 [of "(x - 1) div 10 div 9" 10] by simp
  moreover have "unat ((x - 1) div 10 mod 9 + 1) = d" using b q(2) assms(3) unat_plus_u64 [of "(x - 1) div 10 mod 9" 1] by simp
  ultimately have "unat ((x - 1) div 10 div 9 * 10 + ((x - 1) div 10 mod 9 + 1)) = q * 10 + d"
    using b unat_plus_u64 [of "(x - 1) div 10 div 9 * 10" "(x - 1) div 10 mod 9 + 1"] by simp
  then show ?thesis using x1(2) e(1) assms(2,5) times10_spec by (simp add: DecompressAmount_def Let_def)
qed

lemma decompress_nine:
  assumes "unat x = 1 + (m - 1) * 10 + 9" "1 \<le> m" "m * 10 ^ 9 < 2 ^ 64"
  shows "unat (DecompressAmount x) = m * 10 ^ 9"
proof -
  have "x \<noteq> 0" using assms(1) by auto
  then have x1: "unat (x - 1) = (m - 1) * 10 + 9" "x \<noteq> 0" using assms(1) by (simp_all add: unat_minus_one)
  have e: "unat ((x - 1) mod 10) = 9" "unat ((x - 1) div 10) = m - 1" using x1(1) by (simp_all add: unat_mod_distrib unat_div_distrib)
  have "unat ((x - 1) div 10 + 1) = m" using e(2) assms(2,3) unat_plus_u64 [of "(x - 1) div 10" 1] by simp
  then show ?thesis using x1(2) e(1) assms(3) times10_spec [of "(x - 1) div 10 + 1" 9] by (simp add: DecompressAmount_def Let_def)
qed

lemma amount_written:
  assumes "unat n \<le> 2 ^ 60"
  shows "\<exists>x. CompressAmount n = Some x \<and> DecompressAmount x = n"
proof (cases "n = 0")
  case True
  then show ?thesis by (simp add: CompressAmount_def DecompressAmount_def)
next
  case False
  obtain m e where m: "compress_loop n 0 = (m, e)" by fastforce
  then have s: "e \<le> 9" "m \<noteq> 0" "unat n = unat m * 10 ^ e" "e < 9 \<Longrightarrow> unat m mod 10 \<noteq> 0"
    using compress_loop_spec [OF m False] by auto
  have "unat m \<le> unat m * 10 ^ e" by simp
  then have mb: "unat m \<le> 2 ^ 60" using assms s(3) by linarith
  have m1: "1 \<le> unat m" using s(2) by (simp add: unat_gt_0 Suc_leI)
  show ?thesis
  proof (cases "e < 9")
    case True
    let ?d = "unat m mod 10" and ?q = "unat m div 10"
    have d: "unat (m mod 10) = ?d" "unat (m div 10) = ?q" by (simp_all add: unat_mod_distrib unat_div_distrib)
    have db: "1 \<le> ?d" "?d \<le> 9" using s(4) [OF True] by auto
    then have g: "1 \<le> m mod 10" "m mod 10 \<le> 9" using d(1) by (simp_all add: word_le_nat_alt)
    let ?x = "1 + (m div 10 * 9 + m mod 10 - 1) * 10 + word_of_nat e :: u64"
    have a: "unat (m div 10 * 9) = ?q * 9" using d(2) mb unat_times_u64 [of "m div 10" 9] by simp
    have "unat (m div 10 * 9 + m mod 10) = ?q * 9 + ?d" using a d(1) mb unat_plus_u64 [of "m div 10 * 9" "m mod 10"] by simp
    then have b: "unat (m div 10 * 9 + m mod 10 - 1) = ?q * 9 + (?d - 1)" using db(1) by (subst unat_minus_one) auto
    have c: "unat ((m div 10 * 9 + m mod 10 - 1) * 10) = (?q * 9 + (?d - 1)) * 10" using b mb unat_times_u64 [of "m div 10 * 9 + m mod 10 - 1" 10] by simp
    have c1: "unat (1 + (m div 10 * 9 + m mod 10 - 1) * 10) = 1 + (?q * 9 + (?d - 1)) * 10" using c mb unat_plus_u64 [of 1 "(m div 10 * 9 + m mod 10 - 1) * 10"] by simp
    have e: "unat (word_of_nat e :: u64) = e" using True by (simp add: unat_of_nat take_bit_nat_eq_self)
    have "unat ?x = 1 + (?q * 9 + (?d - 1)) * 10 + e"
      using c1 e mb True unat_plus_u64 [of "1 + (m div 10 * 9 + m mod 10 - 1) * 10" "word_of_nat e"] by simp
    moreover have "(?q * 10 + ?d) * 10 ^ e = unat n" using s(3) by simp
    ultimately have "unat (DecompressAmount ?x) = unat n" using decompress_digits [OF _ True db, where x = ?x and q = ?q] assms by simp
    then have "DecompressAmount ?x = n" by (simp only: word_unat_eq_iff)
    then show ?thesis using False m True g by (simp add: CompressAmount_def Let_def)
  next
    case False
    then have e9: "e = 9" using s(1) by simp
    let ?x = "1 + (m - 1) * 10 + 9 :: u64"
    have "unat (m - 1) = unat m - 1" using s(2) by (simp add: unat_minus_one)
    then have "unat ((m - 1) * 10) = (unat m - 1) * 10" using mb unat_times_u64 [of "m - 1" 10] by simp
    then have "unat (1 + (m - 1) * 10) = 1 + (unat m - 1) * 10" using mb unat_plus_u64 [of 1 "(m - 1) * 10"] by simp
    then have "unat ?x = 1 + (unat m - 1) * 10 + 9" using mb unat_plus_u64 [of "1 + (m - 1) * 10" 9] by simp
    then have "unat (DecompressAmount ?x) = unat n" using decompress_nine [OF _ m1, of ?x] s(3) e9 assms by simp
    then have "DecompressAmount ?x = n" by (simp only: word_unat_eq_iff)
    then show ?thesis using \<open>n \<noteq> 0\<close> m e9 by (simp add: CompressAmount_def)
  qed
qed

subsection \<open>Reading scripts and outputs back\<close>

text \<open>What the format relies on: decompressing the compressed form of a valid uncompressed key returns the key.\<close>

definition decompress_inverts :: "(bytes \<Rightarrow> bool) \<Rightarrow> (bytes \<Rightarrow> bytes option) \<Rightarrow> bool" where
  "decompress_inverts fully_valid decompress \<longleftrightarrow>
     (\<forall>p. fully_valid p \<longrightarrow> length p = 65 \<longrightarrow> p ! 0 = 0x04 \<longrightarrow> decompress ((if bit (p ! 64) 0 then 0x03 else 0x02) # take 32 (drop 1 p)) = Some p)"

lemma ReadVarInt_byte: "b AND 0x80 = 0 \<Longrightarrow> ReadVarInt (b # r) = Inr (ucast (b AND 0x7F), r)"
  by (simp add: ReadVarInt_def)

lemma ReadVarInt_special: "ReadVarInt (0 # r) = Inr (0 :: u32, r)" "ReadVarInt (1 # r) = Inr (1 :: u32, r)" "ReadVarInt (2 # r) = Inr (2 :: u32, r)"
  "ReadVarInt (3 # r) = Inr (3 :: u32, r)" "ReadVarInt (4 # r) = Inr (4 :: u32, r)" "ReadVarInt (5 # r) = Inr (5 :: u32, r)"
  by (simp_all add: ReadVarInt_byte)

lemma op_at_eq: "op_at s i = n \<Longrightarrow> s ! i = word_of_nat n"
  by (auto simp: op_at_def)

lemma split_script:
  "length s = 25 \<Longrightarrow> s = [s ! 0, s ! 1, s ! 2] @ take 20 (drop 3 s) @ [s ! 23, s ! 24]"
  "length s = 23 \<Longrightarrow> s = [s ! 0, s ! 1] @ take 20 (drop 2 s) @ [s ! 22]"
  "length s = 35 \<Longrightarrow> s = [s ! 0, s ! 1] @ take 32 (drop 2 s) @ [s ! 34]"
  "length s = 67 \<Longrightarrow> s = [s ! 0] @ take 65 (drop 1 s) @ [s ! 66]"
proof -
  have c: "i < length s \<Longrightarrow> drop i s = s ! i # drop (Suc i) s" for i by (simp add: Cons_nth_drop_Suc)
  have t: "drop i s = take n (drop i s) @ drop (i + n) s" for i n by (metis append_take_drop_id drop_drop add.commute)
  show "length s = 25 \<Longrightarrow> s = [s ! 0, s ! 1, s ! 2] @ take 20 (drop 3 s) @ [s ! 23, s ! 24]"
    using c [of 0] c [of 1] c [of 2] c [of 23] c [of 24] t [of 3 20] by (simp add: numeral_2_eq_2 numeral_3_eq_3)
  show "length s = 23 \<Longrightarrow> s = [s ! 0, s ! 1] @ take 20 (drop 2 s) @ [s ! 22]" using c [of 0] c [of 1] c [of 22] t [of 2 20] by (simp add: numeral_2_eq_2)
  show "length s = 35 \<Longrightarrow> s = [s ! 0, s ! 1] @ take 32 (drop 2 s) @ [s ! 34]" using c [of 0] c [of 1] c [of 34] t [of 2 32] by (simp add: numeral_2_eq_2)
  show "length s = 67 \<Longrightarrow> s = [s ! 0] @ take 65 (drop 1 s) @ [s ! 66]" using c [of 0] c [of 66] t [of 1 65] by simp
qed

lemma read_bytes_prefix: "length p = n \<Longrightarrow> read_bytes n (p @ r) = Inr (p, r)"
  by (simp add: read_bytes_iff)

lemma pubkey_written:
  assumes "decompress_inverts fully_valid decompress" "IsToPubKey fully_valid s = Some p" "IsToKeyID s = None" "IsToScriptID s = None"
  shows "\<exists>out. Serialize_script fully_valid s = Some out \<and> Unserialize_script decompress s0 (out @ r) = Inr (s, r)"
proof (cases "length s = 35")
  case True
  then have h: "p = take 33 (drop 1 s)" "s ! 0 = 33" "s ! 34 = word_of_nat OP_CHECKSIG" "s ! 1 = 2 \<or> s ! 1 = 3"
    using assms(2) by (auto simp: IsToPubKey_def dest: op_at_eq split: if_splits)
  have p: "p ! 0 = s ! 1" "take 32 (drop 1 p) = take 32 (drop 2 s)" using h(1) True by (simp_all add: drop_take numeral_2_eq_2)
  have s: "s = [s ! 0, s ! 1] @ take 32 (drop 2 s) @ [s ! 34]" by (rule split_script(3) [OF True])
  have "Serialize_script fully_valid s = Some (s ! 1 # take 32 (drop 2 s))" using assms(2-4) p h(4) by (auto simp: Serialize_script_def Compress_def)
  moreover have "Unserialize_script decompress s0 ((s ! 1 # take 32 (drop 2 s)) @ r) = Inr ([33, s ! 1] @ take 32 (drop 2 s) @ [word_of_nat OP_CHECKSIG], r)"
    using h(4) True by (auto simp: Unserialize_script_def ReadVarInt_special nSpecialScripts_def GetSpecialSize_def read_bytes_prefix Decompress_def)
  ultimately show ?thesis using s h(2,3) by auto
next
  case False
  then have h: "length s = 67" "p = take 65 (drop 1 s)" "fully_valid p" "s ! 0 = 65" "s ! 66 = word_of_nat OP_CHECKSIG" "s ! 1 = 4"
    using assms(2) by (auto simp: IsToPubKey_def dest: op_at_eq split: if_splits)
  let ?b = "if bit (p ! 64) 0 then 5 else 4 :: u8"
  have p: "length p = 65" "p ! 0 = 4" using h by simp_all
  have s: "s = [65] @ p @ [word_of_nat OP_CHECKSIG]" using split_script(4) [OF h(1)] h(2,4,5) by simp
  have "0x04 OR (p ! 64 AND 0x01) = ?b" by (simp add: and_one_eq odd_iff_mod_2_eq_one bit_0)
  then have "Serialize_script fully_valid s = Some (?b # take 32 (drop 1 p))" using assms(2-4) p(2) by (simp add: Serialize_script_def Compress_def)
  moreover have "decompress ((if bit (p ! 64) 0 then 3 else 2) # take 32 (drop 1 p)) = Some p" using assms(1) h(3) p by (simp add: decompress_inverts_def)
  then have "Unserialize_script decompress s0 ((?b # take 32 (drop 1 p)) @ r) = Inr (s, r)"
    using p(1) s by (auto simp: Unserialize_script_def ReadVarInt_special nSpecialScripts_def GetSpecialSize_def read_bytes_prefix Decompress_def)
  ultimately show ?thesis by blast
qed

lemma script_written:
  assumes "decompress_inverts fully_valid decompress" "length s \<le> MAX_SCRIPT_SIZE"
  shows "\<exists>out. Serialize_script fully_valid s = Some out \<and> Unserialize_script decompress s0 (out @ r) = Inr (s, r)"
proof -
  consider (key) h where "IsToKeyID s = Some h" | (script) h where "IsToKeyID s = None" "IsToScriptID s = Some h"
    | (pub) p where "IsToKeyID s = None" "IsToScriptID s = None" "IsToPubKey fully_valid s = Some p"
    | (raw) "IsToKeyID s = None" "IsToScriptID s = None" "IsToPubKey fully_valid s = None"
    by (cases "IsToKeyID s"; cases "IsToScriptID s"; cases "IsToPubKey fully_valid s") auto
  then show ?thesis
  proof cases
    case key
    then have k: "length s = 25" "h = take 20 (drop 3 s)" "s ! 0 = word_of_nat OP_DUP" "s ! 1 = word_of_nat OP_HASH160" "s ! 2 = 20"
      "s ! 23 = word_of_nat OP_EQUALVERIFY" "s ! 24 = word_of_nat OP_CHECKSIG" by (auto simp: IsToKeyID_def dest: op_at_eq split: if_splits)
    have "Serialize_script fully_valid s = Some (0 # h)" using key by (simp add: Serialize_script_def Compress_def)
    moreover have "Unserialize_script decompress s0 ((0 # h) @ r) = Inr ([s ! 0, s ! 1, s ! 2] @ take 20 (drop 3 s) @ [s ! 23, s ! 24], r)"
      using k by (simp add: Unserialize_script_def ReadVarInt_special nSpecialScripts_def GetSpecialSize_def read_bytes_prefix Decompress_def)
    ultimately show ?thesis using split_script(1) [OF k(1)] by auto
  next
    case script
    then have k: "length s = 23" "h = take 20 (drop 2 s)" "s ! 0 = word_of_nat OP_HASH160" "s ! 1 = 20" "s ! 22 = word_of_nat OP_EQUAL"
      by (auto simp: IsToScriptID_def dest: op_at_eq split: if_splits)
    have "Serialize_script fully_valid s = Some (1 # h)" using script by (simp add: Serialize_script_def Compress_def)
    moreover have "Unserialize_script decompress s0 ((1 # h) @ r) = Inr ([s ! 0, s ! 1] @ take 20 (drop 2 s) @ [s ! 22], r)"
      using k by (simp add: Unserialize_script_def ReadVarInt_special nSpecialScripts_def GetSpecialSize_def read_bytes_prefix Decompress_def)
    ultimately show ?thesis using split_script(2) [OF k(1)] by auto
  next
    case pub
    then show ?thesis using pubkey_written [OF assms(1)] by blast
  next
    case raw
    let ?n = "word_of_nat (length s + nSpecialScripts) :: u32"
    have n: "unat ?n = length s + 6" using assms(2) by (simp add: unat_of_nat take_bit_nat_eq_self MAX_SCRIPT_SIZE_def nSpecialScripts_def del: of_nat_add)
    obtain out where "WriteVarInt ?n = Some out" "ReadVarInt (out @ s @ r) = Inr (?n, s @ r)" using varint_written by blast
    then show ?thesis using raw n assms(2) by (simp add: Serialize_script_def Compress_def Unserialize_script_def nSpecialScripts_def read_bytes_prefix)
  qed
qed

lemma txout_written:
  assumes "decompress_inverts fully_valid decompress" "length (scriptPubKey t) \<le> MAX_SCRIPT_SIZE" "MoneyRange (nValue t)"
  shows "\<exists>out. Serialize_txout_compressed fully_valid t = Some out \<and> Unserialize_txout_compressed decompress (out @ r) = Inr (t, r)"
proof -
  let ?n = "word_of_int (nValue t) :: u64"
  have v: "0 \<le> nValue t" "nValue t \<le> 2162500000000000" using assms(3) by (simp_all add: MoneyRange_def MAX_MONEY_def COIN_def)
  then have n: "uint ?n = nValue t" by (simp add: uint_word_of_int)
  then have "unat ?n \<le> 2 ^ 60" using v by (simp add: unat_eq_nat_uint)
  then obtain x where x: "CompressAmount ?n = Some x" "DecompressAmount x = ?n" using amount_written by blast
  obtain o2 where o2: "Serialize_script fully_valid (scriptPubKey t) = Some o2" "Unserialize_script decompress (scriptPubKey TxOut_null) (o2 @ r) = Inr (scriptPubKey t, r)"
    using script_written [OF assms(1,2)] by blast
  obtain o1 where o1: "WriteVarInt x = Some o1" "ReadVarInt (o1 @ o2 @ r) = Inr (x, o2 @ r)" using varint_written [of x "o2 @ r"] by blast
  have "sint ?n = nValue t" using v by (simp add: sint_word_of_int signed_take_bit_int_eq_self)
  then show ?thesis using x o1 o2 by (simp add: Serialize_txout_compressed_def Unserialize_txout_compressed_def)
qed

lemma varint_int_written:
  assumes "0 \<le> n" "n < 2 ^ 31"
  shows "\<exists>out. WriteVarInt_int n = Some out \<and> ReadVarInt_int (out @ r) = Inr (n, r)"
proof -
  obtain out where "WriteVarInt (word_of_int n :: u32) = Some out" "ReadVarInt (out @ r) = Inr (word_of_int n :: u32, r)" using varint_written by blast
  moreover have "sint (word_of_int n :: u32) = n" using assms by (simp add: sint_word_of_int signed_take_bit_int_eq_self)
  ultimately show ?thesis using assms(1) by (simp add: WriteVarInt_int_def ReadVarInt_int_def)
qed

text \<open>A negative number is written as its lowest seven bits alone.\<close>

definition stored_version :: "int \<Rightarrow> int" where
  "stored_version n = (if n < 0 then n mod 128 else n)"

lemma varint_int_stored:
  assumes "n < 2 ^ 31"
  shows "\<exists>out. WriteVarInt_int n = Some out \<and> ReadVarInt_int (out @ r) = Inr (stored_version n, r)"
proof (cases "n < 0")
  case True
  let ?b = "word_of_int n AND 0x7F :: u8"
  have b: "?b = take_bit 7 (word_of_int n)" by (simp add: take_bit_eq_mask mask_eq_exp_minus_1)
  have "uint ?b = n mod 256 mod 128" unfolding b unsigned_take_bit_eq uint_word_of_int by (simp add: take_bit_eq_mod)
  then have v: "uint ?b = n mod 128" by (simp add: mod_mod_cancel)
  then have "uint (ucast ?b :: u32) = n mod 128" by (simp add: uint_up_ucast is_up)
  moreover have "0 \<le> n mod 128" "n mod 128 < 128" by simp_all
  ultimately have s: "sint (ucast ?b :: u32) = n mod 128" by (simp only: sint_uint) (simp add: signed_take_bit_int_eq_self)
  have "?b AND 0x80 = 0" by (simp add: and.assoc)
  then show ?thesis using True s by (simp add: WriteVarInt_int_def ReadVarInt_int_def ReadVarInt_def stored_version_def and.assoc)
next
  case False
  then show ?thesis using varint_int_written [of n r] assms by (simp add: stored_version_def)
qed

subsection \<open>Reading coins back\<close>

lemma bit_mask_iff: "w AND push_bit p 1 \<noteq> 0 \<longleftrightarrow> bit (w :: 'a::len word) p"
  by (simp add: bit_iff_and_push_bit_not_eq_0)

lemma avail_byte_bits: "map (\<lambda>p. avail_byte c b AND push_bit p 1 \<noteq> 0) [0..<8] = map (\<lambda>i. avail_at c (2 + b * 8 + i)) [0..<8]"
  unfolding bit_mask_iff by (intro map_cong) (auto simp: avail_byte_def avail_at_def bit_horner_sum_bit_word_iff)

lemma avail_byte_used: "avail_byte c b \<noteq> 0 \<longleftrightarrow> mask_byte_used c b"
proof -
  have "avail_byte c b \<noteq> 0 \<longleftrightarrow> (\<exists>p<8. bit (avail_byte c b) p)" by (auto simp: bit_eq_iff)
  also have "\<dots> \<longleftrightarrow> (\<exists>p<8. avail_at c (2 + b * 8 + p))"
    by (auto simp: avail_byte_def avail_at_def bit_horner_sum_bit_word_iff)
  finally show ?thesis by (auto simp: mask_byte_used_def avail_at_def list_ex_iff)
qed

definition mask_fold :: "CCoins \<Rightarrow> nat \<Rightarrow> nat \<times> nat" where
  "mask_fold c B = fold (\<lambda>b (nLastUsedByte, nNonzeroBytes). if mask_byte_used c b then (b + 1, nNonzeroBytes + 1) else (nLastUsedByte, nNonzeroBytes))
       [0..<B] (0, 0)"

lemma mask_fold_spec:
  "mask_fold c B = (l, n) \<Longrightarrow> l \<le> B \<and> (\<forall>b. l \<le> b \<longrightarrow> b < B \<longrightarrow> \<not> mask_byte_used c b) \<and> (l > 0 \<longrightarrow> mask_byte_used c (l - 1))
     \<and> n = length (filter (mask_byte_used c) [0..<l])"
proof (induction B arbitrary: l n)
  case (Suc B)
  obtain l' n' where f: "mask_fold c B = (l', n')" by fastforce
  have r: "mask_fold c (Suc B) = (if mask_byte_used c B then (Suc B, Suc n') else (l', n'))" using f by (simp add: mask_fold_def)
  show ?case
  proof (cases "mask_byte_used c B")
    case True
    have "length (filter (mask_byte_used c) [0..<B]) = length (filter (mask_byte_used c) [0..<l'])"
    proof -
      have "[0..<B] = [0..<l'] @ [l'..<B]" using Suc.IH [OF f] upt_add_eq_append [of 0 l' "B - l'"] by simp
      then show ?thesis using Suc.IH [OF f] by (simp add: filter_empty_conv)
    qed
    then show ?thesis using True r Suc.prems Suc.IH [OF f] by auto
  next
    case False
    then show ?thesis using r Suc.prems Suc.IH [OF f] by (auto simp: less_Suc_eq)
  qed
qed (simp add: mask_fold_def)

lemma read_mask_written:
  "bs = [] \<or> last bs \<noteq> 0 \<Longrightarrow> read_mask (length (filter (\<lambda>b. b \<noteq> 0) bs)) v (bs @ r)
     = Inr (v @ concat (map (\<lambda>b. map (\<lambda>p. b AND push_bit p 1 \<noteq> 0) [0..<8]) bs), r)"
proof (induction bs arbitrary: v)
  case (Cons b bs)
  have "\<exists>n. length (filter (\<lambda>b. b \<noteq> 0) bs) = Suc n" if "b = 0"
  proof -
    have "filter (\<lambda>b. b \<noteq> 0) bs \<noteq> []" using Cons.prems that last_in_set [of bs] by (auto simp: filter_empty_conv split: if_splits)
    then show ?thesis by (cases "filter (\<lambda>b. b \<noteq> 0) bs") auto
  qed
  then show ?case using Cons.IH Cons.prems by (cases "b = 0"; cases "bs = []") (auto split: if_splits)
qed simp

lemma concat_upt: "concat (map (\<lambda>b. map (\<lambda>i. f (2 + b * 8 + i)) [0..<8]) [0..<l]) = map f [2..<2 + l * 8]"
proof (induction l)
  case (Suc l)
  have "[2..<2 + Suc l * 8] = [2..<2 + l * 8] @ map (\<lambda>i. 2 + l * 8 + i) [0..<8]"
  proof -
    have "map (\<lambda>i. 2 + l * 8 + i) [0..<8] = [2 + l * 8..<2 + l * 8 + 8]" by (intro nth_equalityI) auto
    then show ?thesis using upt_add_eq_append [of 2 "2 + l * 8" 8] by (simp add: add.commute)
  qed
  then show ?case using Suc by simp
qed simp

definition out_fits :: "CTxOut \<Rightarrow> bool" where
  "out_fits t \<longleftrightarrow> (if TxOut_IsNull t then t = TxOut_null else MoneyRange (nValue t) \<and> length (scriptPubKey t) \<le> MAX_SCRIPT_SIZE)"

lemma outs_written:
  assumes "decompress_inverts fully_valid decompress" "list_all out_fits w"
  shows "\<exists>out. concat_options (map (Serialize_txout_compressed fully_valid) (filter (\<lambda>t. \<not> TxOut_IsNull t) w)) = Some out
     \<and> read_outs decompress (map (\<lambda>t. \<not> TxOut_IsNull t) w) (out @ r) = Inr (w, r)"
  using assms(2)
proof (induction w)
  case (Cons t w)
  obtain out where out: "concat_options (map (Serialize_txout_compressed fully_valid) (filter (\<lambda>t. \<not> TxOut_IsNull t) w)) = Some out"
     "read_outs decompress (map (\<lambda>t. \<not> TxOut_IsNull t) w) (out @ r) = Inr (w, r)" using Cons by auto
  show ?case
  proof (cases "TxOut_IsNull t")
    case True
    then show ?thesis using out Cons.prems by (simp add: out_fits_def)
  next
    case False
    then obtain o1 where "Serialize_txout_compressed fully_valid t = Some o1" "Unserialize_txout_compressed decompress (o1 @ out @ r) = Inr (t, out @ r)"
      using txout_written [OF assms(1), of t] Cons.prems by (auto simp: out_fits_def)
    then show ?thesis using out False by simp
  qed
qed simp

lemma unat_div_8: "unat (w div 8 :: u32) = unat w div 8"
  by (simp add: unat_div_distrib)

lemma bit_odd_unat: "bit (w :: u32) n \<longleftrightarrow> odd (unat w div 2 ^ n)"
  unfolding bit_iff_odd [symmetric] by (simp add: bit_unsigned_iff)

lemma code_bits:
  assumes "unat (w :: u32) = 8 * K + of_bool a + 2 * of_bool b + 4 * of_bool d"
  shows "w AND 1 \<noteq> 0 \<longleftrightarrow> a" "w AND 2 \<noteq> 0 \<longleftrightarrow> b" "w AND 4 \<noteq> 0 \<longleftrightarrow> d" "w AND 6 \<noteq> 0 \<longleftrightarrow> b \<or> d" "unat (w div 8) = K"
proof -
  have t: "bit w n \<longleftrightarrow> odd ((8 * K + of_bool a + 2 * of_bool b + 4 * of_bool d) div 2 ^ n)" for n
    unfolding assms [symmetric] by (rule bit_odd_unat)
  have b: "bit w 0 \<longleftrightarrow> a" "bit w 1 \<longleftrightarrow> b" "bit w 2 \<longleftrightarrow> d" unfolding t by (cases a; cases b; cases d; simp; presburger)+
  show 1: "w AND 1 \<noteq> 0 \<longleftrightarrow> a" and 2: "w AND 2 \<noteq> 0 \<longleftrightarrow> b" and 4: "w AND 4 \<noteq> 0 \<longleftrightarrow> d"
    using b bit_mask_iff [of w 0] bit_mask_iff [of w 1] bit_mask_iff [of w 2] by simp_all
  have "w AND 6 = (w AND 2) OR (w AND 4)" by (simp flip: bit.conj_disj_distrib)
  then show "w AND 6 \<noteq> 0 \<longleftrightarrow> b \<or> d" using 2 4 by (simp add: or_eq_0_iff)
  show "unat (w div 8) = K" unfolding unat_div_8 assms by (cases a; cases b; cases d; simp)
qed

lemma coins_code_spec:
  assumes "avail_at c 0 \<or> avail_at c 1 \<or> snd (CalcMaskSize c) \<noteq> 0" "8 * snd (CalcMaskSize c) + 8 < 2 ^ 32"
  shows "unat (coins_code c) = 8 * (snd (CalcMaskSize c) - of_bool (\<not> (avail_at c 0 \<or> avail_at c 1)))
    + of_bool (fCoinBase c) + 2 * of_bool (avail_at c 0) + 4 * of_bool (avail_at c 1)" (is "_ = ?X")
proof -
  have "coins_code c = word_of_nat ?X" using assms(1) by (cases "avail_at c 0"; cases "avail_at c 1") (auto simp: coins_code_def of_nat_diff)
  moreover have "?X < 2 ^ 32" using assms(2) by (auto simp: of_bool_def)
  ultimately show ?thesis by (simp add: unat_of_nat take_bit_nat_eq_self del: of_nat_add of_nat_mult of_nat_diff)
qed

lemma strip_padded: "strip (v @ replicate k TxOut_null) = strip v"
  unfolding strip_def rev_append rev_replicate by (induction k) simp_all

lemma mask_covers:
  assumes "strip (c_vout c) = c_vout c" "CalcMaskSize c = (l, n)"
  shows "length (c_vout c) \<le> 2 + l * 8"
proof (rule ccontr)
  assume L: "\<not> length (c_vout c) \<le> 2 + l * 8"
  let ?j = "length (c_vout c) - 3"
  have ne: "c_vout c \<noteq> []" and j: "2 + ?j = length (c_vout c) - 1" using L by auto
  have last: "\<not> TxOut_IsNull (c_vout c ! (2 + ?j))" unfolding j last_conv_nth [OF ne, symmetric] by (rule strip_last [OF assms(1) ne])
  have "mask_byte_used c (?j div 8)"
    unfolding mask_byte_used_def list_ex_iff using last L by (intro bexI [of _ "?j mod 8"]) (auto simp: algebra_simps)
  moreover have "l \<le> ?j div 8" "?j div 8 < (length (c_vout c) + 5) div 8" using L by auto
  ultimately show False using mask_fold_spec [of c "(length (c_vout c) + 5) div 8" l n] assms(2) by (auto simp: CalcMaskSize_def mask_fold_def)
qed

text \<open>Coins as the database stores them: trimmed and canonical, not pruned, with outputs in range, a height that is not
  negative and any 32-bit version.\<close>

definition coins_storable :: "CCoins \<Rightarrow> bool" where
  "coins_storable c \<longleftrightarrow> strip (c_vout c) = c_vout c \<and> \<not> IsPruned c \<and> list_all out_fits (c_vout c) \<and> length (c_vout c) < 2 ^ 31
     \<and> 0 \<le> c_nHeight c \<and> c_nHeight c < 2 ^ 31 \<and> - (2 ^ 31) \<le> c_nVersion c \<and> c_nVersion c < 2 ^ 31"

lemma mask_written:
  assumes "coins_storable c" "CalcMaskSize c = (l, n)"
  shows "read_mask n [avail_at c 0, avail_at c 1] (map (avail_byte c) [0..<l] @ r) = Inr (map (avail_at c) [0..<2 + l * 8], r)"
    "avail_at c 0 \<or> avail_at c 1 \<or> n \<noteq> 0" "8 * n + 8 < 2 ^ 32"
proof -
  have f: "l \<le> (length (c_vout c) + 5) div 8" "l > 0 \<longrightarrow> mask_byte_used c (l - 1)" "n = length (filter (mask_byte_used c) [0..<l])"
    using mask_fold_spec [of c "(length (c_vout c) + 5) div 8" l n] assms(2) by (simp_all add: CalcMaskSize_def mask_fold_def)
  have n: "length (filter (\<lambda>b. b \<noteq> 0) (map (avail_byte c) [0..<l])) = n" using f(3) by (simp add: filter_map comp_def avail_byte_used)
  have "map (avail_byte c) [0..<l] = [] \<or> last (map (avail_byte c) [0..<l]) \<noteq> 0" using f(2) by (cases l) (simp_all add: avail_byte_used)
  note m = read_mask_written [OF this, of "[avail_at c 0, avail_at c 1]" r, unfolded n]
  have "[avail_at c 0, avail_at c 1] @ map (avail_at c) [2..<2 + l * 8] = map (avail_at c) [0..<2 + l * 8]"
    using upt_conv_Cons [of 0 "2 + l * 8"] upt_conv_Cons [of 1 "2 + l * 8"] by (simp add: numeral_2_eq_2)
  then show "read_mask n [avail_at c 0, avail_at c 1] (map (avail_byte c) [0..<l] @ r) = Inr (map (avail_at c) [0..<2 + l * 8], r)"
    using m unfolding map_map comp_def avail_byte_bits concat_upt by simp
  have "n \<le> l" using f(3) length_filter_le [of "mask_byte_used c" "[0..<l]"] by simp
  then show "8 * n + 8 < 2 ^ 32" using f(1) assms(1) by (auto simp: coins_storable_def)
  show "avail_at c 0 \<or> avail_at c 1 \<or> n \<noteq> 0"
  proof (rule ccontr)
    assume a: "\<not> ?thesis"
    then have "l = 0" using f(2,3) by (cases l) auto
    then have "length (c_vout c) \<le> 2" using mask_covers [OF _ assms(2)] assms(1) by (simp add: coins_storable_def)
    moreover obtain i where "i < length (c_vout c)" "\<not> TxOut_IsNull (c_vout c ! i)" using assms(1) by (auto simp: coins_storable_def IsPruned_def list_all_length)
    moreover have "i = 0 \<or> i = 1" using calculation by linarith
    ultimately show False using a by (auto simp: avail_at_def)
  qed
qed

lemma outs_padded:
  assumes "length (c_vout c) \<le> n"
  shows "map (avail_at c) [0..<n] = map (\<lambda>t. \<not> TxOut_IsNull t) (c_vout c @ replicate (n - length (c_vout c)) TxOut_null)"
  using assms by (intro nth_equalityI) (auto simp: avail_at_def nth_append)

text \<open>The undo records that \<open>UpdateCoins\<close> makes are read back too: without height they carry no version.\<close>

lemma undo_written:
  assumes "decompress_inverts fully_valid decompress" "MoneyRange (nValue (u_txout u))" "length (scriptPubKey (u_txout u)) \<le> MAX_SCRIPT_SIZE"
    "unat (u_nHeight u) < 2 ^ 31" "if u_nHeight u = 0 then u_nVersion u = 0 else 0 \<le> u_nVersion u \<and> u_nVersion u < 2 ^ 31"
  shows "\<exists>out. Serialize_undo fully_valid u = Some out \<and> Unserialize_undo decompress (out @ r) = Inr (u, r)"
proof -
  let ?h = "u_nHeight u" and ?b = "if u_fCoinBase u then 1 else 0 :: u32"
  have b: "unat (?h * 2 + ?b) = 2 * unat ?h + of_bool (u_fCoinBase u)" using assms(4) by (auto simp: unat_word_ariths)
  have d: "(?h * 2 + ?b) div 2 = ?h" unfolding word_unat_eq_iff unat_div_distrib b by simp
  have o: "(?h * 2 + ?b) AND 1 \<noteq> 0 \<longleftrightarrow> u_fCoinBase u"
    using bit_mask_iff [of "?h * 2 + ?b" 0] bit_odd_unat [of "?h * 2 + ?b" 0] unfolding b by simp
  obtain o3 where o3: "Serialize_txout_compressed fully_valid (u_txout u) = Some o3" "Unserialize_txout_compressed decompress (o3 @ r) = Inr (u_txout u, r)"
    using txout_written [OF assms(1,3,2)] by blast
  obtain o2 where o2: "(if ?h > 0 then WriteVarInt_int (u_nVersion u) else Some []) = Some o2"
    "(if ?h > 0 then ReadVarInt_int (o2 @ o3 @ r) else Inr (0, o2 @ o3 @ r)) = Inr (u_nVersion u, o3 @ r)"
    using varint_int_written [of "u_nVersion u" "o3 @ r"] assms(5) by (cases "?h = 0") (auto simp: word_gt_0)
  obtain o1 where o1: "WriteVarInt (?h * 2 + ?b) = Some o1" "ReadVarInt (o1 @ o2 @ o3 @ r) = Inr (?h * 2 + ?b, o2 @ o3 @ r)" using varint_written by blast
  have "Serialize_undo fully_valid u = Some (o1 @ o2 @ o3)" using o1(1) o2(1) o3(1) by (simp add: Serialize_undo_def)
  moreover have "Unserialize_undo decompress (o1 @ o2 @ o3 @ r) = Inr (u, r)"
    unfolding Unserialize_undo_def o1(2) bind_read_simps d o2(2) o3(2) o by simp
  ultimately show ?thesis by auto
qed

subsection \<open>An example\<close>

definition demo_key :: bytes where "demo_key = 4 # replicate 64 7"

definition demo_valid :: "bytes \<Rightarrow> bool" where "demo_valid p \<longleftrightarrow> p = demo_key"

definition demo_decompress :: "bytes \<Rightarrow> bytes option" where
  "demo_decompress p = (if p = 3 # replicate 32 7 then Some demo_key else None)"

lemma demo_decompress_inverts: "decompress_inverts demo_valid demo_decompress"
  by (simp add: decompress_inverts_def demo_valid_def demo_decompress_def demo_key_def)

definition demo_stored :: CCoins where
  "demo_stored = \<lparr>fCoinBase = True, c_vout = [\<lparr>nValue = 50 * COIN, scriptPubKey = [65] @ demo_key @ [0xac]\<rparr>, TxOut_null, \<lparr>nValue = 12345, scriptPubKey = [0x51]\<rparr>],
     c_nHeight = 120891, c_nVersion = 1\<rparr>"

lemma demo_storable: "coins_storable demo_stored"
  by (simp add: coins_storable_def demo_stored_def strip_def IsPruned_def out_fits_def TxOut_IsNull_def TxOut_null_def MoneyRange_def MAX_MONEY_def COIN_def
      demo_key_def MAX_SCRIPT_SIZE_def)

subsection \<open>Properties\<close>

text \<open>C34: The disk format of coins loses nothing but the sign of a version.  For trimmed coins that are not pruned, with amounts
  in the money range, scripts within the size limit, a height that is not negative and any 32-bit version, writing succeeds and
  reading returns the coins and the rest of the stream: header code, availability mask, compressed amounts and the
  six special script forms included.  The version is returned as it was unless it is negative; of a negative version only the
  lowest seven bits survive.\<close>

theorem coins_disk_roundtrip:
  assumes "decompress_inverts fully_valid decompress" "coins_storable c"
  shows "\<exists>out. Serialize_coins fully_valid c = Some out
    \<and> Unserialize_coins decompress (out @ r) = Inr (if 0 \<le> c_nVersion c then c else c\<lparr>c_nVersion := c_nVersion c mod 128\<rparr>, r)"
proof -
  obtain l n where ln: "CalcMaskSize c = (l, n)" by fastforce
  note m = mask_written [OF assms(2) ln]
  have w: "0 \<le> c_nHeight c" "c_nHeight c < 2 ^ 31" "c_nVersion c < 2 ^ 31" "strip (c_vout c) = c_vout c" "list_all out_fits (c_vout c)"
    using assms(2) by (simp_all add: coins_storable_def)
  let ?k = "2 + l * 8 - length (c_vout c)"
  let ?w = "c_vout c @ replicate ?k TxOut_null"
  have "out_fits TxOut_null" by (simp add: out_fits_def)
  then have "list_all out_fits ?w" using w(5) by (auto simp: list_all_iff)
  obtain o4 where o4: "WriteVarInt_int (c_nHeight c) = Some o4" "ReadVarInt_int (o4 @ r) = Inr (c_nHeight c, r)"
    using varint_int_written [OF w(1,2)] by blast
  obtain o3 where o3: "concat_options (map (Serialize_txout_compressed fully_valid) (filter (\<lambda>t. \<not> TxOut_IsNull t) (c_vout c))) = Some o3"
    "read_outs decompress (map (avail_at c) [0..<2 + l * 8]) (o3 @ o4 @ r) = Inr (?w, o4 @ r)"
    using outs_written [OF assms(1) \<open>list_all out_fits ?w\<close>, of "o4 @ r"] outs_padded [OF mask_covers [OF w(4) ln]] by auto
  let ?bs = "map (avail_byte c) [0..<l]"
  obtain o2 where o2: "WriteVarInt (coins_code c) = Some o2" "ReadVarInt (o2 @ ?bs @ o3 @ o4 @ r) = Inr (coins_code c, ?bs @ o3 @ o4 @ r)"
    using varint_written by blast
  obtain o1 where o1: "WriteVarInt_int (c_nVersion c) = Some o1" "ReadVarInt_int (o1 @ o2 @ ?bs @ o3 @ o4 @ r) = Inr (stored_version (c_nVersion c), o2 @ ?bs @ o3 @ o4 @ r)"
    using varint_int_stored [OF w(3)] by blast
  have "Serialize_coins fully_valid c = Some (o1 @ o2 @ ?bs @ o3 @ o4)" using m(2) ln o1(1) o2(1) o3(1) o4(1) by (simp add: Serialize_coins_def)
  moreover have "Unserialize_coins decompress (o1 @ o2 @ ?bs @ o3 @ o4 @ r) = Inr (c\<lparr>c_nVersion := stored_version (c_nVersion c)\<rparr>, r)"
  proof -
    note b = code_bits [OF coins_code_spec [of c, unfolded ln snd_conv, OF m(2,3)]]
    have "unat (coins_code c div 8 + (if avail_at c 0 \<or> avail_at c 1 then 0 else 1)) = n"
      using b(5) m(2,3) by (auto simp: unat_word_ariths)
    then show ?thesis
      using o1(2) o2(2) m(1) o3(2) o4(2) b(1-4) strip_padded w(4) by (simp add: Unserialize_coins_def Cleanup_strip)
  qed
  ultimately show ?thesis by (auto simp: stored_version_def)
qed

theorem coins_disk_roundtrip_witness:
  "\<exists>out. Serialize_coins demo_valid demo_stored = Some out \<and> Unserialize_coins demo_decompress (out @ [1, 2]) = Inr (demo_stored, [1, 2])"
  using coins_disk_roundtrip [OF demo_decompress_inverts demo_storable, of "[1, 2]"] by (simp add: demo_stored_def)

end
