(* ===== verification/Merkleblock.thy ===== *)
theory Merkleblock
  imports Merkle Serialize
begin

text \<open>
  Partial Merkle trees, \<open>src/src/merkleblock.h\<close> and \<open>merkleblock.cpp\<close>: the proof that chosen transactions are in a
  block.  Counts and positions are natural numbers: \<open>ExtractMatches\<close> bounds the number of transactions by
  33333 before it uses it, so no 32-bit expression of the traversal wraps.
\<close>

unbundle bit_operations_syntax

subsection \<open>The class\<close>

record CPartialMerkleTree =
  nTransactions :: nat
  vBits :: "bool list"
  vHash :: "uint256 list"
  fBad :: bool

definition CalcTreeWidth :: "nat \<Rightarrow> nat \<Rightarrow> nat" where
  "CalcTreeWidth nTx height = (nTx + 2 ^ height - 1) div 2 ^ height"

fun CalcHash :: "nat \<Rightarrow> nat \<Rightarrow> nat \<Rightarrow> uint256 list \<Rightarrow> uint256" where
  "CalcHash nTx 0 pos vTxid = vTxid ! pos"
| "CalcHash nTx (Suc height) pos vTxid =
     (let left = CalcHash nTx height (pos * 2) vTxid;
          right = (if pos * 2 + 1 < CalcTreeWidth nTx height then CalcHash nTx height (pos * 2 + 1) vTxid else left)
      in Hash2 left right)"

definition parent_of_match :: "nat \<Rightarrow> nat \<Rightarrow> nat \<Rightarrow> bool list \<Rightarrow> bool" where
  "parent_of_match nTx height pos vMatch = list_ex (\<lambda>p. vMatch ! p) [pos * 2 ^ height..<min ((pos + 1) * 2 ^ height) nTx]"

fun TraverseAndBuild :: "nat \<Rightarrow> nat \<Rightarrow> nat \<Rightarrow> uint256 list \<Rightarrow> bool list \<Rightarrow> bool list \<times> uint256 list \<Rightarrow> bool list \<times> uint256 list" where
  "TraverseAndBuild nTx 0 pos vTxid vMatch (bits, hashes) =
     (bits @ [parent_of_match nTx 0 pos vMatch], hashes @ [CalcHash nTx 0 pos vTxid])"
| "TraverseAndBuild nTx (Suc height) pos vTxid vMatch (bits, hashes) =
     (let fParentOfMatch = parent_of_match nTx (Suc height) pos vMatch; bits = bits @ [fParentOfMatch]
      in if \<not> fParentOfMatch then (bits, hashes @ [CalcHash nTx (Suc height) pos vTxid])
         else let out = TraverseAndBuild nTx height (pos * 2) vTxid vMatch (bits, hashes)
              in if pos * 2 + 1 < CalcTreeWidth nTx height then TraverseAndBuild nTx height (pos * 2 + 1) vTxid vMatch out else out)"

text \<open>The traversal state of the reader.\<close>

record extract_state =
  nBitsUsed :: nat
  nHashUsed :: nat
  e_vMatch :: "uint256 list"
  e_vnIndex :: "nat list"
  e_fBad :: bool

definition use_stored_hash :: "CPartialMerkleTree \<Rightarrow> bool \<Rightarrow> nat \<Rightarrow> extract_state \<Rightarrow> uint256 \<times> extract_state" where
  "use_stored_hash t matched pos st =
     (if nHashUsed st \<ge> length (vHash t) then (blob_zero 32, st\<lparr>e_fBad := True\<rparr>)
      else let hash = vHash t ! nHashUsed st; st = st\<lparr>nHashUsed := nHashUsed st + 1\<rparr>
           in (hash, if matched then st\<lparr>e_vMatch := e_vMatch st @ [hash], e_vnIndex := e_vnIndex st @ [pos]\<rparr> else st))"

fun TraverseAndExtract :: "CPartialMerkleTree \<Rightarrow> nat \<Rightarrow> nat \<Rightarrow> extract_state \<Rightarrow> uint256 \<times> extract_state" where
  "TraverseAndExtract t 0 pos st =
     (if nBitsUsed st \<ge> length (vBits t) then (blob_zero 32, st\<lparr>e_fBad := True\<rparr>)
      else use_stored_hash t (vBits t ! nBitsUsed st) pos (st\<lparr>nBitsUsed := nBitsUsed st + 1\<rparr>))"
| "TraverseAndExtract t (Suc height) pos st =
     (if nBitsUsed st \<ge> length (vBits t) then (blob_zero 32, st\<lparr>e_fBad := True\<rparr>)
      else let fParentOfMatch = vBits t ! nBitsUsed st; st = st\<lparr>nBitsUsed := nBitsUsed st + 1\<rparr>
           in if \<not> fParentOfMatch then use_stored_hash t False pos st
              else case TraverseAndExtract t height (pos * 2) st of (left, st) \<Rightarrow>
                if pos * 2 + 1 < CalcTreeWidth (nTransactions t) height
                then case TraverseAndExtract t height (pos * 2 + 1) st of (right, st) \<Rightarrow>
                       (Hash2 left right, if right = left then st\<lparr>e_fBad := True\<rparr> else st)
                else (Hash2 left left, st))"

text \<open>\<open>while (CalcTreeWidth(nHeight) > 1) nHeight++\<close>: the width halves.\<close>

lemma width_Suc: "CalcTreeWidth n (Suc h) = (CalcTreeWidth n h + 1) div 2"
  using level_size_Suc [of n h] by (simp add: CalcTreeWidth_def level_size_def)

function height_loop :: "nat \<Rightarrow> nat \<Rightarrow> nat" where
  "height_loop nTx nHeight = (if CalcTreeWidth nTx nHeight > 1 then height_loop nTx (nHeight + 1) else nHeight)"
  by pat_completeness auto
termination
  by (relation "measure (\<lambda>(n, h). CalcTreeWidth n h)") (auto simp: width_Suc)

declare height_loop.simps [simp del]

definition CPartialMerkleTree_build :: "uint256 list \<Rightarrow> bool list \<Rightarrow> CPartialMerkleTree" where
  "CPartialMerkleTree_build vTxid vMatch =
     (case TraverseAndBuild (length vTxid) (height_loop (length vTxid) 0) 0 vTxid vMatch ([], []) of (bits, hashes) \<Rightarrow>
        \<lparr>nTransactions = length vTxid, vBits = bits, vHash = hashes, fBad = False\<rparr>)"

definition MAX_TREE_TRANSACTIONS :: nat where "MAX_TREE_TRANSACTIONS = 2000000 div 60"

text \<open>Root, matched transactions and their indices, appended to the given ones, and the object with its failure flag.\<close>

definition ExtractMatches :: "CPartialMerkleTree \<Rightarrow> nat list \<Rightarrow> uint256 \<times> uint256 list \<times> nat list \<times> CPartialMerkleTree" where
  "ExtractMatches t vnIndex =
     (if nTransactions t = 0 \<or> nTransactions t > MAX_TREE_TRANSACTIONS \<or> length (vHash t) > nTransactions t \<or> length (vBits t) < length (vHash t)
      then (blob_zero 32, [], vnIndex, t)
      else case TraverseAndExtract t (height_loop (nTransactions t) 0) 0
                  \<lparr>nBitsUsed = 0, nHashUsed = 0, e_vMatch = [], e_vnIndex = vnIndex, e_fBad = fBad t\<rparr> of (hashMerkleRoot, st) \<Rightarrow>
        (if e_fBad st \<or> (nBitsUsed st + 7) div 8 \<noteq> (length (vBits t) + 7) div 8 \<or> nHashUsed st \<noteq> length (vHash t)
         then blob_zero 32 else hashMerkleRoot,
         e_vMatch st, e_vnIndex st, t\<lparr>fBad := e_fBad st\<rparr>))"

subsection \<open>The wire format\<close>

definition pack_byte :: "bool list \<Rightarrow> nat \<Rightarrow> u8" where
  "pack_byte bits b = horner_sum of_bool 2 (take 8 (drop (8 * b) bits))"

definition Serialize_tree :: "CPartialMerkleTree \<Rightarrow> bytes" where
  "Serialize_tree t =
     ser_writedata32 (word_of_nat (nTransactions t)) @ Serialize_vector id (vHash t)
     @ Serialize_blob (map (pack_byte (vBits t)) [0..<(length (vBits t) + 7) div 8])"

definition Unserialize_tree :: "bytes \<Rightarrow> CPartialMerkleTree reading" where
  "Unserialize_tree s =
     bind_read (ser_readdata32 s) (\<lambda>n s.
     bind_read (Unserialize_vector (read_bytes 32) s) (\<lambda>hashes s.
     bind_read (Unserialize_blob s) (\<lambda>vBytes s.
       Inr (\<lparr>nTransactions = unat n, vBits = map (\<lambda>p. vBytes ! (p div 8) AND push_bit (p mod 8) 1 \<noteq> 0) [0..<length vBytes * 8],
             vHash = hashes, fBad = False\<rparr>, s))))"

subsection \<open>The traversals and the tree\<close>

lemma width_level: "CalcTreeWidth n h = level_size n h"
  by (simp add: CalcTreeWidth_def level_size_def)

lemma CalcHash_node: "CalcHash (length ls) h pos ls = tree_node ls h pos"
  by (induction h arbitrary: pos) (simp_all add: width_level Let_def mult.commute)

lemma height_loop_level: "0 < n \<Longrightarrow> h \<le> tree_height n \<Longrightarrow> height_loop n h = tree_height n"
proof (induction n h rule: height_loop.induct)
  case (1 n h)
  show ?case
  proof (cases "h = tree_height n")
    case True
    then show ?thesis using 1(2) tree_height_top(3) [of n] by (subst height_loop.simps) (simp add: width_level)
  next
    case False
    then have "2 ^ h < n" using 1 tree_height_top(2) [of h n] by simp
    then have "level_size n h > 1" using level_size_bounds(1) [of n h] by (metis mult_1 leD less_one linorder_neqE_nat mult_0 not_less0 not_le order_le_less_trans)
    then show ?thesis using 1 False by (simp add: height_loop.simps [of n h] width_level)
  qed
qed

lemma level_size_iff: "0 < n \<Longrightarrow> k < level_size n h \<longleftrightarrow> k * 2 ^ h < n"
proof
  assume n: "0 < n"
  show "k * 2 ^ h < n" if "k < level_size n h"
  proof -
    have "k * 2 ^ h \<le> (level_size n h - 1) * 2 ^ h" using that by simp
    then show ?thesis using level_size_bounds(2) [OF n, of h] by linarith
  qed
  show "k < level_size n h" if "k * 2 ^ h < n" using that level_size_bounds(1) [of n h] by (metis mult_less_cancel2 order_less_le_trans)
qed

lemma upt_split: "a \<le> b \<Longrightarrow> b \<le> c \<Longrightarrow> [a..<c] = [a..<b] @ [b..<c]"
  by (metis le_add_diff_inverse upt_add_eq_append)

text \<open>The leaves below a node.\<close>

definition leaves_below :: "nat \<Rightarrow> nat \<Rightarrow> nat \<Rightarrow> nat list" where
  "leaves_below nTx h pos = [pos * 2 ^ h..<min ((pos + 1) * 2 ^ h) nTx]"

lemma leaves_split:
  assumes "0 < n"
  shows "leaves_below n (Suc h) pos = leaves_below n h (pos * 2) @ (if pos * 2 + 1 < level_size n h then leaves_below n h (pos * 2 + 1) else [])"
proof -
  have e: "pos * 2 ^ Suc h = pos * 2 * 2 ^ h" "(pos + 1) * 2 ^ Suc h = (pos * 2 + 2) * 2 ^ h" by simp_all
  have m: "pos * 2 * 2 ^ h \<le> (pos * 2 + 1) * 2 ^ h" "(pos * 2 + 1) * 2 ^ h \<le> (pos * 2 + 2) * 2 ^ h" by simp_all
  show ?thesis
  proof (cases "pos * 2 + 1 < level_size n h")
    case True
    then have "(pos * 2 + 1) * 2 ^ h < n" using level_size_iff [OF assms] by blast
    then have x: "min ((pos * 2 + 1) * 2 ^ h) n = (pos * 2 + 1) * 2 ^ h" "(pos * 2 + 1) * 2 ^ h \<le> min ((pos * 2 + 2) * 2 ^ h) n" using m(2) by auto
    have "pos * 2 + 1 + 1 = pos * 2 + 2" by simp
    then show ?thesis using True unfolding leaves_below_def e upt_split [OF m(1) x(2)] x(1) by (simp only: if_True)
  next
    case False
    then have "n \<le> (pos * 2 + 1) * 2 ^ h" using level_size_iff [OF assms] by (meson not_le)
    then have "min ((pos * 2 + 2) * 2 ^ h) n = min ((pos * 2 + 1) * 2 ^ h) n" using m(2) by auto
    then show ?thesis using False unfolding leaves_below_def e by simp
  qed
qed

lemma parent_iff: "parent_of_match n h pos M \<longleftrightarrow> filter (\<lambda>p. M ! p) (leaves_below n h pos) \<noteq> []"
  by (auto simp: parent_of_match_def leaves_below_def list_ex_iff filter_empty_conv)

lemma build_append:
  "TraverseAndBuild n h pos ls M (b, g) = (b @ fst (TraverseAndBuild n h pos ls M ([], [])), g @ snd (TraverseAndBuild n h pos ls M ([], [])))"
proof (induction h arbitrary: pos b g)
  case (Suc h)
  let ?T = "\<lambda>pos. TraverseAndBuild n h pos ls M"
  obtain b1 g1 b2 g2 where o: "?T (pos * 2) ([], []) = (b1, g1)" "?T (Suc (pos * 2)) ([], []) = (b2, g2)" by fastforce
  have l: "?T (pos * 2) (b, g) = (b @ b1, g @ g1)" "?T (Suc (pos * 2)) (b, g) = (b @ b2, g @ g2)" for b g
    using Suc [of "pos * 2" b g] Suc [of "Suc (pos * 2)" b g] o by simp_all
  show ?case by (auto simp: Let_def l)
qed simp

text \<open>No two neighbours of a level are equal.\<close>

definition no_twins :: "uint256 list \<Rightarrow> bool" where
  "no_twins ls \<longleftrightarrow> (\<forall>l k. 2 * k + 1 < level_size (length ls) l \<longrightarrow> \<not> twin ls l k)"

definition matches_below :: "nat \<Rightarrow> bool list \<Rightarrow> nat \<Rightarrow> nat \<Rightarrow> nat list" where
  "matches_below n M h pos = filter (\<lambda>p. M ! p) (leaves_below n h pos)"

definition extracted :: "uint256 list \<Rightarrow> nat list \<Rightarrow> nat \<Rightarrow> nat \<Rightarrow> extract_state \<Rightarrow> extract_state" where
  "extracted ls ms b g st = st\<lparr>nBitsUsed := nBitsUsed st + b, nHashUsed := nHashUsed st + g,
     e_vMatch := e_vMatch st @ map ((!) ls) ms, e_vnIndex := e_vnIndex st @ ms\<rparr>"

lemma extracted_extracted: "extracted ls ms b g (extracted ls ms' b' g' st) = extracted ls (ms' @ ms) (b' + b) (g' + g) st"
  by (simp add: extracted_def add.assoc)

lemma extracted_simps [simp]: "nBitsUsed (extracted ls ms b g st) = nBitsUsed st + b" "nHashUsed (extracted ls ms b g st) = nHashUsed st + g"
  by (simp_all add: extracted_def)

lemma build_Suc:
  assumes "parent_of_match n (Suc h) pos M" "TraverseAndBuild n h (pos * 2) ls M ([], []) = (b1, g1)" "TraverseAndBuild n h (pos * 2 + 1) ls M ([], []) = (b2, g2)"
  shows "TraverseAndBuild n (Suc h) pos ls M ([], []) = (if pos * 2 + 1 < level_size n h then (True # b1 @ b2, g1 @ g2) else (True # b1, g1))"
proof -
  have "TraverseAndBuild n h (pos * 2) ls M (b, g) = (b @ b1, g @ g1)" "TraverseAndBuild n h (pos * 2 + 1) ls M (b, g) = (b @ b2, g @ g2)" for b g
    using build_append [of n h "pos * 2" ls M b g] build_append [of n h "pos * 2 + 1" ls M b g] assms(2,3) by simp_all
  then show ?thesis using assms(1) by (simp add: Let_def width_level)
qed

lemma extract_built:
  assumes "no_twins ls" "nTransactions t = length ls" "pos < level_size (length ls) h" "TraverseAndBuild (length ls) h pos ls M ([], []) = (B, G)"
    "vBits t = pb @ B @ sb" "vHash t = ph @ G @ sh" "nBitsUsed st = length pb" "nHashUsed st = length ph"
  shows "TraverseAndExtract t h pos st = (tree_node ls h pos, extracted ls (matches_below (length ls) M h pos) (length B) (length G) st)"
  using assms(3-)
proof (induction h arbitrary: pos B G pb ph sb sh st)
  case 0
  have l: "leaves_below (length ls) 0 pos = [pos]" using 0(1) by (simp add: leaves_below_def)
  have "B = [M ! pos]" "G = [ls ! pos]" using 0(2) l by (auto simp: parent_iff split: if_splits)
  then show ?case using 0 l by (simp add: use_stored_hash_def Let_def matches_below_def extracted_def nth_append)
next
  case (Suc h)
  let ?n = "length ls"
  have n: "0 < ?n" using Suc.prems(1) by (cases "ls = []") (simp_all add: level_size_def)
  show ?case
  proof (cases "parent_of_match ?n (Suc h) pos M")
    case False
    then have "B = [False]" "G = [tree_node ls (Suc h) pos]" "matches_below ?n M (Suc h) pos = []"
      using Suc.prems(2) by (auto simp: Let_def CalcHash_node parent_iff matches_below_def simp del: CalcHash.simps tree_node.simps)
    then show ?thesis using Suc.prems by (simp add: use_stored_hash_def Let_def extracted_def nth_append del: tree_node.simps)
  next
    case True
    obtain b1 g1 b2 g2 where o: "TraverseAndBuild ?n h (pos * 2) ls M ([], []) = (b1, g1)" "TraverseAndBuild ?n h (pos * 2 + 1) ls M ([], []) = (b2, g2)"
      by fastforce
    have p: "pos * 2 < level_size ?n h" using Suc.prems(1) by (simp add: level_size_iff [OF n])
    let ?st = "st\<lparr>nBitsUsed := nBitsUsed st + 1\<rparr>"
    let ?st1 = "extracted ls (matches_below ?n M h (pos * 2)) (length b1) (length g1) ?st"
    show ?thesis
    proof (cases "pos * 2 + 1 < level_size ?n h")
      case r: True
      have B: "B = True # b1 @ b2" "G = g1 @ g2" using build_Suc [OF True o] r Suc.prems(2) by simp_all
      have L: "TraverseAndExtract t h (pos * 2) ?st = (tree_node ls h (pos * 2), ?st1)"
        using B Suc.prems(3-) by (intro Suc.IH [OF p o(1), of "pb @ [True]" "b2 @ sb" ph "g2 @ sh"]) simp_all
      have R: "TraverseAndExtract t h (pos * 2 + 1) ?st1
          = (tree_node ls h (pos * 2 + 1), extracted ls (matches_below ?n M h (pos * 2 + 1)) (length b2) (length g2) ?st1)"
        using B Suc.prems(3-) by (intro Suc.IH [OF r o(2), of "pb @ True # b1" sb "ph @ g1" sh]) simp_all
      have "tree_node ls h (pos * 2 + 1) \<noteq> tree_node ls h (pos * 2)" using assms(1) r unfolding no_twins_def twin_def by (metis mult.commute)
      moreover have "matches_below ?n M (Suc h) pos = matches_below ?n M h (pos * 2) @ matches_below ?n M h (pos * 2 + 1)"
        using r by (simp add: matches_below_def leaves_split [OF n])
      ultimately show ?thesis
        using L R B Suc.prems(3-) r assms(2) by (simp add: Let_def width_level extracted_extracted nth_append mult.commute) (simp add: extracted_def)
    next
      case r: False
      have B: "B = True # b1" "G = g1" using build_Suc [OF True o] r Suc.prems(2) by simp_all
      have L: "TraverseAndExtract t h (pos * 2) ?st = (tree_node ls h (pos * 2), ?st1)"
        using B Suc.prems(3-) by (intro Suc.IH [OF p o(1), of "pb @ [True]" sb ph sh]) simp_all
      have "matches_below ?n M (Suc h) pos = matches_below ?n M h (pos * 2)" using r by (simp add: matches_below_def leaves_split [OF n])
      then show ?thesis using L B Suc.prems(3-) r assms(2) by (simp add: Let_def width_level nth_append mult.commute) (simp add: extracted_def)
    qed
  qed
qed

lemma build_hashes:
  assumes "list_all (\<lambda>h. length h = 32) ls" "pos < level_size (length ls) h" "TraverseAndBuild (length ls) h pos ls M ([], []) = (B, G)"
  shows "list_all (\<lambda>h. length h = 32) G"
  using assms(2,3)
proof (induction h arbitrary: pos B G)
  case 0
  then show ?case using assms(1) by (auto simp: list_all_length)
next
  case (Suc h)
  have n: "0 < length ls" using Suc.prems(1) by (cases "ls = []") (simp_all add: level_size_def)
  have p: "pos * 2 < level_size (length ls) h" using Suc.prems(1) by (simp add: level_size_iff [OF n])
  show ?case
  proof (cases "parent_of_match (length ls) (Suc h) pos M")
    case True
    obtain b1 g1 b2 g2 where o: "TraverseAndBuild (length ls) h (pos * 2) ls M ([], []) = (b1, g1)"
      "TraverseAndBuild (length ls) h (pos * 2 + 1) ls M ([], []) = (b2, g2)" by fastforce
    show ?thesis using Suc.IH [OF p o(1)] Suc.IH [OF _ o(2)] build_Suc [OF True o] Suc.prems(2) by (auto simp del: TraverseAndBuild.simps split: if_splits)
  next
    case False
    then show ?thesis using Suc.prems(2) by (auto simp: Let_def)
  qed
qed

lemma build_sizes:
  assumes "0 < n" "pos < level_size n h" "TraverseAndBuild n h pos ls M ([], []) = (B, G)"
  shows "length G \<le> length B \<and> length G \<le> length (leaves_below n h pos) \<and> length B \<le> (h + 1) * length (leaves_below n h pos)"
  using assms(2,3)
proof (induction h arbitrary: pos B G)
  case 0
  then show ?case by (auto simp: leaves_below_def)
next
  case (Suc h)
  have p: "pos * 2 < level_size n h" using Suc.prems(1) by (simp add: level_size_iff [OF assms(1)])
  then have ne1: "leaves_below n h (pos * 2) \<noteq> []" by (simp add: leaves_below_def level_size_iff [OF assms(1)] min_le_iff_disj)
  then have ne: "0 < length (leaves_below n (Suc h) pos)" by (simp add: leaves_split [OF assms(1)])
  show ?case
  proof (cases "parent_of_match n (Suc h) pos M")
    case True
    obtain b1 g1 b2 g2 where o: "TraverseAndBuild n h (pos * 2) ls M ([], []) = (b1, g1)" "TraverseAndBuild n h (pos * 2 + 1) ls M ([], []) = (b2, g2)"
      by fastforce
    have "1 \<le> length (leaves_below n h (pos * 2))" using ne1 by (simp add: Suc_le_eq)
    then show ?thesis using Suc.IH [OF p o(1)] Suc.IH [OF _ o(2)] build_Suc [OF True o] Suc.prems(2)
      by (auto simp: leaves_split [OF assms(1)] distrib_left distrib_right split: if_splits)
  next
    case False
    then show ?thesis using Suc.prems(2) ne by (auto simp: Let_def Suc_le_eq)
  qed
qed

subsection \<open>The wire format keeps the tree\<close>

text \<open>The bits come back padded to whole bytes.\<close>

definition padded :: "bool list \<Rightarrow> bool list" where
  "padded bits = bits @ replicate ((length bits + 7) div 8 * 8 - length bits) False"

interpretation hash_codec: codec "\<lambda>h. length h = 32" id "read_bytes 32"
  by unfold_locales (simp add: read_bytes_iff)

lemma unpack_bits:
  "map (\<lambda>p. map (pack_byte bits) [0..<(length bits + 7) div 8] ! (p div 8) AND push_bit (p mod 8) 1 \<noteq> 0) [0..<(length bits + 7) div 8 * 8] = padded bits"
proof (rule nth_equalityI)
  let ?m = "(length bits + 7) div 8"
  have m: "length bits \<le> ?m * 8" by linarith
  then show "length (map (\<lambda>p. map (pack_byte bits) [0..<?m] ! (p div 8) AND push_bit (p mod 8) 1 \<noteq> 0) [0..<?m * 8]) = length (padded bits)"
    by (simp add: padded_def)
  fix p assume "p < length (map (\<lambda>p. map (pack_byte bits) [0..<?m] ! (p div 8) AND push_bit (p mod 8) 1 \<noteq> 0) [0..<?m * 8])"
  then have p: "p < ?m * 8" "p div 8 < ?m" by auto
  have e: "8 * (p div 8) + p mod 8 = p" by simp
  then have lt: "p mod 8 < length bits - 8 * (p div 8) \<longleftrightarrow> p < length bits" by linarith
  have "pack_byte bits (p div 8) AND push_bit (p mod 8) 1 \<noteq> 0 \<longleftrightarrow> bit (pack_byte bits (p div 8)) (p mod 8)"
    by (simp add: bit_iff_and_push_bit_not_eq_0)
  also have "\<dots> \<longleftrightarrow> p < length bits \<and> bits ! p" unfolding pack_byte_def bit_horner_sum_bit_word_iff using e lt by (auto simp: add.commute)
  finally show "map (\<lambda>p. map (pack_byte bits) [0..<?m] ! (p div 8) AND push_bit (p mod 8) 1 \<noteq> 0) [0..<?m * 8] ! p = padded bits ! p"
    using p by (simp add: padded_def nth_append)
qed

lemma tree_written:
  assumes "nTransactions t < 2 ^ 32" "list_all (\<lambda>h. length h = 32) (vHash t)" "length (vHash t) \<le> unat MAX_SIZE" "length (vBits t) \<le> unat MAX_SIZE" "\<not> fBad t"
  shows "Unserialize_tree (Serialize_tree t @ r) = Inr (t\<lparr>vBits := padded (vBits t)\<rparr>, r)"
proof -
  let ?bs = "map (pack_byte (vBits t)) [0..<(length (vBits t) + 7) div 8]"
  have "length ?bs \<le> unat MAX_SIZE" using assms(4) by (simp add: MAX_SIZE_def)
  then have "Unserialize_blob (Serialize_blob ?bs @ r) = Inr (?bs, r)" by (rule blob_read_written)
  moreover have "unat (word_of_nat (nTransactions t) :: u32) = nTransactions t" using assms(1) by (simp add: unat_of_nat take_bit_nat_eq_self)
  moreover have "\<lparr>nTransactions = nTransactions t, vBits = padded (vBits t), vHash = vHash t, fBad = False\<rparr> = t\<lparr>vBits := padded (vBits t)\<rparr>"
    using assms(5) by (cases t) simp
  moreover have "length ?bs = (length (vBits t) + 7) div 8" by simp
  ultimately show ?thesis
    using hash_codec.vector_read_written [OF assms(2,3)] unpack_bits [of "vBits t"]
    by (simp add: Unserialize_tree_def Serialize_tree_def del: length_map)
qed

subsection \<open>What a reader can conclude\<close>

text \<open>The pairs that a traversal hashes.\<close>

fun extract_pairs :: "CPartialMerkleTree \<Rightarrow> nat \<Rightarrow> nat \<Rightarrow> extract_state \<Rightarrow> (uint256 \<times> uint256) list" where
  "extract_pairs t 0 pos st = []"
| "extract_pairs t (Suc height) pos st =
     (if nBitsUsed st \<ge> length (vBits t) \<or> \<not> vBits t ! nBitsUsed st then []
      else let st = st\<lparr>nBitsUsed := nBitsUsed st + 1\<rparr>
           in case TraverseAndExtract t height (pos * 2) st of (left, st1) \<Rightarrow>
                extract_pairs t height (pos * 2) st
                @ (if pos * 2 + 1 < CalcTreeWidth (nTransactions t) height
                   then extract_pairs t height (pos * 2 + 1) st1 @ [(left, fst (TraverseAndExtract t height (pos * 2 + 1) st1))]
                   else [(left, left)]))"

definition first_state :: extract_state where
  "first_state = \<lparr>nBitsUsed = 0, nHashUsed = 0, e_vMatch = [], e_vnIndex = [], e_fBad = False\<rparr>"

definition adds_matches :: "uint256 list \<Rightarrow> extract_state \<Rightarrow> extract_state \<Rightarrow> bool" where
  "adds_matches ls st st' \<longleftrightarrow> (\<exists>ms. e_vnIndex st' = e_vnIndex st @ ms \<and> e_vMatch st' = e_vMatch st @ map ((!) ls) ms \<and> list_all (\<lambda>i. i < length ls) ms)"

lemma adds_none: "e_vnIndex st' = e_vnIndex st \<Longrightarrow> e_vMatch st' = e_vMatch st \<Longrightarrow> adds_matches ls st st'"
  unfolding adds_matches_def by (intro exI [of _ "[]"]) simp

lemma adds_trans: "adds_matches ls st st1 \<Longrightarrow> adds_matches ls st1 st2 \<Longrightarrow> adds_matches ls st st2"
  unfolding adds_matches_def by (elim exE, rule_tac x = "ms @ msa" in exI) simp

lemma traverse_sound:
  assumes "nTransactions t = length ls" "pos < level_size (length ls) h" "h \<le> tree_height (length ls)"
    "inj_on (case_prod Hash2) (set (extract_pairs t h pos st) \<union> hashed_pairs ls)" "TraverseAndExtract t h pos st = (tree_node ls h pos, st')"
  shows "adds_matches ls st st'"
  using assms(2-)
proof (induction h arbitrary: pos st st')
  case 0
  show ?case
  proof (cases "nBitsUsed st < length (vBits t) \<and> vBits t ! nBitsUsed st \<and> nHashUsed st < length (vHash t)")
    case True
    then show ?thesis using 0 unfolding adds_matches_def by (intro exI [of _ "[pos]"]) (auto simp: use_stored_hash_def Let_def)
  next
    case False
    then show ?thesis using 0 by (intro adds_none) (auto simp: use_stored_hash_def Let_def split: if_splits)
  qed
next
  case (Suc h)
  have n: "0 < length ls" using Suc.prems(1) by (cases "ls = []") (simp_all add: level_size_def)
  have p: "pos * 2 < level_size (length ls) h" using Suc.prems(1) by (simp add: level_size_iff [OF n])
  let ?st = "st\<lparr>nBitsUsed := nBitsUsed st + 1\<rparr>"
  show ?case
  proof (cases "nBitsUsed st < length (vBits t) \<and> vBits t ! nBitsUsed st")
    case False
    then show ?thesis using Suc.prems(4) by (intro adds_none) (auto simp: use_stored_hash_def Let_def split: if_splits)
  next
    case True
    obtain l st1 r st2 where L: "TraverseAndExtract t h (pos * 2) ?st = (l, st1)" and R: "TraverseAndExtract t h (pos * 2 + 1) st1 = (r, st2)" by fastforce
    let ?w = "pos * 2 + 1 < level_size (length ls) h"
    have x: "set (extract_pairs t (Suc h) pos st) = set (extract_pairs t h (pos * 2) ?st) \<union> (if ?w then insert (l, r) (set (extract_pairs t h (pos * 2 + 1) st1)) else {(l, l)})"
      using True L R assms(1) by (auto simp: Let_def width_level)
    have k: "kids ls h pos \<in> hashed_pairs ls" using Suc.prems(1,2) by (intro kids_hashed) simp_all
    have H: "case_prod Hash2 (l, if ?w then r else l) = case_prod Hash2 (kids ls h pos)" "st' = (if ?w then if r = l then st2\<lparr>e_fBad := True\<rparr> else st2 else st1)"
      using Suc.prems(4) True L R assms(1) by (auto simp: Let_def width_level kids_def mult.commute split: if_splits)
    have "(l, if ?w then r else l) = kids ls h pos"
      by (rule inj_onD [OF Suc.prems(3) H(1)]) (use x k in auto)
    then have lr: "l = tree_node ls h (pos * 2)" "?w \<Longrightarrow> r = tree_node ls h (pos * 2 + 1)" by (auto simp: kids_def mult.commute split: if_splits)
    have a: "adds_matches ls ?st st1"
      by (rule Suc.IH [OF p _ inj_on_subset [OF Suc.prems(3)]]) (use Suc.prems(2) x L lr(1) in auto)
    have b: "adds_matches ls st1 st2" if ?w
      by (rule Suc.IH [OF that _ inj_on_subset [OF Suc.prems(3)]]) (use Suc.prems(2) x R lr(2) that in auto)
    show ?thesis using a b adds_trans [OF a] H(2) by (auto simp: adds_matches_def split: if_splits)
  qed
qed

subsection \<open>Properties\<close>

text \<open>C35: A partial Merkle tree proves what it was built for.  For the transactions of a block without equal neighbours in
  its Merkle tree, the tree built for any selection is read back from the wire and \<open>ExtractMatches\<close> returns the
  Merkle root of the block, exactly the selected transactions and their positions.\<close>

theorem partial_tree_roundtrip:
  assumes "0 < length vTxid" "length vTxid \<le> MAX_TREE_TRANSACTIONS" "length vMatch = length vTxid" "no_twins vTxid" "list_all (\<lambda>h. length h = 32) vTxid"
  shows "\<exists>t. Unserialize_tree (Serialize_tree (CPartialMerkleTree_build vTxid vMatch) @ r) = Inr (t, r)
     \<and> ExtractMatches t [] = (merkle_root vTxid, map ((!) vTxid) (filter (\<lambda>p. vMatch ! p) [0..<length vTxid]), filter (\<lambda>p. vMatch ! p) [0..<length vTxid], t)"
proof -
  let ?n = "length vTxid" and ?h = "tree_height (length vTxid)"
  obtain B G where BG: "TraverseAndBuild ?n ?h 0 vTxid vMatch ([], []) = (B, G)" by fastforce
  define t0 where "t0 = CPartialMerkleTree_build vTxid vMatch"
  have t0: "t0 = \<lparr>nTransactions = ?n, vBits = B, vHash = G, fBad = False\<rparr>"
    using BG height_loop_level [OF assms(1), of 0] by (simp add: t0_def CPartialMerkleTree_build_def)
  have p: "0 < level_size ?n ?h" using tree_height_top(3) [OF assms(1)] by simp
  have l: "leaves_below ?n ?h 0 = [0..<?n]" using tree_height_top(1) [of ?n] by (simp add: leaves_below_def min_absorb2)
  have z: "length G \<le> length B" "length G \<le> ?n" "length B \<le> (?h + 1) * ?n" using build_sizes [OF assms(1) p BG] l by auto
  have "?h \<le> 16" unfolding tree_height_def by (rule Least_le) (use assms(2) in \<open>simp add: MAX_TREE_TRANSACTIONS_def\<close>)
  then have "(?h + 1) * ?n \<le> 17 * 33333" using assms(2) by (intro mult_mono) (simp_all add: MAX_TREE_TRANSACTIONS_def)
  then have B: "length B \<le> unat MAX_SIZE" using z(3) by (simp add: MAX_SIZE_def)
  then have G: "length G \<le> unat MAX_SIZE" using z(1) by simp
  have "list_all (\<lambda>h. length h = 32) G" using build_hashes [OF assms(5) p BG] by simp
  then have w: "Unserialize_tree (Serialize_tree t0 @ r) = Inr (t0\<lparr>vBits := padded B\<rparr>, r)"
    using tree_written [of t0 r] B G assms(2) t0 by (simp add: MAX_TREE_TRANSACTIONS_def)
  let ?t = "t0\<lparr>vBits := padded B\<rparr>"
  have "TraverseAndExtract ?t ?h 0 \<lparr>nBitsUsed = 0, nHashUsed = 0, e_vMatch = [], e_vnIndex = [], e_fBad = False\<rparr>
      = (merkle_root vTxid, extracted vTxid (matches_below ?n vMatch ?h 0) (length B) (length G) \<lparr>nBitsUsed = 0, nHashUsed = 0, e_vMatch = [], e_vnIndex = [], e_fBad = False\<rparr>)"
    unfolding merkle_root_def by (rule extract_built [OF assms(4) _ p BG, where pb = "[]" and ph = "[]" and sh = "[]"]) (simp_all add: t0 padded_def)
  moreover have "(length (padded B) + 7) div 8 = (length B + 7) div 8" "length B \<le> length (padded B)" by (auto simp: padded_def)
  ultimately have "ExtractMatches ?t [] = (merkle_root vTxid, map ((!) vTxid) (matches_below ?n vMatch ?h 0), matches_below ?n vMatch ?h 0, ?t)"
    using assms(1,2) z height_loop_level [OF assms(1), of 0] by (simp add: ExtractMatches_def t0 extracted_def)
  then show ?thesis using w l by (auto simp: t0_def matches_below_def)
qed

lemma no_twins_two: "a \<noteq> b \<Longrightarrow> no_twins [a, b]"
  unfolding no_twins_def
proof (intro allI impI)
  fix l k assume ab: "a \<noteq> b" and "2 * k + 1 < level_size (length [a, b]) l"
  then have lt: "(2 * k + 1) * 2 ^ l < 2" using level_size_iff [of 2 "2 * k + 1" l] by (simp add: numeral_2_eq_2)
  moreover have "2 ^ l \<le> (2 * k + 1) * (2 :: nat) ^ l" by simp
  ultimately have "2 ^ l < (2 :: nat) ^ 1" by (metis le_less_trans power_one_right)
  then have "l = 0" by (metis less_one one_less_numeral_iff power_strict_increasing_iff semiring_norm(76))
  then show "\<not> twin [a, b] l k" using lt ab by (simp add: twin_def)
qed

theorem partial_tree_roundtrip_witness:
  "\<exists>t. Unserialize_tree (Serialize_tree (CPartialMerkleTree_build [replicate 32 1, replicate 32 2] [False, True]) @ [5]) = Inr (t, [5])
     \<and> fst (snd (ExtractMatches t [])) = [replicate 32 2]"
  using partial_tree_roundtrip [of "[replicate 32 1, replicate 32 2]" "[False, True]" "[5]"] no_twins_two [of "replicate 32 1" "replicate 32 2"]
  by (auto simp: MAX_TREE_TRANSACTIONS_def)

text \<open>C10: A partial Merkle tree that declares the right number of transactions cannot claim one that is not in the block.  Whatever
  its bits and hashes, if \<open>ExtractMatches\<close> returns the Merkle root of a block that has the declared number of transactions, and that root is
  not zero, then every reported transaction is the transaction of the block at the reported index, unless two different
  inputs hashed by the traversal or by the block's tree collide.  The number is part of the message and the caller has to know
  it: a tree that declares another one is not covered, since its leaves may be inner nodes of the block's tree.\<close>

theorem ExtractMatches_sound:
  assumes "nTransactions t = length vTxid" "\<not> fBad t" "ExtractMatches t [] = (merkle_root vTxid, vMatch, vnIndex, t')" "merkle_root vTxid \<noteq> blob_zero 32"
    "inj_on (case_prod Hash2) (set (extract_pairs t (tree_height (length vTxid)) 0 first_state) \<union> hashed_pairs vTxid)"
  shows "vMatch = map ((!) vTxid) vnIndex \<and> list_all (\<lambda>i. i < length vTxid) vnIndex"
proof -
  have n: "0 < length vTxid" using assms(1,3,4) by (auto simp: ExtractMatches_def split: if_splits)
  then have h: "height_loop (nTransactions t) 0 = tree_height (length vTxid)" "0 < level_size (length vTxid) (tree_height (length vTxid))"
    using height_loop_level [of "length vTxid" 0] tree_height_top(3) [of "length vTxid"] assms(1) by simp_all
  obtain root st where T: "TraverseAndExtract t (tree_height (length vTxid)) 0 first_state = (root, st)" by fastforce
  have "root = merkle_root vTxid" "vMatch = e_vMatch st" "vnIndex = e_vnIndex st"
    using assms(2-4) T h(1) by (auto simp: ExtractMatches_def first_state_def split: if_splits)
  then show ?thesis using traverse_sound [OF assms(1) h(2) order_refl assms(5)] T unfolding merkle_root_def by (auto simp: adds_matches_def first_state_def)
qed

theorem ExtractMatches_sound_witness:
  "fst (snd (ExtractMatches \<lparr>nTransactions = 1, vBits = [True], vHash = [replicate 32 1], fBad = False\<rparr> [])) = map ((!) [replicate 32 1]) [0]"
proof -
  let ?t = "\<lparr>nTransactions = 1, vBits = [True], vHash = [replicate 32 1], fBad = False\<rparr>"
  have h: "tree_height 1 = 0" by (rule tree_height_eq) simp_all
  then have p: "hashed_pairs [replicate 32 1] = {}" "merkle_root [replicate 32 1] = replicate 32 1" by (simp_all add: hashed_pairs_def merkle_root_def)
  have e: "ExtractMatches ?t [] = (merkle_root [replicate 32 1], [replicate 32 1], [0], ?t)"
    using p(2) by (simp add: ExtractMatches_def MAX_TREE_TRANSACTIONS_def height_loop.simps [of "Suc 0" 0] CalcTreeWidth_def use_stored_hash_def Let_def)
  have "[replicate 32 (1 :: u8)] = map ((!) [replicate 32 1]) [0] \<and> list_all (\<lambda>i. i < length [replicate 32 (1 :: u8)]) [0]"
    by (rule ExtractMatches_sound [OF _ _ e]) (simp_all add: p h [simplified] blob_zero_def)
  then show ?thesis using e by simp
qed

end
