(* ===== verification/Sigma_State.thy ===== *)
theory Sigma_State
  imports Chain Transaction "HOL-Library.Product_Lexorder"
begin

text \<open>
  The state of the sigma coins: \<open>src/src/sigma.h\<close>, \<open>src/src/sigma.cpp\<close> and the denominations of
  \<open>src/src/sigma/coin.cpp\<close>.  A group element and a serial number are only compared and stored, so
  their types are type variables.  Two \<open>PublicCoin\<close>s are equal when their values are (\<open>operator==\<close>, and
  the hash of the map, leave the denomination out), so \<open>mintedPubCoins\<close> is keyed by the value.  The two sigma
  fields of a \<open>CBlockIndex\<close> extend the record of the theory Chain; a \<open>std::map\<close> of vectors that is iterated
  is a list of its entries in key order, an \<open>unordered_map\<close> that is iterated the list of its entries
  in the order of the iteration.  As in Chain a result of None is a crash of the process.
\<close>

subsection \<open>Denominations\<close>

datatype CoinDenomination =
  SIGMA_DENOM_0_1 | SIGMA_DENOM_0_5 | SIGMA_DENOM_1 | SIGMA_DENOM_10 | SIGMA_DENOM_100

primrec denom_code :: "CoinDenomination \<Rightarrow> nat" where
  "denom_code SIGMA_DENOM_0_1 = 0"
| "denom_code SIGMA_DENOM_0_5 = 1"
| "denom_code SIGMA_DENOM_1 = 2"
| "denom_code SIGMA_DENOM_10 = 3"
| "denom_code SIGMA_DENOM_100 = 4"

lemma denom_code_inject: "denom_code a = denom_code b \<longleftrightarrow> a = b"
  by (cases a; cases b) simp_all

instantiation CoinDenomination :: linorder
begin
definition "a \<le> b \<longleftrightarrow> denom_code a \<le> denom_code b" for a b :: CoinDenomination
definition "a < b \<longleftrightarrow> denom_code a < denom_code b" for a b :: CoinDenomination
instance
  by standard (auto simp: less_eq_CoinDenomination_def less_CoinDenomination_def denom_code_inject)
end

primrec DenominationToInteger :: "CoinDenomination \<Rightarrow> CAmount" where
  "DenominationToInteger SIGMA_DENOM_0_1 = COIN div 10"
| "DenominationToInteger SIGMA_DENOM_0_5 = COIN div 2"
| "DenominationToInteger SIGMA_DENOM_1 = COIN"
| "DenominationToInteger SIGMA_DENOM_10 = 10 * COIN"
| "DenominationToInteger SIGMA_DENOM_100 = 100 * COIN"

definition IntegerToDenomination :: "CAmount \<Rightarrow> CoinDenomination option" where
  "IntegerToDenomination v =
     (if v = COIN div 10 then Some SIGMA_DENOM_0_1
      else if v = COIN div 2 then Some SIGMA_DENOM_0_5
      else if v = 1 * COIN then Some SIGMA_DENOM_1
      else if v = 10 * COIN then Some SIGMA_DENOM_10
      else if v = 100 * COIN then Some SIGMA_DENOM_100
      else None)"

primrec DenominationToString :: "CoinDenomination \<Rightarrow> string" where
  "DenominationToString SIGMA_DENOM_0_1 = ''0.1''"
| "DenominationToString SIGMA_DENOM_0_5 = ''0.5''"
| "DenominationToString SIGMA_DENOM_1 = ''1''"
| "DenominationToString SIGMA_DENOM_10 = ''10''"
| "DenominationToString SIGMA_DENOM_100 = ''100''"

definition StringToDenomination :: "string \<Rightarrow> CoinDenomination option" where
  "StringToDenomination s =
     (if s = ''0.1'' then Some SIGMA_DENOM_0_1
      else if s = ''0.5'' then Some SIGMA_DENOM_0_5
      else if s = ''1'' then Some SIGMA_DENOM_1
      else if s = ''10'' then Some SIGMA_DENOM_10
      else if s = ''100'' then Some SIGMA_DENOM_100
      else None)"

subsection \<open>Data\<close>

record 'g PublicCoin =
  pc_value :: 'g
  pc_denomination :: CoinDenomination

type_synonym group_key = "CoinDenomination \<times> int"

type_synonym 'g minted_map = "(group_key \<times> 'g PublicCoin list) list"

record ('g, 's) SigmaBlockIndex = CBlockIndex +
  sigmaMintedPubCoins :: "'g minted_map"
  sigmaSpentSerials :: "'s set"

type_synonym ('g, 's) SigmaMap = "uint256 \<Rightarrow> ('g, 's) SigmaBlockIndex option"

record ('g, 's) CSigmaTxInfo =
  zcTransactions :: "uint256 set"
  mints :: "'g PublicCoin list"
  spentSerials :: "('s \<times> int) list"
  fInfoIsComplete :: bool

record SigmaCoinGroupInfo =
  firstBlock :: ptr
  lastBlock :: ptr
  nCoins :: int

record CMintedCoinInfo =
  mi_denomination :: CoinDenomination
  mi_id :: int
  mi_nHeight :: int

record ('g, 's) CSigmaState =
  coinGroups :: "group_key \<Rightarrow> SigmaCoinGroupInfo option"
  mintedPubCoins :: "'g \<Rightarrow> CMintedCoinInfo option"
  latestCoinIds :: "CoinDenomination \<Rightarrow> int option"
  usedCoinSerials :: "'s set"
  mempoolCoinSerials :: "'s \<Rightarrow> uint256 option"

definition ZC_SPEND_V3_COINSPERID :: int where "ZC_SPEND_V3_COINSPERID = 15000"

subsection \<open>The containers\<close>

text \<open>\<open>m[k].push_back(v)\<close> and the insertion of \<open>m[k]\<close> by a read, on a \<open>std::map\<close> of vectors.\<close>

fun map_push :: "'k::linorder \<Rightarrow> 'v \<Rightarrow> ('k \<times> 'v list) list \<Rightarrow> ('k \<times> 'v list) list" where
  "map_push k v [] = [(k, [v])]"
| "map_push k v ((k', vs) # m) =
     (if k = k' then (k', vs @ [v]) # m
      else if k < k' then (k, [v]) # (k', vs) # m
      else (k', vs) # map_push k v m)"

fun map_touch :: "'k::linorder \<Rightarrow> ('k \<times> 'v list) list \<Rightarrow> ('k \<times> 'v list) list" where
  "map_touch k [] = [(k, [])]"
| "map_touch k ((k', vs) # m) =
     (if k = k' then (k', vs) # m
      else if k < k' then (k, []) # (k', vs) # m
      else (k', vs) # map_touch k m)"

text \<open>\<open>insert\<close> of a map keeps an existing entry; \<open>operator[]\<close> default-constructs a missing one.\<close>

definition map_insert :: "('k \<Rightarrow> 'v option) \<Rightarrow> 'k \<Rightarrow> 'v \<Rightarrow> ('k \<Rightarrow> 'v option)" where
  "map_insert m k v = (case m k of None \<Rightarrow> m(k \<mapsto> v) | Some w \<Rightarrow> m)"

definition SigmaCoinGroupInfo_default :: SigmaCoinGroupInfo where
  "SigmaCoinGroupInfo_default = \<lparr>firstBlock = None, lastBlock = None, nCoins = 0\<rparr>"

definition group_at :: "('g, 's) CSigmaState \<Rightarrow> group_key \<Rightarrow> SigmaCoinGroupInfo" where
  "group_at s k = (case coinGroups s k of None \<Rightarrow> SigmaCoinGroupInfo_default | Some g \<Rightarrow> g)"

definition latest_at :: "('g, 's) CSigmaState \<Rightarrow> CoinDenomination \<Rightarrow> int" where
  "latest_at s d = (case latestCoinIds s d of None \<Rightarrow> 0 | Some i \<Rightarrow> i)"

definition put_group :: "group_key \<Rightarrow> SigmaCoinGroupInfo \<Rightarrow> ('g, 's) CSigmaState \<Rightarrow> ('g, 's) CSigmaState" where
  "put_group k g s = s\<lparr>coinGroups := (coinGroups s)(k \<mapsto> g)\<rparr>"

definition put_latest :: "CoinDenomination \<Rightarrow> int \<Rightarrow> ('g, 's) CSigmaState \<Rightarrow> ('g, 's) CSigmaState" where
  "put_latest d i s = s\<lparr>latestCoinIds := (latestCoinIds s)(d \<mapsto> i)\<rparr>"

subsection \<open>Adding a block\<close>

definition Sigma_Reset :: "('g, 's) CSigmaState" where
  "Sigma_Reset = \<lparr>coinGroups = (\<lambda>k. None), mintedPubCoins = (\<lambda>c. None), latestCoinIds = (\<lambda>d. None),
     usedCoinSerials = {}, mempoolCoinSerials = (\<lambda>c. None)\<rparr>"

definition add_to_group :: "('g, 's) SigmaMap \<Rightarrow> uint256 \<Rightarrow> int \<Rightarrow> SigmaCoinGroupInfo \<Rightarrow> SigmaCoinGroupInfo option" where
  "add_to_group idx index height g =
     (if nCoins g = 0
      then if firstBlock g = None \<and> lastBlock g = None
           then Some \<lparr>firstBlock = Some index, lastBlock = Some index, nCoins = 1\<rparr> else None
      else if firstBlock g = None then None
      else case lastBlock g of None \<Rightarrow> None
           | Some l \<Rightarrow> (case idx l of None \<Rightarrow> None
               | Some lb \<Rightarrow> if nHeight lb > height then None
                           else Some (g\<lparr>nCoins := nCoins g + 1, lastBlock := Some index\<rparr>)))"

definition record_mint :: "int \<Rightarrow> int \<Rightarrow> 'g PublicCoin \<Rightarrow> ('g, 's) CSigmaState \<Rightarrow> ('g, 's) CSigmaState" where
  "record_mint i height coin s =
     s\<lparr>mintedPubCoins := map_insert (mintedPubCoins s) (pc_value coin)
        \<lparr>mi_denomination = pc_denomination coin, mi_id = i, mi_nHeight = height\<rparr>\<rparr>"

definition AddMint :: "('g, 's) SigmaMap \<Rightarrow> uint256 \<Rightarrow> 'g PublicCoin \<Rightarrow> ('g, 's) CSigmaState \<Rightarrow> (('g, 's) CSigmaState \<times> int) option" where
  "AddMint idx index pubCoin s =
     (case idx index of None \<Rightarrow> None
      | Some b \<Rightarrow>
        let d = pc_denomination pubCoin;
            mintCoinGroupId = (if latest_at s d < 1 then 1 else latest_at s d);
            s = put_latest d mintCoinGroupId s;
            coinGroup = group_at s (d, mintCoinGroupId)
        in if nCoins coinGroup < ZC_SPEND_V3_COINSPERID \<or> lastBlock coinGroup = Some index
           then (case add_to_group idx index (nHeight b) coinGroup of None \<Rightarrow> None
                 | Some g \<Rightarrow> Some (record_mint mintCoinGroupId (nHeight b) pubCoin (put_group (d, mintCoinGroupId) g s), mintCoinGroupId))
           else let i = mintCoinGroupId + 1
                in Some (record_mint i (nHeight b) pubCoin
                          (put_group (d, i) \<lparr>firstBlock = Some index, lastBlock = Some index, nCoins = 1\<rparr> (put_latest d i s)), i))"

definition AddSpend :: "'s \<Rightarrow> ('g, 's) CSigmaState \<Rightarrow> ('g, 's) CSigmaState" where
  "AddSpend serial s = s\<lparr>usedCoinSerials := insert serial (usedCoinSerials s)\<rparr>"

fun add_minted :: "group_key \<Rightarrow> int \<Rightarrow> 'g PublicCoin list \<Rightarrow> ('g, 's) CSigmaState \<Rightarrow> ('g, 's) CSigmaState" where
  "add_minted k height [] s = s"
| "add_minted k height (coin # coins) s =
     add_minted k height coins
       (s\<lparr>mintedPubCoins := map_insert (mintedPubCoins s) (pc_value coin)
          \<lparr>mi_denomination = fst k, mi_id = snd k, mi_nHeight = height\<rparr>\<rparr>)"

fun add_groups :: "uint256 \<Rightarrow> int \<Rightarrow> 'g minted_map \<Rightarrow> ('g, 's) CSigmaState \<Rightarrow> ('g, 's) CSigmaState" where
  "add_groups index height [] s = s"
| "add_groups index height ((k, coins) # m) s =
     (let s = (if coins \<noteq> []
               then let coinGroup = group_at s k
                    in put_group k \<lparr>firstBlock = (if firstBlock coinGroup = None then Some index else firstBlock coinGroup),
                         lastBlock = Some index, nCoins = nCoins coinGroup + int (length coins)\<rparr> s
               else s)
      in add_groups index height m (add_minted k height coins (put_latest (fst k) (snd k) s)))"

definition AddBlock :: "('g, 's) SigmaMap \<Rightarrow> uint256 \<Rightarrow> ('g, 's) CSigmaState \<Rightarrow> ('g, 's) CSigmaState option" where
  "AddBlock idx index s =
     (case idx index of None \<Rightarrow> None
      | Some b \<Rightarrow>
        let s = add_groups index (nHeight b) (sigmaMintedPubCoins b) s
        in Some (s\<lparr>usedCoinSerials := usedCoinSerials s \<union> sigmaSpentSerials b\<rparr>))"

subsection \<open>Removing a block\<close>

partial_function (option) roll_back :: "('g, 's) SigmaMap \<Rightarrow> group_key \<Rightarrow> ptr \<Rightarrow> ptr \<Rightarrow> ptr option" where
  "roll_back idx k first l =
     (if l = first then None
      else case l of None \<Rightarrow> None
      | Some h \<Rightarrow> (case idx h of None \<Rightarrow> None
         | Some b \<Rightarrow> (case pprev b of None \<Rightarrow> None
            | Some q \<Rightarrow> (case idx q of None \<Rightarrow> None
               | Some c \<Rightarrow> if map_of (sigmaMintedPubCoins c) k = None then roll_back idx k first (Some q) else Some (Some q)))))"

fun remove_groups :: "('g, 's) SigmaMap \<Rightarrow> uint256 \<Rightarrow> 'g minted_map \<Rightarrow> ('g, 's) CSigmaState \<Rightarrow> ('g, 's) CSigmaState option" where
  "remove_groups idx index [] s = Some s"
| "remove_groups idx index ((k, coins) # m) s =
     (let coinGroup = group_at s k; n = nCoins coinGroup - int (length coins)
      in if nCoins coinGroup < int (length coins) then None
         else if n = 0
         then remove_groups idx index m
                (put_latest (fst k) (latest_at s (fst k) - 1) (s\<lparr>coinGroups := (coinGroups s)(k := None)\<rparr>))
         else if lastBlock coinGroup \<noteq> Some index then None
         else case roll_back idx k (firstBlock coinGroup) (lastBlock coinGroup) of None \<Rightarrow> None
              | Some l \<Rightarrow> remove_groups idx index m (put_group k (coinGroup\<lparr>nCoins := n, lastBlock := l\<rparr>) s))"

fun remove_coins :: "group_key \<Rightarrow> 'g PublicCoin list \<Rightarrow> ('g, 's) CSigmaState \<Rightarrow> ('g, 's) CSigmaState option" where
  "remove_coins k [] s = Some s"
| "remove_coins k (coin # coins) s =
     (case mintedPubCoins s (pc_value coin) of None \<Rightarrow> None
      | Some info \<Rightarrow>
        if mi_denomination info = fst k \<and> mi_id info = snd k
        then remove_coins k coins (s\<lparr>mintedPubCoins := (mintedPubCoins s)(pc_value coin := None)\<rparr>)
        else None)"

fun remove_minted :: "'g minted_map \<Rightarrow> ('g, 's) CSigmaState \<Rightarrow> ('g, 's) CSigmaState option" where
  "remove_minted [] s = Some s"
| "remove_minted ((k, coins) # m) s =
     (case remove_coins k coins s of None \<Rightarrow> None | Some s \<Rightarrow> remove_minted m s)"

definition RemoveBlock :: "('g, 's) SigmaMap \<Rightarrow> uint256 \<Rightarrow> ('g, 's) CSigmaState \<Rightarrow> (('g, 's) SigmaMap \<times> ('g, 's) CSigmaState) option" where
  "RemoveBlock idx index s =
     (case idx index of None \<Rightarrow> None
      | Some b \<Rightarrow>
        (case remove_groups idx index (sigmaMintedPubCoins b) s of None \<Rightarrow> None
         | Some s \<Rightarrow>
           (case remove_minted (sigmaMintedPubCoins b) s of None \<Rightarrow> None
            | Some s \<Rightarrow>
              Some (idx(index \<mapsto> b\<lparr>sigmaMintedPubCoins := [], sigmaSpentSerials := {}\<rparr>),
                    s\<lparr>usedCoinSerials := usedCoinSerials s - sigmaSpentSerials b\<rparr>))))"

subsection \<open>Queries\<close>

definition IsUsedCoinSerial :: "'s \<Rightarrow> ('g, 's) CSigmaState \<Rightarrow> bool" where
  "IsUsedCoinSerial coinSerial s \<longleftrightarrow> coinSerial \<in> usedCoinSerials s"

definition HasCoin :: "'g PublicCoin \<Rightarrow> ('g, 's) CSigmaState \<Rightarrow> bool" where
  "HasCoin pubCoin s \<longleftrightarrow> mintedPubCoins s (pc_value pubCoin) \<noteq> None"

definition GetCoinGroupInfo :: "CoinDenomination \<Rightarrow> int \<Rightarrow> ('g, 's) CSigmaState \<Rightarrow> SigmaCoinGroupInfo option" where
  "GetCoinGroupInfo d group_id s = coinGroups s (d, group_id)"

definition GetMintedCoinHeightAndId :: "'g PublicCoin \<Rightarrow> ('g, 's) CSigmaState \<Rightarrow> int \<times> int" where
  "GetMintedCoinHeightAndId pubCoin s =
     (case mintedPubCoins s (pc_value pubCoin) of Some info \<Rightarrow> (mi_nHeight info, mi_id info) | None \<Rightarrow> (- 1, - 1))"

definition GetLatestCoinID :: "CoinDenomination \<Rightarrow> ('g, 's) CSigmaState \<Rightarrow> int" where
  "GetLatestCoinID d s = (case latestCoinIds s d of None \<Rightarrow> 0 | Some i \<Rightarrow> i)"

text \<open>
  The loop of \<open>GetCoinSetForSpend\<close>.  Each read \<open>block->sigmaMintedPubCoins[denomAndId]\<close> inserts an empty vector when
  the block has no coin of the group, so the block index is part of the result.
\<close>

partial_function (option) coin_set_loop ::
  "group_key \<Rightarrow> int \<Rightarrow> ptr \<Rightarrow> ptr \<Rightarrow> ('g, 's) SigmaMap \<Rightarrow> int \<times> uint256 \<times> 'g PublicCoin list
     \<Rightarrow> (('g, 's) SigmaMap \<times> int \<times> uint256 \<times> 'g PublicCoin list) option" where
  "coin_set_loop k maxHeight first block idx acc =
     (case block of None \<Rightarrow> None
      | Some h \<Rightarrow> (case idx h of None \<Rightarrow> None
        | Some b \<Rightarrow>
          let m = map_touch k (sigmaMintedPubCoins b);
              idx = idx(h \<mapsto> b\<lparr>sigmaMintedPubCoins := m\<rparr>);
              coins = the (map_of m k);
              acc = (case acc of (numberOfCoins, blockHash, coins_out) \<Rightarrow>
                       if length coins > 0 \<and> nHeight b \<le> maxHeight
                       then (numberOfCoins + int (length coins), (if numberOfCoins = 0 then h else blockHash), coins_out @ coins)
                       else acc)
          in if block = first then Some (idx, acc) else coin_set_loop k maxHeight first (pprev b) idx acc))"

definition GetCoinSetForSpend ::
  "int \<Rightarrow> CoinDenomination \<Rightarrow> int \<Rightarrow> uint256 \<Rightarrow> 'g PublicCoin list \<Rightarrow> ('g, 's) SigmaMap \<Rightarrow> ('g, 's) CSigmaState
     \<Rightarrow> (('g, 's) SigmaMap \<times> int \<times> uint256 \<times> 'g PublicCoin list) option" where
  "GetCoinSetForSpend maxHeight d coinGroupID blockHash_out coins_out idx s =
     (case coinGroups s (d, coinGroupID) of None \<Rightarrow> Some (idx, 0, blockHash_out, coins_out)
      | Some g \<Rightarrow> coin_set_loop (d, coinGroupID) maxHeight (firstBlock g) (lastBlock g) idx (0, blockHash_out, coins_out))"

subsection \<open>Spends in the memory pool\<close>

definition CanAddSpendToMempool :: "'s \<Rightarrow> ('g, 's) CSigmaState \<Rightarrow> bool" where
  "CanAddSpendToMempool coinSerial s \<longleftrightarrow> \<not> IsUsedCoinSerial coinSerial s \<and> mempoolCoinSerials s coinSerial = None"

fun AddSpendToMempool :: "'s list \<Rightarrow> uint256 \<Rightarrow> ('g, 's) CSigmaState \<Rightarrow> ('g, 's) CSigmaState \<times> bool" where
  "AddSpendToMempool [] txHash s = (s, True)"
| "AddSpendToMempool (coinSerial # coinSerials) txHash s =
     (if IsUsedCoinSerial coinSerial s \<or> mempoolCoinSerials s coinSerial \<noteq> None then (s, False)
      else AddSpendToMempool coinSerials txHash
             (s\<lparr>mempoolCoinSerials := (mempoolCoinSerials s)(coinSerial \<mapsto> txHash)\<rparr>))"

definition RemoveSpendFromMempool :: "'s \<Rightarrow> ('g, 's) CSigmaState \<Rightarrow> ('g, 's) CSigmaState" where
  "RemoveSpendFromMempool coinSerial s = s\<lparr>mempoolCoinSerials := (mempoolCoinSerials s)(coinSerial := None)\<rparr>"

definition GetMempoolConflictingTxHash :: "'s \<Rightarrow> ('g, 's) CSigmaState \<Rightarrow> uint256" where
  "GetMempoolConflictingTxHash coinSerial s =
     (case mempoolCoinSerials s coinSerial of None \<Rightarrow> blob_zero 32 | Some h \<Rightarrow> h)"

subsection \<open>Connecting a block\<close>

text \<open>The deserialisation of a \<open>CoinSpend\<close> is a parameter that yields its integer denomination, or None when it throws.\<close>

definition ParseSigmaSpend :: "(bytes \<Rightarrow> CAmount option) \<Rightarrow> CTxIn \<Rightarrow> (CAmount \<times> u32) option" where
  "ParseSigmaSpend coinSpend txin =
     (let groupId = out_n (prevout txin)
      in if groupId < 1 \<or> groupId \<ge> 0x7fffffff \<or> length (scriptSig txin) < 1 then None
         else map_option (\<lambda>a. (a, groupId)) (coinSpend (drop 1 (scriptSig txin))))"

definition GetSpendAmount_in :: "(bytes \<Rightarrow> CAmount option) \<Rightarrow> CTxIn \<Rightarrow> CAmount" where
  "GetSpendAmount_in coinSpend txin =
     (if TxIn_IsSigmaSpend txin
      then (case ParseSigmaSpend coinSpend txin of None \<Rightarrow> 0 | Some (a, g) \<Rightarrow> a) else 0)"

definition GetSpendAmount :: "(bytes \<Rightarrow> CAmount option) \<Rightarrow> CTransaction \<Rightarrow> CAmount" where
  "GetSpendAmount coinSpend tx = sum_list (map (GetSpendAmount_in coinSpend) (vin tx))"

record SigmaLimits =
  nMaxSigmaInputPerBlock :: nat
  nMaxValueSigmaSpendPerBlock :: CAmount
  coinSpendAmount :: "bytes \<Rightarrow> CAmount option"

definition CheckSigmaBlock :: "SigmaLimits \<Rightarrow> CTransaction list \<Rightarrow> bool" where
  "CheckSigmaBlock consensus vtx =
     (let spendsAmount = sum_list (map (\<lambda>tx. length (filter TxIn_IsSigmaSpend (vin tx))) vtx);
          spendsValue = sum_list (map (GetSpendAmount (coinSpendAmount consensus)) vtx)
      in if spendsAmount > nMaxSigmaInputPerBlock consensus then False
         else if spendsValue > nMaxValueSigmaSpendPerBlock consensus then False
         else True)"

definition CheckSigmaSpendSerial :: "('g, 's) CSigmaTxInfo option \<Rightarrow> 's \<Rightarrow> int \<Rightarrow> bool \<Rightarrow> ('g, 's) CSigmaState \<Rightarrow> bool" where
  "CheckSigmaSpendSerial sigmaTxInfo serial height fConnectTip s =
     (if (case sigmaTxInfo of None \<Rightarrow> False
          | Some info \<Rightarrow> \<not> fInfoIsComplete info \<and> map_of (spentSerials info) serial \<noteq> None) then False
      else if IsUsedCoinSerial serial s then \<not> (height = INT_MAX \<or> fConnectTip)
      else True)"

text \<open>
  The check of a mint output.  Parsing and validating the group element are parameters.  The code computes \<open>hasCoin\<close>,
  whether the coin is already known to the state or to the block, only to write it to the log.
\<close>

definition CheckSigmaMintTransaction ::
  "(CScript \<Rightarrow> 'g option) \<Rightarrow> ('g \<Rightarrow> bool) \<Rightarrow> CTxOut \<Rightarrow> uint256 \<Rightarrow> ('g, 's) CSigmaTxInfo option \<Rightarrow> bool \<times> ('g, 's) CSigmaTxInfo option" where
  "CheckSigmaMintTransaction parseMint validate txout hashTx sigmaTxInfo =
     (case parseMint (scriptPubKey txout) of None \<Rightarrow> (False, sigmaTxInfo)
      | Some pubCoinValue \<Rightarrow>
        (case IntegerToDenomination (nValue txout) of None \<Rightarrow> (False, sigmaTxInfo)
         | Some d \<Rightarrow>
           if \<not> validate pubCoinValue then (False, sigmaTxInfo)
           else (True,
             (case sigmaTxInfo of None \<Rightarrow> None
              | Some info \<Rightarrow>
                if fInfoIsComplete info then Some info
                else Some (info\<lparr>mints := mints info @ [\<lparr>pc_value = pubCoinValue, pc_denomination = d\<rparr>],
                                zcTransactions := insert hashTx (zcTransactions info)\<rparr>)))))"

fun connect_spends ::
  "('g, 's) CSigmaTxInfo \<Rightarrow> uint256 \<Rightarrow> ('g, 's) SigmaBlockIndex \<Rightarrow> bool \<Rightarrow> 's list \<Rightarrow> ('g, 's) SigmaMap \<times> ('g, 's) CSigmaState
     \<Rightarrow> bool \<times> ('g, 's) SigmaMap \<times> ('g, 's) CSigmaState" where
  "connect_spends info pindexNew b fJustCheck [] st = (True, st)"
| "connect_spends info pindexNew b fJustCheck (serial # serials) (idx, s) =
     (if \<not> CheckSigmaSpendSerial (Some info) serial (nHeight b) True s then (False, idx, s)
      else if fJustCheck then connect_spends info pindexNew b fJustCheck serials (idx, s)
      else let b = b\<lparr>sigmaSpentSerials := insert serial (sigmaSpentSerials b)\<rparr>
           in connect_spends info pindexNew b fJustCheck serials (idx(pindexNew \<mapsto> b), AddSpend serial s))"

fun connect_mints ::
  "uint256 \<Rightarrow> 'g PublicCoin list \<Rightarrow> ('g, 's) SigmaMap \<times> ('g, 's) CSigmaState
     \<Rightarrow> (('g, 's) SigmaMap \<times> ('g, 's) CSigmaState) option" where
  "connect_mints pindexNew [] st = Some st"
| "connect_mints pindexNew (mint # ms) (idx, s) =
     (case AddMint idx pindexNew mint s of None \<Rightarrow> None
      | Some (s, mintId) \<Rightarrow>
        (case idx pindexNew of None \<Rightarrow> None
         | Some b \<Rightarrow>
           connect_mints pindexNew ms
             (idx(pindexNew \<mapsto> b\<lparr>sigmaMintedPubCoins := map_push (pc_denomination mint, mintId) mint (sigmaMintedPubCoins b)\<rparr>), s)))"

definition ConnectBlockSigma ::
  "SigmaLimits \<Rightarrow> uint256 \<Rightarrow> (CTransaction list \<times> ('g, 's) CSigmaTxInfo option) option \<Rightarrow> bool
     \<Rightarrow> ('g, 's) SigmaMap \<Rightarrow> ('g, 's) CSigmaState \<Rightarrow> (bool \<times> ('g, 's) SigmaMap \<times> ('g, 's) CSigmaState) option" where
  "ConnectBlockSigma consensus pindexNew pblock fJustCheck idx s =
     (case idx pindexNew of None \<Rightarrow> None
      | Some b \<Rightarrow>
        (case pblock of
           Some (vtx, Some info) \<Rightarrow>
             let b = (if fJustCheck then b else b\<lparr>sigmaMintedPubCoins := [], sigmaSpentSerials := {}\<rparr>);
                 idx = idx(pindexNew \<mapsto> b)
             in if \<not> CheckSigmaBlock consensus vtx then Some (False, idx, s)
                else (case connect_spends info pindexNew b fJustCheck (map fst (spentSerials info)) (idx, s) of
                        (ok, idx, s) \<Rightarrow>
                          if \<not> ok then Some (False, idx, s)
                          else if fJustCheck then Some (True, idx, s)
                          else map_option (Pair True) (connect_mints pindexNew (mints info) (idx, s)))
         | _ \<Rightarrow> if fJustCheck then Some (True, idx, s)
                else map_option (\<lambda>s. (True, idx, s)) (AddBlock idx pindexNew s)))"

definition DisconnectTipSigma :: "('g, 's) SigmaMap \<Rightarrow> uint256 \<Rightarrow> ('g, 's) CSigmaState \<Rightarrow> (('g, 's) SigmaMap \<times> ('g, 's) CSigmaState) option" where
  "DisconnectTipSigma idx pindexDelete s = RemoveBlock idx pindexDelete s"

subsection \<open>Rebuilding the state\<close>

definition base_index :: "('g, 's) SigmaMap \<Rightarrow> BlockMap" where
  "base_index idx = (\<lambda>h. map_option CBlockIndex.truncate (idx h))"

partial_function (option) build_loop :: "('g, 's) SigmaMap \<Rightarrow> CChain \<Rightarrow> ptr \<Rightarrow> ('g, 's) CSigmaState \<Rightarrow> ('g, 's) CSigmaState option" where
  "build_loop idx vChain blockIndex s =
     (case blockIndex of None \<Rightarrow> Some s
      | Some h \<Rightarrow> (case AddBlock idx h s of None \<Rightarrow> None
         | Some s \<Rightarrow> (case Next (base_index idx) vChain h of None \<Rightarrow> None
            | Some q \<Rightarrow> build_loop idx vChain q s)))"

definition BuildSigmaStateFromIndex :: "('g, 's) SigmaMap \<Rightarrow> CChain \<Rightarrow> ('g, 's) CSigmaState option" where
  "BuildSigmaStateFromIndex idx vChain = build_loop idx vChain (Genesis vChain) Sigma_Reset"

lemma denominations_roundtrip:
  "IntegerToDenomination (DenominationToInteger d) = Some d" "StringToDenomination (DenominationToString d) = Some d"
  by (cases d; simp add: IntegerToDenomination_def StringToDenomination_def COIN_def)+

lemma IntegerToDenomination_inverse: "IntegerToDenomination v = Some d \<Longrightarrow> DenominationToInteger d = v"
  by (auto simp: IntegerToDenomination_def split: if_splits)

lemma double_mint_accepted:
  assumes "CheckSigmaMintTransaction parseMint validate txout tx1 (Some info) = (True, Some info')" and "\<not> fInfoIsComplete info"
  shows "\<exists>info''. CheckSigmaMintTransaction parseMint validate txout tx2 (Some info') = (True, Some info'')
           \<and> \<not> distinct (map pc_value (mints info''))"
  using assms by (auto simp: CheckSigmaMintTransaction_def split: option.splits if_splits)

end
