(* ===== verification/Sigma_Mints.thy ===== *)
theory Sigma_Mints
  imports Sigma_State "HOL-Library.Multiset"
begin

text \<open>
  What one block does to the sigma coin state of the theory Sigma_State: the mints that \<open>ConnectBlockSigma\<close> adds
  one by one leave the state that \<open>AddBlock\<close> computes from the mints recorded in the block index, and the walk of
  \<open>RemoveBlock\<close> over the index finds the previous block of a coin group.
\<close>

subsection \<open>What the recorded mints of a block do to the state\<close>

definition grown :: "uint256 \<Rightarrow> nat \<Rightarrow> SigmaCoinGroupInfo \<Rightarrow> SigmaCoinGroupInfo" where
  "grown h n g = \<lparr>firstBlock = (if firstBlock g = None then Some h else firstBlock g),
                   lastBlock = Some h, nCoins = nCoins g + int n\<rparr>"

definition block_id :: "'g minted_map \<Rightarrow> CoinDenomination \<Rightarrow> int option" where
  "block_id m = map_of (map fst m)"

definition minted_entries :: "int \<Rightarrow> 'g minted_map \<Rightarrow> ('g \<times> CMintedCoinInfo) list" where
  "minted_entries height m =
     concat (map (\<lambda>(k, cs). map (\<lambda>c. (pc_value c, \<lparr>mi_denomination = fst k, mi_id = snd k, mi_nHeight = height\<rparr>)) cs) m)"

definition coins_of :: "'g minted_map \<Rightarrow> 'g list" where
  "coins_of m = concat (map (\<lambda>(k, cs). map pc_value cs) m)"

lemma coins_of_simps [simp]: "coins_of [] = []" "coins_of ((k, cs) # m) = map pc_value cs @ coins_of m"
  by (simp_all add: coins_of_def)

lemma minted_entries_simps [simp]:
  "minted_entries ht [] = []"
  "minted_entries ht ((k, cs) # m) =
     map (\<lambda>c. (pc_value c, \<lparr>mi_denomination = fst k, mi_id = snd k, mi_nHeight = ht\<rparr>)) cs @ minted_entries ht m"
  by (simp_all add: minted_entries_def)

lemma block_id_simps [simp]:
  "block_id [] d = None" "block_id ((k, cs) # m) d = (if fst k = d then Some (snd k) else block_id m d)"
  by (cases k; simp add: block_id_def)+

lemma fst_minted_entries [simp]: "map fst (minted_entries ht m) = coins_of m"
  by (induction m) auto

lemma put_sel [simp]:
  "coinGroups (put_group k g s) = (coinGroups s)(k \<mapsto> g)" "coinGroups (put_latest d i s) = coinGroups s"
  "latestCoinIds (put_group k g s) = latestCoinIds s" "latestCoinIds (put_latest d i s) = (latestCoinIds s)(d \<mapsto> i)"
  "mintedPubCoins (put_group k g s) = mintedPubCoins s" "mintedPubCoins (put_latest d i s) = mintedPubCoins s"
  "usedCoinSerials (put_group k g s) = usedCoinSerials s" "usedCoinSerials (put_latest d i s) = usedCoinSerials s"
  "mempoolCoinSerials (put_group k g s) = mempoolCoinSerials s" "mempoolCoinSerials (put_latest d i s) = mempoolCoinSerials s"
  by (simp_all add: put_group_def put_latest_def)

lemma record_mint_sel [simp]:
  "coinGroups (record_mint i ht c s) = coinGroups s" "latestCoinIds (record_mint i ht c s) = latestCoinIds s"
  "usedCoinSerials (record_mint i ht c s) = usedCoinSerials s"
  "mempoolCoinSerials (record_mint i ht c s) = mempoolCoinSerials s"
  by (simp_all add: record_mint_def)

lemma map_insert_apply:
  "map_insert m k v j = (case m j of Some w \<Rightarrow> Some w | None \<Rightarrow> if j = k then Some v else None)"
  by (auto simp: map_insert_def split: option.splits)

lemma add_minted_sel [simp]:
  "coinGroups (add_minted k ht cs s) = coinGroups s" "latestCoinIds (add_minted k ht cs s) = latestCoinIds s"
  "usedCoinSerials (add_minted k ht cs s) = usedCoinSerials s"
  "mempoolCoinSerials (add_minted k ht cs s) = mempoolCoinSerials s"
  by (induction k ht cs s rule: add_minted.induct) simp_all

lemma add_minted_minted:
  "mintedPubCoins (add_minted k ht cs s) v =
     (case mintedPubCoins s v of Some x \<Rightarrow> Some x | None \<Rightarrow> map_of (minted_entries ht [(k, cs)]) v)"
  by (induction k ht cs s rule: add_minted.induct) (auto simp: map_insert_apply split: option.splits)

lemma group_at_put_group [simp]: "group_at (put_group k g s) j = (if j = k then g else group_at s j)"
  by (simp add: group_at_def)

lemma group_at_cong: "coinGroups s k = coinGroups t k \<Longrightarrow> group_at s k = group_at t k"
  by (simp add: group_at_def)

lemma add_groups_sel [simp]:
  "usedCoinSerials (add_groups h ht m s) = usedCoinSerials s"
  "mempoolCoinSerials (add_groups h ht m s) = mempoolCoinSerials s"
  by (induction h ht m s rule: add_groups.induct) (simp_all add: Let_def)

lemma add_groups_coinGroups:
  assumes "distinct (map fst m)" and "\<forall>(k, cs) \<in> set m. cs \<noteq> []"
  shows "coinGroups (add_groups h ht m s) k =
    (case map_of m k of None \<Rightarrow> coinGroups s k | Some cs \<Rightarrow> Some (grown h (length cs) (group_at s k)))"
  using assms
proof (induction h ht m s rule: add_groups.induct)
  case (2 h ht k' cs m s)
  let ?g = "\<lparr>firstBlock = (if firstBlock (group_at s k') = None then Some h else firstBlock (group_at s k')),
              lastBlock = Some h, nCoins = nCoins (group_at s k') + int (length cs)\<rparr>"
  let ?s = "add_minted k' ht cs (put_latest (fst k') (snd k') (put_group k' ?g s))"
  have eq: "add_groups h ht ((k', cs) # m) s = add_groups h ht m ?s"
    using 2(3) by (simp add: Let_def)
  have IH: "coinGroups (add_groups h ht m ?s) k =
      (case map_of m k of None \<Rightarrow> coinGroups ?s k | Some cs \<Rightarrow> Some (grown h (length cs) (group_at ?s k)))"
    by (rule 2(1)) (use 2(2,3) in \<open>simp_all add: Let_def\<close>)
  have "map_of m k' = None" using 2(2) by (simp add: map_of_eq_None_iff)
  then show ?case
    unfolding eq IH by (auto simp: grown_def group_at_def split: option.splits)
qed simp

lemma add_groups_latest:
  assumes "distinct (map (fst \<circ> fst) m)"
  shows "latestCoinIds (add_groups h ht m s) d = (case block_id m d of None \<Rightarrow> latestCoinIds s d | Some i \<Rightarrow> Some i)"
  using assms
proof (induction h ht m s rule: add_groups.induct)
  case (2 h ht k cs m s)
  have "block_id m (fst k) = None"
    using 2(2) by (auto simp: block_id_def map_of_eq_None_iff image_image)
  then show ?case
    using 2 by (auto simp: Let_def split: option.splits)
qed simp

lemma add_groups_minted:
  "mintedPubCoins (add_groups h ht m s) v =
     (case mintedPubCoins s v of Some x \<Rightarrow> Some x | None \<Rightarrow> map_of (minted_entries ht m) v)"
  by (induction h ht m s rule: add_groups.induct)
     (auto simp: Let_def add_minted_minted map_add_def split: option.splits)

subsection \<open>Blocks that may follow a state\<close>

definition id_follows :: "('g, 's) CSigmaState \<Rightarrow> CoinDenomination \<Rightarrow> int \<Rightarrow> bool" where
  "id_follows s d i \<longleftrightarrow>
     (if coinGroups s (d, i) = None then i = latest_at s d + 1 else i = latest_at s d)"

definition mints_ok :: "('g, 's) CSigmaState \<Rightarrow> 'g minted_map \<Rightarrow> bool" where
  "mints_ok s m \<longleftrightarrow>
     sorted_wrt (<) (map fst m) \<and> distinct (map (fst \<circ> fst) m)
     \<and> (\<forall>(k, cs) \<in> set m. cs \<noteq> [] \<and> (\<forall>c \<in> set cs. pc_denomination c = fst k) \<and> id_follows s (fst k) (snd k))
     \<and> distinct (coins_of m) \<and> (\<forall>v \<in> set (coins_of m). mintedPubCoins s v = None)"

definition groups_ok :: "('g, 's) CSigmaState \<Rightarrow> bool" where
  "groups_ok s \<longleftrightarrow>
     (\<forall>d i. coinGroups s (d, i) \<noteq> None \<longleftrightarrow> 1 \<le> i \<and> i \<le> latest_at s d) \<and> (\<forall>d. 0 \<le> latest_at s d)
     \<and> (\<forall>k g. coinGroups s k = Some g \<longrightarrow> 0 < nCoins g \<and> firstBlock g \<noteq> None \<and> lastBlock g \<noteq> None)"

lemma sorted_keys_distinct: "sorted_wrt (<) (map fst m) \<Longrightarrow> distinct (map fst (m :: ('k::linorder \<times> 'v) list))"
  by (simp add: strict_sorted_iff)

lemma map_of_map_push:
  fixes m :: "('k::linorder \<times> 'v list) list"
  assumes "sorted_wrt (<) (map fst m)"
  shows "map_of (map_push k v m) = (map_of m)(k \<mapsto> (case map_of m k of None \<Rightarrow> [] | Some vs \<Rightarrow> vs) @ [v])"
  using assms
proof (induction k v m rule: map_push.induct)
  case (2 k v k' vs m)
  have "map_of m k = None" if "k < k'"
    using 2(2) that by (force simp: map_of_eq_None_iff)
  then show ?case using 2 by (auto simp: fun_eq_iff)
qed (simp add: fun_eq_iff)

lemma set_keys_map_push: "set (map fst (map_push k v m)) = insert k (set (map fst m))"
  by (induction k v m rule: map_push.induct) auto

lemma sorted_map_push:
  fixes m :: "('k::linorder \<times> 'v list) list"
  assumes "sorted_wrt (<) (map fst m)"
  shows "sorted_wrt (<) (map fst (map_push k v m))"
  using assms
proof (induction k v m rule: map_push.induct)
  case (2 k v k' vs m)
  then show ?case using set_keys_map_push [of k v m] by (auto simp del: set_map)
qed simp

lemma mset_coins_map_push: "mset (coins_of (map_push k c m)) = add_mset (pc_value c) (mset (coins_of m))"
  by (induction k c m rule: map_push.induct) auto

lemma set_entries_map_push:
  "set (minted_entries ht (map_push k c m)) =
     insert (pc_value c, \<lparr>mi_denomination = fst k, mi_id = snd k, mi_nHeight = ht\<rparr>) (set (minted_entries ht m))"
  by (induction k c m rule: map_push.induct) auto

lemma set_map_push:
  "x \<in> set (map_push k c m) \<Longrightarrow> x \<in> set m \<or> (\<exists>cs. x = (k, cs @ [c]) \<and> (cs = [] \<or> (k, cs) \<in> set m))"
  by (induction k c m rule: map_push.induct) (auto split: if_splits)

lemma keys_map_push:
  fixes m :: "('k::linorder \<times> 'v list) list"
  assumes "sorted_wrt (<) (map fst m)"
  shows "mset (map fst (map_push k v m)) = (if k \<in> set (map fst m) then mset (map fst m) else add_mset k (mset (map fst m)))"
  using assms
proof (induction k v m rule: map_push.induct)
  case (2 k v k' vs m)
  then show ?case by (auto simp: image_iff)
qed simp

lemma block_id_map_push:
  assumes "sorted_wrt (<) (map fst m)" and "distinct (map (fst \<circ> fst) m)"
    and "block_id m (fst k) = None \<or> block_id m (fst k) = Some (snd k)"
  shows "distinct (map (fst \<circ> fst) (map_push k c m))"
    and "block_id (map_push k c m) = (block_id m)(fst k \<mapsto> snd k)"
proof -
  let ?n = "map_push k c m"
  have keys: "mset (map (fst \<circ> fst) ?n) =
      (if k \<in> set (map fst m) then mset (map (fst \<circ> fst) m) else add_mset (fst k) (mset (map (fst \<circ> fst) m)))"
    using arg_cong [OF keys_map_push [OF assms(1), of k c], of "image_mset fst"]
    by (auto simp: image_mset.compositionality comp_def split: if_splits)
  have new: "fst k \<notin> set (map (fst \<circ> fst) m)" if "k \<notin> set (map fst m)"
  proof -
    have "block_id m (fst k) \<noteq> Some (snd k)"
      using that map_of_SomeD [of "map fst m" "fst k" "snd k"] by (auto simp: block_id_def simp del: set_map)
    then have "map_of (map fst m) (fst k) = None" using assms(3) by (simp add: block_id_def)
    then show ?thesis by (simp add: map_of_eq_None_iff image_image comp_def)
  qed
  have ms: "mset (map (fst \<circ> fst) ?n) =
      mset (if k \<in> set (map fst m) then map (fst \<circ> fst) m else fst k # map (fst \<circ> fst) m)"
    using keys by simp
  show d: "distinct (map (fst \<circ> fst) ?n)"
    unfolding mset_eq_imp_distinct_iff [OF ms] using assms(2) new by (cases "k \<in> set (map fst m)") (simp_all only: if_True if_False distinct.simps not_False_eq_True simp_thms)
  have key: "block_id ?n e = Some i \<longleftrightarrow> (e, i) \<in> insert k (set (map fst m))" for e i
    unfolding block_id_def using d set_keys_map_push [of k c m]
    by (subst map_of_eq_Some_iff) (simp_all del: set_map)
  have old: "block_id m e = Some i \<longleftrightarrow> (e, i) \<in> set (map fst m)" for e i
    unfolding block_id_def using assms(2) by (subst map_of_eq_Some_iff) simp_all
  show "block_id ?n = (block_id m)(fst k \<mapsto> snd k)"
  proof
    fix e
    show "block_id ?n e = ((block_id m)(fst k \<mapsto> snd k)) e"
    proof (cases "e = fst k")
      case True
      then show ?thesis using key [of e "snd k"] by simp
    next
      case False
      then have "block_id ?n e = Some i \<longleftrightarrow> block_id m e = Some i" for i
        by (auto simp: key old)
      then have "block_id ?n e = block_id m e" by (metis (no_types) not_None_eq)
      then show ?thesis using False by simp
    qed
  qed
qed

subsection \<open>Minting the coins of a block\<close>

lemma mints_okD:
  assumes "mints_ok s m"
  shows "distinct (map fst m)" "\<forall>(k, cs) \<in> set m. cs \<noteq> []" "distinct (map (fst \<circ> fst) m)"
    "sorted_wrt (<) (map fst m)" "distinct (coins_of m)" "\<forall>v \<in> set (coins_of m). mintedPubCoins s v = None"
  using assms by (auto simp: mints_ok_def dest: sorted_keys_distinct)

lemma mints_ok_empty [simp]: "mints_ok s []"
  by (simp add: mints_ok_def)

lemma block_id_Some:
  assumes "mints_ok s m"
  shows "block_id m d = Some i \<longleftrightarrow> map_of m (d, i) \<noteq> None"
  using mints_okD(1,3) [OF assms] map_of_eq_Some_iff [of "map fst m" d i]
  by (auto simp: block_id_def map_of_eq_None_iff comp_def)

lemma block_id_follows: "mints_ok s m \<Longrightarrow> block_id m d = Some i \<Longrightarrow> id_follows s d i"
  by (auto simp: mints_ok_def block_id_def dest!: map_of_SomeD)

text \<open>The effect of a mint: group \<open>(d, i)\<close> grows by one coin.\<close>

definition minted_state :: "uint256 \<Rightarrow> int \<Rightarrow> int \<Rightarrow> 'g PublicCoin \<Rightarrow> ('g, 's) CSigmaState \<Rightarrow> ('g, 's) CSigmaState" where
  "minted_state h ht i c s =
     record_mint i ht c (put_group (pc_denomination c, i) (grown h 1 (group_at s (pc_denomination c, i))) (put_latest (pc_denomination c) i s))"

lemma mints_ok_map_push:
  assumes ok: "mints_ok s m" and i: "block_id m d = Some i \<or> block_id m d = None \<and> id_follows s d i"
    and c: "pc_denomination c = d" "pc_value c \<notin> set (coins_of m)" "mintedPubCoins s (pc_value c) = None"
  shows "mints_ok s (map_push (d, i) c m)"
proof -
  note D = mints_okD [OF ok]
  let ?n = "map_push (d, i) c m"
  have follows: "id_follows s d i" using i block_id_follows [OF ok] by blast
  have ms: "mset (coins_of ?n) = mset (pc_value c # coins_of m)"
    by (simp add: mset_coins_map_push)
  have "distinct (coins_of ?n)" using mset_eq_imp_distinct_iff [OF ms] D(5) c(2) by simp
  moreover have "set (coins_of ?n) = insert (pc_value c) (set (coins_of m))"
    using mset_eq_setD [OF ms] by simp
  moreover have "\<forall>(k, cs) \<in> set ?n. cs \<noteq> [] \<and> (\<forall>c \<in> set cs. pc_denomination c = fst k) \<and> id_follows s (fst k) (snd k)"
    using ok c(1) follows by (fastforce simp: mints_ok_def dest!: set_map_push)
  ultimately show ?thesis
    using sorted_map_push [OF D(4)] block_id_map_push(1) [OF D(4,3), of "(d, i)" c] i D(6) c(3)
    by (auto simp: mints_ok_def)
qed

lemma map_of_entries_push:
  assumes "distinct (coins_of m)" and "pc_value c \<notin> set (coins_of m)"
  shows "map_of (minted_entries ht (map_push k c m)) =
    (map_of (minted_entries ht m))(pc_value c \<mapsto> \<lparr>mi_denomination = fst k, mi_id = snd k, mi_nHeight = ht\<rparr>)"
proof -
  let ?e = "(pc_value c, \<lparr>mi_denomination = fst k, mi_id = snd k, mi_nHeight = ht\<rparr>)"
  have ms: "mset (coins_of (map_push k c m)) = mset (pc_value c # coins_of m)"
    by (simp add: mset_coins_map_push)
  have "distinct (coins_of (map_push k c m))" using mset_eq_imp_distinct_iff [OF ms] assms by simp
  then have "map_of (minted_entries ht (map_push k c m)) = map_of (?e # minted_entries ht m)"
    using assms by (subst map_of_inject_set) (simp_all add: set_entries_map_push)
  then show ?thesis by simp
qed

lemma map_of_entries_None: "v \<notin> set (coins_of m) \<Longrightarrow> map_of (minted_entries ht m) v = None"
  unfolding map_of_eq_None_iff by (metis fst_minted_entries set_map)

lemma grown_Suc: "grown h (Suc n) g = grown h 1 (grown h n g)"
  by (simp add: grown_def)

lemma minted_state_sel:
  "coinGroups (minted_state h ht i c s) =
     (coinGroups s)((pc_denomination c, i) \<mapsto> grown h 1 (group_at s (pc_denomination c, i)))"
  "latestCoinIds (minted_state h ht i c s) = (latestCoinIds s)(pc_denomination c \<mapsto> i)"
  "mintedPubCoins (minted_state h ht i c s) =
     map_insert (mintedPubCoins s) (pc_value c) \<lparr>mi_denomination = pc_denomination c, mi_id = i, mi_nHeight = ht\<rparr>"
  "usedCoinSerials (minted_state h ht i c s) = usedCoinSerials s"
  "mempoolCoinSerials (minted_state h ht i c s) = mempoolCoinSerials s"
  by (simp_all add: minted_state_def record_mint_def)

lemma add_groups_map_push:
  assumes ok: "mints_ok s m" and ok': "mints_ok s (map_push (d, i) c m)"
    and i: "block_id m d = Some i \<or> block_id m d = None"
    and c: "pc_denomination c = d" "pc_value c \<notin> set (coins_of m)" "mintedPubCoins s (pc_value c) = None"
  shows "add_groups h ht (map_push (d, i) c m) s = minted_state h ht i c (add_groups h ht m s)"
proof -
  note D = mints_okD [OF ok] and D' = mints_okD [OF ok']
  let ?n = "map_push (d, i) c m" and ?t = "add_groups h ht m s"
  note groups = add_groups_coinGroups [OF D'(1,2)] add_groups_coinGroups [OF D(1,2)] map_of_map_push [OF D(4)]
  have "coinGroups (add_groups h ht ?n s) k = coinGroups (minted_state h ht i c ?t) k" for k
  proof (cases "k = (d, i)")
    case True
    show ?thesis
    proof (cases "map_of m (d, i)")
      case None
      then have "group_at ?t (d, i) = group_at s (d, i)" by (intro group_at_cong) (simp add: groups)
      with None True c(1) show ?thesis by (simp add: groups minted_state_sel)
    next
      case (Some cs)
      then have "group_at ?t (d, i) = grown h (length cs) (group_at s (d, i))" by (simp add: groups group_at_def)
      with Some True c(1) show ?thesis by (simp add: groups minted_state_sel grown_Suc [of h "length cs"])
    qed
  next
    case False
    with c(1) show ?thesis by (simp add: groups minted_state_sel)
  qed
  moreover have "latestCoinIds (add_groups h ht ?n s) e = latestCoinIds (minted_state h ht i c ?t) e" for e
    using c(1) i block_id_map_push(2) [OF D(4,3), of "(d, i)" c]
    by (auto simp: minted_state_sel add_groups_latest [OF D'(3)] add_groups_latest [OF D(3)])
  moreover have "mintedPubCoins (add_groups h ht ?n s) v = mintedPubCoins (minted_state h ht i c ?t) v" for v
    using c(1,3)
    by (auto simp: minted_state_sel map_of_entries_push [OF D(5) c(2)] map_of_entries_None [OF c(2)] add_groups_minted map_insert_apply split: option.splits)
  ultimately show ?thesis
    by (intro CSigmaState.equality ext) (simp_all add: minted_state_sel)
qed

definition groups_in :: "('g, 's) SigmaMap \<Rightarrow> uint256 \<Rightarrow> int \<Rightarrow> ('g, 's) CSigmaState \<Rightarrow> bool" where
  "groups_in idx h ht s \<longleftrightarrow>
     (\<forall>k g. coinGroups s k = Some g \<longrightarrow> (\<exists>l lb. lastBlock g = Some l \<and> l \<noteq> h \<and> idx l = Some lb \<and> nHeight lb \<le> ht))"

lemma group_at_put_latest [simp]: "group_at (put_latest d i s) k = group_at s k"
  by (intro group_at_cong) simp

lemma put_latest_twice [simp]: "put_latest d i (put_latest d j s) = put_latest d i s"
  by (simp add: put_latest_def)

lemma add_to_group_default:
  "add_to_group idx h ht SigmaCoinGroupInfo_default = Some (grown h 1 SigmaCoinGroupInfo_default)"
  by (simp add: add_to_group_def SigmaCoinGroupInfo_default_def grown_def)

lemma add_to_group_grown:
  assumes "0 < nCoins g" "firstBlock g \<noteq> None" "lastBlock g = Some l" "idx l = Some lb" "nHeight lb \<le> ht"
  shows "add_to_group idx h ht g = Some (grown h 1 g)"
  using assms by (auto simp: add_to_group_def grown_def)

lemma AddMint_into:
  assumes b: "idx h = Some b" "nHeight b = ht" and d: "d = pc_denomination c" and i: "i = (if latest_at t d < 1 then 1 else latest_at t d)"
    and room: "nCoins (group_at t (d, i)) < ZC_SPEND_V3_COINSPERID \<or> lastBlock (group_at t (d, i)) = Some h"
    and add: "add_to_group idx h ht (group_at t (d, i)) = Some (grown h 1 (group_at t (d, i)))"
  shows "AddMint idx h c t = Some (minted_state h ht i c t, i)"
  using b room add by (simp add: AddMint_def minted_state_def Let_def flip: d i)

lemma AddMint_opens:
  assumes b: "idx h = Some b" "nHeight b = ht" and d: "d = pc_denomination c" and i: "1 \<le> latest_at t d" "i = latest_at t d + 1"
    and full: "\<not> (nCoins (group_at t (d, latest_at t d)) < ZC_SPEND_V3_COINSPERID \<or> lastBlock (group_at t (d, latest_at t d)) = Some h)"
    and new: "coinGroups t (d, i) = None"
  shows "AddMint idx h c t = Some (minted_state h ht i c t, i)"
proof -
  have "grown h 1 (group_at t (d, i)) = \<lparr>firstBlock = Some h, lastBlock = Some h, nCoins = 1\<rparr>"
    using new by (simp add: group_at_def grown_def SigmaCoinGroupInfo_default_def)
  then show ?thesis
    using b i(1) full by (simp add: AddMint_def minted_state_def Let_def flip: d i(2))
qed

lemma latest_at_add_groups:
  "mints_ok s m \<Longrightarrow> latest_at (add_groups h ht m s) d = (case block_id m d of None \<Rightarrow> latest_at s d | Some i \<Rightarrow> i)"
  by (auto simp: latest_at_def add_groups_latest mints_okD split: option.splits)

lemma group_at_add_groups:
  "mints_ok s m \<Longrightarrow> group_at (add_groups h ht m s) k =
     (case map_of m k of None \<Rightarrow> group_at s k | Some cs \<Rightarrow> grown h (length cs) (group_at s k))"
  by (auto simp: group_at_def add_groups_coinGroups mints_okD split: option.splits)

lemma groups_okD:
  assumes "groups_ok s"
  shows "coinGroups s (d, i) \<noteq> None \<longleftrightarrow> 1 \<le> i \<and> i \<le> latest_at s d" "0 \<le> latest_at s d" "0 \<le> nCoins (group_at s k)"
    "coinGroups s k = Some g \<Longrightarrow> 0 < nCoins g \<and> firstBlock g \<noteq> None \<and> lastBlock g \<noteq> None"
proof -
  show "coinGroups s (d, i) \<noteq> None \<longleftrightarrow> 1 \<le> i \<and> i \<le> latest_at s d" "0 \<le> latest_at s d"
    using assms unfolding groups_ok_def by blast+
  have *: "0 < nCoins g \<and> firstBlock g \<noteq> None \<and> lastBlock g \<noteq> None" if "coinGroups s k = Some g" for k g
    using assms that unfolding groups_ok_def by blast
  then show "coinGroups s k = Some g \<Longrightarrow> 0 < nCoins g \<and> firstBlock g \<noteq> None \<and> lastBlock g \<noteq> None" .
  show "0 \<le> nCoins (group_at s k)"
    using * [of k] by (cases "coinGroups s k") (simp_all add: group_at_def SigmaCoinGroupInfo_default_def less_imp_le)
qed

lemma id_follows_pos: "groups_ok s \<Longrightarrow> id_follows s d i \<Longrightarrow> 1 \<le> i"
  using groups_okD(1) [of s d i] groups_okD(2) [of s d] by (auto simp: id_follows_def split: if_splits)

lemma AddMint_spec:
  assumes ok: "mints_ok s m" and g: "groups_ok s" and l: "groups_in idx h ht s"
    and b: "idx h = Some b" "nHeight b = ht" and t: "t = add_groups h ht m s" and d: "d = pc_denomination c"
  shows "\<exists>i. AddMint idx h c t = Some (minted_state h ht i c t, i)
           \<and> (block_id m d = Some i \<or> block_id m d = None \<and> id_follows s d i)"
proof (cases "block_id m d")
  case (Some i)
  then obtain cs where cs: "map_of m (d, i) = Some cs" using block_id_Some [OF ok] by auto
  have len: "0 < length cs" using mints_okD(2) [OF ok] map_of_SomeD [OF cs] by auto
  have "1 \<le> i" using id_follows_pos [OF g block_id_follows [OF ok Some]] .
  moreover have grp: "group_at t (d, i) = grown h (length cs) (group_at s (d, i))"
    using cs by (simp add: t group_at_add_groups [OF ok])
  moreover have "add_to_group idx h ht (group_at t (d, i)) = Some (grown h 1 (group_at t (d, i)))"
    by (rule add_to_group_grown [of _ h _ b]) (use b len groups_okD(3) [OF g, of "(d, i)"] in \<open>simp_all add: grp grown_def add_nonneg_pos\<close>)
  ultimately have "AddMint idx h c t = Some (minted_state h ht i c t, i)"
    using Some by (intro AddMint_into [of idx h b ht d c, OF b d]) (simp_all add: t latest_at_add_groups [OF ok], simp add: grown_def)
  with Some show ?thesis by auto
next
  case None
  then have no: "map_of m (d, i) = None" for i using block_id_Some [OF ok, of d i] by simp
  have same: "latest_at t d = latest_at s d" "group_at t (d, i) = group_at s (d, i)" "coinGroups t (d, i) = coinGroups s (d, i)" for i
    using None no [of i] mints_okD(1,2) [OF ok]
    by (simp_all add: t latest_at_add_groups [OF ok] group_at_add_groups [OF ok] add_groups_coinGroups)
  let ?l = "latest_at s d"
  show ?thesis
  proof (cases "?l = 0")
    case True
    then have "coinGroups s (d, 1) = None" using groups_okD(1) [OF g, of d 1] by auto
    then have "AddMint idx h c t = Some (minted_state h ht 1 c t, 1)" "id_follows s d 1"
      using True same by (auto intro!: AddMint_into [of idx h b ht d c, OF b d] simp: group_at_def add_to_group_default [unfolded SigmaCoinGroupInfo_default_def] id_follows_def
          SigmaCoinGroupInfo_default_def ZC_SPEND_V3_COINSPERID_def simp del: One_nat_def)
    with None show ?thesis by auto
  next
    case False
    then have l1: "1 \<le> ?l" using groups_okD(2) [OF g, of d] by simp
    then obtain gr where gr: "coinGroups s (d, ?l) = Some gr" using groups_okD(1) [OF g, of d ?l] by auto
    obtain q qb where q: "lastBlock gr = Some q" "q \<noteq> h" "idx q = Some qb" "nHeight qb \<le> ht"
      using l gr unfolding groups_in_def by blast
    show ?thesis
    proof (cases "nCoins gr < ZC_SPEND_V3_COINSPERID")
      case True
      have "AddMint idx h c t = Some (minted_state h ht ?l c t, ?l)" "id_follows s d ?l"
        using True l1 gr same add_to_group_grown [of gr q idx qb ht h] groups_okD(4) [OF g gr] q
        by (auto intro!: AddMint_into [of idx h b ht d c, OF b d] simp: group_at_def id_follows_def)
      with None show ?thesis by auto
    next
      case no_room: False
      have "coinGroups s (d, ?l + 1) = None" using groups_okD(1) [OF g, of d "?l + 1"] by auto
      then have "AddMint idx h c t = Some (minted_state h ht (?l + 1) c t, ?l + 1)" "id_follows s d (?l + 1)"
        using no_room l1 gr same q by (auto intro!: AddMint_opens [of idx h b ht d c, OF b d] simp: group_at_def id_follows_def)
      with None show ?thesis by auto
    qed
  qed
qed

lemma connect_mints_spec:
  assumes g: "groups_ok s" and l: "groups_in idx h ht s" and ok: "mints_ok s m"
    and b: "idx h = Some b" "nHeight b = ht" "sigmaMintedPubCoins b = m"
    and fresh: "distinct (coins_of m @ map pc_value ms)" "\<forall>c \<in> set ms. mintedPubCoins s (pc_value c) = None"
  shows "\<exists>n. connect_mints h ms (idx, add_groups h ht m s) = Some (idx(h \<mapsto> b\<lparr>sigmaMintedPubCoins := n\<rparr>), add_groups h ht n s)
           \<and> mints_ok s n"
  using l ok b fresh
proof (induction ms arbitrary: idx b m)
  case Nil
  then show ?case by (intro exI [of _ m]) (auto simp: fun_eq_iff)
next
  case (Cons c ms)
  let ?d = "pc_denomination c"
  obtain i where i: "AddMint idx h c (add_groups h ht m s) = Some (minted_state h ht i c (add_groups h ht m s), i)"
      "block_id m ?d = Some i \<or> block_id m ?d = None \<and> id_follows s ?d i"
    using AddMint_spec [OF Cons.prems(2) g Cons.prems(1,3,4) refl refl] by blast
  let ?n = "map_push (?d, i) c m"
  have c: "pc_value c \<notin> set (coins_of m)" "mintedPubCoins s (pc_value c) = None" using Cons.prems by auto
  have ok': "mints_ok s ?n" by (rule mints_ok_map_push [OF Cons.prems(2) i(2) refl c])
  have eq: "minted_state h ht i c (add_groups h ht m s) = add_groups h ht ?n s"
    using add_groups_map_push [OF Cons.prems(2) ok' _ refl c] i(2) by auto
  let ?b = "b\<lparr>sigmaMintedPubCoins := ?n\<rparr>"
  have ms: "mset (coins_of ?n @ map pc_value ms) = mset (coins_of m @ map pc_value (c # ms))"
    by (simp add: mset_coins_map_push)
  have "\<exists>n'. connect_mints h ms (idx(h \<mapsto> ?b), add_groups h ht ?n s)
      = Some ((idx(h \<mapsto> ?b))(h \<mapsto> ?b\<lparr>sigmaMintedPubCoins := n'\<rparr>), add_groups h ht n' s) \<and> mints_ok s n'"
  proof (rule Cons.IH)
    show "groups_in (idx(h \<mapsto> ?b)) h ht s" using Cons.prems(1) by (fastforce simp: groups_in_def)
    show "distinct (coins_of ?n @ map pc_value ms)" using mset_eq_imp_distinct_iff [OF ms] Cons.prems(6) by simp
  qed (use Cons.prems ok' in simp_all)
  then obtain n' where n': "connect_mints h ms (idx(h \<mapsto> ?b), add_groups h ht ?n s)
      = Some (idx(h \<mapsto> b\<lparr>sigmaMintedPubCoins := n'\<rparr>), add_groups h ht n' s)" "mints_ok s n'"
    by auto
  show ?case
    by (intro exI [of _ n'] conjI n'(2)) (use i(1) Cons.prems(3,5) eq n'(1) in \<open>simp add: fun_eq_iff\<close>)
qed

lemma connect_spends_spec:
  assumes "connect_spends info h b False serials (idx, s) = (True, idx', s')" and "idx h = Some b"
  shows "idx' = idx(h \<mapsto> b\<lparr>sigmaSpentSerials := sigmaSpentSerials b \<union> set serials\<rparr>)
       \<and> s' = s\<lparr>usedCoinSerials := usedCoinSerials s \<union> set serials\<rparr> \<and> set serials \<inter> usedCoinSerials s = {}"
  using assms
proof (induction serials arbitrary: idx s b)
  case Nil
  then show ?case by (auto simp: fun_eq_iff)
next
  case (Cons x xs)
  let ?b = "b\<lparr>sigmaSpentSerials := insert x (sigmaSpentSerials b)\<rparr>"
  have ok: "CheckSigmaSpendSerial (Some info) x (nHeight b) True s"
    and rest: "connect_spends info h ?b False xs (idx(h \<mapsto> ?b), AddSpend x s) = (True, idx', s')"
    using Cons.prems(1) by (simp_all add: Let_def split: if_splits)
  have "x \<notin> usedCoinSerials s" using ok by (auto simp: CheckSigmaSpendSerial_def IsUsedCoinSerial_def split: if_splits)
  then show ?case using Cons.IH [OF rest] by (auto simp: AddSpend_def)
qed

subsection \<open>States that hold the same coins\<close>

definition same_coins :: "('g, 's) CSigmaState \<Rightarrow> ('g, 's) CSigmaState \<Rightarrow> bool" where
  "same_coins s t \<longleftrightarrow> coinGroups s = coinGroups t \<and> mintedPubCoins s = mintedPubCoins t
     \<and> (\<forall>d. GetLatestCoinID d s = GetLatestCoinID d t) \<and> usedCoinSerials s = usedCoinSerials t"

lemma GetLatestCoinID_at: "GetLatestCoinID d s = latest_at s d"
  by (simp add: GetLatestCoinID_def latest_at_def)

lemma same_coins_refl [simp]: "same_coins s s"
  by (simp add: same_coins_def)

lemma same_coins_sym: "same_coins s t \<Longrightarrow> same_coins t s"
  by (simp add: same_coins_def)

lemma same_coins_trans [trans]: "same_coins s t \<Longrightarrow> same_coins t u \<Longrightarrow> same_coins s u"
  by (simp add: same_coins_def)

lemma same_coins_cong:
  assumes "same_coins s t"
  shows "mints_ok s m = mints_ok t m" "groups_ok s = groups_ok t" "groups_in idx h ht s = groups_in idx h ht t"
proof -
  have "latest_at s = latest_at t" using assms by (simp add: same_coins_def GetLatestCoinID_at fun_eq_iff)
  moreover have "coinGroups s = coinGroups t" "mintedPubCoins s = mintedPubCoins t"
    using assms by (simp_all add: same_coins_def)
  ultimately show "mints_ok s m = mints_ok t m" "groups_ok s = groups_ok t" "groups_in idx h ht s = groups_in idx h ht t"
    unfolding mints_ok_def id_follows_def groups_ok_def groups_in_def by (simp_all only:)
qed

lemma same_coins_add_groups:
  assumes "same_coins s t" and ok: "mints_ok s m"
  shows "same_coins (add_groups h ht m s) (add_groups h ht m t)"
proof -
  have ok': "mints_ok t m" using same_coins_cong(1) [OF assms(1)] ok by simp
  have "group_at s k = group_at t k" for k using assms(1) by (intro group_at_cong) (simp add: same_coins_def)
  then show ?thesis
    using assms(1) by (auto simp: same_coins_def GetLatestCoinID_at fun_eq_iff latest_at_add_groups [OF ok] latest_at_add_groups [OF ok']
        add_groups_coinGroups [OF mints_okD(1,2) [OF ok]] add_groups_minted split: option.splits)
qed

subsection \<open>Removing what was added\<close>

definition has_key :: "('g, 's) SigmaMap \<Rightarrow> group_key \<Rightarrow> uint256 \<Rightarrow> bool" where
  "has_key idx k h \<longleftrightarrow> (case idx h of None \<Rightarrow> False | Some b \<Rightarrow> map_of (sigmaMintedPubCoins b) k \<noteq> None)"

definition links :: "('g, 's) SigmaMap \<Rightarrow> uint256 \<Rightarrow> uint256 \<Rightarrow> bool" where
  "links idx a h \<longleftrightarrow> (\<exists>b. idx h = Some b \<and> pprev b = Some a) \<and> idx a \<noteq> None"

lemma roll_back_finds:
  assumes "successively (links idx) (q # ys @ [h])" and "has_key idx k q" and "\<forall>y \<in> set ys. \<not> has_key idx k y"
    and "\<forall>y \<in> set (ys @ [h]). first \<noteq> Some y"
  shows "roll_back idx k first (Some h) = Some (Some q)"
  using assms
proof (induction ys arbitrary: h rule: rev_induct)
  case Nil
  then obtain b c where "idx h = Some b" "pprev b = Some q" "idx q = Some c" by (auto simp: links_def)
  with Nil show ?case by (subst roll_back.simps) (auto simp: has_key_def)
next
  case (snoc y ys)
  have "links idx y h" using snoc.prems(1) by (auto simp: successively_append_iff successively_Cons)
  then obtain b c where bc: "idx h = Some b" "pprev b = Some y" "idx y = Some c" by (auto simp: links_def)
  have "roll_back idx k first (Some y) = Some (Some q)"
    using snoc.prems successively_append_iff [of "links idx" "q # ys @ [y]" "[h]"] by (intro snoc.IH) auto
  with bc snoc.prems(3,4) show ?case by (subst roll_back.simps) (auto simp: has_key_def)
qed

subsection \<open>Removing the groups and the coins of a block\<close>

lemma mints_ok_tail:
  assumes "mints_ok s ((k, cs) # m)"
  shows "mints_ok s m" "map_of m k = None" "block_id m (fst k) = None" "id_follows s (fst k) (snd k)" "cs \<noteq> []"
proof -
  show "mints_ok s m" "id_follows s (fst k) (snd k)" "cs \<noteq> []" using assms by (auto simp: mints_ok_def)
  show "map_of m k = None" "block_id m (fst k) = None"
    using mints_okD(1,3) [OF assms] by (simp_all add: block_id_def map_of_eq_None_iff image_image comp_def)
qed

lemma remove_groups_spec:
  assumes "mints_ok s m" and g: "groups_ok s"
    and "coinGroups t = coinGroups (add_groups h ht m s)" and "\<forall>d. latest_at t d = latest_at (add_groups h ht m s) d"
    and rb: "\<And>k gr. map_of m k \<noteq> None \<Longrightarrow> coinGroups s k = Some gr \<Longrightarrow> roll_back idx k (firstBlock gr) (Some h) = Some (lastBlock gr)"
  shows "\<exists>u. remove_groups idx h m t = Some u \<and> coinGroups u = coinGroups s \<and> (\<forall>d. latest_at u d = latest_at s d)
     \<and> mintedPubCoins u = mintedPubCoins t \<and> usedCoinSerials u = usedCoinSerials t \<and> mempoolCoinSerials u = mempoolCoinSerials t"
  using assms(1,3,4) rb
proof (induction m arbitrary: t)
  case Nil
  then show ?case by simp
next
  case (Cons x m)
  obtain k cs where x: "x = (k, cs)" by fastforce
  note ok = Cons.prems(1) [unfolded x] and T = mints_ok_tail [OF Cons.prems(1) [unfolded x]]
  have at: "group_at t k = grown h (length cs) (group_at s k)"
    using Cons.prems(2) by (simp add: x group_at_def [of t] add_groups_coinGroups [OF mints_okD(1,2) [OF ok]] del: add_groups.simps)
  have lat: "latest_at t d = (if d = fst k then snd k else latest_at (add_groups h ht m s) d)" for d
    using Cons.prems(3) by (simp add: x latest_at_add_groups [OF ok] latest_at_add_groups [OF T(1)] del: add_groups.simps)
  have lat0: "latest_at (add_groups h ht m s) (fst k) = latest_at s (fst k)"
    using T(3) by (simp add: latest_at_add_groups [OF T(1)])
  have grp: "coinGroups t j = (if j = k then Some (grown h (length cs) (group_at s k)) else coinGroups (add_groups h ht m s) j)" for j
    using Cons.prems(2)
    by (simp add: x add_groups_coinGroups [OF mints_okD(1,2) [OF ok]] add_groups_coinGroups [OF mints_okD(1,2) [OF T(1)]] del: add_groups.simps)
  have grp0: "coinGroups (add_groups h ht m s) k = coinGroups s k"
    using T(2) by (simp add: add_groups_coinGroups [OF mints_okD(1,2) [OF T(1)]])
  have IH: "\<exists>u. remove_groups idx h m v = Some u \<and> coinGroups u = coinGroups s \<and> (\<forall>d. latest_at u d = latest_at s d)
     \<and> mintedPubCoins u = mintedPubCoins v \<and> usedCoinSerials u = usedCoinSerials v \<and> mempoolCoinSerials u = mempoolCoinSerials v"
    if "\<And>j. coinGroups v j = coinGroups (add_groups h ht m s) j" "\<And>d. latest_at v d = latest_at (add_groups h ht m s) d" for v
    using that Cons.prems(4) by (intro Cons.IH [OF T(1)] ext allI) (auto simp: x)
  show ?case
  proof (cases "coinGroups s k")
    case None
    let ?v = "put_latest (fst k) (latest_at t (fst k) - 1) (t\<lparr>coinGroups := (coinGroups t)(k := None)\<rparr>)"
    have at0: "nCoins (group_at t k) = int (length cs)"
      using None by (simp add: at) (simp add: grown_def group_at_def SigmaCoinGroupInfo_default_def)
    have "snd k = latest_at s (fst k) + 1" using T(4) None by (simp add: id_follows_def)
    then have "\<exists>u. remove_groups idx h m ?v = Some u \<and> coinGroups u = coinGroups s \<and> (\<forall>d. latest_at u d = latest_at s d)
       \<and> mintedPubCoins u = mintedPubCoins ?v \<and> usedCoinSerials u = usedCoinSerials ?v \<and> mempoolCoinSerials u = mempoolCoinSerials ?v"
      using None lat lat0 by (intro IH) (auto simp: grp grp0 latest_at_def)
    then show ?thesis using at0 by (simp add: x)
  next
    case (Some gr)
    let ?g = "group_at t k"
    let ?v = "put_group k (?g\<lparr>nCoins := nCoins ?g - int (length cs), lastBlock := lastBlock gr\<rparr>) t"
    have pos: "0 < nCoins gr" "firstBlock gr \<noteq> None" using groups_okD(4) [OF g Some] by auto
    have gk: "?g = grown h (length cs) gr" using Some by (simp add: at) (simp add: group_at_def)
    have "snd k = latest_at s (fst k)" using T(4) Some by (simp add: id_follows_def)
    then have "\<exists>u. remove_groups idx h m ?v = Some u \<and> coinGroups u = coinGroups s \<and> (\<forall>d. latest_at u d = latest_at s d)
       \<and> mintedPubCoins u = mintedPubCoins ?v \<and> usedCoinSerials u = usedCoinSerials ?v \<and> mempoolCoinSerials u = mempoolCoinSerials ?v"
      using Some lat lat0 pos(2) by (intro IH) (auto simp: grp grp0 gk grown_def latest_at_def)
    moreover have "roll_back idx k (firstBlock ?g) (lastBlock ?g) = Some (lastBlock gr)"
      using Cons.prems(4) [of k gr] Some pos(2) by (auto simp: x gk grown_def)
    moreover have "nCoins ?g - int (length cs) \<noteq> 0" "\<not> nCoins ?g < int (length cs)" "lastBlock ?g = Some h"
      using pos(1) by (simp_all add: gk grown_def)
    ultimately show ?thesis by (simp add: x Let_def)
  qed
qed

lemma remove_coins_spec:
  assumes "distinct (map pc_value cs)"
    and "\<forall>c \<in> set cs. \<exists>info. mintedPubCoins t (pc_value c) = Some info \<and> mi_denomination info = fst k \<and> mi_id info = snd k"
  shows "remove_coins k cs t = Some (t\<lparr>mintedPubCoins := (\<lambda>v. if v \<in> pc_value ` set cs then None else mintedPubCoins t v)\<rparr>)"
  using assms
proof (induction cs arbitrary: t)
  case (Cons c cs)
  let ?t = "t\<lparr>mintedPubCoins := (mintedPubCoins t)(pc_value c := None)\<rparr>"
  obtain info where "mintedPubCoins t (pc_value c) = Some info" "mi_denomination info = fst k \<and> mi_id info = snd k"
    using Cons.prems(2) by auto
  then have "remove_coins k (c # cs) t = remove_coins k cs ?t" by simp
  also have "\<dots> = Some (?t\<lparr>mintedPubCoins := (\<lambda>v. if v \<in> pc_value ` set cs then None else mintedPubCoins ?t v)\<rparr>)"
    using Cons.prems by (intro Cons.IH) (auto simp: rev_image_eqI)
  also have "\<dots> = Some (t\<lparr>mintedPubCoins := (\<lambda>v. if v \<in> pc_value ` set (c # cs) then None else mintedPubCoins t v)\<rparr>)"
    by (auto simp: fun_eq_iff)
  finally show ?case .
qed simp

lemma in_coins_of: "(k, cs) \<in> set m \<Longrightarrow> c \<in> set cs \<Longrightarrow> pc_value c \<in> set (coins_of m)"
  by (induction m) auto

lemma in_minted_entries:
  "(k, cs) \<in> set m \<Longrightarrow> c \<in> set cs \<Longrightarrow>
     (pc_value c, \<lparr>mi_denomination = fst k, mi_id = snd k, mi_nHeight = ht\<rparr>) \<in> set (minted_entries ht m)"
  by (induction m) auto

lemma remove_minted_spec:
  assumes "distinct (coins_of m)"
    and "\<forall>(k, cs) \<in> set m. \<forall>c \<in> set cs. \<exists>info. mintedPubCoins t (pc_value c) = Some info \<and> mi_denomination info = fst k \<and> mi_id info = snd k"
  shows "remove_minted m t = Some (t\<lparr>mintedPubCoins := (\<lambda>v. if v \<in> set (coins_of m) then None else mintedPubCoins t v)\<rparr>)"
  using assms
proof (induction m arbitrary: t)
  case (Cons x m)
  obtain k cs where x: "x = (k, cs)" by fastforce
  let ?t = "t\<lparr>mintedPubCoins := (\<lambda>v. if v \<in> pc_value ` set cs then None else mintedPubCoins t v)\<rparr>"
  have "remove_minted (x # m) t = remove_minted m ?t"
    using Cons.prems remove_coins_spec [of cs t k] by (simp add: x)
  also have "\<dots> = Some (?t\<lparr>mintedPubCoins := (\<lambda>v. if v \<in> set (coins_of m) then None else mintedPubCoins ?t v)\<rparr>)"
  proof (rule Cons.IH)
    have "pc_value c \<notin> pc_value ` set cs" if "(k', cs') \<in> set m" "c \<in> set cs'" for k' cs' c
      using Cons.prems(1) in_coins_of [OF that] by (auto simp: x)
    then have eq: "mintedPubCoins ?t (pc_value c) = mintedPubCoins t (pc_value c)" if "(k', cs') \<in> set m" "c \<in> set cs'" for k' cs' c
      using that by auto
    have "\<exists>info. mintedPubCoins ?t (pc_value c) = Some info \<and> mi_denomination info = fst k' \<and> mi_id info = snd k'"
      if "(k', cs') \<in> set m" "c \<in> set cs'" for k' cs' c
      unfolding eq [OF that] using Cons.prems(2) that by (simp add: x) blast
    then show "\<forall>(k, cs) \<in> set m. \<forall>c \<in> set cs. \<exists>info. mintedPubCoins ?t (pc_value c) = Some info \<and> mi_denomination info = fst k \<and> mi_id info = snd k"
      by blast
  qed (use Cons.prems in \<open>simp add: x\<close>)
  also have "\<dots> = Some (t\<lparr>mintedPubCoins := (\<lambda>v. if v \<in> set (coins_of (x # m)) then None else mintedPubCoins t v)\<rparr>)"
    by (auto simp: x fun_eq_iff)
  finally show ?case .
qed simp

lemma minted_after_add:
  assumes "mints_ok s m" and "(k, cs) \<in> set m" and "c \<in> set cs"
  shows "mintedPubCoins (add_groups h ht m s) (pc_value c) = Some \<lparr>mi_denomination = fst k, mi_id = snd k, mi_nHeight = ht\<rparr>"
proof -
  have "mintedPubCoins s (pc_value c) = None" using mints_okD(6) [OF assms(1)] in_coins_of [OF assms(2,3)] by blast
  moreover have "map_of (minted_entries ht m) (pc_value c) = Some \<lparr>mi_denomination = fst k, mi_id = snd k, mi_nHeight = ht\<rparr>"
    using mints_okD(5) [OF assms(1)] in_minted_entries [OF assms(2,3)]
    by (subst map_of_eq_Some_iff) simp_all
  ultimately show ?thesis by (simp add: add_groups_minted)
qed

lemma RemoveBlock_spec:
  assumes b: "idx h = Some b" "nHeight b = ht" "sigmaMintedPubCoins b = m" and ok: "mints_ok s m" "groups_ok s"
    and t: "same_coins t (add_groups h ht m s\<lparr>usedCoinSerials := usedCoinSerials s \<union> sigmaSpentSerials b\<rparr>)"
    and spent: "sigmaSpentSerials b \<inter> usedCoinSerials s = {}"
    and rb: "\<And>k gr. map_of m k \<noteq> None \<Longrightarrow> coinGroups s k = Some gr \<Longrightarrow> roll_back idx k (firstBlock gr) (Some h) = Some (lastBlock gr)"
  shows "\<exists>u. RemoveBlock idx h t = Some (idx(h \<mapsto> b\<lparr>sigmaMintedPubCoins := [], sigmaSpentSerials := {}\<rparr>), u)
           \<and> same_coins u s \<and> mempoolCoinSerials u = mempoolCoinSerials t"
proof -
  let ?a = "add_groups h ht m s"
  have T: "coinGroups t = coinGroups ?a" "mintedPubCoins t = mintedPubCoins ?a" "\<forall>d. latest_at t d = latest_at ?a d"
    "usedCoinSerials t = usedCoinSerials s \<union> sigmaSpentSerials b"
    using t by (simp_all add: same_coins_def GetLatestCoinID_at) (simp add: latest_at_def)
  obtain u where u: "remove_groups idx h m t = Some u" "coinGroups u = coinGroups s" "\<forall>d. latest_at u d = latest_at s d"
    "mintedPubCoins u = mintedPubCoins t" "usedCoinSerials u = usedCoinSerials t" "mempoolCoinSerials u = mempoolCoinSerials t"
    using remove_groups_spec [OF ok T(1,3) rb] by blast
  let ?w = "u\<lparr>mintedPubCoins := (\<lambda>v. if v \<in> set (coins_of m) then None else mintedPubCoins u v)\<rparr>"
  have "remove_minted m u = Some ?w"
    using minted_after_add [OF ok(1)] by (intro remove_minted_spec mints_okD(5) [OF ok(1)]) (auto simp: u(4) T(2))
  moreover have "(\<lambda>v. if v \<in> set (coins_of m) then None else mintedPubCoins u v) = mintedPubCoins s"
    using mints_okD(6) [OF ok(1)] by (auto simp: fun_eq_iff u(4) T(2) add_groups_minted map_of_entries_None split: option.splits)
  ultimately have "remove_minted m u = Some (u\<lparr>mintedPubCoins := mintedPubCoins s\<rparr>)" by simp
  moreover have "usedCoinSerials u - sigmaSpentSerials b = usedCoinSerials s"
    using spent by (auto simp: u(5) T(4))
  ultimately show ?thesis
    using u b by (simp add: RemoveBlock_def same_coins_def GetLatestCoinID_at) (simp add: latest_at_def)
qed

end
