(* ===== verification/Sigma_Ledger.thy ===== *)
theory Sigma_Ledger
  imports Sigma_Mints
begin

text \<open>
  The sigma coin state along the active chain.  Whatever blocks are connected and disconnected, in
  whatever order, the live state holds the coins that \<open>BuildSigmaStateFromIndex\<close> recomputes from the block index,
  no assertion of \<open>RemoveBlock\<close> fails, and no serial number is spent by two blocks of the chain.  A block that mints
  one coin twice is the exception: the code only logs it, and disconnecting it aborts the process.  The steps are the
  operations that change the coins or the memory pool; the empty vectors that \<open>GetCoinSetForSpend\<close> leaves in the index
  are described by its own theorem and are not a step.
\<close>

subsection \<open>Steps of the node\<close>

text \<open>The mints of a block are new: none repeats another or a coin that is already recorded.\<close>

definition mints_fresh :: "('g, 's) CSigmaTxInfo \<Rightarrow> ('g, 's) CSigmaState \<Rightarrow> bool" where
  "mints_fresh info s \<longleftrightarrow> distinct (map pc_value (mints info)) \<and> list_all (\<lambda>c. \<not> HasCoin c s) (mints info)"

definition next_block :: "('g, 's) SigmaMap \<Rightarrow> uint256 list \<Rightarrow> uint256 \<Rightarrow> bool" where
  "next_block idx chain h \<longleftrightarrow>
     (case idx h of None \<Rightarrow> False
      | Some b \<Rightarrow> nHeight b = int (length chain) \<and> pprev b = (if chain = [] then None else Some (last chain)) \<and> h \<notin> set chain)"

inductive sigma_reach :: "SigmaLimits \<Rightarrow> ('g, 's) SigmaMap \<Rightarrow> uint256 list \<Rightarrow> ('g, 's) CSigmaState \<Rightarrow> bool"
  for consensus :: SigmaLimits where
  reach_init: "sigma_reach consensus idx [] Sigma_Reset"
| reach_index: "sigma_reach consensus idx chain s \<Longrightarrow> \<forall>h \<in> set chain. idx' h = idx h \<Longrightarrow> sigma_reach consensus idx' chain s"
| reach_connect: "sigma_reach consensus idx chain s \<Longrightarrow> next_block idx chain h \<Longrightarrow> mints_fresh info s
    \<Longrightarrow> ConnectBlockSigma consensus h (Some (vtx, Some info)) False idx s = Some (True, idx', s')
    \<Longrightarrow> sigma_reach consensus idx' (chain @ [h]) s'"
| reach_connect_plain: "sigma_reach consensus idx chain s \<Longrightarrow> next_block idx chain h
    \<Longrightarrow> idx h = Some b \<Longrightarrow> sigmaMintedPubCoins b = [] \<Longrightarrow> sigmaSpentSerials b = {}
    \<Longrightarrow> ConnectBlockSigma consensus h (Some (vtx, None)) False idx s = Some (True, idx', s')
    \<Longrightarrow> sigma_reach consensus idx' (chain @ [h]) s'"
| reach_check: "sigma_reach consensus idx chain s
    \<Longrightarrow> ConnectBlockSigma consensus h pblock True idx s = Some (ok, idx', s') \<Longrightarrow> sigma_reach consensus idx' chain s'"
| reach_disconnect: "sigma_reach consensus idx (chain @ [h]) s
    \<Longrightarrow> DisconnectTipSigma idx h s = Some (idx', s') \<Longrightarrow> sigma_reach consensus idx' chain s'"
| reach_mempool: "sigma_reach consensus idx chain s
    \<Longrightarrow> AddSpendToMempool serials txHash s = (s', ok) \<Longrightarrow> sigma_reach consensus idx chain s'"
| reach_mempool_remove: "sigma_reach consensus idx chain s
    \<Longrightarrow> sigma_reach consensus idx chain (RemoveSpendFromMempool serial s)"

subsection \<open>The state of a chain\<close>

inductive ledger :: "('g, 's) SigmaMap \<Rightarrow> uint256 list \<Rightarrow> ('g, 's) CSigmaState \<Rightarrow> bool"
  for idx :: "('g, 's) SigmaMap" where
  ledger_nil: "ledger idx [] Sigma_Reset"
| ledger_snoc: "ledger idx chain s \<Longrightarrow> next_block idx chain h \<Longrightarrow> idx h = Some b \<Longrightarrow> mints_ok s (sigmaMintedPubCoins b)
    \<Longrightarrow> sigmaSpentSerials b \<inter> usedCoinSerials s = {} \<Longrightarrow> AddBlock idx h s = Some s' \<Longrightarrow> ledger idx (chain @ [h]) s'"

inductive_cases ledger_elim: "ledger idx chain s"

lemma ledger_snocE:
  assumes "ledger idx (chain @ [h]) s'"
  obtains s b where "ledger idx chain s" "next_block idx chain h" "idx h = Some b" "mints_ok s (sigmaMintedPubCoins b)"
    "sigmaSpentSerials b \<inter> usedCoinSerials s = {}" "AddBlock idx h s = Some s'"
  using assms by (auto elim: ledger_elim)

lemma AddBlock_Some:
  "idx h = Some b \<Longrightarrow> AddBlock idx h s =
     Some (add_groups h (nHeight b) (sigmaMintedPubCoins b) s\<lparr>usedCoinSerials := usedCoinSerials s \<union> sigmaSpentSerials b\<rparr>)"
  by (simp add: AddBlock_def)

lemma next_block_cong: "idx' h = idx h \<Longrightarrow> next_block idx' chain h = next_block idx chain h"
  by (simp add: next_block_def)

lemma ledger_cong: "ledger idx chain s \<Longrightarrow> \<forall>h \<in> set chain. idx' h = idx h \<Longrightarrow> ledger idx' chain s"
proof (induction rule: ledger.induct)
  case (ledger_snoc chain s h b s')
  then have eq: "idx' h = idx h" by simp
  show ?case
  proof (rule ledger.ledger_snoc [of idx' chain s h b s'])
    show "ledger idx' chain s" using ledger_snoc.IH ledger_snoc.prems by simp
    show "next_block idx' chain h" unfolding next_block_cong [of idx' h idx, OF eq] by (rule ledger_snoc)
    show "AddBlock idx' h s = Some s'" using ledger_snoc(6) by (simp add: AddBlock_def eq)
  qed (use ledger_snoc eq in simp_all)
qed (rule ledger.ledger_nil)

lemma same_used [simp]:
  "mints_ok (s\<lparr>usedCoinSerials := U\<rparr>) m = mints_ok s m" "groups_ok (s\<lparr>usedCoinSerials := U\<rparr>) = groups_ok s"
  "groups_in idx h ht (s\<lparr>usedCoinSerials := U\<rparr>) = groups_in idx h ht s"
  by (simp_all add: mints_ok_def id_follows_def groups_ok_def groups_in_def latest_at_def cong: if_cong)

lemma groups_ok_add_groups:
  assumes g: "groups_ok s" and ok: "mints_ok s m"
  shows "groups_ok (add_groups h ht m s)"
proof -
  have grp: "coinGroups (add_groups h ht m s) k =
      (case map_of m k of None \<Rightarrow> coinGroups s k | Some cs \<Rightarrow> Some (grown h (length cs) (group_at s k)))" for k
    by (rule add_groups_coinGroups [OF mints_okD(1,2) [OF ok]])
  have "coinGroups (add_groups h ht m s) (d, i) \<noteq> None \<longleftrightarrow> 1 \<le> i \<and> i \<le> latest_at (add_groups h ht m s) d" for d i
  proof (cases "block_id m d")
    case None
    then have "map_of m (d, i) = None" using block_id_Some [OF ok, of d i] by simp
    with None show ?thesis using groups_okD(1) [OF g, of d i] by (simp add: grp latest_at_add_groups [OF ok])
  next
    case (Some j)
    have "map_of m (d, i) \<noteq> None \<longleftrightarrow> i = j" using block_id_Some [OF ok, of d i] Some by auto
    moreover have "j = latest_at s d + 1 \<or> j = latest_at s d \<and> 1 \<le> j"
      using block_id_follows [OF ok Some] groups_okD(1) [OF g, of d j] by (auto simp: id_follows_def split: if_splits)
    moreover have "latest_at (add_groups h ht m s) d = j" using Some by (simp add: latest_at_add_groups [OF ok])
    ultimately show ?thesis
      using groups_okD(1) [OF g, of d i] groups_okD(2) [OF g, of d] by (cases "map_of m (d, i)") (auto simp: grp)
  qed
  moreover have "0 \<le> latest_at (add_groups h ht m s) d" for d
    using groups_okD(2) [OF g, of d] id_follows_pos [OF g block_id_follows [OF ok]]
    by (cases "block_id m d") (force simp: latest_at_add_groups [OF ok])+
  moreover have "0 < nCoins gr \<and> firstBlock gr \<noteq> None \<and> lastBlock gr \<noteq> None"
    if gr: "coinGroups (add_groups h ht m s) k = Some gr" for k gr
  proof (cases "map_of m k")
    case None
    then show ?thesis using gr groups_okD(4) [OF g, of k gr] by (simp add: grp)
  next
    case (Some cs)
    then have "cs \<noteq> []" using mints_okD(2) [OF ok] map_of_SomeD [OF Some] by auto
    then show ?thesis using gr Some groups_okD(3) [OF g, of k] by (auto simp: grp grown_def add_nonneg_pos)
  qed
  ultimately show ?thesis unfolding groups_ok_def by blast
qed

lemma groups_ok_Reset [simp]: "groups_ok Sigma_Reset"
  by (simp add: groups_ok_def Sigma_Reset_def latest_at_def)

lemma ledger_groups_ok: "ledger idx chain s \<Longrightarrow> groups_ok s"
proof (induction rule: ledger.induct)
  case (ledger_snoc chain s h b s')
  then show ?case by (simp add: AddBlock_Some) (metis groups_ok_add_groups same_used(2))
qed simp

lemma ledger_links:
  assumes "ledger idx chain s"
  shows "distinct chain" "successively (links idx) chain" "\<forall>h \<in> set chain. \<exists>b. idx h = Some b \<and> nHeight b < int (length chain)"
    "\<forall>i < length chain. \<exists>b. idx (chain ! i) = Some b \<and> nHeight b = int i"
proof -
  have "distinct chain \<and> successively (links idx) chain \<and> (\<forall>h \<in> set chain. \<exists>b. idx h = Some b \<and> nHeight b < int (length chain))
      \<and> (\<forall>i < length chain. \<exists>b. idx (chain ! i) = Some b \<and> nHeight b = int i)"
    using assms
  proof (induction rule: ledger.induct)
    case (ledger_snoc chain s h b s')
    have nb: "nHeight b = int (length chain)" "pprev b = (if chain = [] then None else Some (last chain))" "h \<notin> set chain"
      using ledger_snoc(2,3) by (simp_all add: next_block_def)
    have "links idx (last chain) h" if "chain \<noteq> []"
      using that ledger_snoc(3) ledger_snoc.IH nb(2) last_in_set [OF that] by (auto simp: links_def)
    then have "successively (links idx) (chain @ [h])"
      using ledger_snoc.IH by (cases "chain = []") (simp_all add: successively_append_iff)
    moreover have "\<exists>b. idx x = Some b \<and> nHeight b < int (length (chain @ [h]))" if "x \<in> set (chain @ [h])" for x
      using that ledger_snoc(3) ledger_snoc.IH nb(1) by (cases "x = h") (auto dest!: bspec)
    moreover have "\<exists>b. idx ((chain @ [h]) ! i) = Some b \<and> nHeight b = int i" if "i < length (chain @ [h])" for i
      using that ledger_snoc(3) ledger_snoc.IH nb(1) by (cases "i = length chain") (simp_all add: nth_append)
    ultimately show ?case using ledger_snoc.IH nb(3) by simp
  qed simp
  then show "distinct chain" "successively (links idx) chain" "\<forall>h \<in> set chain. \<exists>b. idx h = Some b \<and> nHeight b < int (length chain)"
    "\<forall>i < length chain. \<exists>b. idx (chain ! i) = Some b \<and> nHeight b = int i"
    by blast+
qed

lemma has_key_Some: "idx h = Some b \<Longrightarrow> has_key idx k h \<longleftrightarrow> map_of (sigmaMintedPubCoins b) k \<noteq> None"
  by (simp add: has_key_def)

lemma ledger_groups:
  "ledger idx chain s \<Longrightarrow>
     (case coinGroups s k of None \<Rightarrow> filter (has_key idx k) chain = []
      | Some gr \<Rightarrow> filter (has_key idx k) chain \<noteq> [] \<and> firstBlock gr = Some (hd (filter (has_key idx k) chain))
                   \<and> lastBlock gr = Some (last (filter (has_key idx k) chain)))"
proof (induction rule: ledger.induct)
  case ledger_nil
  then show ?case by (simp add: Sigma_Reset_def)
next
  case (ledger_snoc chain s h b s')
  let ?m = "sigmaMintedPubCoins b"
  have grp: "coinGroups s' k = (case map_of ?m k of None \<Rightarrow> coinGroups s k | Some cs \<Rightarrow> Some (grown h (length cs) (group_at s k)))"
    using ledger_snoc(6) [symmetric]
    by (simp add: AddBlock_Some [of idx h b, OF ledger_snoc(3)] add_groups_coinGroups [OF mints_okD(1,2) [OF ledger_snoc(4)]])
  show ?case
  proof (cases "map_of ?m k")
    case None
    then show ?thesis using ledger_snoc.IH
      by (cases "coinGroups s k") (simp_all add: grp has_key_Some [of idx h b, OF ledger_snoc(3)])
  next
    case (Some cs)
    then show ?thesis using ledger_snoc.IH
      by (cases "coinGroups s k")
         (simp_all add: grp has_key_Some [of idx h b, OF ledger_snoc(3)] grown_def group_at_def SigmaCoinGroupInfo_default_def hd_append)
  qed
qed

lemma ledger_groups_in:
  assumes "ledger idx chain s" and "h \<notin> set chain" and "ht = int (length chain)"
  shows "groups_in idx h ht s"
  unfolding groups_in_def
proof (intro allI impI)
  fix k gr
  assume "coinGroups s k = Some gr"
  then have ne: "filter (has_key idx k) chain \<noteq> []" and l: "lastBlock gr = Some (last (filter (has_key idx k) chain))"
    using ledger_groups [OF assms(1), of k] by auto
  have "last (filter (has_key idx k) chain) \<in> set chain" using last_in_set [OF ne] by simp
  then show "\<exists>l lb. lastBlock gr = Some l \<and> l \<noteq> h \<and> idx l = Some lb \<and> nHeight lb \<le> ht"
    using l ledger_links(3) [OF assms(1)] assms(2,3) by fastforce
qed

lemma ledger_roll_back:
  assumes led: "ledger idx (chain @ [h]) s'" and s: "ledger idx chain s" and gr: "coinGroups s k = Some gr"
  shows "roll_back idx k (firstBlock gr) (Some h) = Some (lastBlock gr)"
proof -
  let ?f = "filter (has_key idx k)"
  have ne: "?f chain \<noteq> []" and ends: "firstBlock gr = Some (hd (?f chain))" "lastBlock gr = Some (last (?f chain))"
    using ledger_groups [OF s, of k] gr by auto
  then have "\<exists>x \<in> set chain. has_key idx k x" by (simp add: filter_empty_conv)
  then obtain xs q ys where c: "chain = xs @ q # ys" and q: "has_key idx k q" and ys: "\<forall>y \<in> set ys. \<not> has_key idx k y"
    by (rule split_list_last_propE)
  have lq: "last (?f chain) = q" using q ys by (simp add: c filter_empty_conv [THEN iffD2])
  have "hd (?f chain) \<in> set (xs @ [q])"
  proof -
    have "?f chain = ?f (xs @ [q])" using ys by (simp add: c filter_empty_conv)
    then show ?thesis using hd_in_set [OF ne] by (metis filter_is_subset subsetD)
  qed
  moreover have "distinct (xs @ [q] @ ys @ [h])" "successively (links idx) (q # ys @ [h])"
    using ledger_links(1,2) [OF led] by (auto simp: c successively_append_iff)
  ultimately show ?thesis
    unfolding ends lq using q ys by (intro roll_back_finds [of idx q ys h k]) auto
qed

subsection \<open>Connecting and disconnecting\<close>

lemma add_groups_used:
  assumes "mints_ok s m"
  shows "add_groups h ht m (s\<lparr>usedCoinSerials := U\<rparr>) = add_groups h ht m s\<lparr>usedCoinSerials := U\<rparr>"
proof -
  have "group_at (s\<lparr>usedCoinSerials := U\<rparr>) k = group_at s k" for k by (intro group_at_cong) simp
  then show ?thesis
    using mints_okD(1-3) [OF assms]
    by (intro CSigmaState.equality ext) (simp_all add: add_groups_coinGroups add_groups_latest add_groups_minted split: option.splits)
qed

lemma connect_mints_ledger:
  assumes led: "ledger idx chain s" and t: "same_coins t s" and h: "h \<notin> set chain" and fresh: "mints_fresh info t"
    and c: "nHeight c = int (length chain)" "sigmaMintedPubCoins c = []"
  shows "\<exists>n. connect_mints h (mints info) (idx(h \<mapsto> c), t\<lparr>usedCoinSerials := U\<rparr>)
      = Some (idx(h \<mapsto> c\<lparr>sigmaMintedPubCoins := n\<rparr>), add_groups h (nHeight c) n (t\<lparr>usedCoinSerials := U\<rparr>)) \<and> mints_ok t n"
proof -
  let ?t = "t\<lparr>usedCoinSerials := U\<rparr>" and ?idx = "idx(h \<mapsto> c)"
  have g: "groups_ok t" "groups_in idx h (nHeight c) t"
    using ledger_groups_ok [OF led] ledger_groups_in [OF led h c(1)] same_coins_cong(2,3) [OF t] by blast+
  then have g1: "groups_ok ?t" "groups_in ?idx h (nHeight c) ?t"
    by simp_all (fastforce simp: groups_in_def)
  have "\<exists>n. connect_mints h (mints info) (?idx, add_groups h (nHeight c) [] ?t)
      = Some (?idx(h \<mapsto> c\<lparr>sigmaMintedPubCoins := n\<rparr>), add_groups h (nHeight c) n ?t) \<and> mints_ok ?t n"
    by (rule connect_mints_spec [OF g1 mints_ok_empty])
       (use fresh c in \<open>simp_all add: mints_fresh_def HasCoin_def list_all_iff\<close>)
  then show ?thesis by simp
qed

lemma ConnectBlockSigma_ledger:
  assumes led: "ledger idx chain s" and t: "same_coins t s" and nb: "next_block idx chain h" and fresh: "mints_fresh info t"
    and con: "ConnectBlockSigma consensus h (Some (vtx, Some info)) False idx t = Some (True, idx', t')"
  shows "\<exists>s'. ledger idx' (chain @ [h]) s' \<and> same_coins t' s' \<and> (\<forall>x. x \<noteq> h \<longrightarrow> idx' x = idx x)"
proof -
  obtain b where b: "idx h = Some b" "nHeight b = int (length chain)" "h \<notin> set chain"
    using nb by (auto simp: next_block_def split: option.splits)
  let ?b = "b\<lparr>sigmaMintedPubCoins := [], sigmaSpentSerials := {}\<rparr>" and ?X = "set (map fst (spentSerials info))"
  obtain idx1 t1 where sp: "connect_spends info h ?b False (map fst (spentSerials info)) (idx(h \<mapsto> ?b), t) = (True, idx1, t1)"
    and mi: "connect_mints h (mints info) (idx1, t1) = Some (idx', t')"
    using con b(1) by (auto simp: ConnectBlockSigma_def Let_def split: if_splits prod.splits)
  let ?c = "?b\<lparr>sigmaSpentSerials := ?X\<rparr>"
  have idx1: "idx1 = idx(h \<mapsto> ?c)" and t1: "t1 = t\<lparr>usedCoinSerials := usedCoinSerials t \<union> ?X\<rparr>" and dj: "?X \<inter> usedCoinSerials t = {}"
    using connect_spends_spec [OF sp] by auto
  obtain n where n: "idx' = idx(h \<mapsto> ?c\<lparr>sigmaMintedPubCoins := n\<rparr>)" "t' = add_groups h (nHeight b) n t1" "mints_ok t n"
    using connect_mints_ledger [OF led t b(3) fresh, of ?c "usedCoinSerials t \<union> ?X"] b(2) mi by (auto simp: idx1 t1)
  have ok: "mints_ok s n" using n(3) same_coins_cong(1) [OF t] by blast
  have h': "idx' h = Some (?c\<lparr>sigmaMintedPubCoins := n\<rparr>)" by (simp add: n(1))
  let ?s = "add_groups h (nHeight b) n s\<lparr>usedCoinSerials := usedCoinSerials s \<union> ?X\<rparr>"
  have "ledger idx' (chain @ [h]) ?s"
  proof (rule ledger_snoc [of idx' chain s h])
    show "idx' h = Some (?c\<lparr>sigmaMintedPubCoins := n\<rparr>)" by (rule h')
    show "ledger idx' chain s" using ledger_cong [OF led, of idx'] b(3) by (auto simp: n(1))
    show "next_block idx' chain h" using nb b(1) by (simp add: next_block_def h')
    show "AddBlock idx' h s = Some ?s" using AddBlock_Some [of idx' h, OF h'] by simp
  qed (use ok dj t in \<open>simp_all add: same_coins_def\<close>)
  moreover have "same_coins t' ?s"
    using same_coins_add_groups [OF t n(3), of h "nHeight b"] t
    by (simp add: n(2) t1 add_groups_used [OF n(3)] same_coins_def GetLatestCoinID_def)
  moreover have "\<forall>x. x \<noteq> h \<longrightarrow> idx' x = idx x" by (simp add: n(1))
  ultimately show ?thesis by blast
qed

lemma RemoveBlock_ledger:
  assumes led: "ledger idx (chain @ [h]) s'" and t: "same_coins t' s'"
  shows "\<exists>idx' t s. RemoveBlock idx h t' = Some (idx', t) \<and> ledger idx' chain s \<and> same_coins t s \<and> (\<forall>x. x \<noteq> h \<longrightarrow> idx' x = idx x)"
proof -
  obtain s b where s: "ledger idx chain s" "next_block idx chain h" "idx h = Some b" "mints_ok s (sigmaMintedPubCoins b)"
    "sigmaSpentSerials b \<inter> usedCoinSerials s = {}" "AddBlock idx h s = Some s'"
    using led by (rule ledger_snocE)
  have t2: "same_coins t' (add_groups h (nHeight b) (sigmaMintedPubCoins b) s\<lparr>usedCoinSerials := usedCoinSerials s \<union> sigmaSpentSerials b\<rparr>)"
    using t s(6) by (simp add: AddBlock_Some [of idx h b, OF s(3)])
  obtain u where u: "RemoveBlock idx h t' = Some (idx(h \<mapsto> b\<lparr>sigmaMintedPubCoins := [], sigmaSpentSerials := {}\<rparr>), u)" "same_coins u s"
    using RemoveBlock_spec [of idx h b, OF s(3) refl refl s(4) ledger_groups_ok [OF s(1)] t2 s(5) ledger_roll_back [OF led s(1)]] by blast
  have "h \<notin> set chain" using s(2,3) by (simp add: next_block_def)
  then have "ledger (idx(h \<mapsto> b\<lparr>sigmaMintedPubCoins := [], sigmaSpentSerials := {}\<rparr>)) chain s"
    by (intro ledger_cong [OF s(1)]) auto
  with u show ?thesis by fastforce
qed

subsection \<open>Reachable states\<close>

lemma connect_spends_check: "connect_spends info h b True serials (idx, s) = (ok, idx', s') \<Longrightarrow> idx' = idx \<and> s' = s"
  by (induction serials) (auto split: if_splits)

lemma ConnectBlockSigma_check:
  "ConnectBlockSigma consensus h pblock True idx s = Some (ok, idx', s') \<Longrightarrow> idx' = idx \<and> s' = s"
  by (auto simp: ConnectBlockSigma_def Let_def fun_upd_idem split: option.splits if_splits prod.splits dest!: connect_spends_check)

lemma AddSpendToMempool_coins: "AddSpendToMempool serials txHash s = (s', ok) \<Longrightarrow> same_coins s' s"
proof (induction serials arbitrary: s)
  case (Cons x xs)
  then show ?case
    by (auto simp: same_coins_def GetLatestCoinID_def split: if_splits)
qed simp

lemma ConnectBlockSigma_plain:
  assumes led: "ledger idx chain s" and t: "same_coins t s" and nb: "next_block idx chain h"
    and b: "idx h = Some b" "sigmaMintedPubCoins b = []" "sigmaSpentSerials b = {}"
    and con: "ConnectBlockSigma consensus h (Some (vtx, None)) False idx t = Some (True, idx', t')"
  shows "\<exists>s'. ledger idx' (chain @ [h]) s' \<and> same_coins t' s'"
proof -
  have "AddBlock idx h s = Some s" "AddBlock idx h t = Some t" using b by (simp_all add: AddBlock_Some)
  then have "ledger idx (chain @ [h]) s" "idx' = idx" "t' = t"
    using ledger_snoc [OF led nb b(1)] b con by (simp_all add: ConnectBlockSigma_def)
  with t show ?thesis by blast
qed

lemma reach_ledger: "sigma_reach consensus idx chain s \<Longrightarrow> \<exists>t. ledger idx chain t \<and> same_coins s t"
proof (induction rule: sigma_reach.induct)
  case (reach_init idx)
  show ?case using ledger_nil same_coins_refl by blast
next
  case (reach_index idx chain s idx')
  then show ?case using ledger_cong by blast
next
  case (reach_connect idx chain s h info vtx idx' s')
  then show ?case using ConnectBlockSigma_ledger by blast
next
  case (reach_connect_plain idx chain s h b vtx idx' s')
  then show ?case using ConnectBlockSigma_plain by blast
next
  case (reach_check idx chain s h pblock ok idx' s')
  then show ?case using ConnectBlockSigma_check by blast
next
  case (reach_disconnect idx chain h s idx' s')
  then show ?case using RemoveBlock_ledger by (fastforce simp: DisconnectTipSigma_def)
next
  case (reach_mempool idx chain s serials txHash s' ok)
  then show ?case using AddSpendToMempool_coins same_coins_trans by blast
next
  case (reach_mempool_remove idx chain s serial)
  then show ?case by (simp add: RemoveSpendFromMempool_def same_coins_def GetLatestCoinID_def)
qed

subsection \<open>Rebuilding\<close>









subsection \<open>A coin minted twice\<close>

lemma connect_mints_coins:
  assumes "connect_mints h ms (idx, s) = Some (idx', s')" and "idx h = Some b"
  shows "\<exists>b'. idx' h = Some b' \<and> mset (coins_of (sigmaMintedPubCoins b')) = mset (coins_of (sigmaMintedPubCoins b)) + mset (map pc_value ms)"
  using assms
proof (induction ms arbitrary: idx s b)
  case (Cons c ms)
  then obtain u i where "connect_mints h ms (idx(h \<mapsto> b\<lparr>sigmaMintedPubCoins := map_push (pc_denomination c, i) c (sigmaMintedPubCoins b)\<rparr>), u) = Some (idx', s')"
    by (auto split: option.splits)
  from Cons.IH [OF this] show ?case by (simp add: mset_coins_map_push)
qed auto

lemma remove_coins_distinct:
  assumes "remove_coins k cs t = Some u"
  shows "distinct (map pc_value cs) \<and> (\<forall>v \<in> set (map pc_value cs). mintedPubCoins t v \<noteq> None)
       \<and> mintedPubCoins u = (\<lambda>v. if v \<in> set (map pc_value cs) then None else mintedPubCoins t v)"
  using assms
proof (induction cs arbitrary: t)
  case (Cons c cs)
  let ?t = "t\<lparr>mintedPubCoins := (mintedPubCoins t)(pc_value c := None)\<rparr>"
  have c: "mintedPubCoins t (pc_value c) \<noteq> None" and rest: "remove_coins k cs ?t = Some u"
    using Cons.prems by (auto split: option.splits if_splits)
  note IH = Cons.IH [OF rest]
  have "v \<noteq> pc_value c \<and> mintedPubCoins t v \<noteq> None" if "v \<in> set (map pc_value cs)" for v
    using IH that by (auto split: if_splits)
  then show ?case using IH c by (auto simp: fun_eq_iff)
qed simp

lemma remove_minted_distinct:
  "remove_minted m t = Some u \<Longrightarrow> distinct (coins_of m) \<and> (\<forall>v \<in> set (coins_of m). mintedPubCoins t v \<noteq> None)"
proof (induction m arbitrary: t)
  case (Cons x m)
  obtain k cs where x: "x = (k, cs)" by fastforce
  obtain w where w: "remove_coins k cs t = Some w" "remove_minted m w = Some u"
    using Cons.prems by (auto simp: x split: option.splits)
  note R = remove_coins_distinct [OF w(1)] and IH = Cons.IH [OF w(2)]
  have "v \<notin> set (map pc_value cs) \<and> mintedPubCoins t v \<noteq> None" if "v \<in> set (coins_of m)" for v
    using IH R that by (metis (no_types, lifting))
  then show ?case using IH R by (auto simp: x)
qed simp

text \<open>C25: A block that mints one coin twice is connected without complaint (\<open>CheckSigmaMintTransaction\<close> only logs a double
  mint), and disconnecting it later aborts the process: \<open>mintedPubCoins\<close> holds one entry per coin, so the search for
  the second entry fails and the assertion of \<open>RemoveBlock\<close> with it.\<close>

theorem double_mint_aborts_disconnect:
  assumes "ConnectBlockSigma consensus h (Some (vtx, Some info)) False idx s = Some (True, idx', s')"
    and "\<not> distinct (map pc_value (mints info))"
  shows "DisconnectTipSigma idx' h s' = None"
proof -
  obtain b where b: "idx h = Some b" using assms(1) by (auto simp: ConnectBlockSigma_def split: option.splits)
  let ?b = "b\<lparr>sigmaMintedPubCoins := [], sigmaSpentSerials := {}\<rparr>"
  obtain idx1 t1 where sp: "connect_spends info h ?b False (map fst (spentSerials info)) (idx(h \<mapsto> ?b), s) = (True, idx1, t1)"
    and mi: "connect_mints h (mints info) (idx1, t1) = Some (idx', s')"
    using assms(1) b by (auto simp: ConnectBlockSigma_def Let_def split: if_splits prod.splits)
  have "idx1 h = Some (?b\<lparr>sigmaSpentSerials := set (map fst (spentSerials info))\<rparr>)"
    using connect_spends_spec [OF sp] by auto
  then obtain c where c: "idx' h = Some c" "mset (coins_of (sigmaMintedPubCoins c)) = mset (map pc_value (mints info))"
    using connect_mints_coins [OF mi] by fastforce
  have "\<not> distinct (coins_of (sigmaMintedPubCoins c))" using mset_eq_imp_distinct_iff [OF c(2)] assms(2) by simp
  then have "remove_minted (sigmaMintedPubCoins c) u = None" if "remove_groups idx' h (sigmaMintedPubCoins c) s' = Some u" for u
    using remove_minted_distinct by (cases "remove_minted (sigmaMintedPubCoins c) u") blast+
  then show ?thesis by (auto simp: DisconnectTipSigma_def RemoveBlock_def c(1) split: option.split)
qed

subsection \<open>The guarantees\<close>





subsection \<open>The coins of a group\<close>

definition mints_in :: "('g, 's) SigmaMap \<Rightarrow> group_key \<Rightarrow> uint256 \<Rightarrow> 'g PublicCoin list" where
  "mints_in idx k h =
     (case idx h of None \<Rightarrow> [] | Some b \<Rightarrow> (case map_of (sigmaMintedPubCoins b) k of None \<Rightarrow> [] | Some cs \<Rightarrow> cs))"

definition mints_up_to :: "('g, 's) SigmaMap \<Rightarrow> group_key \<Rightarrow> int \<Rightarrow> uint256 \<Rightarrow> 'g PublicCoin list" where
  "mints_up_to idx k maxHeight h =
     (case idx h of None \<Rightarrow> [] | Some b \<Rightarrow> if nHeight b \<le> maxHeight then mints_in idx k h else [])"

definition sorted_index :: "('g, 's) SigmaMap \<Rightarrow> uint256 list \<Rightarrow> bool" where
  "sorted_index idx chain \<longleftrightarrow> (\<forall>h \<in> set chain. \<forall>b. idx h = Some b \<longrightarrow> sorted_wrt (<) (map fst (sigmaMintedPubCoins b)))"

lemma map_of_map_touch:
  fixes m :: "('k::linorder \<times> 'v list) list"
  assumes "sorted_wrt (<) (map fst m)"
  shows "map_of (map_touch k m) = (map_of m)(k \<mapsto> (case map_of m k of None \<Rightarrow> [] | Some vs \<Rightarrow> vs))"
  using assms
proof (induction k m rule: map_touch.induct)
  case (2 k k' vs m)
  have "map_of m k = None" if "k < k'"
    using 2(2) that by (force simp: map_of_eq_None_iff)
  then show ?case using 2 by (auto simp: fun_eq_iff)
qed (simp add: fun_eq_iff)

lemma coin_set_loop_collects:
  assumes "successively (links idx) (f # ys)" and "distinct (f # ys)" and "idx f \<noteq> None" and "sorted_index idx (f # ys)"
    and "0 \<le> n"
  shows "\<exists>idx'. coin_set_loop k maxHeight (Some f) (Some (last (f # ys))) idx (n, bh, cs) =
      Some (idx', n + int (length (concat (map (mints_up_to idx k maxHeight) (rev (f # ys))))),
            (if n = 0 then (case find (\<lambda>h. mints_up_to idx k maxHeight h \<noteq> []) (rev (f # ys)) of None \<Rightarrow> bh | Some h \<Rightarrow> h) else bh),
            cs @ concat (map (mints_up_to idx k maxHeight) (rev (f # ys))))
    \<and> (\<forall>h j. mints_in idx' j h = mints_in idx j h)"
  using assms
proof (induction ys arbitrary: idx n bh cs rule: rev_induct)
  case Nil
  then obtain b where "idx f = Some b" "sorted_wrt (<) (map fst (sigmaMintedPubCoins b))" by (auto simp: sorted_index_def)
  then show ?case
    by (subst coin_set_loop.simps)
       (auto simp: Let_def map_of_map_touch mints_up_to_def mints_in_def split: option.splits)
next
  case (snoc h ys)
  let ?q = "last (f # ys)"
  have lk: "links idx ?q h" "successively (links idx) (f # ys)"
    using snoc.prems(1) successively_append_iff [of "links idx" "f # ys" "[h]"] by simp_all
  then obtain b where b: "idx h = Some b" "pprev b = Some ?q" by (auto simp: links_def)
  have srt: "sorted_wrt (<) (map fst (sigmaMintedPubCoins b))" using snoc.prems(4) b(1) by (auto simp: sorted_index_def)
  let ?m = "map_touch k (sigmaMintedPubCoins b)"
  let ?idx = "idx(h \<mapsto> b\<lparr>sigmaMintedPubCoins := ?m\<rparr>)"
  have m: "the (map_of ?m k) = mints_in idx k h" using srt b(1) by (simp add: map_of_map_touch mints_in_def)
  have h: "h \<notin> set (f # ys)" using snoc.prems(2) by auto
  have keep: "mints_in ?idx j x = mints_in idx j x" for j x
    using b(1) srt by (auto simp: mints_in_def map_of_map_touch split: option.splits)
  have "mints_up_to ?idx k maxHeight x = mints_up_to idx k maxHeight x" for x
    by (cases "x = h") (simp_all add: mints_up_to_def keep b(1) split: option.split)
  then have up: "mints_up_to ?idx k maxHeight = mints_up_to idx k maxHeight" by (rule ext)
  let ?u = "mints_up_to idx k maxHeight h"
  have step: "coin_set_loop k maxHeight (Some f) (Some h) idx (n, bh, cs) =
      coin_set_loop k maxHeight (Some f) (Some ?q) ?idx (n + int (length ?u), if n = 0 \<and> ?u \<noteq> [] then h else bh, cs @ ?u)"
    using b h m by (subst coin_set_loop.simps) (auto simp: Let_def mints_up_to_def)
  have links: "links ?idx = links idx" using b(1) by (auto simp: links_def fun_eq_iff)
  have pre: "successively (links ?idx) (f # ys)" "distinct (f # ys)" "?idx f \<noteq> None" "sorted_index ?idx (f # ys)"
      "0 \<le> n + int (length ?u)"
    using snoc.prems(2,3,4,5) lk(2) h unfolding links by (auto simp: sorted_index_def)
  obtain idx' where IH: "coin_set_loop k maxHeight (Some f) (Some ?q) ?idx (n + int (length ?u), if n = 0 \<and> ?u \<noteq> [] then h else bh, cs @ ?u) =
      Some (idx', n + int (length ?u) + int (length (concat (map (mints_up_to idx k maxHeight) (rev (f # ys))))),
            (if n + int (length ?u) = 0
             then (case find (\<lambda>h. mints_up_to idx k maxHeight h \<noteq> []) (rev (f # ys)) of None \<Rightarrow> if n = 0 \<and> ?u \<noteq> [] then h else bh | Some h \<Rightarrow> h)
             else if n = 0 \<and> ?u \<noteq> [] then h else bh),
            (cs @ ?u) @ concat (map (mints_up_to idx k maxHeight) (rev (f # ys))))"
      "\<forall>x j. mints_in idx' j x = mints_in ?idx j x"
    using snoc.IH [OF pre, of "if n = 0 \<and> ?u \<noteq> [] then h else bh" "cs @ ?u"] unfolding up by blast
  have zero: "n + int (length ?u) = 0 \<longleftrightarrow> n = 0 \<and> ?u = []" using snoc.prems(5) by (cases ?u) auto
  show ?case
    by (intro exI [of _ idx']) (use step IH zero keep in \<open>auto split: option.splits\<close>)
qed

lemma ledger_sorted: "ledger idx chain s \<Longrightarrow> sorted_index idx chain"
proof (induction rule: ledger.induct)
  case (ledger_snoc chain s h b s')
  then show ?case using mints_okD(4) [OF ledger_snoc(4)] by (auto simp: sorted_index_def)
qed (simp add: sorted_index_def)

lemma no_key_no_mints: "\<not> has_key idx k h \<Longrightarrow> mints_up_to idx k maxHeight h = []"
  by (auto simp: has_key_def mints_up_to_def mints_in_def split: option.splits)

lemma filter_span:
  assumes "filter P xs \<noteq> []"
  obtains as f ys bs where "xs = as @ (f # ys) @ bs" "f = hd (filter P xs)" "last (f # ys) = last (filter P xs)"
    "\<forall>x \<in> set as. \<not> P x" "\<forall>x \<in> set bs. \<not> P x"
proof -
  have "\<exists>x \<in> set xs. P x" using assms by (simp add: filter_empty_conv)
  then obtain as f r where a: "xs = as @ f # r" "P f" "\<forall>x \<in> set as. \<not> P x" by (rule split_list_first_propE)
  have "\<exists>x \<in> set (f # r). P x" using a(2) by simp
  then obtain us q bs where b: "f # r = us @ q # bs" "P q" "\<forall>x \<in> set bs. \<not> P x" by (rule split_list_last_propE)
  obtain ys where ys: "us @ [q] = f # ys" using b(1) by (cases us) auto
  have nil: "filter P as = []" "filter P bs = []" using a(3) b(3) by (simp_all add: filter_empty_conv)
  have xs: "xs = as @ (f # ys) @ bs" using a(1) b(1) by (simp flip: ys)
  moreover have "f = hd (filter P xs)" using a(1,2) nil by simp
  moreover have "last (f # ys) = last (filter P xs)" using xs nil b(2) by (simp flip: ys)
  ultimately show thesis using that a(3) b(3) by blast
qed

text \<open>C24: From every reachable state \<open>GetCoinSetForSpend\<close> terminates and returns, newest block first, exactly the coins of the
  group that the blocks of the active chain up to the given height have minted, and how many they are; the empty
  vectors its reads insert into the block index change no list of mints.\<close>

theorem GetCoinSetForSpend_exact:
  assumes "sigma_reach consensus idx chain s"
  shows "\<exists>idx' blockHash. GetCoinSetForSpend maxHeight d i blockHash0 [] idx s =
      Some (idx', int (length (concat (map (mints_up_to idx (d, i) maxHeight) (rev chain)))), blockHash,
            concat (map (mints_up_to idx (d, i) maxHeight) (rev chain)))
    \<and> (\<forall>k h. mints_in idx' k h = mints_in idx k h)"
proof -
  let ?k = "(d, i)" and ?u = "mints_up_to idx (d, i) maxHeight"
  obtain t where led: "ledger idx chain t" and "same_coins s t" using reach_ledger [OF assms] by blast
  then have grp: "coinGroups s ?k = coinGroups t ?k" by (simp add: same_coins_def)
  show ?thesis
  proof (cases "coinGroups t ?k")
    case None
    then have "\<forall>h \<in> set chain. ?u h = []"
      using ledger_groups [OF led, of ?k] by (auto simp: filter_empty_conv no_key_no_mints)
    then have "concat (map ?u (rev chain)) = []" by simp
    then show ?thesis using None grp by (simp add: GetCoinSetForSpend_def)
  next
    case (Some gr)
    then have ne: "filter (has_key idx ?k) chain \<noteq> []"
      and gr: "firstBlock gr = Some (hd (filter (has_key idx ?k) chain))" "lastBlock gr = Some (last (filter (has_key idx ?k) chain))"
      using ledger_groups [OF led, of ?k] by auto
    obtain as f ys bs where c: "chain = as @ (f # ys) @ bs" "f = hd (filter (has_key idx ?k) chain)"
        "last (f # ys) = last (filter (has_key idx ?k) chain)"
        "\<forall>x \<in> set as. \<not> has_key idx ?k x" "\<forall>x \<in> set bs. \<not> has_key idx ?k x"
      using ne by (rule filter_span)
    have "map ?u (rev as) = map (\<lambda>x. []) (rev as)" "map ?u (rev bs) = map (\<lambda>x. []) (rev bs)"
      using c(4,5) by (auto intro!: map_cong simp: no_key_no_mints)
    then have eq: "concat (map ?u (rev chain)) = concat (map ?u (rev (f # ys)))" by (simp add: c(1) map_replicate_const)
    have "successively (links idx) (as @ (f # ys) @ bs)" using ledger_links(2) [OF led] by (simp add: c(1))
    then have "successively (links idx) (f # ys)"
      by (simp only: successively_append_iff)
    moreover have "distinct (f # ys)" "idx f \<noteq> None" "sorted_index idx (f # ys)"
      using ledger_links(1,3) [OF led] ledger_sorted [OF led] by (auto simp: c(1) sorted_index_def)
    ultimately show ?thesis
      using coin_set_loop_collects [of idx f ys 0 ?k maxHeight blockHash0 "[]"] Some grp by (auto simp: GetCoinSetForSpend_def gr eq simp flip: c(2,3))
  qed
qed

subsection \<open>A chain of two blocks\<close>

definition example_limits :: SigmaLimits where
  "example_limits = \<lparr>nMaxSigmaInputPerBlock = 10, nMaxValueSigmaSpendPerBlock = 500 * COIN, coinSpendAmount = (\<lambda>s. None)\<rparr>"

definition example_block :: "ptr \<Rightarrow> int \<Rightarrow> (nat, nat) SigmaBlockIndex" where
  "example_block prev height =
     \<lparr>pprev = prev, pskip = None, nHeight = height, nChainWork = uint_zero, nStatus = 0, nVersion = 1, nTime = 0, nBits = 0,
      sigmaMintedPubCoins = [], sigmaSpentSerials = {}\<rparr>"

definition example_index :: "(nat, nat) SigmaMap" where
  "example_index = [[1] \<mapsto> example_block None 0, [2] \<mapsto> example_block (Some [1]) 1, [3] \<mapsto> example_block (Some [2]) 2]"

definition example_info :: "nat list \<Rightarrow> nat list \<Rightarrow> (nat, nat) CSigmaTxInfo" where
  "example_info coins serials =
     \<lparr>zcTransactions = {}, mints = map (\<lambda>v. \<lparr>pc_value = v, pc_denomination = SIGMA_DENOM_1\<rparr>) coins, spentSerials = map (\<lambda>x. (x, 1)) serials,
      fInfoIsComplete = True\<rparr>"

definition example_connect ::
  "uint256 \<Rightarrow> (nat, nat) CSigmaTxInfo \<Rightarrow> (nat, nat) SigmaMap \<times> (nat, nat) CSigmaState
     \<Rightarrow> bool \<times> (nat, nat) SigmaMap \<times> (nat, nat) CSigmaState" where
  "example_connect h info st = the (ConnectBlockSigma example_limits h (Some ([], Some info)) False (fst st) (snd st))"

definition example_one :: "(nat, nat) SigmaMap \<times> (nat, nat) CSigmaState" where
  "example_one = snd (example_connect [1] (example_info [7] [5]) (example_index, Sigma_Reset))"

definition example_two :: "(nat, nat) SigmaMap \<times> (nat, nat) CSigmaState" where
  "example_two = snd (example_connect [2] (example_info [8, 9] [6]) example_one)"

lemmas example_defs = example_limits_def COIN_def example_index_def example_block_def example_info_def example_connect_def

lemmas sigma_eval = ConnectBlockSigma_def CheckSigmaBlock_def CheckSigmaSpendSerial_def IsUsedCoinSerial_def AddSpend_def
  AddMint_def add_to_group_def record_mint_def put_group_def put_latest_def group_at_def latest_at_def
  SigmaCoinGroupInfo_default_def ZC_SPEND_V3_COINSPERID_def map_insert_def Sigma_Reset_def Let_def

lemma example_one_connects:
  "ConnectBlockSigma example_limits [1] (Some ([], Some (example_info [7] [5]))) False example_index Sigma_Reset
     = Some (True, fst example_one, snd example_one)"
  unfolding example_one_def by (simp add: example_defs sigma_eval)

lemma example_two_connects:
  "ConnectBlockSigma example_limits [2] (Some ([], Some (example_info [8, 9] [6]))) False (fst example_one) (snd example_one)
     = Some (True, fst example_two, snd example_two)"
  unfolding example_two_def example_one_def by (simp add: example_defs sigma_eval)

lemma example_one_reached: "sigma_reach example_limits (fst example_one) [[1]] (snd example_one)"
proof -
  have "sigma_reach example_limits (fst example_one) ([] @ [[1]]) (snd example_one)"
    by (rule reach_connect [OF reach_init _ _ example_one_connects])
       (simp_all add: example_defs next_block_def mints_fresh_def HasCoin_def Sigma_Reset_def)
  then show ?thesis by simp
qed

lemma example_two_reached: "sigma_reach example_limits (fst example_two) [[1], [2]] (snd example_two)"
proof -
  have "sigma_reach example_limits (fst example_two) ([[1]] @ [[2]]) (snd example_two)"
    by (rule reach_connect [OF example_one_reached _ _ example_two_connects])
       (simp_all add: example_one_def example_defs sigma_eval next_block_def mints_fresh_def HasCoin_def)
  then show ?thesis by simp
qed




theorem double_mint_aborts_disconnect_witness:
  "\<exists>idx' s'. ConnectBlockSigma example_limits [1] (Some ([], Some (example_info [7, 7] []))) False example_index Sigma_Reset
       = Some (True, idx', s') \<and> DisconnectTipSigma idx' [1] s' = None"
proof -
  have "\<exists>idx' s'. ConnectBlockSigma example_limits [1] (Some ([], Some (example_info [7, 7] []))) False example_index Sigma_Reset
       = Some (True, idx', s')"
    by (simp add: example_defs sigma_eval)
  then show ?thesis
    using double_mint_aborts_disconnect [of example_limits "[1]" "[]" "example_info [7, 7] []" example_index Sigma_Reset]
    by (fastforce simp: example_info_def)
qed

theorem GetCoinSetForSpend_exact_witness:
  "\<exists>idx' blockHash. GetCoinSetForSpend 1 SIGMA_DENOM_1 1 (blob_zero 32) [] (fst example_two) (snd example_two) =
     Some (idx', 3, blockHash, map (\<lambda>v. \<lparr>pc_value = v, pc_denomination = SIGMA_DENOM_1\<rparr>) [8, 9, 7])"
proof -
  have "concat (map (mints_up_to (fst example_two) (SIGMA_DENOM_1, 1) 1) (rev [[1], [2]])) =
      map (\<lambda>v. \<lparr>pc_value = v, pc_denomination = SIGMA_DENOM_1\<rparr>) [8, 9, 7]"
    by (simp add: example_two_def example_one_def example_defs sigma_eval mints_up_to_def mints_in_def)
  then show ?thesis
    using GetCoinSetForSpend_exact [OF example_two_reached, of 1 SIGMA_DENOM_1 1 "blob_zero 32"] by force
qed

end
