(* ===== verification/Base58.thy ===== *)
theory Base58
  imports Hash Str_Encodings
begin

text \<open>
  Base 58 text, its checksummed form and the addresses built on it: \<open>src/src/base58.cpp\<close>.  A C string is the list of its
  characters before the terminating NUL.  The digit vectors are walked through \<open>reverse_iterator\<close>s, so the
  loops take them least significant digit first.  An outer None is a failed assert, an inner None a
  function that returns false; the theorems show that no assert fails.  Lengths are natural numbers: the \<open>int\<close> in which
  the code keeps the size of the digit vector would overflow for inputs above 1.5 gigabytes, which is outside the model.
\<close>

subsection \<open>Decoding and encoding\<close>

definition c_str :: "string \<Rightarrow> string" where
  "c_str s = takeWhile (\<lambda>c. c \<noteq> CHR 0x00) s"

definition pszBase58 :: string where
  "pszBase58 = ''123456789ABCDEFGHJKLMNPQRSTUVWXYZabcdefghijkmnopqrstuvwxyz''"

fun strchr :: "string \<Rightarrow> char \<Rightarrow> nat option" where
  "strchr [] c = None"
| "strchr (x # xs) c = (if x = c then Some 0 else map_option Suc (strchr xs c))"

fun b256_carry :: "nat \<Rightarrow> u8 list \<Rightarrow> u8 list \<times> nat" where
  "b256_carry carry [] = ([], carry)"
| "b256_carry carry (x # xs) =
     (let carry = carry + 58 * unat x; (ys, out) = b256_carry (carry div 256) xs
      in (of_nat (carry mod 256) # ys, out))"

fun decode_chars :: "string \<Rightarrow> u8 list \<Rightarrow> (string \<times> u8 list) option option" where
  "decode_chars [] b256 = Some (Some ([], b256))"
| "decode_chars (c # psz) b256 =
     (if isspace c then Some (Some (c # psz, b256))
      else case strchr pszBase58 c of None \<Rightarrow> Some None
        | Some d \<Rightarrow> (case b256_carry d b256 of (b256, carry) \<Rightarrow>
                       if carry \<noteq> 0 then None else decode_chars psz b256))"

definition DecodeBase58 :: "string \<Rightarrow> bytes option option" where
  "DecodeBase58 psz =
     (let psz = dropWhile isspace psz;
          zeroes = length (takeWhile (\<lambda>c. c = CHR ''1'') psz);
          psz = dropWhile (\<lambda>c. c = CHR ''1'') psz
      in case decode_chars psz (replicate (length psz * 733 div 1000 + 1) 0) of
           None \<Rightarrow> None
         | Some None \<Rightarrow> Some None
         | Some (Some (psz, b256)) \<Rightarrow>
             if dropWhile isspace psz \<noteq> [] then Some None
             else Some (Some (replicate zeroes 0 @ dropWhile (\<lambda>x. x = 0) (rev b256))))"

fun b58_carry :: "nat \<Rightarrow> nat \<Rightarrow> nat \<Rightarrow> u8 list \<Rightarrow> u8 list \<times> nat \<times> nat" where
  "b58_carry carry i len [] = ([], carry, i)"
| "b58_carry carry i len (x # xs) =
     (if carry \<noteq> 0 \<or> i < len
      then let carry = carry + 256 * unat x; (ys, out, j) = b58_carry (carry div 58) (i + 1) len xs
           in (of_nat (carry mod 58) # ys, out, j)
      else (x # xs, carry, i))"

fun encode_bytes :: "bytes \<Rightarrow> nat \<Rightarrow> u8 list \<Rightarrow> (nat \<times> u8 list) option" where
  "encode_bytes [] len b58 = Some (len, b58)"
| "encode_bytes (x # xs) len b58 =
     (case b58_carry (unat x) 0 len b58 of (b58, carry, i) \<Rightarrow> if carry \<noteq> 0 then None else encode_bytes xs i b58)"

definition EncodeBase58 :: "bytes \<Rightarrow> string option" where
  "EncodeBase58 vch =
     (let zeroes = length (takeWhile (\<lambda>x. x = 0) vch);
          vch = dropWhile (\<lambda>x. x = 0) vch;
          sz = length vch * 138 div 100 + 1
      in case encode_bytes vch 0 (replicate sz 0) of None \<Rightarrow> None
         | Some (len, b58) \<Rightarrow>
             Some (replicate zeroes (CHR ''1'')
                   @ map (\<lambda>d. pszBase58 ! unat d) (dropWhile (\<lambda>x. x = 0) (drop (sz - len) (rev b58)))))"

definition EncodeBase58Check :: "bytes \<Rightarrow> string option" where
  "EncodeBase58Check vchIn = EncodeBase58 (vchIn @ take 4 (Hash vchIn))"

definition DecodeBase58Check :: "string \<Rightarrow> bytes option option" where
  "DecodeBase58Check psz =
     (case DecodeBase58 psz of None \<Rightarrow> None
      | Some None \<Rightarrow> Some None
      | Some (Some vch) \<Rightarrow>
          if length vch < 4 then Some None
          else let vchRet = take (length vch - 4) vch
               in if take 4 (Hash vchRet) \<noteq> drop (length vch - 4) vch then Some None else Some (Some vchRet))"

subsection \<open>Versioned data and addresses\<close>

record CBase58Data =
  vchVersion :: bytes
  vchData :: bytes

definition SetData :: "bytes \<Rightarrow> bytes \<Rightarrow> CBase58Data" where
  "SetData vchVersionIn pdata = \<lparr>vchVersion = vchVersionIn, vchData = pdata\<rparr>"

definition CBase58Data_SetString :: "string \<Rightarrow> nat \<Rightarrow> (CBase58Data \<times> bool) option" where
  "CBase58Data_SetString psz nVersionBytes =
     (case DecodeBase58Check psz of None \<Rightarrow> None
      | Some None \<Rightarrow> Some (\<lparr>vchVersion = [], vchData = []\<rparr>, False)
      | Some (Some vchTemp) \<Rightarrow>
          if length vchTemp < nVersionBytes then Some (\<lparr>vchVersion = [], vchData = []\<rparr>, False)
          else Some (\<lparr>vchVersion = take nVersionBytes vchTemp, vchData = drop nVersionBytes vchTemp\<rparr>, True))"

definition CBase58Data_ToString :: "CBase58Data \<Rightarrow> string option" where
  "CBase58Data_ToString d = EncodeBase58Check (vchVersion d @ vchData d)"

fun bytes_less :: "bytes \<Rightarrow> bytes \<Rightarrow> bool" where
  "bytes_less xs [] = False"
| "bytes_less [] (y # ys) = True"
| "bytes_less (x # xs) (y # ys) = (x < y \<or> x = y \<and> bytes_less xs ys)"

definition CBase58Data_CompareTo :: "CBase58Data \<Rightarrow> CBase58Data \<Rightarrow> int" where
  "CBase58Data_CompareTo a b58 =
     (if bytes_less (vchVersion a) (vchVersion b58) then - 1
      else if bytes_less (vchVersion b58) (vchVersion a) then 1
      else if bytes_less (vchData a) (vchData b58) then - 1
      else if bytes_less (vchData b58) (vchData a) then 1
      else 0)"

datatype CTxDestination = CNoDestination | CKeyID bytes | CScriptID bytes

record Base58Prefixes =
  PUBKEY_ADDRESS :: bytes
  SCRIPT_ADDRESS :: bytes
  SECRET_KEY :: bytes

definition CMainParams_prefixes :: Base58Prefixes where
  "CMainParams_prefixes = \<lparr>PUBKEY_ADDRESS = [80], SCRIPT_ADDRESS = [53], SECRET_KEY = [208]\<rparr>"

primrec CBitcoinAddress_Set :: "Base58Prefixes \<Rightarrow> CTxDestination \<Rightarrow> CBase58Data \<Rightarrow> CBase58Data \<times> bool" where
  "CBitcoinAddress_Set p CNoDestination addr = (addr, False)"
| "CBitcoinAddress_Set p (CKeyID i) addr = (SetData (PUBKEY_ADDRESS p) i, True)"
| "CBitcoinAddress_Set p (CScriptID i) addr = (SetData (SCRIPT_ADDRESS p) i, True)"

definition CBitcoinAddress_IsValid :: "Base58Prefixes \<Rightarrow> CBase58Data \<Rightarrow> bool" where
  "CBitcoinAddress_IsValid p addr \<longleftrightarrow>
     length (vchData addr) = 20 \<and> (vchVersion addr = PUBKEY_ADDRESS p \<or> vchVersion addr = SCRIPT_ADDRESS p)"

definition CBitcoinAddress_Get :: "Base58Prefixes \<Rightarrow> CBase58Data \<Rightarrow> CTxDestination" where
  "CBitcoinAddress_Get p addr =
     (if \<not> CBitcoinAddress_IsValid p addr then CNoDestination
      else if vchVersion addr = PUBKEY_ADDRESS p then CKeyID (take 20 (vchData addr))
      else if vchVersion addr = SCRIPT_ADDRESS p then CScriptID (take 20 (vchData addr))
      else CNoDestination)"

definition CBitcoinAddress_GetIndexKey :: "Base58Prefixes \<Rightarrow> CBase58Data \<Rightarrow> (bytes \<times> int) option" where
  "CBitcoinAddress_GetIndexKey p addr =
     (if \<not> CBitcoinAddress_IsValid p addr then None
      else if vchVersion addr = PUBKEY_ADDRESS p then Some (take 20 (vchData addr), 1)
      else if vchVersion addr = SCRIPT_ADDRESS p then Some (take 20 (vchData addr), 2)
      else None)"

definition CBitcoinAddress_GetKeyID :: "Base58Prefixes \<Rightarrow> CBase58Data \<Rightarrow> bytes option" where
  "CBitcoinAddress_GetKeyID p addr =
     (if \<not> CBitcoinAddress_IsValid p addr \<or> vchVersion addr \<noteq> PUBKEY_ADDRESS p then None else Some (take 20 (vchData addr)))"

definition CBitcoinAddress_IsScript :: "Base58Prefixes \<Rightarrow> CBase58Data \<Rightarrow> bool" where
  "CBitcoinAddress_IsScript p addr \<longleftrightarrow> CBitcoinAddress_IsValid p addr \<and> vchVersion addr = SCRIPT_ADDRESS p"

definition CBitcoinSecret_SetKey :: "Base58Prefixes \<Rightarrow> bytes \<Rightarrow> bool \<Rightarrow> CBase58Data" where
  "CBitcoinSecret_SetKey p vchSecret compressed =
     (let d = SetData (SECRET_KEY p) vchSecret in if compressed then d\<lparr>vchData := vchData d @ [1]\<rparr> else d)"

definition CBitcoinSecret_GetKey :: "CBase58Data \<Rightarrow> (bytes \<times> bool) option" where
  "CBitcoinSecret_GetKey d =
     (if length (vchData d) < 32 then None
      else Some (take 32 (vchData d), length (vchData d) > 32 \<and> vchData d ! 32 = 1))"

definition CBitcoinSecret_IsValid :: "Base58Prefixes \<Rightarrow> CBase58Data \<Rightarrow> bool" where
  "CBitcoinSecret_IsValid p d \<longleftrightarrow>
     (length (vchData d) = 32 \<or> length (vchData d) = 33 \<and> vchData d ! 32 = 1) \<and> vchVersion d = SECRET_KEY p"

definition CBitcoinSecret_SetString :: "Base58Prefixes \<Rightarrow> string \<Rightarrow> (CBase58Data \<times> bool) option" where
  "CBitcoinSecret_SetString p pszSecret =
     map_option (\<lambda>(d, ok). (d, ok \<and> CBitcoinSecret_IsValid p d)) (CBase58Data_SetString pszSecret 1)"

subsection \<open>Numbers in a base\<close>

primrec digit_value :: "nat \<Rightarrow> u8 list \<Rightarrow> nat" where
  "digit_value base [] = 0"
| "digit_value base (x # xs) = unat x + base * digit_value base xs"

lemma digit_value_append: "digit_value base (xs @ ys) = digit_value base xs + base ^ length xs * digit_value base ys"
  by (induction xs) (simp_all add: algebra_simps)

lemma digit_value_zeros [simp]: "digit_value base (replicate n 0) = 0"
  by (induction n) simp_all

text \<open>A base of at most 256, the interface of the two conversions to their digit vectors.\<close>

locale radix =
  fixes base :: nat
  assumes base: "1 < base" "base \<le> 256"
begin

definition digits :: "u8 list \<Rightarrow> bool" where
  "digits xs \<longleftrightarrow> list_all (\<lambda>x. unat x < base) xs"

lemma digits_simps [simp]: "digits []" "digits (x # xs) \<longleftrightarrow> unat x < base \<and> digits xs"
  "digits (xs @ ys) \<longleftrightarrow> digits xs \<and> digits ys" "digits (rev xs) = digits xs"
  by (auto simp: digits_def list_all_iff)

lemma digits_zeros [simp]: "digits (replicate n 0)"
  using base by (simp add: digits_def list_all_iff)

lemma unat_digit [simp]: "unat (of_nat (n mod base) :: u8) = n mod base"
proof -
  have "n mod base < base" using base by (intro mod_less_divisor) simp
  then have "n mod base < 2 ^ 8" using base(2) by simp
  then show ?thesis by (simp add: unat_of_nat take_bit_nat_eq_self)
qed

lemma value_less: "digits xs \<Longrightarrow> digit_value base xs < base ^ length xs"
proof (induction xs)
  case (Cons x xs)
  then have "digit_value base xs + 1 \<le> base ^ length xs" by simp
  then have "base * (digit_value base xs + 1) \<le> base * base ^ length xs" by (rule mult_le_mono2)
  with Cons.prems show ?case by simp
qed simp

lemma value_inject: "digits xs \<Longrightarrow> digits ys \<Longrightarrow> length xs = length ys \<Longrightarrow> digit_value base xs = digit_value base ys \<Longrightarrow> xs = ys"
proof (induction xs ys rule: list_induct2')
  case (4 x xs y ys)
  have "(unat x + base * digit_value base xs) mod base = (unat y + base * digit_value base ys) mod base"
    using 4(5) by simp
  moreover have "unat x < base" "unat y < base" using 4(2,3) by simp_all
  ultimately have "unat x = unat y" by (simp only: mod_mult_self2 mod_less)
  with 4 base show ?case by (auto simp: word_unat_eq_iff)
qed simp_all

lemma value_pos: "digits xs \<Longrightarrow> xs \<noteq> [] \<Longrightarrow> last xs \<noteq> 0 \<Longrightarrow> base ^ (length xs - 1) \<le> digit_value base xs"
proof (induction xs rule: rev_induct)
  case (snoc x xs)
  then have "1 \<le> unat x" by (simp add: unat_eq_zero Suc_le_eq flip: neq0_conv)
  then have "base ^ length xs \<le> base ^ length xs * unat x" by (cases "unat x") simp_all
  then show ?case by (simp add: digit_value_append trans_le_add2)
qed simp

lemma value_unique:
  assumes "digits xs" "digits ys" "digit_value base xs = digit_value base ys"
    and "xs = [] \<or> last xs \<noteq> 0" "ys = [] \<or> last ys \<noteq> 0"
  shows "xs = ys"
proof -
  have len: "length as \<le> length bs"
    if "digits as" "digits bs" "as = [] \<or> last as \<noteq> 0" "digit_value base as = digit_value base bs" for as bs
  proof (rule ccontr)
    assume "\<not> length as \<le> length bs"
    then have "as \<noteq> []" "length bs \<le> length as - 1" by auto
    then have "base ^ length bs \<le> base ^ (length as - 1)" using base by (simp add: power_increasing)
    also have "\<dots> \<le> digit_value base bs" using value_pos [OF that(1)] that(3,4) \<open>as \<noteq> []\<close> by simp
    finally show False using value_less [OF that(2)] by simp
  qed
  show ?thesis
    using len [OF assms(1,2,4,3)] len [OF assms(2,1,5)] assms by (intro value_inject) simp_all
qed

end

interpretation b58: radix 58
  by unfold_locales simp_all

interpretation b256: radix 256
  by unfold_locales simp_all

lemma unat_u8_less: "unat (x :: u8) < 256"
  using unat_lt_exp [of x] by simp

lemma b256_digits [simp]: "b256.digits xs"
  by (simp add: b256.digits_def list_all_iff unat_u8_less)

subsection \<open>The carry loops\<close>

lemma b256_carry_value:
  "b256_carry carry xs = (ys, out) \<Longrightarrow>
     length ys = length xs \<and> digit_value 256 ys + 256 ^ length xs * out = carry + 58 * digit_value 256 xs"
proof (induction carry xs arbitrary: ys out rule: b256_carry.induct)
  case (2 carry x xs)
  let ?c = "carry + 58 * unat x"
  obtain zs where zs: "b256_carry (?c div 256) xs = (zs, out)" "ys = of_nat (?c mod 256) # zs"
    using 2(2) by (auto simp: Let_def split: prod.splits)
  have IH: "length zs = length xs" "digit_value 256 zs + 256 ^ length xs * out = ?c div 256 + 58 * digit_value 256 xs"
    using 2(1) [OF refl, of zs out] zs(1) by simp_all
  have "digit_value 256 ys + 256 ^ length (x # xs) * out = ?c mod 256 + 256 * (digit_value 256 zs + 256 ^ length xs * out)"
    by (simp add: zs(2) b256.unat_digit algebra_simps)
  also have "\<dots> = ?c mod 256 + 256 * (?c div 256) + 256 * (58 * digit_value 256 xs)" by (simp only: IH(2) distrib_left add.assoc)
  also have "\<dots> = ?c + 256 * (58 * digit_value 256 xs)" by (simp only: mod_mult_div_eq)
  also have "\<dots> = carry + 58 * digit_value 256 (x # xs)" by (simp add: algebra_simps)
  finally have e: "digit_value 256 ys + 256 ^ length (x # xs) * out = carry + 58 * digit_value 256 (x # xs)" .
  show ?case by (rule conjI [OF _ e]) (simp add: zs(2) IH(1))
qed simp

lemma b58_carry_value:
  assumes "b58_carry carry i len xs = (ys, out, j)" and "b58.digits xs" and "\<forall>x \<in> set (drop (len - i) xs). x = 0"
  shows "length ys = length xs \<and> b58.digits ys \<and> digit_value 58 ys + 58 ^ length xs * out = carry + 256 * digit_value 58 xs
     \<and> i \<le> j \<and> j \<le> i + length xs \<and> (\<forall>x \<in> set (drop (j - i) ys). x = 0)"
  using assms
proof (induction carry i len xs arbitrary: ys out j rule: b58_carry.induct)
  case (2 carry i len x xs)
  show ?case
  proof (cases "carry \<noteq> 0 \<or> i < len")
    case True
    let ?c = "carry + 256 * unat x"
    obtain zs where zs: "b58_carry (?c div 58) (i + 1) len xs = (zs, out, j)" "ys = of_nat (?c mod 58) # zs"
      using 2(2) True by (auto simp: Let_def split: prod.splits)
    have tl: "\<forall>x \<in> set (drop (len - (i + 1)) xs). x = 0"
    proof (cases "len - i")
      case 0
      then show ?thesis using 2(4) by simp
    next
      case (Suc n)
      then have "len - (i + 1) = n" by simp
      then show ?thesis using 2(4) Suc by simp
    qed
    have IH: "length zs = length xs" "b58.digits zs" "digit_value 58 zs + 58 ^ length xs * out = ?c div 58 + 256 * digit_value 58 xs"
      "i + 1 \<le> j" "j \<le> i + 1 + length xs" "\<forall>x \<in> set (drop (j - (i + 1)) zs). x = 0"
      using 2(1) [OF True refl, of zs out j] zs(1) 2(3) tl by simp_all
    have "digit_value 58 ys + 58 ^ length (x # xs) * out = ?c mod 58 + 58 * (digit_value 58 zs + 58 ^ length xs * out)"
      by (simp add: zs(2) b58.unat_digit algebra_simps)
    also have "\<dots> = ?c mod 58 + 58 * (?c div 58) + 58 * (256 * digit_value 58 xs)" by (simp only: IH(3) distrib_left add.assoc)
    also have "\<dots> = ?c + 58 * (256 * digit_value 58 xs)" by (simp only: mod_mult_div_eq)
    also have "\<dots> = carry + 256 * digit_value 58 (x # xs)" by (simp add: algebra_simps)
    finally have e: "digit_value 58 ys + 58 ^ length (x # xs) * out = carry + 256 * digit_value 58 (x # xs)" .
    have "j - i = Suc (j - (i + 1))" using IH(4) by simp
    then have z: "\<forall>x \<in> set (drop (j - i) ys). x = 0" using IH(6) by (simp add: zs(2))
    show ?thesis
      by (intro conjI e z) (use IH(1,2,4,5) in \<open>simp_all add: zs(2) b58.unat_digit\<close>)
  next
    case False
    then have "ys = x # xs" "out = carry" "j = i" "carry = 0" "\<forall>y \<in> set (x # xs). y = 0" using 2(2,4) by auto
    moreover have "digit_value 58 zs = 0" if "\<forall>y \<in> set zs. y = 0" for zs using that by (induction zs) simp_all
    ultimately show ?thesis using 2(3) by simp
  qed
qed simp

subsection \<open>The vectors are large enough\<close>

text \<open>The sizes \<open>n * 138 / 100 + 1\<close> and \<open>n * 733 / 1000 + 1\<close> suffice because the fractions exceed 11/8 and 52/71,
  which exceed the quotients of the logarithms.\<close>

lemma power_bound:
  fixes a b :: nat
  assumes "a ^ q \<le> b ^ p" and "p * s \<le> r * q" and "1 < b" and "0 < s" "0 < q"
  shows "a ^ n < b ^ (n * r div s + 1)"
proof -
  let ?m = "n * r div s + 1"
  have "(a ^ n) ^ (q * s) = (a ^ q) ^ (n * s)" by (simp add: mult.commute mult.left_commute flip: power_mult)
  also have "\<dots> \<le> (b ^ p) ^ (n * s)" using assms(1) by (simp add: power_mono)
  also have "\<dots> = b ^ (n * (p * s))" by (simp add: mult.commute mult.left_commute flip: power_mult)
  also have "\<dots> \<le> b ^ (n * (r * q))" using assms(2,3) by (intro power_increasing) simp_all
  also have "\<dots> < b ^ (?m * (q * s))"
  proof (rule power_strict_increasing [OF _ assms(3)])
    have "n * r < ?m * s" using dividend_less_div_times [OF assms(4), of "n * r"] by simp
    then have "n * r * q < ?m * s * q" using assms(5) by (rule mult_strict_right_mono)
    then show "n * (r * q) < ?m * (q * s)" by (simp only: mult.assoc mult.commute [of q])
  qed
  also have "\<dots> = (b ^ ?m) ^ (q * s)" by (simp only: power_mult)
  finally show ?thesis by (rule power_less_imp_less_base) simp
qed

lemma b58_size: "256 ^ n < (58 :: nat) ^ (n * 138 div 100 + 1)"
  by (rule power_bound [where p = 11 and q = 8]) simp_all

lemma b256_size: "58 ^ n < (256 :: nat) ^ (n * 733 div 1000 + 1)"
  by (rule power_bound [where p = 52 and q = 71]) simp_all

text \<open>Big-endian value of the bytes still to be read after a value \<open>v\<close>.\<close>

fun be_value :: "nat \<Rightarrow> nat \<Rightarrow> nat list \<Rightarrow> nat" where
  "be_value base v [] = v"
| "be_value base v (x # xs) = be_value base (v * base + x) xs"

lemma be_value_mono: "0 < base \<Longrightarrow> v \<le> be_value base v xs"
proof (induction base v xs rule: be_value.induct)
  case (2 base v x xs)
  have "v \<le> v * base + x" using 2(2) by (cases base) auto
  also have "\<dots> \<le> be_value base (v * base + x) xs" using 2 by simp
  finally show ?case by simp
qed simp

lemma be_value_less: "\<forall>x \<in> set xs. x < base \<Longrightarrow> be_value base v xs < (v + 1) * base ^ length xs"
proof (induction base v xs rule: be_value.induct)
  case (2 base v x xs)
  have "be_value base (v * base + x) xs < (v * base + x + 1) * base ^ length xs" using 2 by simp
  also have "\<dots> \<le> ((v + 1) * base) * base ^ length xs" using 2(2) by (intro mult_le_mono1) simp
  finally show ?case by (simp add: algebra_simps)
qed simp

lemma be_value_digits: "be_value base v (map unat xs) = digit_value base (rev xs) + base ^ length xs * v"
  by (induction xs arbitrary: v) (simp_all add: digit_value_append algebra_simps)

lemma no_carry: "(v :: nat) + b * out = w \<Longrightarrow> w < b \<Longrightarrow> out = 0"
  by (cases out) simp_all

lemma encode_bytes_spec:
  assumes "b58.digits b58" and "len \<le> length b58" and "\<forall>x \<in> set (drop len b58). x = 0"
    and "be_value 256 (digit_value 58 b58) (map unat bs) < 58 ^ length b58"
  shows "\<exists>len' ds. encode_bytes bs len b58 = Some (len', ds) \<and> length ds = length b58 \<and> b58.digits ds \<and> len' \<le> length ds
     \<and> (\<forall>x \<in> set (drop len' ds). x = 0) \<and> digit_value 58 ds = be_value 256 (digit_value 58 b58) (map unat bs)"
  using assms
proof (induction bs len b58 rule: encode_bytes.induct)
  case (2 x xs len b58)
  obtain ys out j where c: "b58_carry (unat x) 0 len b58 = (ys, out, j)" by (metis prod_cases3)
  have C: "length ys = length b58" "b58.digits ys" "digit_value 58 ys + 58 ^ length b58 * out = unat x + 256 * digit_value 58 b58"
      "j \<le> length b58" "\<forall>x \<in> set (drop j ys). x = 0"
    using b58_carry_value [OF c 2(2)] 2(4) by simp_all
  have "digit_value 58 b58 * 256 + unat x \<le> be_value 256 (digit_value 58 b58) (map unat (x # xs))"
    using be_value_mono [of 256 "digit_value 58 b58 * 256 + unat x" "map unat xs"] by simp
  then have out: "out = 0" using 2(5) by (intro no_carry [OF C(3)]) simp
  then have v: "digit_value 58 ys = digit_value 58 b58 * 256 + unat x" using C(3) by simp
  show ?case
    using 2(1) [OF c [symmetric] refl] C(1,2,4,5) 2(5) c out by (simp add: v)
qed simp

lemma strchr_bound: "strchr xs c = Some d \<Longrightarrow> d < length xs"
  by (induction xs arbitrary: d) (auto split: if_splits)

lemma decode_chars_total:
  assumes "(digit_value 256 b256 + 1) * 58 ^ length psz \<le> 256 ^ length b256"
  shows "decode_chars psz b256 \<noteq> None"
  using assms
proof (induction psz b256 rule: decode_chars.induct)
  case (2 c psz b256)
  show ?case
  proof (cases "isspace c \<or> strchr pszBase58 c = None")
    case False
    then obtain d where d: "strchr pszBase58 c = Some d" by auto
    have "d < 58" using strchr_bound [OF d] by (simp add: pszBase58_def)
    obtain ys out where c: "b256_carry d b256 = (ys, out)" by fastforce
    note C = b256_carry_value [OF c]
    have le: "(d + 58 * digit_value 256 b256 + 1) * 58 ^ length psz \<le> 256 ^ length b256"
    proof -
      have "(d + 58 * digit_value 256 b256 + 1) * 58 ^ length psz \<le> (58 * (digit_value 256 b256 + 1)) * 58 ^ length psz"
        using \<open>d < 58\<close> by (intro mult_le_mono1) simp
      also have "\<dots> \<le> 256 ^ length b256" using 2(2) by (simp add: algebra_simps)
      finally show ?thesis .
    qed
    have "(d + 58 * digit_value 256 b256 + 1) * 1 \<le> (d + 58 * digit_value 256 b256 + 1) * 58 ^ length psz"
      by (rule mult_le_mono2) simp
    from order_trans [OF this le] have "d + 58 * digit_value 256 b256 < 256 ^ length b256" by simp
    then have "out = 0" using C no_carry by blast
    then show ?thesis using 2(1) [OF _ d c [symmetric]] False d c C le by (simp add: add.commute)
  qed auto
qed simp

lemma DecodeBase58_total: "DecodeBase58 psz \<noteq> None"
proof -
  have "decode_chars s (replicate (length s * 733 div 1000 + 1) 0) \<noteq> None" for s
    by (rule decode_chars_total) (use b256_size [of "length s"] in simp)
  then show ?thesis by (auto simp: DecodeBase58_def Let_def split: option.splits prod.splits)
qed

subsection \<open>Round trips\<close>

lemma alphabet:
  assumes "d < 58"
  shows "strchr pszBase58 (pszBase58 ! d) = Some d" "\<not> isspace (pszBase58 ! d)" "pszBase58 ! d = CHR ''1'' \<longleftrightarrow> d = 0"
proof -
  have "list_all (\<lambda>d. strchr pszBase58 (pszBase58 ! d) = Some d \<and> \<not> isspace (pszBase58 ! d) \<and> (pszBase58 ! d = CHR ''1'' \<longleftrightarrow> d = 0)) [0..<58]"
    by code_simp
  then show "strchr pszBase58 (pszBase58 ! d) = Some d" "\<not> isspace (pszBase58 ! d)" "pszBase58 ! d = CHR ''1'' \<longleftrightarrow> d = 0"
    using assms by (auto simp: list_all_iff)
qed

abbreviation to_text :: "u8 list \<Rightarrow> string" where
  "to_text ds \<equiv> map (\<lambda>d. pszBase58 ! unat d) ds"

lemma decode_chars_text:
  assumes "b58.digits ds" and "be_value 58 (digit_value 256 b256) (map unat ds) < 256 ^ length b256"
  shows "\<exists>b. decode_chars (to_text ds) b256 = Some (Some ([], b)) \<and> digit_value 256 b = be_value 58 (digit_value 256 b256) (map unat ds)"
  using assms
proof (induction ds arbitrary: b256)
  case (Cons d ds)
  obtain ys out where c: "b256_carry (unat d) b256 = (ys, out)" by fastforce
  have C: "length ys = length b256" "digit_value 256 ys + 256 ^ length b256 * out = unat d + 58 * digit_value 256 b256"
    using b256_carry_value [OF c] by simp_all
  have "digit_value 256 b256 * 58 + unat d \<le> be_value 58 (digit_value 256 b256) (map unat (d # ds))"
    using be_value_mono [of 58 "digit_value 256 b256 * 58 + unat d" "map unat ds"] by simp
  then have out: "out = 0" using Cons.prems(2) by (intro no_carry [OF C(2)]) simp
  then have v: "digit_value 256 ys = digit_value 256 b256 * 58 + unat d" using C(2) by simp
  have "unat d < 58" using Cons.prems(1) by simp
  then show ?case
    using Cons.IH [of ys] Cons.prems C(1) c out alphabet [of "unat d"] by (simp add: v)
qed simp

lemma value_dropWhile: "digit_value base (rev (dropWhile (\<lambda>x. x = 0) xs)) = digit_value base (rev xs)"
  by (induction xs) (simp_all add: digit_value_append)

lemma value_zero_list: "\<forall>x \<in> set xs. x = 0 \<Longrightarrow> digit_value base xs = 0"
  by (induction xs) simp_all

lemma hd_dropWhile_nonzero: "dropWhile (\<lambda>x. x = 0) xs = [] \<or> hd (dropWhile (\<lambda>x. x = 0) xs) \<noteq> 0"
  using hd_dropWhile [of "\<lambda>x. x = 0" xs] by blast

lemma EncodeBase58_spec:
  fixes vch :: bytes
  defines "r \<equiv> dropWhile (\<lambda>x. x = 0) vch"
  shows "\<exists>ds. EncodeBase58 vch = Some (replicate (length (takeWhile (\<lambda>x. x = 0) vch)) (CHR ''1'') @ to_text ds)
     \<and> b58.digits ds \<and> (ds = [] \<or> hd ds \<noteq> 0) \<and> digit_value 58 (rev ds) = digit_value 256 (rev r)"
proof -
  let ?sz = "length r * 138 div 100 + 1"
  have val: "be_value 256 0 (map unat r) = digit_value 256 (rev r)" by (simp add: be_value_digits)
  have "digit_value 256 (rev r) < 58 ^ ?sz"
    using b256.value_less [of "rev r"] b58_size [of "length r"] by simp
  then obtain len ds where e: "encode_bytes r 0 (replicate ?sz 0) = Some (len, ds)" "length ds = ?sz" "b58.digits ds" "len \<le> length ds"
      "\<forall>x \<in> set (drop len ds). x = 0" "digit_value 58 ds = digit_value 256 (rev r)"
    using encode_bytes_spec [of "replicate ?sz 0" 0 r] val by auto
  let ?d = "dropWhile (\<lambda>x. x = 0) (drop (?sz - len) (rev ds))"
  have top: "drop (?sz - len) (rev ds) = rev (take len ds)" using e(2,4) by (simp add: drop_rev)
  have "digit_value 58 (rev ?d) = digit_value 58 (take len ds)" by (simp only: value_dropWhile top rev_rev_ident)
  also have "\<dots> = digit_value 58 (take len ds @ drop len ds)" using value_zero_list [OF e(5)] by (simp only: digit_value_append)
  also have "\<dots> = digit_value 256 (rev r)" using e(6) by simp
  finally have "digit_value 58 (rev ?d) = digit_value 256 (rev r)" .
  moreover have "b58.digits ?d"
    using e(3) set_dropWhileD [of _ _ "drop (?sz - len) (rev ds)"] in_set_dropD [of _ "?sz - len" "rev ds"]
    by (auto simp: b58.digits_def list_all_iff)
  ultimately show ?thesis
    using e(1) hd_dropWhile_nonzero [of "drop (?sz - len) (rev ds)"] by (auto simp: EncodeBase58_def Let_def simp flip: r_def)
qed

lemma EncodeBase58_total: "EncodeBase58 vch \<noteq> None"
  using EncodeBase58_spec [of vch] by auto

lemma DecodeBase58_text:
  assumes "b58.digits ds" and "ds = [] \<or> hd ds \<noteq> 0"
  shows "\<exists>b. DecodeBase58 (replicate z (CHR ''1'') @ to_text ds) = Some (Some (replicate z 0 @ dropWhile (\<lambda>x. x = 0) (rev b)))
     \<and> digit_value 256 b = digit_value 58 (rev ds)"
proof -
  let ?n = "length ds * 733 div 1000 + 1"
  have "digit_value 58 (rev ds) < 256 ^ ?n"
    using b58.value_less [of "rev ds"] assms(1) b256_size [of "length ds"] by simp
  then obtain b where b: "decode_chars (to_text ds) (replicate ?n 0) = Some (Some ([], b))" "digit_value 256 b = digit_value 58 (rev ds)"
    using decode_chars_text [OF assms(1), of "replicate ?n 0"] by (auto simp: be_value_digits)
  have first: "to_text ds = [] \<or> hd (to_text ds) \<noteq> CHR ''1''"
    using assms alphabet(3) [of "unat (hd ds)"] by (cases ds) (auto simp: unat_eq_zero)
  have "\<not> isspace (CHR ''1'')" by (simp add: isspace_def)
  then have "dropWhile isspace (replicate z (CHR ''1'') @ to_text ds) = replicate z (CHR ''1'') @ to_text ds"
    using assms(1) alphabet(2) by (cases z; cases ds) auto
  moreover have "takeWhile (\<lambda>c. c = CHR ''1'') (replicate z (CHR ''1'') @ to_text ds) = replicate z (CHR ''1'')"
    "dropWhile (\<lambda>c. c = CHR ''1'') (replicate z (CHR ''1'') @ to_text ds) = to_text ds"
    using first by (induction z) (cases ds; auto)+
  ultimately show ?thesis using b by (auto simp: DecodeBase58_def Let_def)
qed

lemma DecodeBase58_EncodeBase58: "EncodeBase58 vch = Some s \<Longrightarrow> DecodeBase58 s = Some (Some vch)"
proof -
  assume s: "EncodeBase58 vch = Some s"
  let ?z = "length (takeWhile (\<lambda>x. x = 0) vch)" and ?r = "dropWhile (\<lambda>x. x = 0) vch"
  obtain ds where ds: "s = replicate ?z (CHR ''1'') @ to_text ds" "b58.digits ds" "ds = [] \<or> hd ds \<noteq> 0"
      "digit_value 58 (rev ds) = digit_value 256 (rev ?r)"
    using EncodeBase58_spec [of vch] s by auto
  obtain b where b: "DecodeBase58 s = Some (Some (replicate ?z 0 @ dropWhile (\<lambda>x. x = 0) (rev b)))" "digit_value 256 b = digit_value 58 (rev ds)"
    using DecodeBase58_text [OF ds(2,3), of ?z] ds(1) by auto
  have "rev (dropWhile (\<lambda>x. x = 0) (rev b)) = rev ?r"
  proof (rule b256.value_unique)
    show "digit_value 256 (rev (dropWhile (\<lambda>x. x = 0) (rev b))) = digit_value 256 (rev ?r)"
      using b(2) ds(4) by (simp add: value_dropWhile)
  qed (use hd_dropWhile_nonzero [of "rev b"] hd_dropWhile_nonzero [of vch] in \<open>auto simp: last_rev\<close>)
  then have "dropWhile (\<lambda>x. x = 0) (rev b) = ?r" by simp
  moreover have "replicate ?z 0 = takeWhile (\<lambda>x. x = 0) vch"
    by (rule replicate_eqI [symmetric]) (auto dest: set_takeWhileD)
  ultimately show ?thesis using b(1) by simp
qed

lemma EncodeBase58Check_decodes: "\<exists>s. EncodeBase58Check vch = Some s \<and> DecodeBase58Check s = Some (Some vch)"
proof -
  obtain s where s: "EncodeBase58 (vch @ take 4 (Hash vch)) = Some s" using EncodeBase58_total by fastforce
  have "DecodeBase58Check s = Some (Some vch)"
    by (simp add: DecodeBase58Check_def DecodeBase58_EncodeBase58 [OF s] Let_def)
  with s show ?thesis by (auto simp: EncodeBase58Check_def)
qed

lemma CBase58Data_roundtrip:
  "\<exists>s. CBase58Data_ToString d = Some s \<and> CBase58Data_SetString s (length (vchVersion d)) = Some (d, True)"
  using EncodeBase58Check_decodes [of "vchVersion d @ vchData d"] by (fastforce simp: CBase58Data_ToString_def CBase58Data_SetString_def)

text \<open>C32: Base 58 with a checksum never aborts and loses nothing: the vectors that the two conversions allocate are
  large enough for every input, so that no assert on the carry fails, every byte string has an encoding, and
  decoding the encoding gives the byte string back.\<close>

theorem Base58Check_roundtrip:
  "(\<exists>s. EncodeBase58Check vch = Some s \<and> DecodeBase58Check s = Some (Some vch)) \<and> DecodeBase58Check psz \<noteq> None"
  using EncodeBase58Check_decodes DecodeBase58_total [of psz]
  by (auto simp: DecodeBase58Check_def Let_def split: option.splits)

text \<open>C33: The text of an address or of a private key names what it was made from: reading the text of the address of a key
  hash or a script hash gives a valid address whose destination is that key or script, and reading the text of a secret
  gives back the secret and whether its public key is compressed.\<close>

theorem CBitcoinAddress_roundtrip:
  assumes "length (PUBKEY_ADDRESS p) = 1" "length (SCRIPT_ADDRESS p) = 1" "length (SECRET_KEY p) = 1"
    and "PUBKEY_ADDRESS p \<noteq> SCRIPT_ADDRESS p" and "length h = 20" and "length key = 32"
  shows "(\<exists>s d. CBase58Data_ToString (fst (CBitcoinAddress_Set p (CKeyID h) addr)) = Some s
            \<and> CBase58Data_SetString s 1 = Some (d, True) \<and> CBitcoinAddress_Get p d = CKeyID h \<and> \<not> CBitcoinAddress_IsScript p d)
       \<and> (\<exists>s d. CBase58Data_ToString (fst (CBitcoinAddress_Set p (CScriptID h) addr)) = Some s
            \<and> CBase58Data_SetString s 1 = Some (d, True) \<and> CBitcoinAddress_Get p d = CScriptID h \<and> CBitcoinAddress_IsScript p d)
       \<and> (\<exists>s d. CBase58Data_ToString (CBitcoinSecret_SetKey p key compressed) = Some s
            \<and> CBitcoinSecret_SetString p s = Some (d, True) \<and> CBitcoinSecret_GetKey d = Some (key, compressed))"
proof (intro conjI)
  have rt: "\<exists>s. CBase58Data_ToString d = Some s \<and> CBase58Data_SetString s 1 = Some (d, True)" if "length (vchVersion d) = 1" for d
    using CBase58Data_roundtrip [of d] that by simp
  let ?k = "SetData (PUBKEY_ADDRESS p) h" and ?s = "SetData (SCRIPT_ADDRESS p) h" and ?x = "CBitcoinSecret_SetKey p key compressed"
  note sel = SetData_def CBitcoinAddress_Get_def CBitcoinAddress_IsScript_def CBitcoinAddress_IsValid_def CBitcoinSecret_SetKey_def
    CBitcoinSecret_GetKey_def CBitcoinSecret_IsValid_def
  have get: "CBitcoinAddress_Get p ?k = CKeyID h" "\<not> CBitcoinAddress_IsScript p ?k" "CBitcoinAddress_Get p ?s = CScriptID h"
      "CBitcoinAddress_IsScript p ?s" "length (vchVersion ?k) = 1" "length (vchVersion ?s) = 1"
    using assms by (simp_all add: sel)
  show "\<exists>s d. CBase58Data_ToString (fst (CBitcoinAddress_Set p (CKeyID h) addr)) = Some s
      \<and> CBase58Data_SetString s 1 = Some (d, True) \<and> CBitcoinAddress_Get p d = CKeyID h \<and> \<not> CBitcoinAddress_IsScript p d"
    using rt [of ?k] get by auto
  show "\<exists>s d. CBase58Data_ToString (fst (CBitcoinAddress_Set p (CScriptID h) addr)) = Some s
      \<and> CBase58Data_SetString s 1 = Some (d, True) \<and> CBitcoinAddress_Get p d = CScriptID h \<and> CBitcoinAddress_IsScript p d"
    using rt [of ?s] get by auto
  have "length (vchVersion ?x) = 1" using assms(3) by (simp add: sel Let_def)
  then obtain s where s: "CBase58Data_ToString ?x = Some s" "CBase58Data_SetString s 1 = Some (?x, True)"
    using rt [of ?x] by blast
  moreover have "CBitcoinSecret_IsValid p ?x" "CBitcoinSecret_GetKey ?x = Some (key, compressed)"
    using assms(6) by (auto simp: sel Let_def nth_append)
  ultimately show "\<exists>s d. CBase58Data_ToString ?x = Some s \<and> CBitcoinSecret_SetString p s = Some (d, True)
      \<and> CBitcoinSecret_GetKey d = Some (key, compressed)"
    by (intro exI [of _ s] exI [of _ ?x]) (simp add: CBitcoinSecret_SetString_def)
qed

theorem CBitcoinAddress_roundtrip_witness:
  "\<exists>s d. CBase58Data_ToString (fst (CBitcoinAddress_Set CMainParams_prefixes (CKeyID (replicate 20 7)) (SetData [] []))) = Some s
     \<and> CBase58Data_SetString s 1 = Some (d, True) \<and> CBitcoinAddress_Get CMainParams_prefixes d = CKeyID (replicate 20 7)"
  using CBitcoinAddress_roundtrip [of CMainParams_prefixes "replicate 20 7" "replicate 32 9" "SetData [] []" True]
  by (auto simp: CMainParams_prefixes_def)

end
