(* ===== verification/Pow.thy ===== *)
theory Pow
  imports Chain
begin

text \<open>
  Difficulty retargeting and the check of proof of work: \<open>src/src/pow.cpp\<close>.
  The proof-of-work retarget computes with \<open>CBigNum\<close> (\<open>libzerocoin/bitcoin_bignum/bignum.h\<close>), an OpenSSL number: it is the
  integer it holds, and its conversions \<open>SetCompact\<close> and \<open>GetCompact\<close> are translated with the shifts, sign and
  byte count of OpenSSL on that integer.  The proof-of-stake retarget computes with
  \<open>arith_uint256\<close>, the limbs of the theory Arith_Uint256, where multiplication wraps at 256 bits.  None is an exception or a
  dereferenced null pointer.
\<close>

unbundle bit_operations_syntax

subsection \<open>Parameters\<close>


record PowParams =
  powLimit :: uint256
  posLimit :: uint256
  nPowTargetTimespan :: int
  nPowTargetSpacing :: int
  nLastPOWBlock :: int

definition CMainParams_pos :: PowParams where
  "CMainParams_pos = \<lparr>powLimit = replicate 31 0xff @ [0], posLimit = replicate 31 0xff @ [0],
     nPowTargetTimespan = 150 * 3, nPowTargetSpacing = 150, nLastPOWBlock = 551000\<rparr>"

subsection \<open>Compact form of CBigNum\<close>





subsection \<open>Proof of work\<close>




subsection \<open>Proof of stake\<close>

definition CalculateNextTargetRequired :: "PowParams \<Rightarrow> CBlockIndex \<Rightarrow> int \<Rightarrow> u32 option" where
  "CalculateNextTargetRequired params pindexLast nFirstBlockTime =
     (if nPowTargetSpacing params = 0 then None
      else let spacing = nPowTargetSpacing params;
               nActualSpacing = uint (nTime pindexLast) - nFirstBlockTime;
               bnTargetLimit = UintToArith256 (posLimit params);
               bnNew = fst (SetCompact (nBits pindexLast));
               nInterval = nPowTargetTimespan params sdiv spacing;
               bnNew = uint_mul32 bnNew (word_of_int ((nInterval - 1) * spacing + nActualSpacing + nActualSpacing))
           in case uint_div bnNew (uint_of_u64 (word_of_int ((nInterval + 1) * spacing))) of None \<Rightarrow> None
              | Some bnNew \<Rightarrow>
                GetCompact (if CompareTo bnNew uint_zero \<le> 0 \<or> CompareTo bnNew bnTargetLimit > 0 then bnTargetLimit else bnNew) False)"

definition GetNextTargetRequired :: "PowParams \<Rightarrow> BlockMap \<Rightarrow> ptr \<Rightarrow> bool \<Rightarrow> u32 option" where
  "GetNextTargetRequired params idx pindexLast fProofOfStake =
     (let nTargetLimit = GetCompact (UintToArith256 (posLimit params)) False
      in case pindexLast of None \<Rightarrow> nTargetLimit
         | Some h \<Rightarrow> (case idx h of None \<Rightarrow> None
           | Some b \<Rightarrow>
             if nHeight b = nLastPOWBlock params then nTargetLimit
             else (case GetLastBlockIndex idx pindexLast fProofOfStake of
                     Some (Some p) \<Rightarrow> (case idx p of None \<Rightarrow> None
                       | Some pb \<Rightarrow> (case pprev pb of None \<Rightarrow> nTargetLimit
                         | Some q \<Rightarrow> (case GetLastBlockIndex idx (Some q) fProofOfStake of
                             Some (Some r) \<Rightarrow> (case idx r of None \<Rightarrow> None
                               | Some rb \<Rightarrow> if pprev rb = None then nTargetLimit
                                            else CalculateNextTargetRequired params pb (uint (nTime rb)))
                           | _ \<Rightarrow> None)))
                   | _ \<Rightarrow> None)))"

subsection \<open>The check\<close>

text \<open>\<open>fNegative\<close> and \<open>fOverflow\<close> are never assigned in \<open>CheckProofOfWork\<close>; their indeterminate values are arguments.\<close>

definition CheckProofOfWork :: "bool \<Rightarrow> bool \<Rightarrow> uint256 \<Rightarrow> u32 \<Rightarrow> PowParams \<Rightarrow> int \<Rightarrow> bool" where
  "CheckProofOfWork fNegative fOverflow hash bits params height =
     (let bnTarget = fst (SetCompact bits)
      in if fNegative \<or> EqualTo bnTarget 0 \<or> fOverflow \<or> CompareTo bnTarget (UintToArith256 (powLimit params)) > 0 then False
         else if height = INT_MAX \<or> height < 233000 then True
         else if CompareTo (UintToArith256 hash) bnTarget > 0 then False
         else True)"

subsection \<open>Properties\<close>











text \<open>The number that \<open>CalculateNextTargetRequired\<close> encodes: the product wraps at 256 bits.\<close>

definition next_pos_target :: "nat \<Rightarrow> nat \<Rightarrow> nat \<Rightarrow> nat \<Rightarrow> nat" where
  "next_pos_target lim t m d = (let x = (m * t) mod 2 ^ 256 div d in if x = 0 \<or> lim < x then lim else x)"

lemma CalculateNextTargetRequired_value:
  assumes "0 < nPowTargetSpacing p" and "nPowTargetTimespan p = int i * nPowTargetSpacing p"
    and "m = (int i - 1) * nPowTargetSpacing p + 2 * (uint (nTime b) - t0)" and "0 \<le> m" "m < 2 ^ 32"
    and "d = (int i + 1) * nPowTargetSpacing p" and "d < 2 ^ 64"
  shows "\<exists>q. CalculateNextTargetRequired p b t0 = GetCompact q False \<and> uint_wf q
    \<and> limbs_val q = next_pos_target (limbs_val (UintToArith256 (posLimit p))) (limbs_val (fst (SetCompact (nBits b)))) (nat m) (nat d)"
proof -
  let ?t = "fst (SetCompact (nBits b))" and ?L = "UintToArith256 (posLimit p)" and ?m = "word_of_int m :: u32" and ?d = "word_of_int d :: u64"
  have wf: "uint_wf ?t" using SetCompact_correct(1) [of "nBits b"] by (cases "SetCompact (nBits b)") auto
  have um: "unat ?m = nat m" using assms(4,5) by (simp add: unat_eq_nat_uint uint_word_of_int)
  have d0: "0 < d" using assms(1,6) by simp
  then have ud: "unat ?d = nat d" using assms(7) by (simp add: unat_eq_nat_uint uint_word_of_int)
  have iv: "nPowTargetTimespan p sdiv nPowTargetSpacing p = int i"
    using assms(1,2) by (simp add: signed_divide_int_def sgn_if)
  have M: "uint_wf (uint_mul32 ?t ?m)" "limbs_val (uint_mul32 ?t ?m) = (nat m * limbs_val ?t) mod 2 ^ 256"
    using uint_mul32_val [OF wf, of ?m] um by auto
  obtain q where q: "uint_div (uint_mul32 ?t ?m) (uint_of_u64 ?d) = Some q" "uint_wf q"
      "limbs_val q = (nat m * limbs_val ?t) mod 2 ^ 256 div nat d"
    using uint_div_val [OF M(1), of "uint_of_u64 ?d"] d0 by (auto simp: unat_to256_uint_of_u64 ud M(2))
  have cmp: "CompareTo q uint_zero \<le> 0 \<longleftrightarrow> limbs_val q = 0" "CompareTo q ?L > 0 \<longleftrightarrow> limbs_val ?L < limbs_val q"
    using q(2) by (simp_all add: CompareTo_val)
  have args: "(int i - 1) * nPowTargetSpacing p + (uint (nTime b) - t0) + (uint (nTime b) - t0) = m" using assms(3) by simp
  have "nPowTargetSpacing p \<noteq> 0" using assms(1) by simp
  then have "CalculateNextTargetRequired p b t0 = (case uint_div (uint_mul32 ?t ?m) (uint_of_u64 ?d) of None \<Rightarrow> None
      | Some x \<Rightarrow> GetCompact (if CompareTo x uint_zero \<le> 0 \<or> CompareTo x ?L > 0 then ?L else x) False)"
    unfolding CalculateNextTargetRequired_def Let_def iv args assms(6) [symmetric] by (simp only: if_False)
  then have "CalculateNextTargetRequired p b t0 = GetCompact (if limbs_val q = 0 \<or> limbs_val ?L < limbs_val q then ?L else q) False"
    by (simp only: q(1) option.case cmp)
  moreover have "limbs_val (if limbs_val q = 0 \<or> limbs_val ?L < limbs_val q then ?L else q)
      = next_pos_target (limbs_val ?L) (limbs_val ?t) (nat m) (nat d)"
    by (simp add: next_pos_target_def Let_def q(3))
  moreover have "uint_wf (if limbs_val q = 0 \<or> limbs_val ?L < limbs_val q then ?L else q)" using q(2) by simp
  ultimately show ?thesis by blast
qed

text \<open>C28: The proof-of-stake retarget, exactly.  With a spacing of \<open>S\<close> seconds and a timespan of \<open>i\<close> spacings the new target is
  the old one times \<open>(i - 1) S + 2 (t - t0)\<close> over \<open>(i + 1) S\<close>, cut off at the limit, as long as the product fits
  into 256 bits; in particular blocks that arrive exactly on schedule leave the target as it is.\<close>

theorem CalculateNextTargetRequired_exact:
  assumes "0 < nPowTargetSpacing p" and "nPowTargetTimespan p = int i * nPowTargetSpacing p"
    and "m = (int i - 1) * nPowTargetSpacing p + 2 * (uint (nTime b) - t0)" and "0 \<le> m" "m < 2 ^ 32"
    and "d = (int i + 1) * nPowTargetSpacing p" and "d < 2 ^ 64"
    and "SetCompact (nBits b) = (t, False, False)" and "nat m * limbs_val t < 2 ^ 256"
  shows "\<exists>q. CalculateNextTargetRequired p b t0 = GetCompact q False \<and> uint_wf q
    \<and> limbs_val q = (let x = nat m * limbs_val t div nat d; lim = limbs_val (UintToArith256 (posLimit p))
                     in if x = 0 \<or> lim < x then lim else x)"
proof -
  have "next_pos_target (limbs_val (UintToArith256 (posLimit p))) (limbs_val t) (nat m) (nat d)
      = (let x = nat m * limbs_val t div nat d; lim = limbs_val (UintToArith256 (posLimit p)) in if x = 0 \<or> lim < x then lim else x)"
    using assms(9) by (simp only: next_pos_target_def Let_def mod_less)
  then show ?thesis using CalculateNextTargetRequired_value [OF assms(1-7)] assms(8) by (simp only: fst_conv)
qed

definition example_pos_block :: "u32 \<Rightarrow> CBlockIndex" where
  "example_pos_block bits = \<lparr>pprev = None, pskip = None, nHeight = 551010, nChainWork = uint_zero, nStatus = 256, nVersion = 1,
     nTime = 1000150, nBits = bits\<rparr>"

lemma main_pos_limit: "limbs_val (UintToArith256 (posLimit CMainParams_pos)) = 2 ^ 248 - 1"
proof -
  have "UintToArith256 (posLimit CMainParams_pos) =
      [0xffffffff, 0xffffffff, 0xffffffff, 0xffffffff, 0xffffffff, 0xffffffff, 0xffffffff, 0x00ffffff]" by code_simp
  then show ?thesis by simp
qed

lemma main_pos_sel: "nPowTargetSpacing CMainParams_pos = 150" "nPowTargetTimespan CMainParams_pos = 450"
  by (simp_all add: CMainParams_pos_def)

lemma example_pos_sel:
  "nTime (example_pos_block bits) = 1000150" "nBits (example_pos_block bits) = bits"
  by (simp_all add: example_pos_block_def)

lemma compact_value_dvd:
  assumes "2 ^ 256 \<le> 600 * compact_value m e" and "m < 2 ^ 23"
  shows "2 ^ 224 dvd compact_value m e"
proof -
  have "compact_value m e \<noteq> 0" "2 ^ 246 \<le> compact_value m e" using assms(1) by simp_all
  moreover have "compact_value m e < 2 ^ 23" if "e \<le> 3"
    using that le_less_trans [OF div_le_dividend assms(2), of "256 ^ (3 - e)"] by (simp add: compact_value_def)
  ultimately have e: "3 < e" "2 ^ 246 \<le> m * 2 ^ (8 * (e - 3))"
    by (cases "e \<le> 3"; simp add: compact_value_def pow_256)+
  have "28 \<le> e - 3"
  proof (rule ccontr)
    assume "\<not> 28 \<le> e - 3"
    then have "(2 :: nat) ^ (8 * (e - 3)) \<le> 2 ^ 216" by (intro power_increasing) simp_all
    then have "m * 2 ^ (8 * (e - 3)) \<le> 2 ^ 23 * 2 ^ 216" using assms(2) by (intro mult_le_mono) simp_all
    then show False using e(2) by simp
  qed
  then have "(2 :: nat) ^ 224 dvd 2 ^ (8 * (e - 3))" by (intro le_imp_power_dvd) simp
  then show ?thesis using e(1) by (simp add: compact_value_def pow_256)
qed

lemma wrapped_target:
  assumes "2 ^ 224 dvd T" and "T < 2 ^ 248" and "2 ^ 256 \<le> 600 * T"
  shows "600 * next_pos_target (2 ^ 248 - 1) T 600 600 + 2 ^ 256 \<le> 600 * T"
proof -
  define M where "M = 600 * T mod 2 ^ 256"
  have "M = (600 * T - 2 ^ 256) mod 2 ^ 256" using assms(3) by (simp add: M_def le_mod_geq)
  then have le: "M + 2 ^ 256 \<le> 600 * T" using mod_less_eq_dividend [of "600 * T - 2 ^ 256" "2 ^ 256"] assms(3) by linarith
  have "M \<noteq> 0"
  proof
    assume "M = 0"
    then have "2 ^ 256 dvd 600 * T" by (simp add: M_def dvd_eq_mod_eq_0)
    then have "2 ^ 253 * 8 dvd 75 * T * 8" by (simp add: mult.commute)
    then have "2 ^ 253 dvd 75 * T" by (simp only: dvd_times_right_cancel_iff)
    moreover have "coprime (2 ^ 253) (75 :: nat)" by (simp only: coprime_power_left_iff) (simp add: coprime_left_2_iff_odd)
    ultimately have "2 ^ 253 dvd T" by (simp only: coprime_dvd_mult_right_iff)
    then show False using assms(2,3) by (auto dest!: dvd_imp_le)
  qed
  moreover have "2 ^ 224 dvd M" using assms(1) by (simp add: M_def dvd_mod_iff)
  ultimately have "600 \<le> M" by (auto dest!: dvd_imp_le)
  then have "0 < M div 600" "M div 600 \<le> 2 ^ 248 - 1" using le assms(2) by auto
  then have "next_pos_target (2 ^ 248 - 1) T 600 600 = M div 600" by (simp add: next_pos_target_def M_def Let_def)
  then show ?thesis using le by simp
qed

theorem CalculateNextTargetRequired_exact_witness:
  "\<exists>q. CalculateNextTargetRequired CMainParams_pos (example_pos_block 0x1d00ffff) 1000000 = GetCompact q False
     \<and> limbs_val q = 0xffff * 2 ^ 208"
proof -
  obtain t neg ovf where t: "SetCompact 0x1d00ffff = (t, neg, ovf)" by (cases "SetCompact 0x1d00ffff") auto
  have v: "neg = False" "ovf = False" "limbs_val t = 0xffff * 2 ^ 208"
    using SetCompact_correct [OF t] by (simp_all add: compact_value_def bit_numeral_rec)
  have "\<exists>q. CalculateNextTargetRequired CMainParams_pos (example_pos_block 0x1d00ffff) 1000000 = GetCompact q False \<and> uint_wf q
      \<and> limbs_val q = (let x = nat 600 * limbs_val t div nat 600; lim = limbs_val (UintToArith256 (posLimit CMainParams_pos))
                       in if x = 0 \<or> lim < x then lim else x)"
    by (rule CalculateNextTargetRequired_exact [where i = 3 and m = 600 and d = 600 and t = t])
       (simp_all add: main_pos_sel example_pos_sel t v)
  then show ?thesis unfolding main_pos_limit v(3) by (auto simp: Let_def)
qed

text \<open>C29: The product does not always fit.  On the main network, after blocks that arrive exactly on schedule, the
  formula above leaves the target as it is; but every target \<open>T\<close> up to the limit with \<open>2^256 \<le> 600 T\<close> is lowered, by
  at least \<open>2^256 / 600\<close>, because the multiplication drops the bits above 256.\<close>

theorem CalculateNextTargetRequired_wraps:
  assumes "SetCompact (nBits b) = (t, False, False)" and "limbs_val t < 2 ^ 248" and "2 ^ 256 \<le> 600 * limbs_val t"
    and "t0 = uint (nTime b) - 150"
  shows "\<exists>q. CalculateNextTargetRequired CMainParams_pos b t0 = GetCompact q False \<and> uint_wf q
     \<and> 600 * limbs_val q + 2 ^ 256 \<le> 600 * limbs_val t"
proof -
  let ?T = "limbs_val t"
  have "\<exists>q. CalculateNextTargetRequired CMainParams_pos b t0 = GetCompact q False \<and> uint_wf q
      \<and> limbs_val q = next_pos_target (limbs_val (UintToArith256 (posLimit CMainParams_pos))) (limbs_val (fst (SetCompact (nBits b)))) (nat 600) (nat 600)"
    by (rule CalculateNextTargetRequired_value [where i = 3 and m = 600 and d = 600]) (simp_all add: main_pos_sel assms(4))
  then obtain q where q: "CalculateNextTargetRequired CMainParams_pos b t0 = GetCompact q False" "uint_wf q"
      "limbs_val q = next_pos_target (2 ^ 248 - 1) ?T 600 600"
    unfolding main_pos_limit assms(1) fst_conv by auto
  have "2 ^ 224 dvd ?T"
    using SetCompact_correct(3) [OF assms(1)] compact_value_dvd [of "mantissa_of (nBits b)" "exponent_of (nBits b)"] assms(3) by simp
  then show ?thesis using q wrapped_target [of ?T] assms(2,3) by auto
qed

theorem CalculateNextTargetRequired_wraps_witness:
  "\<exists>q. CalculateNextTargetRequired CMainParams_pos (example_pos_block 0x2000ffff) 1000000 = GetCompact q False
     \<and> 600 * limbs_val q + 2 ^ 256 \<le> 600 * (0xffff * 2 ^ 232)"
proof -
  obtain t neg ovf where t: "SetCompact 0x2000ffff = (t, neg, ovf)" by (cases "SetCompact 0x2000ffff") auto
  have v: "neg = False" "ovf = False" "limbs_val t = 0xffff * 2 ^ 232"
    using SetCompact_correct [OF t] by (simp_all add: compact_value_def bit_numeral_rec)
  have "\<exists>q. CalculateNextTargetRequired CMainParams_pos (example_pos_block 0x2000ffff) 1000000 = GetCompact q False \<and> uint_wf q
     \<and> 600 * limbs_val q + 2 ^ 256 \<le> 600 * limbs_val t"
    by (rule CalculateNextTargetRequired_wraps) (simp_all add: example_pos_sel t v)
  then show ?thesis unfolding v(3) by blast
qed




lemma CheckProofOfWork_sound:
  assumes "CheckProofOfWork neg ovf hash bits p height" and "233000 \<le> height" and "height \<noteq> INT_MAX"
  shows "limbs_val (UintToArith256 hash) \<le> limbs_val (fst (SetCompact bits))
    \<and> limbs_val (fst (SetCompact bits)) \<le> limbs_val (UintToArith256 (powLimit p))"
proof -
  have wf: "uint_wf (fst (SetCompact bits))" using SetCompact_correct(1) [of bits] by (cases "SetCompact bits") auto
  show ?thesis
    using assms by (auto simp: CheckProofOfWork_def Let_def CompareTo_val wf not_less split: if_splits)
qed

end
