(* ===== verification/Standard.thy ===== *)
theory Standard
  imports Payment Base58
begin

text \<open>The standard output scripts (script/standard.cpp) and the relay rule that is built on them (policy/policy.cpp,
  IsStandard). \<open>Solver\<close> classifies an output script and extracts the keys or hashes it names, \<open>ExtractDestination(s)\<close>
  turn them into destinations, and the GetScriptFor functions build the scripts. A script is its bytes (Script), a
  destination is the datatype of Base58, and a CPubKey is the range from begin() to end(), empty for an invalid key.
  \<open>Solver\<close> has the type reference as an argument, since one path returns without setting it, and its result is None
  when the call throws. The templates are run through the model of GetOp on both scripts, as the code does it.\<close>

section \<open>Types\<close>

datatype txnouttype =
  TX_NONSTANDARD | TX_PUBKEY | TX_PUBKEYHASH | TX_SCRIPTHASH | TX_MULTISIG | TX_NULL_DATA
| TX_WITNESS_V0_SCRIPTHASH | TX_WITNESS_V0_KEYHASH | TX_ZEROCOINMINT | TX_SIGMAMINT

primrec GetTxnOutputType :: "txnouttype \<Rightarrow> string" where
  "GetTxnOutputType TX_NONSTANDARD = ''nonstandard''"
| "GetTxnOutputType TX_PUBKEY = ''pubkey''"
| "GetTxnOutputType TX_PUBKEYHASH = ''pubkeyhash''"
| "GetTxnOutputType TX_SCRIPTHASH = ''scripthash''"
| "GetTxnOutputType TX_MULTISIG = ''multisig''"
| "GetTxnOutputType TX_NULL_DATA = ''nulldata''"
| "GetTxnOutputType TX_WITNESS_V0_KEYHASH = ''witness_v0_keyhash''"
| "GetTxnOutputType TX_WITNESS_V0_SCRIPTHASH = ''witness_v0_scripthash''"
| "GetTxnOutputType TX_ZEROCOINMINT = ''zerocoinmint''"
| "GetTxnOutputType TX_SIGMAMINT = ''sigmamint''"

definition pubkey_GetLen :: "8 word \<Rightarrow> nat" where
  "pubkey_GetLen chHeader =
     (if chHeader = 2 \<or> chHeader = 3 then 33 else if chHeader = 4 \<or> chHeader = 6 \<or> chHeader = 7 then 65 else 0)"

definition CPubKey :: "bytes \<Rightarrow> bytes" where
  "CPubKey v = (let len = (if v = [] then 0 else pubkey_GetLen (hd v)) in if len \<noteq> 0 \<and> len = length v then v else [])"

definition pubkey_IsValid :: "bytes \<Rightarrow> bool" where
  "pubkey_IsValid pubKey \<longleftrightarrow> length pubKey > 0"

definition pubkey_GetID :: "bytes \<Rightarrow> bytes" where
  "pubkey_GetID pubKey = Hash160 pubKey"

section \<open>The template matcher\<close>

text \<open>The inner loop on OP_PUBKEYS: pushes of key size are taken until the current operation is none. When GetOp fails
  the operation is OP_INVALIDOPCODE with no data; no template accepts that, so where the failed call left the
  iterator is not observed.\<close>

function take_pubkeys :: "opcodetype \<Rightarrow> bytes \<Rightarrow> bytes \<Rightarrow> bytes list \<Rightarrow> opcodetype \<times> bytes \<times> bytes \<times> bytes list" where
  "take_pubkeys opcode1 vch1 pc1 sols =
     (if length vch1 \<ge> 33 \<and> length vch1 \<le> 65
      then (case GetOp2 pc1 of
              None \<Rightarrow> (OP_INVALIDOPCODE, [], [], sols @ [vch1])
            | Some (opcode1, vch1', pc1) \<Rightarrow> take_pubkeys opcode1 vch1' pc1 (sols @ [vch1]))
      else (opcode1, vch1, pc1, sols))"
  by pat_completeness auto
termination
  by (relation "measure (\<lambda>(_, _, pc1, _). length pc1)") (auto dest: GetOp2_shrinks)

declare take_pubkeys.simps [simp del]

definition match_op :: "opcodetype \<Rightarrow> bytes \<Rightarrow> opcodetype \<Rightarrow> bytes \<Rightarrow> bytes list \<Rightarrow> bytes list option" where
  "match_op opcode1 vch1 opcode2 vch2 sols =
     (if opcode2 = OP_PUBKEY then (if length vch1 < 33 \<or> length vch1 > 65 then None else Some (sols @ [vch1]))
      else if opcode2 = OP_PUBKEYHASH then (if length vch1 \<noteq> 20 then None else Some (sols @ [vch1]))
      else if opcode2 = OP_SMALLINTEGER
      then (if opcode1 = OP_0 \<or> (opcode1 \<ge> OP_1 \<and> opcode1 \<le> OP_16)
            then map_option (\<lambda>n. sols @ [[of_nat n]]) (DecodeOP_N opcode1)
            else None)
      else if opcode1 \<noteq> opcode2 \<or> vch1 \<noteq> vch2 then None
      else Some sols)"

definition match_step :: "bytes \<Rightarrow> bytes \<Rightarrow> bytes list \<Rightarrow> (bytes \<times> bytes \<times> bytes list) option" where
  "match_step pc1 pc2 sols =
     (case GetOp2 pc1 of None \<Rightarrow> None | Some (opcode1, vch1, pc1) \<Rightarrow>
      case GetOp2 pc2 of None \<Rightarrow> None | Some (opcode2, vch2, pc2) \<Rightarrow>
      if opcode2 = OP_PUBKEYS
      then (case take_pubkeys opcode1 vch1 pc1 sols of (opcode1, vch1, pc1, sols) \<Rightarrow>
            case GetOp2 pc2 of None \<Rightarrow> None | Some (opcode2, vch2, pc2) \<Rightarrow>
            map_option (\<lambda>sols. (pc1, pc2, sols)) (match_op opcode1 vch1 opcode2 vch2 sols))
      else map_option (\<lambda>sols. (pc1, pc2, sols)) (match_op opcode1 vch1 opcode2 vch2 sols))"

lemma match_step_shrinks: "match_step pc1 pc2 sols = Some (pc1', pc2', sols') \<Longrightarrow> length pc2' < length pc2"
  by (auto simp: match_step_def split: option.splits prod.splits if_splits dest!: GetOp2_shrinks)

function match_loop :: "bytes \<Rightarrow> bytes \<Rightarrow> bytes list \<Rightarrow> bytes list option" where
  "match_loop pc1 pc2 sols =
     (if pc1 = [] \<and> pc2 = [] then Some sols
      else case match_step pc1 pc2 sols of
             None \<Rightarrow> None
           | Some (pc1, pc2, sols) \<Rightarrow> match_loop pc1 pc2 sols)"
  by pat_completeness auto
termination
  by (relation "measure (\<lambda>(_, pc2, _). length pc2)") (auto dest: match_step_shrinks)

declare match_loop.simps [simp del]

definition mTemplates :: "(txnouttype \<times> CScript) list" where
  "mTemplates =
     [(TX_PUBKEY, [of_nat OP_PUBKEY, of_nat OP_CHECKSIG]),
      (TX_PUBKEYHASH, [of_nat OP_DUP, of_nat OP_HASH160, of_nat OP_PUBKEYHASH, of_nat OP_EQUALVERIFY, of_nat OP_CHECKSIG]),
      (TX_MULTISIG, [of_nat OP_SMALLINTEGER, of_nat OP_PUBKEYS, of_nat OP_SMALLINTEGER, of_nat OP_CHECKMULTISIG])]"

primrec scan_templates :: "CScript \<Rightarrow> (txnouttype \<times> CScript) list \<Rightarrow> bool \<times> txnouttype \<times> bytes list" where
  "scan_templates script1 [] = (False, TX_NONSTANDARD, [])"
| "scan_templates script1 (tplate # rest) =
     (case match_loop script1 (snd tplate) [] of
        None \<Rightarrow> scan_templates script1 rest
      | Some sols \<Rightarrow>
          if fst tplate = TX_MULTISIG
          then (let m = hd (hd sols); n = hd (last sols)
                in (\<not> (m < 1 \<or> n < 1 \<or> m > n \<or> length sols - 2 \<noteq> unat n), TX_MULTISIG, sols))
          else (True, fst tplate, sols))"

section \<open>Solver\<close>

definition Solver :: "txnouttype \<Rightarrow> CScript \<Rightarrow> (bool \<times> txnouttype \<times> bytes list) option" where
  "Solver typeRet s =
     (if IsPayToScriptHash s then Some (True, TX_SCRIPTHASH, [take 20 (drop 2 s)])
      else if IsPayToPublicKeyHash s then Some (True, TX_PUBKEYHASH, [take 20 (drop 3 s)])
      else if IsZerocoinMint s
      then (if length s > 150 then Some (False, TX_ZEROCOINMINT, [])
            else if length s < 2 then None
            else Some (True, TX_ZEROCOINMINT, [drop 2 s]))
      else if IsSigmaMint s
      then (if length s > 37 then Some (False, TX_SIGMAMINT, []) else Some (True, TX_SIGMAMINT, [drop 1 s]))
      else case IsWitnessProgram s of
             Some (witnessversion, witnessprogram) \<Rightarrow>
               Some (if witnessversion = 0 \<and> length witnessprogram = 20 then (True, TX_WITNESS_V0_KEYHASH, [witnessprogram])
                     else if witnessversion = 0 \<and> length witnessprogram = 32 then (True, TX_WITNESS_V0_SCRIPTHASH, [witnessprogram])
                     else (False, typeRet, []))
           | None \<Rightarrow>
               if length s \<ge> 1 \<and> op_at s 0 = OP_RETURN \<and> IsPushOnly (drop 1 s) then Some (True, TX_NULL_DATA, [])
               else Some (scan_templates s mTemplates))"

section \<open>Destinations\<close>

definition ExtractDestination :: "CScript \<Rightarrow> CTxDestination option option" where
  "ExtractDestination s =
     map_option
       (\<lambda>(ok, whichType, vSolutions).
          if \<not> ok then None
          else if whichType = TX_PUBKEY
          then (let pubKey = CPubKey (vSolutions ! 0)
                in if \<not> pubkey_IsValid pubKey then None else Some (CKeyID (pubkey_GetID pubKey)))
          else if whichType = TX_PUBKEYHASH then Some (CKeyID (vSolutions ! 0))
          else if whichType = TX_SCRIPTHASH then Some (CScriptID (vSolutions ! 0))
          else None)
       (Solver TX_NONSTANDARD s)"

text \<open>\<open>ExtractDestinations\<close> gives its result, the type, the addresses and nRequiredRet (unchanged on the paths that
  do not set it).\<close>

definition ExtractDestinations :: "int \<Rightarrow> CScript \<Rightarrow> (bool \<times> txnouttype \<times> CTxDestination list \<times> int) option" where
  "ExtractDestinations nRequiredRet s =
     (case Solver TX_NONSTANDARD s of None \<Rightarrow> None | Some (ok, typeRet, vSolutions) \<Rightarrow>
      if \<not> ok then Some (False, typeRet, [], nRequiredRet)
      else if typeRet = TX_NULL_DATA then Some (False, typeRet, [], nRequiredRet)
      else if typeRet = TX_MULTISIG
      then (let keys = filter pubkey_IsValid (map CPubKey (butlast (tl vSolutions)));
                addressRet = map (\<lambda>k. CKeyID (pubkey_GetID k)) keys
            in Some (addressRet \<noteq> [], typeRet, addressRet, int (unat (hd (hd vSolutions)))))
      else (case ExtractDestination s of
              None \<Rightarrow> None
            | Some None \<Rightarrow> Some (False, typeRet, [], 1)
            | Some (Some address) \<Rightarrow> Some (True, typeRet, [address], 1)))"

primrec GetScriptForDestination :: "CTxDestination \<Rightarrow> CScript" where
  "GetScriptForDestination CNoDestination = []"
| "GetScriptForDestination (CKeyID keyID) = p2pkh keyID"
| "GetScriptForDestination (CScriptID scriptID) = [of_nat OP_HASH160] @ push_bytes scriptID @ [of_nat OP_EQUAL]"

definition GetScriptForRawPubKey :: "bytes \<Rightarrow> CScript" where
  "GetScriptForRawPubKey pubKey = push_bytes pubKey @ [of_nat OP_CHECKSIG]"

definition GetScriptForMultisig :: "int \<Rightarrow> bytes list \<Rightarrow> CScript option" where
  "GetScriptForMultisig nRequired keys =
     (case (EncodeOP_N nRequired, EncodeOP_N (int (length keys))) of
        (Some m, Some n) \<Rightarrow> Some ([of_nat m] @ concat (map push_bytes keys) @ [of_nat n, of_nat OP_CHECKMULTISIG])
      | _ \<Rightarrow> None)"

definition GetScriptForWitness :: "CScript \<Rightarrow> CScript option" where
  "GetScriptForWitness redeemscript =
     map_option
       (\<lambda>(ok, typ, vSolutions).
          if ok \<and> typ = TX_PUBKEY then of_nat OP_0 # push_bytes (Hash160 (vSolutions ! 0))
          else if ok \<and> typ = TX_PUBKEYHASH then of_nat OP_0 # push_bytes (vSolutions ! 0)
          else of_nat OP_0 # push_bytes (fst (CSHA256_Finalize (CSHA256_Write redeemscript CSHA256))))
       (Solver TX_NONSTANDARD redeemscript)"

section \<open>The relay rule for an output script\<close>

definition IsStandard :: "bool \<Rightarrow> nat \<Rightarrow> bool \<Rightarrow> txnouttype \<Rightarrow> CScript \<Rightarrow> (bool \<times> txnouttype) option" where
  "IsStandard fAcceptDatacarrier nMaxDatacarrierBytes witnessEnabled typeRet s =
     map_option
       (\<lambda>(ok, whichType, vSolutions).
          (if \<not> ok then False
           else if whichType = TX_MULTISIG
           then (let m = hd (hd vSolutions); n = hd (last vSolutions)
                 in \<not> (n < 1 \<or> n > 3) \<and> \<not> (m < 1 \<or> m > n) \<and> whichType \<noteq> TX_NONSTANDARD)
           else if whichType = TX_NULL_DATA \<and> (\<not> fAcceptDatacarrier \<or> length s > nMaxDatacarrierBytes) then False
           else if \<not> witnessEnabled \<and> (whichType = TX_WITNESS_V0_KEYHASH \<or> whichType = TX_WITNESS_V0_SCRIPTHASH) then False
           else whichType \<noteq> TX_NONSTANDARD, whichType))
       (Solver typeRet s)"

section \<open>Running the matcher\<close>

lemma GetOp2_opcode: "OP_PUSHDATA4 < unat op \<Longrightarrow> GetOp2 (op # pc) = Some (unat op, [], pc)"
  by simp

lemma length_CPubKey: "CPubKey k = k \<Longrightarrow> k \<noteq> [] \<Longrightarrow> length k = 33 \<or> length k = 65"
  by (auto simp: CPubKey_def pubkey_GetLen_def Let_def split: if_splits)

lemma take_pubkeys_none: "length vch1 < 33 \<Longrightarrow> take_pubkeys op vch1 pc sols = (op, vch1, pc, sols)"
  by (subst take_pubkeys.simps) simp

lemma take_pubkeys_run:
  "length k \<in> {33..65} \<Longrightarrow> \<forall>x\<in>set ks. length x \<in> {33..65} \<Longrightarrow> OP_PUSHDATA4 < unat b \<Longrightarrow>
   take_pubkeys op k (concat (map push_bytes ks) @ b # r) sols = (unat b, [], r, sols @ k # ks)"
proof (induction ks arbitrary: op k sols)
  case Nil
  then show ?case by (subst take_pubkeys.simps) (simp add: take_pubkeys_none)
next
  case (Cons x ks)
  then show ?case by (subst take_pubkeys.simps) (simp add: GetOp2_push)
qed

lemma take_pubkeys_keys:
  "take_pubkeys op v pc sols = (op', v', pc', sols') \<Longrightarrow> \<exists>ks. sols' = sols @ ks \<and> (\<forall>k\<in>set ks. length k \<in> {33..65})"
proof (induction op v pc sols arbitrary: op' v' pc' sols' rule: take_pubkeys.induct)
  case (1 op v pc sols)
  show ?case
  proof (cases "length v \<ge> 33 \<and> length v \<le> 65")
    case False
    then have "sols' = sols" using "1.prems" by (subst (asm) take_pubkeys.simps) auto
    then show ?thesis by simp
  next
    case True
    show ?thesis
    proof (cases "GetOp2 pc")
      case None
      then have "sols' = sols @ [v]" using "1.prems" True by (subst (asm) take_pubkeys.simps) simp
      then show ?thesis using True by simp
    next
      case (Some q)
      obtain o1 v1 p1 where q: "q = (o1, v1, p1)" by (cases q)
      have "take_pubkeys o1 v1 p1 (sols @ [v]) = (op', v', pc', sols')"
        using "1.prems" True Some q by (subst (asm) take_pubkeys.simps) simp
      from "1.IH" [OF True Some [unfolded q] refl refl this] obtain ks
        where "sols' = (sols @ [v]) @ ks" "\<forall>k\<in>set ks. length k \<in> {33..65}" by blast
      then show ?thesis using True by (intro exI [of _ "v # ks"]) simp
    qed
  qed
qed

lemma match_op_smallint:
  assumes "match_op op v OP_SMALLINTEGER v2 sols = Some sols'"
  shows "\<exists>n\<le>16. sols' = sols @ [[of_nat n]]"
proof -
  obtain n where n: "DecodeOP_N op = Some n" "sols' = sols @ [[of_nat n]]"
    using assms by (auto simp: match_op_def split: if_splits)
  have "n \<le> 16" using n(1) by (auto simp: DecodeOP_N_def split: if_splits)
  then show ?thesis using n(2) by blast
qed

lemma match_op_plain:
  "op2 < 0xfa \<Longrightarrow> match_op op v op2 v2 sols = Some sols' \<Longrightarrow> sols' = sols"
  by (auto simp: match_op_def split: if_splits)

lemma match_loop_nil: "match_loop pc1 [] sols = Some r \<longleftrightarrow> pc1 = [] \<and> r = sols"
  by (subst match_loop.simps) (auto simp: match_step_def split: option.splits)

lemma match_loop_step:
  assumes "match_loop pc1 (b # t) sols = Some r"
  obtains p q sols' where "match_step pc1 (b # t) sols = Some (p, q, sols')" "match_loop p q sols' = Some r"
  using assms by (subst (asm) match_loop.simps) (auto split: option.splits)

lemma match_step_plain:
  assumes "match_step pc1 (b # t) sols = Some (p, q, r)" "OP_PUSHDATA4 < unat b" "unat b \<noteq> OP_PUBKEYS"
  shows "q = t \<and> (\<exists>op v. match_op op v (unat b) [] sols = Some r)"
  using assms by (auto simp: match_step_def split: option.splits)

lemma match_step_pubkeys:
  assumes "match_step pc1 (b # c # t) sols = Some (p, q, r)" "unat b = OP_PUBKEYS" "OP_PUSHDATA4 < unat c"
  shows "q = t \<and> (\<exists>ks op v. (\<forall>k\<in>set ks. length k \<in> {33..65}) \<and> match_op op v (unat c) [] (sols @ ks) = Some r)"
proof -
  obtain o1 v1 p1 where g: "GetOp2 pc1 = Some (o1, v1, p1)" using assms(1) by (auto simp: match_step_def split: option.splits)
  obtain op v p2 s2 where t: "take_pubkeys o1 v1 p1 sols = (op, v, p2, s2)" by (cases "take_pubkeys o1 v1 p1 sols")
  then obtain ks where "s2 = sols @ ks" "\<forall>k\<in>set ks. length k \<in> {33..65}" using take_pubkeys_keys by blast
  moreover have "q = t" "match_op op v (unat c) [] s2 = Some r" using assms g t by (auto simp: match_step_def)
  ultimately show ?thesis by blast
qed

abbreviation multisig_template :: CScript where
  "multisig_template \<equiv> [of_nat OP_SMALLINTEGER, of_nat OP_PUBKEYS, of_nat OP_SMALLINTEGER, of_nat OP_CHECKMULTISIG]"

lemma multisig_match:
  assumes "match_loop s multisig_template [] = Some sols"
  shows "\<exists>m ks n. m \<le> 16 \<and> n \<le> 16 \<and> sols = [of_nat m] # ks @ [[of_nat n]] \<and> (\<forall>k\<in>set ks. length k \<in> {33..65})"
proof -
  obtain p1 q1 s1 where 1: "match_step s multisig_template [] = Some (p1, q1, s1)" "match_loop p1 q1 s1 = Some sols"
    using match_loop_step [OF assms] by blast
  have q1: "q1 = tl multisig_template" and "\<exists>m\<le>16. s1 = [] @ [[of_nat m]]"
    using match_step_plain [OF 1(1)] by (auto dest: match_op_smallint)
  then obtain m where m: "m \<le> 16" "s1 = [[of_nat m]]" by auto
  have "match_loop p1 (tl multisig_template) s1 = Some sols" using 1(2) q1 by simp
  then obtain p2 q2 s2 where 2: "match_step p1 (tl multisig_template) s1 = Some (p2, q2, s2)" "match_loop p2 q2 s2 = Some sols"
    using match_loop_step by (metis list.sel(3))
  have "q2 = [of_nat OP_CHECKMULTISIG] \<and> (\<exists>ks op v. (\<forall>k\<in>set ks. length k \<in> {33..65}) \<and> match_op op v OP_SMALLINTEGER [] (s1 @ ks) = Some s2)"
    using match_step_pubkeys [OF 2(1) [unfolded list.sel]] by simp
  then obtain ks op v where q2: "q2 = [of_nat OP_CHECKMULTISIG]" and ks: "\<forall>k\<in>set ks. length k \<in> {33..65}"
    and op: "match_op op v OP_SMALLINTEGER [] (s1 @ ks) = Some s2" by blast
  obtain n where n: "n \<le> 16" "s2 = (s1 @ ks) @ [[of_nat n]]" using match_op_smallint [OF op] by blast
  obtain p3 q3 s3 where 3: "match_step p2 [of_nat OP_CHECKMULTISIG] s2 = Some (p3, q3, s3)" "match_loop p3 q3 s3 = Some sols"
    using match_loop_step [OF 2(2) [unfolded q2]] by blast
  have "q3 = []" "s3 = s2" using match_step_plain [OF 3(1)] by (auto dest: match_op_plain [rotated])
  then have "sols = s2" using 3(2) by (simp add: match_loop_nil)
  then show ?thesis using m n ks by auto
qed

section \<open>What Solver extracts\<close>

lemma pubkey_template_mismatch:
  assumes "GetOp2 s = Some (op, [], pc)"
  shows "match_loop s [of_nat OP_PUBKEY, of_nat OP_CHECKSIG] [] = None"
  using assms by (subst match_loop.simps) (auto simp: match_step_def match_op_def)

lemma pubkeyhash_template_mismatch:
  assumes "GetOp2 s = Some (op, v, pc)" "op \<noteq> OP_DUP"
  shows "match_loop s [of_nat OP_DUP, of_nat OP_HASH160, of_nat OP_PUBKEYHASH, of_nat OP_EQUALVERIFY, of_nat OP_CHECKSIG] [] = None"
  using assms by (subst match_loop.simps) (auto simp: match_step_def match_op_def)

lemma multisig_run:
  assumes "m \<in> {1..16}" "n \<in> {1..16}" "\<forall>k\<in>set ks. length k \<in> {33..65}" "ks \<noteq> []"
  shows "match_loop (of_nat (80 + m) # concat (map push_bytes ks) @ [of_nat (80 + n), of_nat OP_CHECKMULTISIG]) multisig_template []
    = Some ([of_nat m] # ks @ [[of_nat n]])"
proof -
  obtain k kt where ks: "ks = k # kt" using assms(4) by (cases ks) auto
  have u: "unat (of_nat (80 + m) :: 8 word) = 80 + m" "unat (of_nat (80 + n) :: 8 word) = 80 + n"
    using assms(1,2) by (simp_all add: unat_of_nat del: of_nat_add)
  have d: "DecodeOP_N (80 + m) = Some m" "DecodeOP_N (80 + n) = Some n" using assms(1,2) by (auto simp: DecodeOP_N_def)
  let ?r = "[of_nat (80 + n), of_nat OP_CHECKMULTISIG]"
  have 1: "match_step (of_nat (80 + m) # concat (map push_bytes ks) @ ?r) multisig_template []
      = Some (concat (map push_bytes ks) @ ?r, tl multisig_template, [[of_nat m]])"
    using u d assms(1) by (simp add: match_step_def match_op_def del: of_nat_add)
  have t: "take_pubkeys (length k) k (concat (map push_bytes kt) @ ?r) [[of_nat m]] = (80 + n, [], [of_nat OP_CHECKMULTISIG], [of_nat m] # ks)"
    using take_pubkeys_run [of k kt "of_nat (80 + n)" "length k" "[of_nat OP_CHECKMULTISIG]" "[[of_nat m]]"] assms(2,3) u ks
    by (simp del: of_nat_add)
  have 2: "match_step (concat (map push_bytes ks) @ ?r) (tl multisig_template) [[of_nat m]]
      = Some ([of_nat OP_CHECKMULTISIG], [of_nat OP_CHECKMULTISIG], ([of_nat m] # ks) @ [[of_nat n]])"
    using t d assms(2,3) ks by (simp add: match_step_def match_op_def GetOp2_push del: of_nat_add)
  have 3: "match_loop [of_nat OP_CHECKMULTISIG] [of_nat OP_CHECKMULTISIG] sols = Some sols" for sols
    by (subst match_loop.simps) (simp add: match_step_def match_op_def match_loop_nil)
  show ?thesis
    by (subst match_loop.simps, simp only: 1 option.case prod.case list.distinct if_False simp_thms, subst match_loop.simps)
       (use 2 3 in simp)
qed

lemma scan_multisig:
  assumes "scan_templates s mTemplates = (True, TX_MULTISIG, sols)"
  shows "match_loop s multisig_template [] = Some sols" "hd (hd sols) \<noteq> 0" "hd (hd sols) \<le> hd (last sols)"
    "length sols - 2 = unat (hd (last sols))"
  using assms by (auto simp: mTemplates_def Let_def not_less split: option.splits)

lemma Solver_multisig_scans: "Solver t s = Some (True, TX_MULTISIG, sols) \<Longrightarrow> scan_templates s mTemplates = (True, TX_MULTISIG, sols)"
  by (auto simp: Solver_def split: if_splits option.splits prod.splits)

lemma push_bytes_short: "length d < 76 \<Longrightarrow> push_bytes d = of_nat (length d) # d"
  by (simp add: push_bytes_def)

lemma multisig_length: "\<forall>k\<in>set ks. length k \<in> {33..65} \<Longrightarrow> length (concat (map push_bytes ks)) = length (concat ks) + length ks"
  by (induction ks) (simp_all add: push_bytes_short)

lemma Solver_multisig_script:
  assumes "m \<in> {1..16}" "length ks \<le> 16" "m \<le> length ks" "\<forall>k\<in>set ks. length k \<in> {33..65}"
  shows "Solver t (of_nat (80 + m) # concat (map push_bytes ks) @ [of_nat (80 + length ks), of_nat OP_CHECKMULTISIG])
    = Some (True, TX_MULTISIG, [of_nat m] # ks @ [[of_nat (length ks)]])"
proof -
  let ?s = "of_nat (80 + m) # concat (map push_bytes ks) @ [of_nat (80 + length ks), of_nat OP_CHECKMULTISIG] :: bytes"
  obtain k kt where ks: "ks = k # kt" using assms(1,3) by (cases ks) auto
  have k: "length k \<in> {33..65}" using assms(4) ks by simp
  have u: "unat (of_nat (80 + m) :: 8 word) = 80 + m" using assms(1) by (simp add: unat_of_nat del: of_nat_add)
  have um: "unat (of_nat m :: 8 word) = m" "unat (of_nat (length ks) :: 8 word) = length ks"
    using assms(1,2) by (simp_all add: unat_of_nat)
  have op: "op_at ?s 0 = 80 + m" "op_at ?s 1 = length k"
    using u k ks by (simp_all add: op_at_def push_bytes_short unat_of_nat del: of_nat_add)
  have len: "length ?s = length k + 4 + length (concat (map push_bytes kt))" using k ks by (simp add: push_bytes_short)
  have wit: "IsWitnessProgram ?s = None" using op len by (simp add: IsWitnessProgram_def)
  have get: "GetOp2 ?s = Some (80 + m, [], tl ?s)" using u assms(1) by (simp del: of_nat_add)
  have run: "match_loop ?s multisig_template [] = Some ([of_nat m] # ks @ [[of_nat (length ks)]])"
    using multisig_run [of m "length ks" ks] assms ks by simp
  have "\<not> of_nat m < (1 :: 8 word)" "\<not> of_nat (length ks) < (1 :: 8 word)" "\<not> of_nat (length ks) < (of_nat m :: 8 word)"
    using um assms(1,3) ks by (simp_all add: word_less_nat_alt)
  then have "scan_templates ?s mTemplates = (True, TX_MULTISIG, [of_nat m] # ks @ [[of_nat (length ks)]])"
    using pubkey_template_mismatch [OF get] pubkeyhash_template_mismatch [OF get] run um assms(1)
    by (simp add: mTemplates_def Let_def del: of_nat_add of_nat_Suc)
  then show ?thesis
    using op wit assms(1)
    by (simp add: Solver_def IsPayToScriptHash_def IsPayToPublicKeyHash_def IsZerocoinMint_def IsSigmaMint_def del: of_nat_add)
qed

lemma ExtractDestination_hash:
  assumes "length h = 20"
  shows "ExtractDestination (GetScriptForDestination (CKeyID h)) = Some (Some (CKeyID h))"
    "ExtractDestination (GetScriptForDestination (CScriptID h)) = Some (Some (CScriptID h))"
  using assms
  by (simp_all add: ExtractDestination_def Solver_def p2pkh_def push_bytes_short IsPayToScriptHash_def IsPayToPublicKeyHash_def op_at_def nth_append)

lemma ExtractDestination_none: "ExtractDestination (GetScriptForDestination CNoDestination) = Some None"
  by (simp add: ExtractDestination_def Solver_def IsPayToScriptHash_def IsPayToPublicKeyHash_def IsZerocoinMint_def IsSigmaMint_def
      IsWitnessProgram_def mTemplates_def match_loop.simps match_step_def)

lemma Solver_raw_pubkey:
  assumes "length k \<in> {33..65}"
  shows "Solver t (GetScriptForRawPubKey k) = Some (True, TX_PUBKEY, [k])"
proof -
  let ?s = "GetScriptForRawPubKey k"
  have op: "op_at ?s 0 = length k" "length ?s = length k + 2"
    using assms by (simp_all add: GetScriptForRawPubKey_def push_bytes_short op_at_def unat_of_nat)
  have "match_step ?s [of_nat OP_PUBKEY, of_nat OP_CHECKSIG] [] = Some ([of_nat OP_CHECKSIG], [of_nat OP_CHECKSIG], [k])"
    using assms by (simp add: GetScriptForRawPubKey_def match_step_def GetOp2_push match_op_def)
  moreover have "match_loop [of_nat OP_CHECKSIG] [of_nat OP_CHECKSIG] [k] = Some [k]"
    by (subst match_loop.simps) (simp add: match_step_def match_op_def match_loop_nil)
  ultimately have "match_loop ?s [of_nat OP_PUBKEY, of_nat OP_CHECKSIG] [] = Some [k]"
    by (subst match_loop.simps) simp
  moreover have "k \<noteq> []" using assms by auto
  moreover have "IsWitnessProgram ?s = None" using op assms \<open>k \<noteq> []\<close> by (simp add: IsWitnessProgram_def)
  ultimately show ?thesis using op assms
    by (simp add: Solver_def IsPayToScriptHash_def IsPayToPublicKeyHash_def IsZerocoinMint_def IsSigmaMint_def mTemplates_def)
qed

lemma CPubKey_valid_length: "pubkey_IsValid k \<Longrightarrow> CPubKey k = k \<Longrightarrow> length k \<in> {33..65}"
  using length_CPubKey [of k] by (auto simp: pubkey_IsValid_def)

lemma valid_keys: "\<forall>k\<in>set ks. pubkey_IsValid k \<and> CPubKey k = k \<Longrightarrow> filter pubkey_IsValid (map CPubKey ks) = ks"
  by (induction ks) auto

definition dest_wf :: "CTxDestination \<Rightarrow> bool" where
  "dest_wf d = (case d of CNoDestination \<Rightarrow> True | CKeyID h \<Rightarrow> length h = 20 | CScriptID h \<Rightarrow> length h = 20)"

section \<open>Properties\<close>

lemma Solver_multisig_shape:
  assumes "Solver t s = Some (True, TX_MULTISIG, sols)"
  shows "\<exists>m keys. sols = [of_nat m] # keys @ [[of_nat (length keys)]] \<and> 1 \<le> m \<and> m \<le> length keys \<and> length keys \<le> 16
    \<and> (\<forall>k\<in>set keys. length k \<in> {33..65})"
proof -
  note scan = scan_multisig [OF Solver_multisig_scans [OF assms]]
  obtain m ks n where mn: "m \<le> 16" "n \<le> 16" "sols = [of_nat m] # ks @ [[of_nat n]]" "\<forall>k\<in>set ks. length k \<in> {33..65}"
    using multisig_match [OF scan(1)] by blast
  have u: "unat (of_nat m :: 8 word) = m" "unat (of_nat n :: 8 word) = n" using mn(1,2) by (simp_all add: unat_of_nat)
  have "n = length ks" using scan(4) mn(3) u by simp
  moreover have "m \<noteq> 0" using scan(2) mn(3) by (intro notI) simp
  moreover have "m \<le> n" using scan(3) mn(3) u by (simp add: word_le_nat_alt)
  ultimately show ?thesis using mn by (intro exI [of _ m] exI [of _ ks]) auto
qed

text \<open>C15: Solver accepts a script as m-of-n multisig only with consistent solutions: the first is the byte m, the last the
  byte n, the n between them are pushes of key size, and 1 <= m <= n <= 16. So the code that indexes the solutions of
  an accepted multisig script (front, back, the keys between) reads what it means to.\<close>

theorem Solver_multisig_sound:
  assumes "Solver t s = Some (True, TX_MULTISIG, sols)"
  shows "\<exists>m keys. sols = [of_nat m] # keys @ [[of_nat (length keys)]] \<and> 1 \<le> m \<and> m \<le> length keys \<and> length keys \<le> 16
    \<and> (\<forall>k\<in>set keys. length k \<in> {33..65})"
  by (rule Solver_multisig_shape [OF assms])

text \<open>C17: The multisig script built for m of the given valid keys, 1 <= m <= n <= 16, is recognised by Solver with exactly m, the keys
  in their order and n, and ExtractDestinations returns the key ids of all the keys and m as the number required.\<close>

theorem GetScriptForMultisig_roundtrip:
  assumes "1 \<le> m" "m \<le> length keys" "length keys \<le> 16" "\<forall>k\<in>set keys. pubkey_IsValid k \<and> CPubKey k = k"
  shows "\<exists>s. GetScriptForMultisig (int m) keys = Some s
    \<and> Solver t s = Some (True, TX_MULTISIG, [of_nat m] # keys @ [[of_nat (length keys)]])
    \<and> ExtractDestinations r s = Some (True, TX_MULTISIG, map (\<lambda>k. CKeyID (Hash160 k)) keys, int m)"
proof -
  let ?s = "of_nat (80 + m) # concat (map push_bytes keys) @ [of_nat (80 + length keys), of_nat OP_CHECKMULTISIG] :: bytes"
  have keys: "\<forall>k\<in>set keys. length k \<in> {33..65}" using assms(4) CPubKey_valid_length by blast
  have solved: "Solver t' ?s = Some (True, TX_MULTISIG, [of_nat m] # keys @ [[of_nat (length keys)]])" for t'
    using Solver_multisig_script [OF _ assms(3,2) keys] assms(1-3) by simp
  have "EncodeOP_N (int j) = Some (80 + j)" if "1 \<le> j" "j \<le> 16" for j using that by (simp add: EncodeOP_N_def)
  then have "GetScriptForMultisig (int m) keys = Some ?s" using assms(1-3) by (simp add: GetScriptForMultisig_def)
  moreover have "unat (of_nat m :: 8 word) = m" using assms(2,3) by (simp add: unat_of_nat)
  then have "uint (of_nat m :: 8 word) = int m" by (simp only: uint_nat)
  then have "ExtractDestinations r ?s = Some (True, TX_MULTISIG, map (\<lambda>k. CKeyID (Hash160 k)) keys, int m)"
    using solved [of TX_NONSTANDARD] valid_keys [OF assms(4)] assms(1-3)
    by (auto simp: ExtractDestinations_def Let_def pubkey_GetID_def simp del: of_nat_add)
  ultimately show ?thesis using solved by blast
qed

text \<open>C18: The script of a destination gives back that destination (and none for CNoDestination), and the script of a valid
  raw public key gives the id of the key.\<close>

theorem ExtractDestination_roundtrip:
  assumes "dest_wf d" "pubkey_IsValid k" "CPubKey k = k"
  shows "ExtractDestination (GetScriptForDestination d) = Some (if d = CNoDestination then None else Some d)
    \<and> ExtractDestination (GetScriptForRawPubKey k) = Some (Some (CKeyID (Hash160 k)))"
proof
  show "ExtractDestination (GetScriptForDestination d) = Some (if d = CNoDestination then None else Some d)"
    using assms(1) ExtractDestination_hash ExtractDestination_none by (cases d) (simp_all add: dest_wf_def del: GetScriptForDestination.simps)
  show "ExtractDestination (GetScriptForRawPubKey k) = Some (Some (CKeyID (Hash160 k)))"
    using Solver_raw_pubkey [OF CPubKey_valid_length [OF assms(2,3)]] assms(2,3)
    by (simp add: ExtractDestination_def pubkey_GetID_def)
qed

text \<open>C16: Solver, and with it ExtractDestination, ExtractDestinations and IsStandard, throws on one script and on no other:
  the single byte OP_ZEROCOINMINT, for which the range from begin() + 2 to end() has a negative length.\<close>

theorem Solver_throws_iff:
  "(Solver t s = None \<longleftrightarrow> s = [of_nat OP_ZEROCOINMINT])
   \<and> (ExtractDestination s = None \<longleftrightarrow> s = [of_nat OP_ZEROCOINMINT])
   \<and> (ExtractDestinations r s = None \<longleftrightarrow> s = [of_nat OP_ZEROCOINMINT])
   \<and> (IsStandard carrier limit witnessEnabled t s = None \<longleftrightarrow> s = [of_nat OP_ZEROCOINMINT])"
proof -
  have zero: "Solver t s = None \<longleftrightarrow> s = [of_nat OP_ZEROCOINMINT]" for t
  proof
    assume "Solver t s = None"
    then have "IsZerocoinMint s" "length s < 2" by (auto simp: Solver_def split: if_splits option.splits)
    then show "s = [of_nat OP_ZEROCOINMINT]"
      by (cases s) (auto simp: IsZerocoinMint_def op_at_def word_unat_eq_iff)
  next
    assume "s = [of_nat OP_ZEROCOINMINT]"
    then show "Solver t s = None" by (simp add: Solver_def IsPayToScriptHash_def IsPayToPublicKeyHash_def IsZerocoinMint_def op_at_def)
  qed
  have dest: "ExtractDestination s = None \<longleftrightarrow> s = [of_nat OP_ZEROCOINMINT]" by (simp only: ExtractDestination_def option.map_disc_iff zero)
  have "ExtractDestinations r s = None \<longleftrightarrow> s = [of_nat OP_ZEROCOINMINT]"
    using zero [of TX_NONSTANDARD] dest by (auto simp: ExtractDestinations_def Let_def split: option.splits)
  then show ?thesis using zero dest by (simp only: IsStandard_def option.map_disc_iff simp_thms)
qed

section \<open>Witnesses\<close>

definition sample_key :: "8 word \<Rightarrow> bytes" where
  "sample_key x = 2 # replicate 32 x"

lemma sample_key_valid: "pubkey_IsValid (sample_key x)" "CPubKey (sample_key x) = sample_key x" "length (sample_key x) = 33"
  by (simp_all add: sample_key_def pubkey_IsValid_def CPubKey_def pubkey_GetLen_def)

lemma sample_multisig:
  "Solver TX_NONSTANDARD (81 # concat (map push_bytes [sample_key 1, sample_key 2]) @ [82, 174])
    = Some (True, TX_MULTISIG, [[1], sample_key 1, sample_key 2, [2]])"
  using Solver_multisig_script [of 1 "[sample_key 1, sample_key 2]" TX_NONSTANDARD] by (simp add: sample_key_valid)

theorem Solver_multisig_sound_witness:
  "\<exists>m keys. [[1], sample_key 1, sample_key 2, [2]] = [of_nat m] # keys @ [[of_nat (length keys)]] \<and> 1 \<le> m \<and> m \<le> length keys
    \<and> length keys \<le> 16 \<and> (\<forall>k\<in>set keys. length k \<in> {33..65})"
  by (rule Solver_multisig_sound [OF sample_multisig])

theorem GetScriptForMultisig_roundtrip_witness:
  "\<exists>s. GetScriptForMultisig 2 [sample_key 1, sample_key 2, sample_key 3] = Some s
    \<and> Solver TX_NONSTANDARD s = Some (True, TX_MULTISIG, [[2], sample_key 1, sample_key 2, sample_key 3, [3]])
    \<and> ExtractDestinations 0 s = Some (True, TX_MULTISIG, map (\<lambda>k. CKeyID (Hash160 k)) [sample_key 1, sample_key 2, sample_key 3], 2)"
  using GetScriptForMultisig_roundtrip [of 2 "[sample_key 1, sample_key 2, sample_key 3]" TX_NONSTANDARD 0]
  by (simp add: sample_key_valid)

theorem ExtractDestination_roundtrip_witness:
  "ExtractDestination (GetScriptForDestination (CScriptID (replicate 20 7))) = Some (Some (CScriptID (replicate 20 7)))
    \<and> ExtractDestination (GetScriptForRawPubKey (sample_key 5)) = Some (Some (CKeyID (Hash160 (sample_key 5))))"
  using ExtractDestination_roundtrip [of "CScriptID (replicate 20 7)" "sample_key 5"]
  by (simp add: dest_wf_def sample_key_valid del: GetScriptForDestination.simps)

end
