(* ===== verification/Policy.thy ===== *)
theory Policy
  imports Standard Coins
begin


definition MAX_P2SH_SIGOPS :: nat where "MAX_P2SH_SIGOPS = 15"
definition MAX_STANDARD_P2WSH_STACK_ITEMS :: nat where "MAX_STANDARD_P2WSH_STACK_ITEMS = 100"
definition MAX_STANDARD_P2WSH_STACK_ITEM_SIZE :: nat where "MAX_STANDARD_P2WSH_STACK_ITEM_SIZE = 80"
definition MAX_STANDARD_P2WSH_SCRIPT_SIZE :: nat where "MAX_STANDARD_P2WSH_SCRIPT_SIZE = 3600"

section \<open>IsStandardTx\<close>






section \<open>The inputs\<close>

definition base_checker :: "(bytes \<Rightarrow> bool) \<Rightarrow> BaseSignatureChecker" where
  "base_checker lowS =
     \<lparr>CheckSig = \<lambda>_ _ _ _. False, CheckLockTime = \<lambda>_. False, CheckSequence = \<lambda>_. False, CheckLowS = lowS\<rparr>"

text \<open>The redeem script of a script signature, the top of the stack it leaves.\<close>

definition redeem_script :: "(bytes \<Rightarrow> bool) \<Rightarrow> CScript \<Rightarrow> CScript option" where
  "redeem_script lowS sig =
     (case EvalScript [] sig 0 (base_checker lowS) SIGVERSION_BASE of
        Inr (subscript # _) \<Rightarrow> Some subscript
      | _ \<Rightarrow> None)"

definition input_standard :: "(bytes \<Rightarrow> bool) \<Rightarrow> CTxIn \<Rightarrow> CTxOut \<Rightarrow> bool option" where
  "input_standard lowS txin prev =
     map_option
       (\<lambda>(ok, whichType, _).
          ok \<and> (whichType = TX_SCRIPTHASH \<longrightarrow>
            (case redeem_script lowS (scriptSig txin) of
               None \<Rightarrow> False
             | Some subscript \<Rightarrow> \<not> GetSigOpCount subscript True > MAX_P2SH_SIGOPS)))
       (Solver TX_NONSTANDARD (scriptPubKey prev))"

fun inputs_loop :: "(bytes \<Rightarrow> bool) \<Rightarrow> (CCoins \<Rightarrow> u64) \<Rightarrow> coins_fun \<Rightarrow> CCoinsViewCache \<Rightarrow> CTxIn list \<Rightarrow> (bool \<times> CCoinsViewCache) option" where
  "inputs_loop lowS mem base c [] = Some (True, c)"
| "inputs_loop lowS mem base c (txin # txins) =
     Option.bind (GetOutputFor mem base c txin) (\<lambda>(prev, c).
     Option.bind (input_standard lowS txin prev) (\<lambda>ok.
       if \<not> ok then Some (False, c) else inputs_loop lowS mem base c txins))"

definition AreInputsStandard :: "(bytes \<Rightarrow> bool) \<Rightarrow> (CCoins \<Rightarrow> u64) \<Rightarrow> coins_fun \<Rightarrow> CCoinsViewCache \<Rightarrow> CTransaction \<Rightarrow> (bool \<times> CCoinsViewCache) option" where
  "AreInputsStandard lowS mem base mapInputs tx =
     (if has_no_coin_inputs tx then Some (True, mapInputs) else inputs_loop lowS mem base mapInputs (vin tx))"

definition p2wsh_limits :: "bytes list \<Rightarrow> bool" where
  "p2wsh_limits stack \<longleftrightarrow>
     \<not> length (last stack) > MAX_STANDARD_P2WSH_SCRIPT_SIZE
     \<and> \<not> length stack - 1 > MAX_STANDARD_P2WSH_STACK_ITEMS
     \<and> list_all (\<lambda>item. \<not> length item > MAX_STANDARD_P2WSH_STACK_ITEM_SIZE) (butlast stack)"

definition witness_standard :: "(bytes \<Rightarrow> bool) \<Rightarrow> CTxIn \<Rightarrow> bytes list \<Rightarrow> CTxOut \<Rightarrow> bool" where
  "witness_standard lowS txin stack prev =
     (case (if IsPayToScriptHash (scriptPubKey prev) then redeem_script lowS (scriptSig txin) else Some (scriptPubKey prev)) of
        None \<Rightarrow> False
      | Some prevScript \<Rightarrow>
          (case IsWitnessProgram prevScript of
             None \<Rightarrow> False
           | Some (witnessversion, witnessprogram) \<Rightarrow> witnessversion = 0 \<and> length witnessprogram = 32 \<longrightarrow> p2wsh_limits stack))"

fun witness_loop :: "(bytes \<Rightarrow> bool) \<Rightarrow> (CCoins \<Rightarrow> u64) \<Rightarrow> coins_fun \<Rightarrow> CCoinsViewCache \<Rightarrow> CTxIn list \<Rightarrow> bytes list list \<Rightarrow> (bool \<times> CCoinsViewCache) option" where
  "witness_loop lowS mem base c [] wits = Some (True, c)"
| "witness_loop lowS mem base c (txin # txins) [] = None"
| "witness_loop lowS mem base c (txin # txins) (stack # wits) =
     (if stack = [] then witness_loop lowS mem base c txins wits
      else Option.bind (GetOutputFor mem base c txin) (\<lambda>(prev, c).
        if \<not> witness_standard lowS txin stack prev then Some (False, c) else witness_loop lowS mem base c txins wits))"

definition IsWitnessStandard :: "(bytes \<Rightarrow> bool) \<Rightarrow> (CCoins \<Rightarrow> u64) \<Rightarrow> coins_fun \<Rightarrow> CCoinsViewCache \<Rightarrow> CTransaction \<Rightarrow> (bool \<times> CCoinsViewCache) option" where
  "IsWitnessStandard lowS mem base mapInputs tx =
     (if has_no_coin_inputs tx then Some (True, mapInputs) else witness_loop lowS mem base mapInputs (vin tx) (vtxinwit tx))"

definition GetVirtualTransactionSize :: "u32 \<Rightarrow> int \<Rightarrow> int \<Rightarrow> int" where
  "GetVirtualTransactionSize nBytesPerSigOp nWeight nSigOpCost =
     tdiv (wrap_i64 (wrap_i64 (max nWeight (wrap_i64 (nSigOpCost * uint nBytesPerSigOp)) + int WITNESS_SCALE_FACTOR) - 1)) (int WITNESS_SCALE_FACTOR)"

section \<open>What the loops accept\<close>








lemma GetOutputFor_view:
  assumes "coins_parent base" "coins_ok base c" "GetOutputFor mem base c i = Some (prev, c')"
  shows "coins_ok base c'" "view_of base c' = view_of base c"
    "\<exists>k. view_of base c (out_hash (prevout i)) = Some k \<and> IsAvailable k (out_n (prevout i)) \<and> prev = c_vout k ! unat (out_n (prevout i))"
  using assms(3) coins_parent.fetch_ok [OF assms(1,2), of mem "out_hash (prevout i)"]
  by (auto simp: GetOutputFor_def AccessCoins_def split: prod.splits option.splits if_splits)

definition spends :: "coins_fun \<Rightarrow> CTxIn \<Rightarrow> CTxOut \<Rightarrow> bool" where
  "spends view i prev \<longleftrightarrow>
     (\<exists>k. view (out_hash (prevout i)) = Some k \<and> IsAvailable k (out_n (prevout i)) \<and> prev = c_vout k ! unat (out_n (prevout i)))"

lemma inputs_loop_accepts:
  "coins_parent base \<Longrightarrow> coins_ok base c \<Longrightarrow> inputs_loop lowS mem base c txins = Some (True, c') \<Longrightarrow>
   coins_ok base c' \<and> view_of base c' = view_of base c \<and> (\<forall>i\<in>set txins. \<exists>prev. spends (view_of base c) i prev \<and> input_standard lowS i prev = Some True)"
proof (induction txins arbitrary: c)
  case (Cons i txins)
  obtain prev c1 where g: "GetOutputFor mem base c i = Some (prev, c1)" "input_standard lowS i prev = Some True"
    "inputs_loop lowS mem base c1 txins = Some (True, c')"
    using Cons.prems(3) by (auto simp: bind_eq_Some_conv split: if_splits)
  note v = GetOutputFor_view [OF Cons.prems(1,2) g(1)]
  show ?case using Cons.IH [OF Cons.prems(1) v(1) g(3)] v(2,3) g(2) by (auto simp: spends_def)
qed simp

lemma witness_loop_accepts:
  "coins_parent base \<Longrightarrow> coins_ok base c \<Longrightarrow> witness_loop lowS mem base c txins wits = Some (True, c') \<Longrightarrow>
   coins_ok base c' \<and> view_of base c' = view_of base c \<and> length txins \<le> length wits
   \<and> (\<forall>(i, stack)\<in>set (zip txins wits). stack = [] \<or> (\<exists>prev. spends (view_of base c) i prev \<and> witness_standard lowS i stack prev))"
proof (induction lowS mem base c txins wits rule: witness_loop.induct)
  case (3 lowS mem base c i txins stack wits)
  show ?case
  proof (cases "stack = []")
    case True
    then show ?thesis using "3.IH"(1) [OF True] "3.prems" by simp
  next
    case False
    then obtain prev c1 where g: "GetOutputFor mem base c i = Some (prev, c1)" "witness_standard lowS i stack prev"
      "witness_loop lowS mem base c1 txins wits = Some (True, c')"
      using "3.prems"(3) by (auto simp: bind_eq_Some_conv split: if_splits)
    note v = GetOutputFor_view [OF "3.prems"(1,2) g(1)]
    have "\<not> \<not> witness_standard lowS i stack prev" using g(2) by simp
    from "3.IH"(2) [OF False g(1) refl this "3.prems"(1) v(1) g(3)]
    show ?thesis using v(2,3) g(2) by (auto simp: spends_def)
  qed
qed simp_all

lemma input_standard_p2sh:
  assumes "input_standard lowS i prev = Some True" "IsPayToScriptHash (scriptPubKey prev)"
  shows "\<exists>r. redeem_script lowS (scriptSig i) = Some r \<and> GetSigOpCount r True \<le> MAX_P2SH_SIGOPS"
  using assms by (auto simp: input_standard_def Solver_def split: option.splits)

definition witness_bounded :: "bytes list \<Rightarrow> CScript \<Rightarrow> bool" where
  "witness_bounded stack p \<longleftrightarrow>
     (\<exists>ver prog. IsWitnessProgram p = Some (ver, prog) \<and> (ver = 0 \<and> length prog = 32 \<longrightarrow>
        length (last stack) \<le> 3600 \<and> length stack \<le> 101 \<and> (\<forall>item\<in>set (butlast stack). length item \<le> 80)))"

lemma witness_standard_bounded:
  assumes "witness_standard lowS i stack prev"
  shows "\<exists>p. (if IsPayToScriptHash (scriptPubKey prev) then redeem_script lowS (scriptSig i) else Some (scriptPubKey prev)) = Some p
    \<and> witness_bounded stack p"
  using assms
  by (auto simp: witness_standard_def witness_bounded_def p2wsh_limits_def list_all_iff not_less MAX_STANDARD_P2WSH_STACK_ITEMS_def
      MAX_STANDARD_P2WSH_STACK_ITEM_SIZE_def MAX_STANDARD_P2WSH_SCRIPT_SIZE_def split: option.splits if_splits)

lemma spends_unique: "spends view i p \<Longrightarrow> spends view i q \<Longrightarrow> p = q"
  by (auto simp: spends_def)


section \<open>Properties\<close>


text \<open>C19: When AreInputsStandard and then IsWitnessStandard accept a transaction with coin inputs, the coins are unchanged and every
  input spends an available output; the redeem script of a pay-to-script-hash output has at most 15 signature
  operations; and an input with a witness spends a witness program, whose stack is within the P2WSH limits if it is one.
  (\<open>AcceptToMemoryPool\<close> makes the second call only for a transaction that has a witness; for the others the last clause is empty.)\<close>

theorem inputs_standard_sound:
  assumes "coins_parent base" "coins_ok base c" "\<not> has_no_coin_inputs tx"
    "AreInputsStandard lowS mem base c tx = Some (True, c1)" "IsWitnessStandard lowS mem base c1 tx = Some (True, c2)"
  shows "view_of base c2 = view_of base c
    \<and> (\<forall>j<length (vin tx). \<exists>prev. spends (view_of base c) (vin tx ! j) prev
        \<and> (IsPayToScriptHash (scriptPubKey prev) \<longrightarrow> (\<exists>r. redeem_script lowS (scriptSig (vin tx ! j)) = Some r \<and> GetSigOpCount r True \<le> 15))
        \<and> (vtxinwit tx ! j \<noteq> [] \<longrightarrow>
            (\<exists>p. (if IsPayToScriptHash (scriptPubKey prev) then redeem_script lowS (scriptSig (vin tx ! j)) else Some (scriptPubKey prev)) = Some p
               \<and> witness_bounded (vtxinwit tx ! j) p)))"
proof -
  have ins: "coins_ok base c1" "view_of base c1 = view_of base c"
      "\<forall>i\<in>set (vin tx). \<exists>prev. spends (view_of base c) i prev \<and> input_standard lowS i prev = Some True"
    using inputs_loop_accepts [OF assms(1,2)] assms(3,4) by (auto simp: AreInputsStandard_def)
  have "witness_loop lowS mem base c1 (vin tx) (vtxinwit tx) = Some (True, c2)" using assms(3,5) by (simp add: IsWitnessStandard_def)
  note wit = witness_loop_accepts [OF assms(1) ins(1) this, unfolded ins(2)]
  have "\<exists>prev. spends (view_of base c) (vin tx ! j) prev
        \<and> (IsPayToScriptHash (scriptPubKey prev) \<longrightarrow> (\<exists>r. redeem_script lowS (scriptSig (vin tx ! j)) = Some r \<and> GetSigOpCount r True \<le> 15))
        \<and> (vtxinwit tx ! j \<noteq> [] \<longrightarrow>
            (\<exists>p. (if IsPayToScriptHash (scriptPubKey prev) then redeem_script lowS (scriptSig (vin tx ! j)) else Some (scriptPubKey prev)) = Some p
               \<and> witness_bounded (vtxinwit tx ! j) p))" if j: "j < length (vin tx)" for j
  proof -
    obtain prev where prev: "spends (view_of base c) (vin tx ! j) prev" "input_standard lowS (vin tx ! j) prev = Some True"
      using ins(3) j nth_mem by blast
    have "(vin tx ! j, vtxinwit tx ! j) \<in> set (zip (vin tx) (vtxinwit tx))" using j wit by (auto simp: in_set_zip)
    then have "vtxinwit tx ! j = [] \<or> witness_standard lowS (vin tx ! j) (vtxinwit tx ! j) prev"
      using wit spends_unique [OF prev(1)] by fastforce
    then show ?thesis
      using prev(1) input_standard_p2sh [OF prev(2)] witness_standard_bounded [of lowS "vin tx ! j" "vtxinwit tx ! j" prev]
      by (intro exI [of _ prev]) (auto simp: MAX_P2SH_SIGOPS_def)
  qed
  then show ?thesis using wit by blast
qed

section \<open>Witnesses\<close>

definition sample_out :: CTxOut where
  "sample_out = \<lparr>nValue = 5, scriptPubKey = p2pkh (replicate 20 7)\<rparr>"

definition sample_coins :: CCoins where
  "sample_coins = \<lparr>fCoinBase = False, c_vout = [sample_out], c_nHeight = 7, c_nVersion = 1\<rparr>"

definition sample_base :: coins_fun where "sample_base = [replicate 32 1 \<mapsto> sample_coins]"

definition sample_tx :: CTransaction where
  "sample_tx = \<lparr>tx_hash = [], tx_nVersion = 1, vin = [\<lparr>prevout = \<lparr>out_hash = replicate 32 1, out_n = 0\<rparr>, scriptSig = [0], nSequence = 0\<rparr>],
     vout = [sample_out], vtxinwit = [[]], nLockTime = 0\<rparr>"

interpretation sample: coins_parent sample_base
  by unfold_locales (auto simp: sample_base_def sample_coins_def sample_out_def Cleanup_def IsPruned_def TxOut_IsNull_def split: if_splits)

lemma sample_solved: "Solver t (scriptPubKey sample_out) = Some (True, TX_PUBKEYHASH, [replicate 20 7])"
  by (simp add: sample_out_def Solver_def p2pkh_def push_bytes_short IsPayToScriptHash_def IsPayToPublicKeyHash_def op_at_def nth_append)

lemma sample_has_inputs: "\<not> has_no_coin_inputs sample_tx"
  by (simp add: sample_tx_def has_no_coin_inputs_def IsCoinBase_def tx_IsZerocoinSpend_def tx_IsSigmaSpend_def TxIn_IsZerocoinSpend_def
      TxIn_IsSigmaSpend_def IsSigmaMintGroup_def OutPoint_IsNull_def blob_IsNull_def)

lemma sample_value: "nValue sample_out = 5"
  by (simp add: sample_out_def)

lemma sample_inputs: "\<exists>c1. AreInputsStandard lowS mem sample_base CCoinsViewCache_init sample_tx = Some (True, c1)"
  using sample_has_inputs
  by (simp add: AreInputsStandard_def sample_tx_def GetOutputFor_def AccessCoins_def FetchCoins_def CCoinsViewCache_init_def sample_base_def
      sample_coins_def IsAvailable_def TxOut_IsNull_def input_standard_def sample_solved sample_value)

theorem inputs_standard_sound_witness:
  "\<exists>prev. spends (view_of sample_base CCoinsViewCache_init) (vin sample_tx ! 0) prev
     \<and> (IsPayToScriptHash (scriptPubKey prev) \<longrightarrow> (\<exists>r. redeem_script (\<lambda>_. True) (scriptSig (vin sample_tx ! 0)) = Some r \<and> GetSigOpCount r True \<le> 15))"
proof -
  obtain c1 where c1: "AreInputsStandard (\<lambda>_. True) (\<lambda>_. 0) sample_base CCoinsViewCache_init sample_tx = Some (True, c1)"
    using sample_inputs by blast
  have "IsWitnessStandard (\<lambda>_. True) (\<lambda>_. 0) sample_base c1 sample_tx = Some (True, c1)"
    using sample_has_inputs by (simp add: IsWitnessStandard_def sample_tx_def)
  note inputs_standard_sound [OF sample.coins_parent_axioms coins_ok_init sample_has_inputs c1 this]
  moreover have "0 < length (vin sample_tx)" by (simp add: sample_tx_def)
  ultimately show ?thesis by blast
qed






end
