(* ===== verification/Bloom.thy ===== *)
theory Bloom
  imports Hash
begin

unbundle bit_operations_syntax

text \<open>The bloom filters of bloom.h and bloom.cpp. \<open>CBloomFilter\<close> is the filter a light client sends,
  \<open>CRollingBloomFilter\<close> remembers the most recently inserted keys in three generations. The sizes that the constructors compute
  with floating-point logarithms, and the random tweak of \<open>reset\<close>, are arguments. None is a division by zero, the modulus
  of the hash being the size of an empty filter. \<open>gen_at\<close> reads the generation stored at a position of the rolling
  filter from its two bits.\<close>

section \<open>CBloomFilter\<close>

record CBloomFilter =
  bf_vData :: bytes
  isFull :: bool
  isEmpty :: bool
  bf_nHashFuncs :: u32
  bf_nTweak :: u32
  bf_nFlags :: u8

definition MAX_BLOOM_FILTER_SIZE :: nat where "MAX_BLOOM_FILTER_SIZE = 36000"
definition MAX_HASH_FUNCS :: u32 where "MAX_HASH_FUNCS = 50"

definition CBloomFilter_default :: CBloomFilter where
  "CBloomFilter_default = \<lparr>bf_vData = [], isFull = True, isEmpty = False, bf_nHashFuncs = 0, bf_nTweak = 0, bf_nFlags = 0\<rparr>"

definition bloom_Hash :: "CBloomFilter \<Rightarrow> nat \<Rightarrow> bytes \<Rightarrow> nat" where
  "bloom_Hash f nHashNum vDataToHash =
     unat (MurmurHash3 (of_nat nHashNum * 0xFBA4C795 + bf_nTweak f) vDataToHash) mod (length (bf_vData f) * 8)"

definition set_index :: "nat \<Rightarrow> bytes \<Rightarrow> bytes" where
  "set_index nIndex vData = vData[nIndex div 8 := (vData ! (nIndex div 8)) OR push_bit (nIndex mod 8) 1]"

definition bloom_insert :: "bytes \<Rightarrow> CBloomFilter \<Rightarrow> CBloomFilter option" where
  "bloom_insert vKey f =
     (if isFull f then Some f
      else if bf_nHashFuncs f > 0 \<and> bf_vData f = [] then None
      else Some (f\<lparr>bf_vData := fold (\<lambda>i. set_index (bloom_Hash f i vKey)) [0..<unat (bf_nHashFuncs f)] (bf_vData f), isEmpty := False\<rparr>))"

definition bloom_contains :: "bytes \<Rightarrow> CBloomFilter \<Rightarrow> bool option" where
  "bloom_contains vKey f =
     (if isFull f then Some True
      else if isEmpty f then Some False
      else if bf_nHashFuncs f > 0 \<and> bf_vData f = [] then None
      else Some (list_all (\<lambda>i. let nIndex = bloom_Hash f i vKey in bit (bf_vData f ! (nIndex div 8)) (nIndex mod 8))
             [0..<unat (bf_nHashFuncs f)]))"

definition bloom_clear :: "CBloomFilter \<Rightarrow> CBloomFilter" where
  "bloom_clear f = f\<lparr>bf_vData := replicate (length (bf_vData f)) 0, isFull := False, isEmpty := True\<rparr>"

definition bloom_reset :: "u32 \<Rightarrow> CBloomFilter \<Rightarrow> CBloomFilter" where
  "bloom_reset nNewTweak f = (bloom_clear f)\<lparr>bf_nTweak := nNewTweak\<rparr>"

definition IsWithinSizeConstraints :: "CBloomFilter \<Rightarrow> bool" where
  "IsWithinSizeConstraints f \<longleftrightarrow> length (bf_vData f) \<le> MAX_BLOOM_FILTER_SIZE \<and> bf_nHashFuncs f \<le> MAX_HASH_FUNCS"

definition UpdateEmptyFull :: "CBloomFilter \<Rightarrow> CBloomFilter" where
  "UpdateEmptyFull f =
     f\<lparr>isFull := fold (\<lambda>x full. full \<and> x = 0xff) (bf_vData f) True, isEmpty := fold (\<lambda>x empty. empty \<and> x = 0) (bf_vData f) True\<rparr>"

section \<open>CRollingBloomFilter\<close>

record CRollingBloomFilter =
  nEntriesPerGeneration :: nat
  nEntriesThisGeneration :: nat
  nGeneration :: nat
  rb_data :: "u64 list"
  rb_nTweak :: u32
  rb_nHashFuncs :: nat

definition rolling_reset :: "u32 \<Rightarrow> CRollingBloomFilter \<Rightarrow> CRollingBloomFilter" where
  "rolling_reset tweak f =
     f\<lparr>rb_nTweak := tweak, nEntriesThisGeneration := 0, nGeneration := 1, rb_data := map (\<lambda>_. 0) (rb_data f)\<rparr>"

definition CRollingBloomFilter_new :: "u32 \<Rightarrow> nat \<Rightarrow> u32 \<Rightarrow> u32 \<Rightarrow> CRollingBloomFilter" where
  "CRollingBloomFilter_new nElements hashFuncs nFilterBits tweak =
     rolling_reset tweak
       \<lparr>nEntriesPerGeneration = unat ((nElements + 1) div 2), nEntriesThisGeneration = 0, nGeneration = 1,
        rb_data = replicate (unat (push_bit 1 ((nFilterBits + 63) div 64))) 0, rb_nTweak = tweak, rb_nHashFuncs = hashFuncs\<rparr>"

definition RollingBloomHash :: "nat \<Rightarrow> u32 \<Rightarrow> bytes \<Rightarrow> u32" where
  "RollingBloomHash nHashNum nTweak vDataToHash = MurmurHash3 (of_nat nHashNum * 0xFBA4C795 + nTweak) vDataToHash"

fun wipe :: "nat \<Rightarrow> u64 list \<Rightarrow> u64 list" where
  "wipe g (p1 # p2 # ps) =
     (let nGenerationMask1 = - of_nat (g mod 2); nGenerationMask2 = - of_nat (g div 2);
          mask = (p1 XOR nGenerationMask1) OR (p2 XOR nGenerationMask2)
      in (p1 AND mask) # (p2 AND mask) # wipe g ps)"
| "wipe g ps = ps"

definition put_gen :: "nat \<Rightarrow> nat \<Rightarrow> nat \<Rightarrow> u64 list \<Rightarrow> u64 list" where
  "put_gen g pos b d =
     (let i = 2 * (pos div 2); j = 2 * (pos div 2) + 1;
          d = d[i := (d ! i AND NOT (push_bit b 1)) OR push_bit b (of_nat (g mod 2))]
      in d[j := (d ! j AND NOT (push_bit b 1)) OR push_bit b (of_nat (g div 2))])"

definition rb_bit :: "CRollingBloomFilter \<Rightarrow> bytes \<Rightarrow> nat \<Rightarrow> nat" where
  "rb_bit f vKey n = unat (RollingBloomHash n (rb_nTweak f) vKey AND 0x3F)"

definition rb_pos :: "CRollingBloomFilter \<Rightarrow> bytes \<Rightarrow> nat \<Rightarrow> nat" where
  "rb_pos f vKey n = unat (drop_bit 6 (RollingBloomHash n (rb_nTweak f) vKey)) mod length (rb_data f)"

definition next_generation :: "CRollingBloomFilter \<Rightarrow> CRollingBloomFilter" where
  "next_generation f =
     (let g = nGeneration f + 1; g = (if g = 4 then 1 else g)
      in f\<lparr>nEntriesThisGeneration := 0, nGeneration := g, rb_data := wipe g (rb_data f)\<rparr>)"

definition rolling_insert :: "bytes \<Rightarrow> CRollingBloomFilter \<Rightarrow> CRollingBloomFilter option" where
  "rolling_insert vKey f =
     (let f = (if nEntriesThisGeneration f = nEntriesPerGeneration f then next_generation f else f);
          f = f\<lparr>nEntriesThisGeneration := nEntriesThisGeneration f + 1\<rparr>
      in if rb_nHashFuncs f > 0 \<and> rb_data f = [] then None
         else Some (f\<lparr>rb_data := fold (\<lambda>n. put_gen (nGeneration f) (rb_pos f vKey n) (rb_bit f vKey n)) [0..<rb_nHashFuncs f] (rb_data f)\<rparr>))"

definition rolling_contains :: "bytes \<Rightarrow> CRollingBloomFilter \<Rightarrow> bool option" where
  "rolling_contains vKey f =
     (if rb_nHashFuncs f > 0 \<and> rb_data f = [] then None
      else Some (list_all
             (\<lambda>n. let pos = rb_pos f vKey n
                  in bit (rb_data f ! (2 * (pos div 2)) OR rb_data f ! (2 * (pos div 2) + 1)) (rb_bit f vKey n))
             [0..<rb_nHashFuncs f]))"

section \<open>Generations\<close>

definition gen_at :: "u64 list \<Rightarrow> nat \<Rightarrow> nat \<Rightarrow> nat" where
  "gen_at d i b = of_bool (bit (d ! (2 * i)) b) + 2 * of_bool (bit (d ! (2 * i + 1)) b)"

lemma length_put_gen [simp]: "length (put_gen g pos b d) = length d"
  by (simp add: put_gen_def Let_def)

lemma length_wipe [simp]: "length (wipe g d) = length d"
  by (induction g d rule: wipe.induct) (simp_all add: Let_def)

lemma bit_put:
  assumes "b < 64" "x < 2"
  shows "bit ((w AND NOT (push_bit b 1)) OR push_bit b (of_nat x) :: u64) c \<longleftrightarrow> (if c = b then x = 1 else bit w c)"
proof -
  consider "x = 0" | "x = 1" using assms(2) by linarith
  then show ?thesis
    using assms(1) by cases (auto simp: bit_simps dest: bit_imp_le_length)
qed

lemma gen_at_put:
  assumes "even (length d)" "pos < length d" "b < 64" "g < 4" "i < length d div 2"
  shows "gen_at (put_gen g pos b d) i c = (if i = pos div 2 \<and> c = b then g else gen_at d i c)"
proof -
  have g: "g mod 2 < 2" "g div 2 < 2" "g = g mod 2 + 2 * (g div 2)" using assms(4) by auto
  have len: "2 * (pos div 2) + 1 < length d" using assms(1,2) by presburger
  show ?thesis
  proof (cases "i = pos div 2")
    case True
    have "gen_at (put_gen g pos b d) i c
        = of_bool (if c = b then g mod 2 = 1 else bit (d ! (2 * i)) c) + 2 * of_bool (if c = b then g div 2 = 1 else bit (d ! (2 * i + 1)) c)"
      using len True bit_put [OF assms(3) g(1)] bit_put [OF assms(3) g(2)] by (simp add: gen_at_def put_gen_def Let_def)
    moreover have "of_bool (g mod 2 = 1) + 2 * of_bool (g div 2 = 1) = g"
      using assms(4) by (cases "g = 0 \<or> g = 1 \<or> g = 2 \<or> g = 3") auto
    ultimately show ?thesis using True by (auto simp: gen_at_def)
  next
    case False
    then have "2 * i \<noteq> 2 * (pos div 2)" "2 * i \<noteq> 2 * (pos div 2) + 1" "2 * i + 1 \<noteq> 2 * (pos div 2)" "2 * i + 1 \<noteq> 2 * (pos div 2) + 1"
      by presburger+
    then show ?thesis using False by (simp add: gen_at_def put_gen_def Let_def)
  qed
qed

lemma bit_mask: "b < 64 \<Longrightarrow> x < 2 \<Longrightarrow> bit (- of_nat x :: u64) b \<longleftrightarrow> x = 1"
proof -
  assume "b < 64" "x < 2"
  then consider "x = 0" | "x = 1" by linarith
  then show ?thesis using \<open>b < 64\<close> by cases (simp_all add: bit_simps)
qed

lemma wipe_pair:
  fixes p1 p2 :: u64
  assumes "b < 64" "g < 4"
  shows "of_bool (bit (p1 AND ((p1 XOR - of_nat (g mod 2)) OR (p2 XOR - of_nat (g div 2)))) b)
      + 2 * of_bool (bit (p2 AND ((p1 XOR - of_nat (g mod 2)) OR (p2 XOR - of_nat (g div 2)))) b)
    = (if of_bool (bit p1 b) + 2 * of_bool (bit p2 b) = g then 0 else of_bool (bit p1 b) + 2 * of_bool (bit p2 b) :: nat)"
proof -
  have g: "g mod 2 < 2" "g div 2 < 2" using assms(2) by auto
  consider "g = 0" | "g = 1" | "g = 2" | "g = 3" using assms(2) by linarith
  then show ?thesis
    using bit_mask [OF assms(1) g(1)] bit_mask [OF assms(1) g(2)]
    by cases (auto simp: bit_and_iff bit_or_iff bit_xor_iff bit_not_iff assms(1))
qed

lemma gen_at_wipe:
  assumes "even (length d)" "i < length d div 2" "b < 64" "g < 4"
  shows "gen_at (wipe g d) i b = (if gen_at d i b = g then 0 else gen_at d i b)"
  using assms
proof (induction g d arbitrary: i rule: wipe.induct)
  case (1 g p1 p2 ps)
  show ?case
  proof (cases i)
    case 0
    then show ?thesis using wipe_pair [OF "1.prems"(3,4), of p1 p2] by (simp add: gen_at_def Let_def)
  next
    case (Suc j)
    then have "gen_at (wipe g ps) j b = (if gen_at ps j b = g then 0 else gen_at ps j b)" using "1.IH" "1.prems" by simp
    then show ?thesis using Suc by (simp add: gen_at_def Let_def)
  qed
qed simp_all

section \<open>Marks\<close>

text \<open>All positions of a key carry a generation of the given set.\<close>

definition marked :: "CRollingBloomFilter \<Rightarrow> nat set \<Rightarrow> bytes \<Rightarrow> bool" where
  "marked f gs k \<longleftrightarrow> (\<forall>n<rb_nHashFuncs f. gen_at (rb_data f) (rb_pos f k n div 2) (rb_bit f k n) \<in> gs)"

definition rb_wf :: "CRollingBloomFilter \<Rightarrow> bool" where
  "rb_wf f \<longleftrightarrow> even (length (rb_data f)) \<and> 0 < length (rb_data f) \<and> nGeneration f \<in> {1, 2, 3}"

lemma rb_bit_less: "rb_bit f k n < 64"
proof -
  have "RollingBloomHash n (rb_nTweak f) k AND 0x3F \<le> 0x3F" by (rule word_and_le1)
  then show ?thesis by (simp add: rb_bit_def word_le_nat_alt)
qed

lemma rb_pos_less: "rb_wf f \<Longrightarrow> rb_pos f k n < length (rb_data f)" "rb_wf f \<Longrightarrow> rb_pos f k n div 2 < length (rb_data f) div 2"
proof -
  assume f: "rb_wf f"
  then have even: "even (length (rb_data f))" by (simp add: rb_wf_def)
  show "rb_pos f k n < length (rb_data f)" using f by (simp add: rb_pos_def rb_wf_def)
  then show "rb_pos f k n div 2 < length (rb_data f) div 2" using even by presburger
qed

lemma contains_iff_marked: "rb_wf f \<Longrightarrow> rolling_contains k f = Some (marked f (- {0}) k)"
  by (auto simp: rolling_contains_def marked_def rb_wf_def list_all_iff gen_at_def bit_or_iff Let_def)

lemma marked_mono: "marked f gs k \<Longrightarrow> gs \<subseteq> hs \<Longrightarrow> marked f hs k"
  by (auto simp: marked_def)

lemma gen_at_fold:
  assumes "rb_wf f" "g < 4" "length d = length (rb_data f)" "i < length d div 2"
  shows "gen_at (fold (\<lambda>n. put_gen g (rb_pos f k n) (rb_bit f k n)) ns d) i c
    = (if \<exists>n\<in>set ns. i = rb_pos f k n div 2 \<and> c = rb_bit f k n then g else gen_at d i c)"
  using assms(3,4)
proof (induction ns arbitrary: d)
  case (Cons n ns)
  define hit where "hit m \<longleftrightarrow> i = rb_pos f k m div 2 \<and> c = rb_bit f k m" for m
  have "gen_at (put_gen g (rb_pos f k n) (rb_bit f k n) d) i c = (if hit n then g else gen_at d i c)"
    unfolding hit_def
    using gen_at_put [of d "rb_pos f k n" "rb_bit f k n" g i c] assms(1,2) Cons.prems rb_pos_less(1) [OF assms(1), of k n] rb_bit_less [of f k n]
    by (simp add: rb_wf_def)
  moreover have "gen_at (fold (\<lambda>n. put_gen g (rb_pos f k n) (rb_bit f k n)) ns (put_gen g (rb_pos f k n) (rb_bit f k n) d)) i c
      = (if \<exists>n\<in>set ns. hit n then g else gen_at (put_gen g (rb_pos f k n) (rb_bit f k n) d) i c)"
    unfolding hit_def using Cons.prems by (intro Cons.IH) simp_all
  ultimately show ?case unfolding hit_def [symmetric] by simp
qed simp

definition put_key :: "bytes \<Rightarrow> CRollingBloomFilter \<Rightarrow> CRollingBloomFilter" where
  "put_key k f = f\<lparr>rb_data := fold (\<lambda>n. put_gen (nGeneration f) (rb_pos f k n) (rb_bit f k n)) [0..<rb_nHashFuncs f] (rb_data f)\<rparr>"

lemma length_fold_put [simp]: "length (fold (\<lambda>n. put_gen g (p n) (b n)) ns d) = length d"
  by (induction ns arbitrary: d) simp_all

lemma put_key_simps [simp]:
  "length (rb_data (put_key k f)) = length (rb_data f)" "nGeneration (put_key k f) = nGeneration f" "rb_nHashFuncs (put_key k f) = rb_nHashFuncs f"
  "rb_nTweak (put_key k f) = rb_nTweak f" "nEntriesThisGeneration (put_key k f) = nEntriesThisGeneration f"
  "nEntriesPerGeneration (put_key k f) = nEntriesPerGeneration f"
  by (simp_all add: put_key_def)

lemma next_generation_simps [simp]:
  "length (rb_data (next_generation f)) = length (rb_data f)" "rb_nHashFuncs (next_generation f) = rb_nHashFuncs f"
  "rb_nTweak (next_generation f) = rb_nTweak f" "nEntriesThisGeneration (next_generation f) = 0"
  "nEntriesPerGeneration (next_generation f) = nEntriesPerGeneration f"
  by (simp_all add: next_generation_def Let_def)

lemma nGeneration_next: "nGeneration (next_generation f) = (if nGeneration f = 3 then 1 else nGeneration f + 1)"
  by (simp add: next_generation_def Let_def)

lemma rb_wf_put_key: "rb_wf f \<Longrightarrow> rb_wf (put_key k f)"
  unfolding rb_wf_def put_key_simps .

lemma rb_wf_next: "rb_wf f \<Longrightarrow> rb_wf (next_generation f)"
  unfolding rb_wf_def next_generation_simps nGeneration_next by auto

lemma rb_slots [simp]:
  "rb_pos (put_key k f) = rb_pos f" "rb_bit (put_key k f) = rb_bit f" "rb_pos (next_generation f) = rb_pos f" "rb_bit (next_generation f) = rb_bit f"
  by (simp_all add: fun_eq_iff rb_pos_def rb_bit_def)

lemma gen_at_put_key:
  assumes "rb_wf f" "i < length (rb_data f) div 2"
  shows "gen_at (rb_data (put_key k f)) i c
    = (if \<exists>n<rb_nHashFuncs f. i = rb_pos f k n div 2 \<and> c = rb_bit f k n then nGeneration f else gen_at (rb_data f) i c)"
proof -
  have "nGeneration f < 4" using assms(1) by (auto simp: rb_wf_def)
  note gen_at_fold [OF assms(1) this refl assms(2), of k "[0..<rb_nHashFuncs f]" c]
  moreover have "(\<exists>n\<in>set [0..<rb_nHashFuncs f]. P n) \<longleftrightarrow> (\<exists>n<rb_nHashFuncs f. P n)" for P by auto
  moreover have "rb_data (put_key k f) = fold (\<lambda>n. put_gen (nGeneration f) (rb_pos f k n) (rb_bit f k n)) [0..<rb_nHashFuncs f] (rb_data f)"
    by (simp add: put_key_def)
  ultimately show ?thesis by (simp only:)
qed

lemma put_key_marks:
  assumes "rb_wf f"
  shows "marked (put_key k f) {nGeneration f} k" "marked f gs x \<Longrightarrow> nGeneration f \<in> gs \<Longrightarrow> marked (put_key k f) gs x"
proof -
  have at: "gen_at (rb_data (put_key k f)) (rb_pos f y n div 2) c
      = (if \<exists>m<rb_nHashFuncs f. rb_pos f y n div 2 = rb_pos f k m div 2 \<and> c = rb_bit f k m then nGeneration f
         else gen_at (rb_data f) (rb_pos f y n div 2) c)" for y n c
    by (rule gen_at_put_key [OF assms rb_pos_less(2) [OF assms]])
  show "marked (put_key k f) {nGeneration f} k"
    unfolding marked_def put_key_simps rb_slots at by (intro allI impI, subst if_P) blast+
  have pick: "(if P then a else b) \<in> gs" if "a \<in> gs" "b \<in> gs" for P and a b :: nat using that by simp
  show "marked f gs x \<Longrightarrow> nGeneration f \<in> gs \<Longrightarrow> marked (put_key k f) gs x"
    unfolding marked_def put_key_simps rb_slots at by (intro allI impI pick) blast+
qed

lemma next_generation_marks:
  assumes "rb_wf f" "marked f gs x" "nGeneration (next_generation f) \<notin> gs"
  shows "marked (next_generation f) gs x"
proof -
  define g where "g = nGeneration (next_generation f)"
  have "g < 4" using rb_wf_next [OF assms(1)] by (auto simp: rb_wf_def g_def)
  moreover have "rb_data (next_generation f) = wipe g (rb_data f)" by (simp add: g_def next_generation_def Let_def)
  ultimately have "gen_at (rb_data (next_generation f)) (rb_pos f x n div 2) (rb_bit f x n)
      = (if gen_at (rb_data f) (rb_pos f x n div 2) (rb_bit f x n) = g then 0 else gen_at (rb_data f) (rb_pos f x n div 2) (rb_bit f x n))" for n
    using gen_at_wipe [OF _ rb_pos_less(2) [OF assms(1)] rb_bit_less] assms(1) by (simp add: rb_wf_def)
  then show ?thesis using assms(2,3) by (auto simp: marked_def g_def [symmetric])
qed

section \<open>The last generations\<close>

text \<open>The keys of the current generation, of the one before it and of the one before that.\<close>

definition prev_gen :: "nat \<Rightarrow> nat" where
  "prev_gen g = (if g = 1 then 3 else g - 1)"

definition holds :: "CRollingBloomFilter \<Rightarrow> bytes list \<Rightarrow> bytes list \<Rightarrow> bytes list \<Rightarrow> bool" where
  "holds f p2 p1 c \<longleftrightarrow> rb_wf f \<and> (\<forall>k\<in>set c. marked f {nGeneration f} k) \<and> (\<forall>k\<in>set p1. marked f {nGeneration f, prev_gen (nGeneration f)} k)
     \<and> (\<forall>k\<in>set p2. marked f {1, 2, 3} k)"

lemma holds_put_key: "holds f p2 p1 c \<Longrightarrow> holds (put_key k f) p2 p1 (c @ [k])"
proof -
  assume h: "holds f p2 p1 c"
  then have f: "rb_wf f" and g: "nGeneration f \<in> {1, 2, 3}" by (auto simp: holds_def rb_wf_def)
  note keep = put_key_marks(2) [OF f]
  have "\<forall>x\<in>set c. marked (put_key k f) {nGeneration f} x" using h unfolding holds_def by (intro ballI keep) simp_all
  moreover have "\<forall>x\<in>set p1. marked (put_key k f) {nGeneration f, prev_gen (nGeneration f)} x" using h unfolding holds_def by (intro ballI keep) simp_all
  moreover have "\<forall>x\<in>set p2. marked (put_key k f) {1, 2, 3} x" using h g unfolding holds_def by (intro ballI keep) blast+
  ultimately show ?thesis using rb_wf_put_key [OF f] put_key_marks(1) [OF f, of k] unfolding holds_def put_key_simps by simp
qed

lemma holds_next: "holds f p2 p1 c \<Longrightarrow> holds (next_generation f) p1 c []"
proof -
  assume h: "holds f p2 p1 c"
  then have f: "rb_wf f" by (simp add: holds_def)
  define g where "g = nGeneration f"
  define g' where "g' = nGeneration (next_generation f)"
  have g: "g \<in> {1, 2, 3}" using f by (simp add: rb_wf_def g_def)
  have new: "g' \<notin> {g, prev_gen g}" "prev_gen g' = g" using g by (auto simp: g'_def nGeneration_next prev_gen_def g_def [symmetric])
  have "marked (next_generation f) {g', prev_gen g'} k" if "k \<in> set c" for k
  proof -
    have "marked f {g} k" using h that by (simp add: holds_def g_def)
    then have "marked (next_generation f) {g} k" by (rule next_generation_marks [OF f]) (use new(1) in \<open>simp add: g'_def\<close>)
    then show ?thesis by (rule marked_mono) (simp add: new(2))
  qed
  moreover have "marked (next_generation f) {1, 2, 3} k" if "k \<in> set p1" for k
  proof -
    have "marked f {g, prev_gen g} k" using h that by (simp add: holds_def g_def)
    then have "marked (next_generation f) {g, prev_gen g} k" by (rule next_generation_marks [OF f]) (use new(1) in \<open>simp add: g'_def\<close>)
    then show ?thesis by (rule marked_mono) (use g in \<open>auto simp: prev_gen_def\<close>)
  qed
  ultimately show ?thesis using rb_wf_next [OF f] by (simp add: holds_def g'_def)
qed

primrec rolling_inserts :: "bytes list \<Rightarrow> CRollingBloomFilter \<Rightarrow> CRollingBloomFilter option" where
  "rolling_inserts [] f = Some f"
| "rolling_inserts (k # ks) f = Option.bind (rolling_insert k f) (rolling_inserts ks)"

definition recorded :: "bytes list \<Rightarrow> CRollingBloomFilter \<Rightarrow> bool" where
  "recorded ks f \<longleftrightarrow> nEntriesPerGeneration f > 0 \<and>
     (\<exists>old p2 p1 c. ks = old @ p2 @ p1 @ c \<and> holds f p2 p1 c \<and> length c = nEntriesThisGeneration f \<and> length c \<le> nEntriesPerGeneration f
        \<and> (old \<noteq> [] \<longrightarrow> length p2 = nEntriesPerGeneration f) \<and> (old @ p2 \<noteq> [] \<longrightarrow> length p1 = nEntriesPerGeneration f))"

lemma recordedI:
  assumes "nEntriesPerGeneration f > 0" "ks = old @ p2 @ p1 @ c" "holds f p2 p1 c" "length c = nEntriesThisGeneration f"
    "length c \<le> nEntriesPerGeneration f" "old \<noteq> [] \<longrightarrow> length p2 = nEntriesPerGeneration f"
    "old @ p2 \<noteq> [] \<longrightarrow> length p1 = nEntriesPerGeneration f"
  shows "recorded ks f"
  using assms unfolding recorded_def by blast

lemma holds_count: "holds (f\<lparr>nEntriesThisGeneration := m\<rparr>) p2 p1 c \<longleftrightarrow> holds f p2 p1 c"
  by (simp add: holds_def marked_def rb_wf_def rb_pos_def rb_bit_def)

lemma rolling_insert_put_key:
  assumes "rb_wf f"
  shows "rolling_insert k f = Some (put_key k
    ((if nEntriesThisGeneration f = nEntriesPerGeneration f then next_generation f else f)
       \<lparr>nEntriesThisGeneration := (if nEntriesThisGeneration f = nEntriesPerGeneration f then 0 else nEntriesThisGeneration f) + 1\<rparr>))"
proof -
  have "rb_data f \<noteq> []" using assms by (simp add: rb_wf_def)
  moreover have "rb_data (next_generation f) \<noteq> []" using rb_wf_next [OF assms] unfolding rb_wf_def length_greater_0_conv by blast
  ultimately show ?thesis by (simp add: rolling_insert_def put_key_def Let_def)
qed

lemma recorded_insert:
  assumes "recorded ks f"
  shows "\<exists>f'. rolling_insert k f = Some f' \<and> recorded (ks @ [k]) f' \<and> nEntriesPerGeneration f' = nEntriesPerGeneration f"
proof -
  obtain old p2 p1 c where r: "ks = old @ p2 @ p1 @ c" "holds f p2 p1 c" "length c = nEntriesThisGeneration f"
    "length c \<le> nEntriesPerGeneration f" "old \<noteq> [] \<longrightarrow> length p2 = nEntriesPerGeneration f"
    "old @ p2 \<noteq> [] \<longrightarrow> length p1 = nEntriesPerGeneration f" "nEntriesPerGeneration f > 0"
    using assms unfolding recorded_def by blast
  have f: "rb_wf f" using r(2) by (simp add: holds_def)
  show ?thesis
  proof (cases "nEntriesThisGeneration f = nEntriesPerGeneration f")
    case True
    let ?f = "put_key k (next_generation f\<lparr>nEntriesThisGeneration := 1\<rparr>)"
    have "holds ?f p1 c ([] @ [k])" using holds_next [OF r(2)] by (intro holds_put_key) (simp only: holds_count)
    then have "recorded (ks @ [k]) ?f"
      using r True by (intro recordedI [where old = "old @ p2" and ?p2.0 = p1 and ?p1.0 = c and c = "[k]"]) auto
    then show ?thesis using rolling_insert_put_key [OF f, of k] True by simp
  next
    case False
    let ?f = "put_key k (f\<lparr>nEntriesThisGeneration := nEntriesThisGeneration f + 1\<rparr>)"
    have "holds ?f p2 p1 (c @ [k])" using r(2) by (intro holds_put_key) (simp only: holds_count)
    then have "recorded (ks @ [k]) ?f"
      using r False by (intro recordedI [where old = old and ?p2.0 = p2 and ?p1.0 = p1 and c = "c @ [k]"]) auto
    then show ?thesis using rolling_insert_put_key [OF f, of k] False by simp
  qed
qed

lemma recorded_inserts:
  "recorded ks f \<Longrightarrow> \<exists>f'. rolling_inserts xs f = Some f' \<and> recorded (ks @ xs) f' \<and> nEntriesPerGeneration f' = nEntriesPerGeneration f"
proof (induction xs arbitrary: ks f)
  case (Cons x xs)
  obtain f1 where f1: "rolling_insert x f = Some f1" "recorded (ks @ [x]) f1" "nEntriesPerGeneration f1 = nEntriesPerGeneration f"
    using recorded_insert [OF Cons.prems] by blast
  show ?case using Cons.IH [OF f1(2)] f1(1,3) by auto
qed simp

lemma recorded_contains:
  assumes "recorded ks f" "k \<in> set (drop (length ks - 2 * nEntriesPerGeneration f) ks)"
  shows "rolling_contains k f = Some True"
proof -
  obtain old p2 p1 c where r: "ks = old @ p2 @ p1 @ c" "holds f p2 p1 c" "old \<noteq> [] \<longrightarrow> length p2 = nEntriesPerGeneration f"
    "old @ p2 \<noteq> [] \<longrightarrow> length p1 = nEntriesPerGeneration f"
    using assms(1) unfolding recorded_def by blast
  have "length old \<le> length ks - 2 * nEntriesPerGeneration f" using r(1,3,4) by (cases "old = []") simp_all
  then have "k \<in> set (drop (length old) ks)" using assms(2) set_drop_subset_set_drop [THEN subsetD] by metis
  then consider "k \<in> set p2" | "k \<in> set p1" | "k \<in> set c" using r(1) by auto
  then have marks: "marked f {1, 2, 3} k \<or> marked f {nGeneration f, prev_gen (nGeneration f)} k \<or> marked f {nGeneration f} k"
    using r(2) unfolding holds_def by cases simp_all
  have g: "nGeneration f \<in> {1, 2, 3}" and f: "rb_wf f" using r(2) by (simp_all add: holds_def rb_wf_def)
  have sub: "{1, 2, 3} \<subseteq> - {0 :: nat}" "{nGeneration f, prev_gen (nGeneration f)} \<subseteq> - {0}" "{nGeneration f} \<subseteq> - {0}"
    using g by (auto simp: prev_gen_def)
  from marks have "marked f (- {0}) k"
    by (elim disjE) (erule marked_mono [OF _ sub(1)], erule marked_mono [OF _ sub(2)], erule marked_mono [OF _ sub(3)])
  then show ?thesis using contains_iff_marked [OF f] by simp
qed

lemma rolling_size:
  fixes w :: u32
  shows "unat (w div 64 * 2) = 2 * unat (w div 64)"
proof -
  have "unat (w div 64) < 2 ^ 26" using unat_lt_exp [of w] by (simp add: unat_div)
  then show ?thesis by (simp add: unat_word_ariths(2))
qed

lemma recorded_new:
  assumes "nElements \<noteq> 0" "nElements \<noteq> - 1" "(nFilterBits + 63) div 64 \<noteq> 0"
  shows "recorded [] (CRollingBloomFilter_new nElements hashFuncs nFilterBits tweak)"
    "unat nElements \<le> 2 * nEntriesPerGeneration (CRollingBloomFilter_new nElements hashFuncs nFilterBits tweak)"
proof -
  let ?f = "CRollingBloomFilter_new nElements hashFuncs nFilterBits tweak"
  have "nElements + 1 \<noteq> 0" using assms(2) by (simp add: eq_neg_iff_add_eq_0)
  then have "unat (nElements + 1) = unat nElements + 1" by (simp add: unatSuc add.commute)
  then have n: "nEntriesPerGeneration ?f = (unat nElements + 1) div 2"
    by (simp add: CRollingBloomFilter_new_def rolling_reset_def unat_div)
  then show "unat nElements \<le> 2 * nEntriesPerGeneration ?f" by simp
  have "unat nElements > 0" "unat ((nFilterBits + 63) div 64) > 0" using assms(1,3) by (simp_all add: unat_gt_0)
  then have "nEntriesPerGeneration ?f > 0" "rb_wf ?f"
    using n by (simp_all add: rb_wf_def CRollingBloomFilter_new_def rolling_reset_def rolling_size del: word_div_def)
  then show "recorded [] ?f"
    by (intro recordedI [where old = "[]" and ?p2.0 = "[]" and ?p1.0 = "[]" and c = "[]"])
      (simp_all add: holds_def CRollingBloomFilter_new_def rolling_reset_def)
qed

section \<open>Bits of CBloomFilter\<close>

abbreviation has_index :: "bytes \<Rightarrow> nat \<Rightarrow> bool" where
  "has_index d n \<equiv> bit (d ! (n div 8)) (n mod 8)"

lemma has_set_index: "m div 8 < length d \<Longrightarrow> has_index (set_index m d) n \<longleftrightarrow> has_index d n \<or> n = m"
proof -
  assume m: "m div 8 < length d"
  have eq: "n = m \<longleftrightarrow> n div 8 = m div 8 \<and> n mod 8 = m mod 8" by (metis div_mult_mod_eq)
  have b: "bit (push_bit (m mod 8) 1 :: u8) (n mod 8) \<longleftrightarrow> n mod 8 = m mod 8" by (auto simp: bit_simps)
  show ?thesis
  proof (cases "n div 8 = m div 8")
    case True
    then have "set_index m d ! (n div 8) = (d ! (n div 8)) OR push_bit (m mod 8) 1" using m by (simp add: set_index_def)
    then show ?thesis using True b eq by (simp only: bit_or_iff simp_thms)
  next
    case False
    then have "set_index m d ! (n div 8) = d ! (n div 8)" by (simp add: set_index_def)
    then show ?thesis using False by auto
  qed
qed

lemma length_set_index [simp]: "length (set_index n d) = length d"
  by (simp add: set_index_def)

lemma has_set_indices:
  "\<forall>m\<in>set ns. h m div 8 < length d \<Longrightarrow> has_index (fold (\<lambda>i. set_index (h i)) ns d) n \<longleftrightarrow> has_index d n \<or> n \<in> h ` set ns"
  by (induction ns arbitrary: d) (auto simp: has_set_index)

lemma length_set_indices [simp]: "length (fold (\<lambda>i. set_index (h i)) ns d) = length d"
  by (induction ns arbitrary: d) simp_all

lemma bloom_Hash_index: "bf_vData f \<noteq> [] \<Longrightarrow> bloom_Hash f i k div 8 < length (bf_vData f)"
  by (simp add: bloom_Hash_def div_less_iff_less_mult)

lemma bloom_Hash_update:
  "length d = length (bf_vData f) \<Longrightarrow> bloom_Hash (f\<lparr>bf_vData := d, isEmpty := e\<rparr>) = bloom_Hash f"
  by (simp add: fun_eq_iff bloom_Hash_def)

section \<open>Properties\<close>

text \<open>C21: A rolling bloom filter made for N elements remembers the last N keys: after any sequence of insertions, none of which fails,
  contains is true of each of the last N keys inserted, however often the generations have been recycled.\<close>

theorem rolling_remembers_last:
  assumes "nElements \<noteq> 0" "nElements \<noteq> - 1" "(nFilterBits + 63) div 64 \<noteq> 0"
  shows "\<exists>f. rolling_inserts ks (CRollingBloomFilter_new nElements hashFuncs nFilterBits tweak) = Some f
    \<and> (\<forall>k\<in>set (drop (length ks - unat nElements) ks). rolling_contains k f = Some True)"
proof -
  obtain f where f: "rolling_inserts ks (CRollingBloomFilter_new nElements hashFuncs nFilterBits tweak) = Some f" "recorded ks f"
    "nEntriesPerGeneration f = nEntriesPerGeneration (CRollingBloomFilter_new nElements hashFuncs nFilterBits tweak)"
    using recorded_inserts [OF recorded_new(1) [OF assms]] by (metis append_Nil)
  have "length ks - 2 * nEntriesPerGeneration f \<le> length ks - unat nElements"
    using recorded_new(2) [OF assms, of hashFuncs tweak] f(3) by simp
  then have "set (drop (length ks - unat nElements) ks) \<subseteq> set (drop (length ks - 2 * nEntriesPerGeneration f) ks)"
    by (rule set_drop_subset_set_drop)
  then show ?thesis using f(1) recorded_contains [OF f(2)] by blast
qed

text \<open>C22: A bloom filter has no false negatives: a key is contained after it has been inserted, and every key contained before is
  still contained. Inserting fails only in a filter without data that uses hash functions and is not marked full.\<close>

theorem bloom_no_false_negatives:
  "(bloom_insert k f = None \<longleftrightarrow> \<not> isFull f \<and> bf_nHashFuncs f > 0 \<and> bf_vData f = [])
   \<and> (\<forall>f'. bloom_insert k f = Some f' \<longrightarrow>
        bloom_contains k f' = Some True \<and> (\<forall>x. bloom_contains x f = Some True \<longrightarrow> bloom_contains x f' = Some True))"
proof (intro conjI allI impI)
  show "bloom_insert k f = None \<longleftrightarrow> \<not> isFull f \<and> bf_nHashFuncs f > 0 \<and> bf_vData f = []" by (auto simp: bloom_insert_def)
next
  fix f'
  assume ins: "bloom_insert k f = Some f'"
  let ?H = "[0..<unat (bf_nHashFuncs f)]"
  let ?d = "fold (\<lambda>i. set_index (bloom_Hash f i k)) ?H (bf_vData f)"
  have idx: "\<forall>m\<in>set ?H. bloom_Hash f m k div 8 < length (bf_vData f)" if "\<not> isFull f"
  proof
    fix m
    assume "m \<in> set ?H"
    then have "0 < bf_nHashFuncs f" by (simp add: word_less_nat_alt)
    then have "bf_vData f \<noteq> []" using ins that by (auto simp: bloom_insert_def)
    then show "bloom_Hash f m k div 8 < length (bf_vData f)" by (rule bloom_Hash_index)
  qed
  note has = has_set_indices [OF idx]
  have f': "f' = f\<lparr>bf_vData := ?d, isEmpty := False\<rparr>" if "\<not> isFull f" using ins that by (auto simp: bloom_insert_def split: if_splits)
  have ok: "\<not> (bf_nHashFuncs f > 0 \<and> ?d = [])" if "\<not> isFull f"
  proof -
    have "?d = [] \<longleftrightarrow> bf_vData f = []" by (metis length_0_conv length_set_indices)
    then show ?thesis using ins that by (auto simp: bloom_insert_def split: if_splits)
  qed
  have c: "bloom_contains x f' = Some (\<forall>i\<in>set ?H. has_index ?d (bloom_Hash f i x))" if "\<not> isFull f" for x
    using that ok [OF that] by (simp add: f' [OF that] bloom_contains_def bloom_Hash_update list_all_iff Let_def)
  show "bloom_contains k f' = Some True"
  proof (cases "isFull f")
    case True
    then show ?thesis using ins by (simp add: bloom_insert_def bloom_contains_def)
  next
    case False
    then show ?thesis using c [OF False] has [OF False] by auto
  qed
  show "bloom_contains x f' = Some True" if "bloom_contains x f = Some True" for x
  proof (cases "isFull f")
    case True
    then show ?thesis using ins by (simp add: bloom_insert_def bloom_contains_def)
  next
    case False
    then have "\<forall>i\<in>set ?H. has_index (bf_vData f) (bloom_Hash f i x)"
      using that by (auto simp: bloom_contains_def list_all_iff Let_def split: if_splits)
    then show ?thesis using c [OF False] has [OF False] by auto
  qed
qed

section \<open>Witnesses\<close>

theorem rolling_remembers_last_witness:
  "\<exists>f. rolling_inserts [[1], [2], [3], [4], [5], [6], [7]] (CRollingBloomFilter_new 2 3 128 9) = Some f
    \<and> rolling_contains [6] f = Some True \<and> rolling_contains [7] f = Some True"
proof -
  have "(2 :: u32) \<noteq> 0" "(2 :: u32) \<noteq> - 1" "(128 + 63) div 64 \<noteq> (0 :: u32)" by simp_all
  from rolling_remembers_last [OF this, of "[[1], [2], [3], [4], [5], [6], [7]]" 3 9] show ?thesis by simp
qed

theorem bloom_no_false_negatives_witness:
  "\<exists>f'. bloom_insert [1] \<lparr>bf_vData = [0, 0], isFull = False, isEmpty = True, bf_nHashFuncs = 3, bf_nTweak = 5, bf_nFlags = 0\<rparr> = Some f'
    \<and> bloom_contains [1] f' = Some True"
  using bloom_no_false_negatives [of "[1]" "\<lparr>bf_vData = [0, 0], isFull = False, isEmpty = True, bf_nHashFuncs = 3, bf_nTweak = 5, bf_nFlags = 0\<rparr>"]
  by (auto simp: not_None_eq)

end
