(* ===== verification/Spec2Isabelle.thy ===== *)
theory Spec2Isabelle
  imports Arith_Compact Hash Sha1 Str_Encodings Uint256 Merkle Chain Script_Number Interpreter_Correct Payment
    Versionbits Tx_Verify Compressor Merkleblock Sigma_Ledger Base58 Pow Policy Bloom
begin

text \<open>
  Verification of the Noir node (\<open>src/src\<close>), a Bitcoin-derived node with proof of stake, noirnodes and
  the Sigma protocol.  The development models the deterministic core that every node must agree on:
  256-bit arithmetic and compact targets, the hash functions, text encodings, Merkle trees, the
  block index with the active chain, the script interpreter, transactions with their wire format,
  the coins views with connecting and disconnecting blocks, the state of the sigma coins, difficulty retargeting,
  addresses, the standard scripts with the relay rules, and bloom filters.

  \<^bold>\<open>Parts and theories.\<close>
  \<^item> \<open>Prelude\<close>: machine-word synonyms and the generic lemmas on words, lists and folds.
  \<^item> \<open>Arith_Uint256\<close>, \<open>Arith_Compact\<close> (\<open>arith_uint256.h/.cpp\<close>): \<open>base_uint<256>\<close> as its eight 32-bit
    limbs with the carry loops of the code, refined to \<open>256 word\<close>; \<open>SetCompact\<close>/\<open>GetCompact\<close>.  The locale
    \<open>uint256_arith\<close> is what the chain code relies on; it is interpreted on the limb operations, and its
    lemma on the work of a block serves \<open>GetBlockProof\<close>.
  \<^item> \<open>Bytes_Common\<close> (\<open>crypto/common.h\<close>), \<open>Md_Stream\<close> (the buffering shared by the hash classes), \<open>Sha2\<close>,
    \<open>Sha2_Correct\<close>, \<open>Ripemd160\<close>, \<open>Sha1\<close> (\<open>crypto/*.cpp\<close>): the unrolled transforms are tables of the calls in
    the source, executed by the code's round functions and proved equal to the standards' round loops;
    the locale \<open>md_hash\<close> (one compression function, one padding) gives the stream invariant once, and each
    class interprets it, so any split of a message into \<open>Write\<close> calls gives the digest of the whole.
  \<^item> \<open>Hash\<close> (\<open>hash.h/.cpp\<close>, \<open>crypto/hmac_*\<close>): double SHA-256, HASH160, HMAC, BIP32, MurmurHash3, SipHash.
  \<^item> \<open>Str_Encodings\<close> (\<open>utilstrencodings\<close>), \<open>Uint256\<close> (\<open>uint256.h/.cpp\<close>): hex, base64, base32 and the blob
    classes, with their round trips.
  \<^item> \<open>Merkle\<close> (\<open>consensus/merkle.cpp\<close>): the constant-space computation over the 32-entry array against the
    tree of the levels; None is running past level 31.  All results are for at most 2^31 leaves: above
    that the 32-bit counter of the sweep wraps.
  \<^item> \<open>Merkleblock\<close> (\<open>merkleblock.h/.cpp\<close>): partial Merkle trees, over the tree of \<open>Merkle\<close>; at most 33333 transactions, the bound
    of \<open>ExtractMatches\<close>.
  \<^item> \<open>Chain\<close> (\<open>chain.h/.cpp\<close>, \<open>AddToBlockIndex\<close> of \<open>main.cpp\<close>): the block index as a map from hash to
    entry, skip list, chain work, best header, \<open>CChain\<close>.  The loops that follow pointers are
    \<open>partial_function (option)\<close>; the theorems show that they return.
  \<^item> \<open>Script\<close>, \<open>Interpreter\<close> (\<open>script/script.h/.cpp\<close>, \<open>script/interpreter.cpp\<close>): the instruction reader,
    script numbers, \<open>EvalScript\<close> with every opcode, \<open>VerifyScript\<close>; \<open>Script_Number\<close> and \<open>Interpreter_Correct\<close>
    hold their lemmas, \<open>Payment\<close> runs \<open>VerifyScript\<close> on pay-to-pubkey-hash spends.
  \<^item> \<open>Versionbits\<close> (\<open>versionbits.h/.cpp\<close>, \<open>ComputeBlockVersion\<close> of \<open>main.cpp\<close>): the deployment state machine with its
    cache, over the block index of \<open>Chain\<close>.
  \<^item> \<open>Serialize\<close> (\<open>serialize.h\<close>, \<open>CDataStream::read\<close>): the stream formats, a reader being a function from bytes to a
    value and the rest, or an error.  The locale \<open>codec\<close> is the contract of a reader and a writer; it is interpreted on
    the integer and byte-vector formats, and vectors of any codec are read back once, inside it.
  \<^item> \<open>Transaction\<close> (\<open>primitives/transaction.h/.cpp\<close>, \<open>amount.h/.cpp\<close>): transactions, both serialised forms, hashes, fees.
  \<^item> \<open>Coins\<close> (\<open>coins.h/.cpp\<close>): the unspent outputs of a transaction and the cache over a parent view, refined to
    the map \<open>utxo\<close> of the live coins.  The locale \<open>coins_parent\<close> is what a cache relies on of its parent; the empty
    base view interprets it, and every cache in its invariant is such a parent again.
  \<^item> \<open>Chainstate\<close> (\<open>main.cpp\<close>, \<open>undo.h\<close>): \<open>UpdateCoins\<close>, \<open>ApplyTxInUndo\<close> and the coins part of \<open>ConnectBlock\<close> and
    \<open>DisconnectBlock\<close>, specified on the map of \<open>Coins\<close>.
  \<^item> \<open>Compressor\<close> (\<open>compressor.h/.cpp\<close>, \<open>CCoins::Serialize\<close>, \<open>undo.h\<close>): the compressed disk formats.
  \<^item> \<open>Tx_Verify\<close> (\<open>main.cpp\<close>): \<open>CheckTransaction\<close>, \<open>CheckTxInputs\<close>, lock times and signature operation counts.
  \<^item> \<open>Sigma_State\<close> (\<open>sigma.h/.cpp\<close>, \<open>sigma/coin.cpp\<close>): denominations and \<open>CSigmaState\<close>, with the mint and serial fields of
    \<open>CBlockIndex\<close> as an extension of the record of \<open>Chain\<close>.  \<open>Sigma_Mints\<close> shows what one block does to the state,
    \<open>Sigma_Ledger\<close> defines the steps of a node (\<open>sigma_reach\<close>) and proves the guarantees along the chain by rule
    induction, through \<open>ledger\<close>, the state that the blocks of a chain determine.
  \<^item> \<open>Base58\<close> (\<open>base58.cpp\<close>): base 58, checksums, addresses and secrets.  The locale \<open>radix\<close> holds the uniqueness of
    digit strings; it is interpreted at the bases 58 and 256.
  \<^item> \<open>Pow\<close> (\<open>pow.cpp\<close>, and the compact form of \<open>CBigNum\<close> in \<open>bignum.h\<close>): the proof-of-work and proof-of-stake retargets and \<open>CheckProofOfWork\<close>, over \<open>Chain\<close> and \<open>Arith_Compact\<close>.
  \<^item> \<open>Standard\<close> (\<open>script/standard.cpp\<close>): \<open>Solver\<close> with its templates, destinations and the scripts that pay them.
    \<open>Policy\<close> (\<open>policy/policy.cpp\<close>): the relay rules for a transaction, its inputs (read through the cache of \<open>Coins\<close>) and its witnesses.
  \<^item> \<open>Bloom\<close> (\<open>bloom.h/.cpp\<close>): the bloom filter of light clients and the rolling filter with its three generations.

  \<^bold>\<open>How the code is represented.\<close>  Structs are records, enumerations datatypes (opcodes and flags stay
  numbers because the code compares them), unsigned integers words of their width, heights and script
  numbers integers.  A failed assert, a null or dangling pointer or an index outside an array is
  None; a script error is Inl.  Objects behind an interface the sources do not define (the hash of
  a header, the signature checker over secp256k1, the parsing of group elements and
  coin spends) are arguments.

  \<^bold>\<open>What the properties show.\<close>  Arithmetic: every limb operator is the word operation (\<open>x *= x\<close> apart, which is zero), division is exact,
  compact encoding is exact.  Hashing: streaming SHA-256 equals hashing at once by a function written from the standard alone, and HMAC is
  that of RFC 2104; further theorems show the same of SHA-512, SHA-1 and RIPEMD-160, that the constants are the prime roots,
  and that compact encoding rounds down and round-trips.  Encodings: round trips.  Merkle: root, mutation flag and branches are those of the tree, and an
  unmutated list is bound by its root up to collisions among the hashed pairs; a partial tree is read back, and a
  received one that declares the block's number of transactions claims only transactions of the block.  Chain: the skip list
  finds what following \<open>pprev\<close> finds, adding a header keeps the index, \<open>SetTip\<close>, \<open>FindFork\<close> and \<open>GetLocator\<close> meet
  their contracts and return.  Scripts: numbers round-trip and have one accepted form, a successful
  evaluation keeps every consensus limit, \<open>OP_CHECKMULTISIG\<close> decides an ordered matching, and
  a pay-to-pubkey-hash spend without witness or encoding flags gets its verdict and error code.  Version bits: the cached state is the one
  defined by periods, a locked-in deployment becomes active.  Wire format: sizes have one accepted encoding,
  variable-length integers and transactions are read back.  Coins: a cache is the map of the live coins, flushing
  moves that map to the parent, and disconnecting a block restores what connecting it changed.  Validation: an
  accepted transaction can be applied, spends no more than its inputs and keeps the coins well formed.  Disk: stored coins are
  read back, up to the sign of a version.  Sigma coins: the live state is the one rebuilt from the block index, no serial is spent twice along
  the chain, connecting and disconnecting blocks of new coins fails no assertion and is exact, the coin set of a group is
  the one the chain minted; a coin minted twice in a block aborts the node when the block is disconnected.  Addresses: base 58
  never aborts and is read back.  Retargets: the proof-of-work one is computed exactly, damped and capped on every network, the proof-of-stake one
  is the moving average as long as its product fits into 256 bits, and it wraps near the limit of the main network.
  Standard scripts: scripts built for destinations and multisig keys are solved back, accepted multisig solutions are
  consistent, and Solver throws on one script only.  Relay: what an accepted transaction guarantees of its version, weight, scripts and
  outputs, and that accepted inputs are bounded.  Bloom filters: no false negatives, and the rolling filter remembers the last N keys.

  \<^bold>\<open>Not modelled.\<close>  The peer-to-peer network, the wallet, the RPC and HTTP servers, the user interface and
  the databases (input and output, threads); secp256k1, leveldb, univalue, tor and libexecstream (separate
  libraries kept in the tree); the zero-knowledge proofs of libzerocoin and sigma (algebra over groups
  of those libraries) and the older zerocoin state; the proof-of-work hash functions of \<open>crypto/\<close> that are vector-instruction code; the
  signature hash behind the signature checker; the memory pool and its fee estimates; the key stores, \<open>IsMine\<close> and signing (wallet side of the standard scripts); block and transaction validation in \<open>main.cpp\<close> beyond the functions
  named above; the stake kernels of \<open>pos.cpp\<close> (they read blocks and transactions from the databases); the noirnode and darksend message handling.
\<close>

end
